(* ===== verification/Prelude.thy ===== *)
theory Prelude
  imports "HOL-Library.Word" "HOL-Library.Multiset"
begin

text \<open>
  What the components share: bytes and fixed-size C buffers, the little-endian representation
  of the integers that the program writes with \<open>memcpy\<close> and \<open>write\<close>, C strings inside
  buffers, the files of the store as byte lists with POSIX \<open>pread\<close> and \<open>pwrite\<close>, and a
  locale for encodings of a fixed width from which every on-disk table of the program
  (container metadata, bins, primary index, recipes, global index) gets its round trip.
\<close>

unbundle bit_operations_syntax

section \<open>Names of the model's basic types\<close>

type_synonym byte = "8 word"

text \<open>\<open>Fingerprint\<close> is 20 bytes, \<open>Chunkaddress\<close> 64 bytes holding a C string.\<close>

type_synonym fingerprint = "byte list"
type_synonym chunkaddress = "byte list"

abbreviation (input) FINGER_LENGTH :: nat where "FINGER_LENGTH \<equiv> 20"
abbreviation (input) CHUNK_ADDRESS_LENGTH :: nat where "CHUNK_ADDRESS_LENGTH \<equiv> 64"
abbreviation (input) FILE_NAME_LEN :: nat where "FILE_NAME_LEN \<equiv> 256"
abbreviation (input) SUCCESS :: int where "SUCCESS \<equiv> 1"
abbreviation (input) FAILURE :: int where "FAILURE \<equiv> 0"
abbreviation (input) ERROR :: int where "ERROR \<equiv> - 100"
abbreviation (input) STREAM_END :: int where "STREAM_END \<equiv> - 6"
abbreviation (input) NEW_FILE :: int where "NEW_FILE \<equiv> 0"
abbreviation (input) DEDUP_FILE :: int where "DEDUP_FILE \<equiv> 1"
abbreviation (input) NEW_CHUNK :: int where "NEW_CHUNK \<equiv> 0"
abbreviation (input) DEDUP_CHUNK :: int where "DEDUP_CHUNK \<equiv> 1"

named_theorems codec_simps "lengths and inverses of the byte encodings"
named_theorems inv_intros "every operation keeps its component's invariant"

section \<open>Lists\<close>

lemma take_append_exact [simp]: "length xs = n \<Longrightarrow> take n (xs @ ys) = xs"
  by simp

lemma drop_append_exact [simp]: "length xs = n \<Longrightarrow> drop n (xs @ ys) = ys"
  by simp

lemma nth_append_exact [simp]: "length xs = n \<Longrightarrow> (xs @ y # ys) ! n = y"
  by (simp add: nth_append)

lemma take_take_drop_app: "take a xs @ take b (drop a xs) = take (a + b) xs"
  by (simp add: take_add)

lemma length_concat_const:
  "(\<And>x. x \<in> set xs \<Longrightarrow> length (f x) = n) \<Longrightarrow> length (concat (map f xs)) = n * length xs"
  by (induction xs) auto

lemma foldl_append_acc: "foldl (\<lambda>a x. a @ f x) a xs = a @ concat (map f xs)"
  by (induction xs arbitrary: a) auto

lemma map_of_distinct_set:
  "distinct (map fst xs) \<Longrightarrow> distinct (map fst ys) \<Longrightarrow> set xs = set ys \<Longrightarrow> map_of xs = map_of ys"
  by (metis map_of_inject_set)

lemma map_of_append_fresh:
  "k \<notin> fst ` set xs \<Longrightarrow> map_of (xs @ ys) k = map_of ys k"
  by (induction xs) auto

lemma map_of_filter_neq:
  "k' \<noteq> k \<Longrightarrow> map_of (filter (\<lambda>kv. fst kv \<noteq> k) xs) k' = map_of xs k'"
  by (induction xs) auto

section \<open>Little-endian integers\<close>

text \<open>
  The program stores an \<open>int32_t\<close> or \<open>int64_t\<close> by copying its bytes (\<open>memcpy(p, &n, 4)\<close>)
  and runs on little-endian machines. \<open>put_int\<close> writes the two's-complement bytes of a value,
  \<open>get_int\<close> reads a signed value back.
\<close>

fun le_bytes :: "nat \<Rightarrow> nat \<Rightarrow> byte list" where
  "le_bytes 0 x = []"
| "le_bytes (Suc n) x = word_of_nat (x mod 256) # le_bytes n (x div 256)"

fun le_val :: "byte list \<Rightarrow> nat" where
  "le_val [] = 0"
| "le_val (b # bs) = unat b + 256 * le_val bs"

lemma length_le_bytes [simp, codec_simps]: "length (le_bytes n x) = n"
  by (induction n arbitrary: x) auto

lemma unat_byte_of_nat: "unat (word_of_nat (x mod 256) :: byte) = x mod 256"
  by (simp add: unat_of_nat)

lemma le_val_le_bytes [codec_simps]: "le_val (le_bytes n x) = x mod 256 ^ n"
proof (induction n arbitrary: x)
  case 0
  then show ?case by simp
next
  case (Suc n)
  have "le_val (le_bytes (Suc n) x) = x mod 256 + 256 * (x div 256 mod 256 ^ n)"
    by (simp add: Suc unat_byte_of_nat)
  also have "\<dots> = x mod (256 * 256 ^ n)"
    by (simp add: mod_mult2_eq)
  finally show ?case by simp
qed

lemma unat_less_256: "unat (b :: byte) < 256"
  using unsigned_less [of b] by simp

lemma le_val_bound: "le_val bs < 256 ^ length bs"
proof (induction bs)
  case Nil
  then show ?case by simp
next
  case (Cons b bs)
  have "unat b < 256" using unat_less_256 [of b] by simp
  with Cons have "unat b + 256 * le_val bs < 256 * 256 ^ length bs" by simp
  then show ?case by simp
qed

definition put_int :: "nat \<Rightarrow> int \<Rightarrow> byte list" where
  "put_int n i = le_bytes n (nat (i mod 256 ^ n))"

definition get_int :: "nat \<Rightarrow> byte list \<Rightarrow> int" where
  "get_int n bs = (let v = int (le_val (take n bs))
                   in if 2 * v < 256 ^ n then v else v - 256 ^ n)"

definition fits :: "nat \<Rightarrow> int \<Rightarrow> bool" where
  "fits n i \<longleftrightarrow> - (256 ^ n) \<le> 2 * i \<and> 2 * i < 256 ^ n"

lemma length_put_int [simp, codec_simps]: "length (put_int n i) = n"
  by (simp add: put_int_def)

lemma le_val_put_int: "int (le_val (put_int n i)) = i mod 256 ^ n"
proof -
  have "0 \<le> i mod 256 ^ n" "i mod 256 ^ n < 256 ^ n" by auto
  then have "nat (i mod 256 ^ n) < 256 ^ n"
    by (simp add: nat_less_iff)
  then show ?thesis
    by (simp add: put_int_def le_val_le_bytes)
qed

lemma get_put_int [simp, codec_simps]:
  assumes "fits n i"
  shows "get_int n (put_int n i @ r) = i"
proof (cases "0 \<le> i")
  case True
  with assms have "i mod 256 ^ n = i" by (simp add: fits_def)
  with True assms show ?thesis
    by (simp add: get_int_def le_val_put_int fits_def Let_def)
next
  case False
  have "i mod 256 ^ n = i + 256 ^ n"
  proof -
    have "(i + 256 ^ n) mod 256 ^ n = i + 256 ^ n"
      using False assms by (intro mod_pos_pos_trivial) (auto simp: fits_def)
    then show ?thesis by simp
  qed
  with False assms show ?thesis
    by (simp add: get_int_def le_val_put_int fits_def Let_def)
qed

lemma get_put_int_exact [simp]: "fits n i \<Longrightarrow> get_int n (put_int n i) = i"
  using get_put_int [of n i "[]"] by simp

lemma fits_get_int: "n \<le> length bs \<Longrightarrow> fits n (get_int n bs)"
proof -
  assume "n \<le> length bs"
  then have "le_val (take n bs) < 256 ^ n"
    using le_val_bound [of "take n bs"] by (simp add: min_absorb2)
  then have v: "int (le_val (take n bs)) < 256 ^ n"
    by (metis of_nat_less_iff of_nat_numeral of_nat_power)
  have "0 \<le> w \<Longrightarrow> w < p \<Longrightarrow> - p \<le> 2 * (if 2 * w < p then w else w - p)
      \<and> 2 * (if 2 * w < p then w else w - p) < p" for w p :: int
    by auto
  from this [OF _ v] show ?thesis
    unfolding fits_def get_int_def Let_def by simp
qed

lemma fits_4 [simp]: "fits 4 i \<longleftrightarrow> - 2147483648 \<le> i \<and> i < 2147483648"
  by (auto simp: fits_def)

lemma fits_8 [simp]:
  "fits 8 i \<longleftrightarrow> - 9223372036854775808 \<le> i \<and> i < 9223372036854775808"
  by (auto simp: fits_def)

section \<open>C strings and fixed buffers\<close>

text \<open>
  A \<open>char\<close> array is the list of its bytes; the C string in it is what precedes the first NUL.
  \<open>memcpy_at\<close> overwrites part of a buffer, \<open>strcpy_to\<close> copies a string and its NUL and leaves
  the rest of the destination alone, \<open>memset0\<close> is \<open>memset(p, 0, n)\<close>.
\<close>

definition asc :: "string \<Rightarrow> byte list" where
  "asc s = map (\<lambda>c. word_of_nat (of_char c)) s"

definition cstr :: "byte list \<Rightarrow> byte list" where
  "cstr b = takeWhile (\<lambda>x. x \<noteq> 0) b"

definition memset0 :: "nat \<Rightarrow> byte list" where
  "memset0 n = replicate n 0"

definition memcpy_at :: "byte list \<Rightarrow> nat \<Rightarrow> byte list \<Rightarrow> byte list" where
  "memcpy_at dst off src = take off dst @ src @ drop (off + length src) dst"

definition strcpy_to :: "byte list \<Rightarrow> byte list \<Rightarrow> byte list" where
  "strcpy_to dst src = memcpy_at dst 0 (cstr src @ [0])"

definition strcmp_eq :: "byte list \<Rightarrow> byte list \<Rightarrow> bool" where
  "strcmp_eq a b \<longleftrightarrow> cstr a = cstr b"

definition strcat_to :: "byte list \<Rightarrow> byte list \<Rightarrow> byte list" where
  "strcat_to dst src = memcpy_at dst (length (cstr dst)) (cstr src @ [0])"

text \<open>A name is a C string padded with NULs to the size of its buffer.\<close>

definition name_buf :: "nat \<Rightarrow> byte list \<Rightarrow> byte list" where
  "name_buf n s = s @ replicate (n - length s) 0"

lemma length_memset0 [simp]: "length (memset0 n) = n"
  by (simp add: memset0_def)

lemma length_memcpy_at [simp]:
  "off + length src \<le> length dst \<Longrightarrow> length (memcpy_at dst off src) = length dst"
  by (simp add: memcpy_at_def)

lemma cstr_append_zero [simp]: "0 \<notin> set s \<Longrightarrow> cstr (s @ 0 # r) = s"
  unfolding cstr_def by (subst takeWhile_append2) auto

lemma zero_not_in_cstr [simp]: "0 \<notin> set (cstr s)"
  by (auto simp: cstr_def dest: set_takeWhileD)

lemma cstr_id [simp]: "0 \<notin> set s \<Longrightarrow> cstr s = s"
  by (auto simp: cstr_def takeWhile_eq_all_conv)

lemma cstr_replicate0 [simp]: "cstr (replicate n 0) = []"
  by (induction n) (auto simp: cstr_def)

lemma cstr_name_buf [simp]:
  assumes "0 \<notin> set s"
  shows "cstr (name_buf n s) = s"
proof (cases "n - length s")
  case 0
  with assms show ?thesis by (simp add: name_buf_def)
next
  case (Suc m)
  with assms show ?thesis by (simp add: name_buf_def)
qed

lemma length_name_buf [simp]: "length s \<le> n \<Longrightarrow> length (name_buf n s) = n"
  by (simp add: name_buf_def)

lemma length_strcpy_to [simp]: "length (cstr a) < length x \<Longrightarrow> length (strcpy_to x a) = length x"
  by (simp add: strcpy_to_def)

lemma cstr_strcpy_to [simp]: "cstr (strcpy_to x a) = cstr a"
proof -
  have "cstr (cstr a @ 0 # r) = cstr a" for r by (rule cstr_append_zero) simp
  then show ?thesis by (simp add: strcpy_to_def memcpy_at_def)
qed

lemma strcpy_to_zeroed:
  assumes "0 \<notin> set s" "length s < n"
  shows "strcpy_to (memset0 n) (name_buf m s) = name_buf n s"
proof -
  have "Suc (n - Suc (length s)) = n - length s" using assms by simp
  then have "0 # replicate (n - Suc (length s)) 0 = replicate (n - length s) (0 :: byte)"
    by (metis replicate_Suc)
  with assms show ?thesis
    by (simp add: strcpy_to_def memcpy_at_def memset0_def) (simp add: name_buf_def)
qed

section \<open>Numbers in names\<close>

text \<open>\<open>%d\<close> of a number that is not negative, and \<open>%011o\<close> of a 32-bit value (which never needs more
  than eleven octal digits).\<close>

fun dec_digits :: "nat \<Rightarrow> byte list" where
  "dec_digits n = (if n < 10 then [] else dec_digits (n div 10)) @ [word_of_nat (48 + n mod 10)]"

declare dec_digits.simps [simp del]

fun oct_digits :: "nat \<Rightarrow> nat \<Rightarrow> byte list" where
  "oct_digits 0 n = []"
| "oct_digits (Suc k) n = oct_digits k (n div 8) @ [word_of_nat (48 + n mod 8)]"

definition dec_value :: "byte list \<Rightarrow> nat" where
  "dec_value ds = foldl (\<lambda>a d. 10 * a + (unat d - 48)) 0 ds"

lemma unat_digit: "d < 208 \<Longrightarrow> unat (word_of_nat (48 + d) :: byte) = 48 + d"
  using unat_of_nat [where 'a = 8, of "48 + d"] by simp

lemma dec_value_digits [simp]: "dec_value (dec_digits n) = n"
proof (induction n rule: dec_digits.induct)
  case (1 n)
  have "unat (word_of_nat (48 + n mod 10) :: byte) = 48 + n mod 10"
    by (rule unat_digit) simp
  with 1 show ?case
    by (subst dec_digits.simps) (auto simp: dec_value_def)
qed

lemma dec_digits_inject: "dec_digits m = dec_digits n \<Longrightarrow> m = n"
  by (metis dec_value_digits)

lemma dec_digits_nonzero: "0 \<notin> set (dec_digits n)"
proof (induction n rule: dec_digits.induct)
  case (1 n)
  have "unat (word_of_nat (48 + n mod 10) :: byte) = 48 + n mod 10"
    by (rule unat_digit) simp
  then have "(word_of_nat (48 + n mod 10) :: byte) \<noteq> 0" by (metis add_is_0 unat_0 zero_neq_numeral)
  with 1 show ?case by (subst dec_digits.simps) auto
qed

lemma length_dec_digits: "n < 10 ^ k \<Longrightarrow> 0 < k \<Longrightarrow> length (dec_digits n) \<le> k"
proof (induction k arbitrary: n)
  case 0
  then show ?case by simp
next
  case (Suc k)
  show ?case
  proof (cases "n < 10")
    case True
    then show ?thesis by (subst dec_digits.simps) simp
  next
    case False
    with Suc.prems have "n div 10 < 10 ^ k" "0 < k"
      by (auto simp: less_mult_imp_div_less) (cases k, auto)
    with Suc.IH False show ?thesis by (subst dec_digits.simps) simp
  qed
qed

lemma length_oct_digits [simp]: "length (oct_digits k n) = k"
  by (induction k arbitrary: n) auto

lemma oct_digits_nonzero: "0 \<notin> set (oct_digits k n)"
proof (induction k arbitrary: n)
  case (Suc k)
  have "unat (word_of_nat (48 + n mod 8) :: byte) = 48 + n mod 8"
    by (rule unat_digit) (simp add: less_trans [of _ 8])
  then have "(word_of_nat (48 + n mod 8) :: byte) \<noteq> 0" by (metis add_is_0 unat_0 zero_neq_numeral)
  with Suc show ?case by auto
qed simp

section \<open>Files\<close>

text \<open>
  The directory of the store: a path to the bytes of the file. \<open>pwrite\<close> writes at an offset and
  fills a gap past the end with zeros, \<open>pread\<close> returns what is there, as \<open>lseek\<close> followed by
  \<open>write\<close> and \<open>read\<close> of a regular file do.
\<close>

type_synonym fs = "byte list \<Rightarrow> byte list option"

text \<open>A disk is its files and the paths that \<open>open\<close> for writing refuses.\<close>

record disk =
  files :: fs
  denied :: "byte list \<Rightarrow> bool"

definition empty_disk :: disk where "empty_disk = \<lparr>files = \<lambda>_. None, denied = \<lambda>_. False\<rparr>"

definition pwrite :: "byte list \<Rightarrow> nat \<Rightarrow> byte list \<Rightarrow> byte list" where
  "pwrite f off d = take off (f @ replicate (off - length f) 0) @ d @ drop (off + length d) f"

definition disk_pwrite :: "disk \<Rightarrow> byte list \<Rightarrow> nat \<Rightarrow> byte list \<Rightarrow> disk" where
  "disk_pwrite dk path off d =
     dk\<lparr>files := (files dk)(path \<mapsto> pwrite (case files dk path of None \<Rightarrow> [] | Some f \<Rightarrow> f) off d)\<rparr>"

definition pread :: "byte list \<Rightarrow> nat \<Rightarrow> nat \<Rightarrow> byte list" where
  "pread f off n = take n (drop off f)"

lemma length_pwrite [simp]: "length (pwrite f off d) = max (length f) (off + length d)"
  by (auto simp: pwrite_def max_def)

lemma pread_pwrite_same: "pread (pwrite f off d) off (length d) = d"
proof -
  have "length (take off (f @ replicate (off - length f) 0)) = off" by simp
  then show ?thesis by (simp add: pwrite_def pread_def)
qed

lemma pread_pwrite_same' [simp]: "n = length d \<Longrightarrow> pread (pwrite f off d) off n = d"
  by (simp add: pread_pwrite_same)

lemma nth_pwrite_other:
  assumes "i < length f" "i < off \<or> off + length d \<le> i"
  shows "pwrite f off d ! i = f ! i"
  using assms by (auto simp: pwrite_def nth_append min_def)

lemma pread_pwrite_before:
  assumes "a + n \<le> off" "a + n \<le> length f"
  shows "pread (pwrite f off d) a n = pread f a n"
proof (rule nth_equalityI)
  show "length (pread (pwrite f off d) a n) = length (pread f a n)"
    using assms by (simp add: pread_def)
next
  fix i assume "i < length (pread (pwrite f off d) a n)"
  then have "i < n" by (simp add: pread_def)
  with assms show "pread (pwrite f off d) a n ! i = pread f a n ! i"
    by (simp add: pread_def nth_pwrite_other)
qed

lemma pread_pwrite_after:
  assumes "off + length d \<le> a" "a + n \<le> length f"
  shows "pread (pwrite f off d) a n = pread f a n"
proof (rule nth_equalityI)
  show "length (pread (pwrite f off d) a n) = length (pread f a n)"
    using assms by (simp add: pread_def)
next
  fix i assume "i < length (pread (pwrite f off d) a n)"
  then have "i < n" by (simp add: pread_def)
  with assms show "pread (pwrite f off d) a n ! i = pread f a n ! i"
    by (simp add: pread_def nth_pwrite_other)
qed

text \<open>\<open>read(fd, &v, n)\<close> of a file that may be too short overwrites the first bytes of \<open>v\<close> only.\<close>

definition read_int :: "nat \<Rightarrow> int \<Rightarrow> byte list \<Rightarrow> int" where
  "read_int n v bs = get_int n (take n bs @ drop (length (take n bs)) (put_int n v))"

definition file_bytes :: "disk \<Rightarrow> byte list \<Rightarrow> byte list" where
  "file_bytes dk path = (case files dk path of None \<Rightarrow> [] | Some f \<Rightarrow> f)"

text \<open>\<open>open(path, O_CREAT | O_RDWR)\<close> makes an empty file where there is none.\<close>

definition open_creat :: "disk \<Rightarrow> byte list \<Rightarrow> disk option" where
  "open_creat dk path =
     (if denied dk path then None else Some (dk\<lparr>files := (files dk)(path \<mapsto> file_bytes dk path)\<rparr>))"

lemma open_creat_exists:
  "\<not> denied dk p \<Longrightarrow> files dk p = Some f \<Longrightarrow> open_creat dk p = Some dk"
proof -
  assume a: "\<not> denied dk p" "files dk p = Some f"
  then have "(files dk)(p \<mapsto> f) = files dk" by (metis fun_upd_triv)
  with a show ?thesis by (simp add: open_creat_def file_bytes_def)
qed

lemma read_int_full: "n \<le> length bs \<Longrightarrow> read_int n v bs = get_int n bs"
  by (simp add: read_int_def get_int_def)

section \<open>Records of a fixed width\<close>

text \<open>
  \<open>dec_many dec n k bs\<close> decodes \<open>k\<close> consecutive records of width \<open>n\<close>, as the loading loops of
  the program do (\<open>for (i = 0; i < k; i++) \{ memcpy(..., p, ...); p += n; ... \}\<close>).
\<close>

fun dec_many :: "(byte list \<Rightarrow> 'a) \<Rightarrow> nat \<Rightarrow> nat \<Rightarrow> byte list \<Rightarrow> 'a list" where
  "dec_many dec n 0 bs = []"
| "dec_many dec n (Suc k) bs = dec bs # dec_many dec n k (drop n bs)"

lemma length_dec_many [simp]: "length (dec_many dec n k bs) = k"
  by (induction k arbitrary: bs) auto

locale fixed_codec =
  fixes enc :: "'a \<Rightarrow> byte list"
    and dec :: "byte list \<Rightarrow> 'a"
    and width :: nat
    and ok :: "'a \<Rightarrow> bool"
  assumes enc_width: "ok x \<Longrightarrow> length (enc x) = width"
    and dec_enc: "ok x \<Longrightarrow> dec (enc x @ r) = x"
begin

lemma enc_many_length: "\<forall>x\<in>set xs. ok x \<Longrightarrow> length (concat (map enc xs)) = width * length xs"
  by (rule length_concat_const) (simp add: enc_width)

lemma dec_enc_many:
  "\<forall>x\<in>set xs. ok x \<Longrightarrow> dec_many dec width (length xs) (concat (map enc xs) @ r) = xs"
  by (induction xs) (auto simp: enc_width dec_enc)

lemma enc_inj: "ok x \<Longrightarrow> ok y \<Longrightarrow> enc x = enc y \<Longrightarrow> x = y"
  using dec_enc [of x "[]"] dec_enc [of y "[]"] by simp

end

end
