(* ===== verification/Dict.thy ===== *)
theory Dict
  imports Prelude
begin

text \<open>
  The interface through which the program uses its two hash tables. Both tables push a new item
  at the head of a chain and never look for an old one with the same key, so an insertion is a
  map update only for a key that is not there, and every caller looks the key up first. The
  items are walked with \<open>first\<close> and \<open>next\<close>; a table is written to disk in that order and read
  back by inserting one item after the other. The lemmas of the locale are what the components
  that keep such tables need: what a loaded table answers, and that it answers what the saved
  one did.
\<close>

locale dict =
  fixes inv :: "'t \<Rightarrow> bool"
    and valid :: "byte list \<Rightarrow> bool"
    and lookup :: "'t \<Rightarrow> byte list \<Rightarrow> 'v option"
    and insert :: "byte list \<Rightarrow> 'v \<Rightarrow> 't \<Rightarrow> 't"
    and items :: "'t \<Rightarrow> (byte list \<times> 'v) list"
    and size :: "'t \<Rightarrow> nat"
  assumes inv_insert: "inv t \<Longrightarrow> valid k \<Longrightarrow> inv (insert k v t)"
    and lookup_items: "inv t \<Longrightarrow> valid k \<Longrightarrow> distinct (map fst (items t)) \<Longrightarrow>
      lookup t k = map_of (items t) k"
    and lookup_None: "inv t \<Longrightarrow> valid k \<Longrightarrow> (lookup t k = None) = (k \<notin> fst ` set (items t))"
    and items_insert: "inv t \<Longrightarrow> valid k \<Longrightarrow> lookup t k = None \<Longrightarrow>
      mset (items (insert k v t)) = mset ((k, v) # items t)"
    and items_valid: "inv t \<Longrightarrow> kv \<in> set (items t) \<Longrightarrow> valid (fst kv)"
    and size_items: "inv t \<Longrightarrow> size t = length (items t)"
begin

text \<open>A table is clean when no key occurs twice.\<close>

definition clean :: "'t \<Rightarrow> bool" where
  "clean t \<longleftrightarrow> inv t \<and> distinct (map fst (items t))"

lemma clean_insert:
  assumes "clean t" "valid k" "lookup t k = None"
  shows "clean (insert k v t)"
proof -
  have m: "mset (items (insert k v t)) = mset ((k, v) # items t)"
    using assms by (simp add: clean_def items_insert)
  then have "mset (map fst (items (insert k v t))) = mset (map fst ((k, v) # items t))"
    by (metis mset_map)
  moreover have "distinct (map fst ((k, v) # items t))"
    using assms by (auto simp: clean_def lookup_None)
  ultimately have "distinct (map fst (items (insert k v t)))"
    by (metis mset_eq_imp_distinct_iff)
  with assms show ?thesis by (simp add: clean_def inv_insert)
qed

lemma lookup_insert:
  assumes "clean t" "valid k" "lookup t k = None" "valid k'"
  shows "lookup (insert k v t) k' = (if k' = k then Some v else lookup t k')"
proof -
  have m: "mset (items (insert k v t)) = mset ((k, v) # items t)"
    using assms by (simp add: clean_def items_insert)
  have d: "distinct (map fst ((k, v) # items t))"
    using assms by (auto simp: clean_def lookup_None)
  have c: "clean (insert k v t)" using assms by (simp add: clean_insert)
  then have "lookup (insert k v t) k' = map_of (items (insert k v t)) k'"
    using assms by (simp add: clean_def lookup_items)
  also have "\<dots> = map_of ((k, v) # items t) k'"
    using m d c map_of_distinct_set [of "items (insert k v t)" "(k, v) # items t"]
    by (metis clean_def mset_eq_setD)
  finally show ?thesis using assms by (auto simp: clean_def lookup_items)
qed

lemma size_insert:
  assumes "inv t" "valid k" "lookup t k = None"
  shows "size (insert k v t) = Suc (size t)"
proof -
  have "length (items (insert k v t)) = length ((k, v) # items t)"
    using assms by (metis items_insert size_mset)
  with assms show ?thesis by (simp add: size_items inv_insert)
qed

text \<open>The loading loop: insert every entry of a list.\<close>

lemma load_clean:
  assumes "clean t" "distinct (map fst xs)" "\<forall>kv\<in>set xs. valid (fst kv) \<and> lookup t (fst kv) = None"
  shows "clean (foldl (\<lambda>t (k, v). insert k v t) t xs)
    \<and> (\<forall>k. valid k \<longrightarrow> lookup (foldl (\<lambda>t (k, v). insert k v t) t xs) k
         = (case map_of xs k of None \<Rightarrow> lookup t k | Some v \<Rightarrow> Some v))"
  using assms
proof (induction xs arbitrary: t)
  case Nil
  then show ?case by simp
next
  case (Cons x xs)
  obtain k v where x: "x = (k, v)" by (cases x)
  let ?t = "insert k v t"
  have ct: "clean ?t" using Cons.prems x by (simp add: clean_insert)
  have lt: "valid k' \<Longrightarrow> lookup ?t k' = (if k' = k then Some v else lookup t k')" for k'
    using Cons.prems x by (simp add: lookup_insert)
  have "\<forall>kv\<in>set xs. valid (fst kv) \<and> lookup ?t (fst kv) = None"
    using Cons.prems x lt by (auto simp: image_iff)
  with Cons.IH [of ?t] ct Cons.prems(2) x
  have IH: "clean (foldl (\<lambda>t (k, v). insert k v t) ?t xs)"
    "valid k' \<Longrightarrow> lookup (foldl (\<lambda>t (k, v). insert k v t) ?t xs) k'
         = (case map_of xs k' of None \<Rightarrow> lookup ?t k' | Some v \<Rightarrow> Some v)" for k'
    by auto
  have "map_of xs k = None"
    using Cons.prems(2) x by (simp add: map_of_eq_None_iff)
  with IH lt x show ?case by (auto split: option.splits)
qed

text \<open>Saving the items of a clean table and loading them into an empty one changes no answer.\<close>

lemma reload_lookup:
  assumes "clean t" "clean e" "items e = []" "valid k"
  shows "lookup (foldl (\<lambda>t (k, v). insert k v t) e (items t)) k = lookup t k"
proof -
  have e: "valid k' \<Longrightarrow> lookup e k' = None" for k'
    using assms by (simp add: clean_def lookup_None)
  have "\<forall>kv\<in>set (items t). valid (fst kv) \<and> lookup e (fst kv) = None"
    using assms(1) e items_valid unfolding clean_def by blast
  with load_clean [of e "items t"] assms e [OF assms(4)]
  have "lookup (foldl (\<lambda>t (k, v). insert k v t) e (items t)) k
    = (case map_of (items t) k of None \<Rightarrow> None | Some v \<Rightarrow> Some v)"
    by (simp add: clean_def split: option.split)
  also have "\<dots> = lookup t k"
    using assms by (simp add: clean_def lookup_items split: option.split)
  finally show ?thesis .
qed

end

text \<open>A table whose items can also be removed, as the client's table can.\<close>

locale dict_remove = dict inv valid lookup insert items size
  for inv :: "'t \<Rightarrow> bool" and valid lookup insert
    and items :: "'t \<Rightarrow> (byte list \<times> 'v) list" and size +
  fixes remove :: "byte list \<Rightarrow> 't \<Rightarrow> 't"
  assumes inv_remove: "inv t \<Longrightarrow> valid k \<Longrightarrow> inv (remove k t)"
    and items_remove: "inv t \<Longrightarrow> valid k \<Longrightarrow> distinct (map fst (items t)) \<Longrightarrow>
      items (remove k t) = filter (\<lambda>kv. fst kv \<noteq> k) (items t)"
begin

lemma clean_remove: "clean t \<Longrightarrow> valid k \<Longrightarrow> clean (remove k t)"
  by (simp add: clean_def inv_remove items_remove distinct_map_filter)

lemma lookup_remove:
  assumes "clean t" "valid k" "valid k'"
  shows "lookup (remove k t) k' = (if k' = k then None else lookup t k')"
proof (cases "k' = k")
  case True
  have c: "clean (remove k t)" using assms by (simp add: clean_remove)
  have "k \<notin> fst ` set (items (remove k t))"
    using assms by (auto simp: clean_def items_remove)
  with c True assms show ?thesis by (simp add: clean_def lookup_None)
next
  case False
  have c: "clean (remove k t)" using assms by (simp add: clean_remove)
  then have "lookup (remove k t) k' = map_of (filter (\<lambda>kv. fst kv \<noteq> k) (items t)) k'"
    using assms by (simp add: clean_def lookup_items items_remove)
  also have "\<dots> = map_of (items t) k'"
    using False by (rule map_of_filter_neq)
  finally show ?thesis using False assms by (simp add: clean_def lookup_items)
qed

end

end
