(* ===== verification/Htable.thy ===== *)
theory Htable
  imports Dict
begin

text \<open>
  The client's chained hash table (client/lib/htable.c, htable.h). A chain is the list of its
  items, an item is its key and its value: the C items carry an embedded \<open>hlink\<close> whose \<open>key\<close>
  points into the item and is never written after the insertion. The 64-bit hash wraps as in C.
  The counters of items and buckets are \<open>nat\<close>: they count objects in memory and stay far below
  \<open>2 ^ 32\<close>. The walk pointer is the rest of the chain it points into.
\<close>

unbundle bit_operations_syntax

type_synonym 'v chain = "(byte list \<times> 'v) list"

record 'v htable =
  table :: "'v chain list"
  hashlength :: nat
  num_items :: nat
  max_items :: nat
  buckets :: nat
  hmask :: "32 word"
  rshift :: "32 word"
  walkptr :: "'v chain"
  walk_index :: nat

section \<open>Hashing\<close>

text \<open>
  \<open>key[i]<'9' ? key[i]-'0' : 10+key[i]-'A'\<close> is an \<open>int\<close> (it is negative for bytes below
  \<open>'0'\<close>) that is added to the \<open>uint64_t\<close> hash.
\<close>

definition hex_digit :: "byte \<Rightarrow> 64 word" where
  "hex_digit b = (if uint b < 57 then word_of_int (uint b - 48)
                  else word_of_int (10 + uint b - 65))"

fun hash_loop :: "byte list \<Rightarrow> nat \<Rightarrow> 64 word \<Rightarrow> nat \<Rightarrow> 64 word" where
  "hash_loop key bkts h 0 = h"
| "hash_loop key bkts h (Suc i) =
     (if unat h < bkts
      then hash_loop key bkts (h + (h * 16 + hex_digit (key ! Suc i))) i
      else h)"

definition hash_index :: "'v htable \<Rightarrow> byte list \<Rightarrow> nat" where
  "hash_index t key =
     unat (hash_loop key (buckets t) 0 (hashlength t - 1) AND ucast (hmask t))"

section \<open>Creation\<close>

text \<open>
  \<open>tsize >>= 2; for (pwr = 0; tsize; pwr++) tsize >>= 1;\<close> The shift of a negative \<open>int\<close> keeps
  its sign, so for a negative size the loop never ends: the result is then \<open>None\<close>.
\<close>

partial_function (option) pwr_loop :: "int \<Rightarrow> nat \<Rightarrow> nat option" where
  "pwr_loop tsize pwr = (if tsize \<noteq> 0 then pwr_loop (tsize div 2) (Suc pwr) else Some pwr)"

definition htable_of_pwr :: "nat \<Rightarrow> nat \<Rightarrow> 'v htable" where
  "htable_of_pwr nhlen pwr = \<lparr>
     table = replicate (2 ^ pwr) [],
     hashlength = nhlen,
     num_items = 0,
     max_items = 2 ^ pwr * 4,
     buckets = 2 ^ pwr,
     hmask = NOT (push_bit pwr (NOT 0)),
     rshift = 30 - word_of_nat pwr,
     walkptr = [],
     walk_index = 0\<rparr>"

definition htable_init :: "nat \<Rightarrow> int \<Rightarrow> 'v htable option" where
  "htable_init nhlen tsize = map_option (htable_of_pwr nhlen) (pwr_loop (tsize div 4) 0)"

section \<open>Walking\<close>

text \<open>\<open>while (!walkptr && walk_index < buckets) walkptr = table[walk_index++];\<close>\<close>

function walk_skip :: "'v htable \<Rightarrow> 'v htable" where
  "walk_skip t =
     (if walkptr t = [] \<and> walk_index t < buckets t
      then walk_skip (t\<lparr>walkptr := table t ! walk_index t, walk_index := Suc (walk_index t)\<rparr>)
      else t)"
  by pat_completeness auto
termination
  by (relation "measure (\<lambda>t. buckets t - walk_index t)") auto

declare walk_skip.simps [simp del]

definition walk_item :: "'v htable \<Rightarrow> (byte list \<times> 'v) option" where
  "walk_item t = (case walkptr t of [] \<Rightarrow> None | kv # _ \<Rightarrow> Some kv)"

definition htable_first :: "'v htable \<Rightarrow> 'v htable \<times> (byte list \<times> 'v) option" where
  "htable_first t =
     (let t' = walk_skip (t\<lparr>walkptr := table t ! 0, walk_index := 1\<rparr>) in (t', walk_item t'))"

definition htable_next :: "'v htable \<Rightarrow> 'v htable \<times> (byte list \<times> 'v) option" where
  "htable_next t =
     (let t' = walk_skip (t\<lparr>walkptr := tl (walkptr t)\<rparr>) in (t', walk_item t'))"

text \<open>
  The loop \<open>for (x = first(); x; x = next())\<close>, with fuel for the calls of \<open>next\<close>: it returns
  the items in the order in which the loop meets them.
\<close>

fun walk_from :: "nat \<Rightarrow> 'v htable \<times> (byte list \<times> 'v) option \<Rightarrow> (byte list \<times> 'v) list option" where
  "walk_from 0 s = None"
| "walk_from (Suc n) (t, None) = Some []"
| "walk_from (Suc n) (t, Some kv) = map_option (Cons kv) (walk_from n (htable_next t))"

definition htable_items :: "'v htable \<Rightarrow> (byte list \<times> 'v) list" where
  "htable_items t = concat (table t)"

section \<open>Operations\<close>

definition htable_size :: "'v htable \<Rightarrow> nat" where
  "htable_size t = num_items t"

text \<open>The part of \<open>insert\<close> before the test \<open>++num_items >= max_items\<close>.\<close>

definition htable_link :: "byte list \<Rightarrow> 'v \<Rightarrow> 'v htable \<Rightarrow> 'v htable" where
  "htable_link key v t =
     (let i = hash_index t key
      in t\<lparr>table := (table t)[i := (key, v) # table t ! i], num_items := Suc (num_items t)\<rparr>)"

text \<open>
  \<open>grow_table\<close> walks the old chains in order and inserts every item into a table of twice the
  size. Its calls of \<open>insert\<close> cannot grow the new table again: lemma \<open>grow_never_nests\<close> below.
\<close>

definition big_table :: "'v htable \<Rightarrow> 'v htable" where
  "big_table t = \<lparr>
     table = replicate (buckets t * 2) [],
     hashlength = hashlength t,
     num_items = 0,
     max_items = buckets t * 2 * 4,
     buckets = buckets t * 2,
     hmask = push_bit 1 (hmask t) OR 1,
     rshift = rshift t - 1,
     walkptr = [],
     walk_index = 0\<rparr>"

definition grow_table :: "'v htable \<Rightarrow> 'v htable" where
  "grow_table t = foldl (\<lambda>big (k, v). htable_link k v big) (big_table t) (htable_items t)"

definition htable_insert :: "byte list \<Rightarrow> 'v \<Rightarrow> 'v htable \<Rightarrow> 'v htable" where
  "htable_insert key v t =
     (let t' = htable_link key v t
      in if num_items t' \<ge> max_items t' then grow_table t' else t')"

text \<open>\<open>memcmp(key, hp->key, hashlength) == 0\<close>\<close>

definition key_eq :: "nat \<Rightarrow> byte list \<Rightarrow> byte list \<Rightarrow> bool" where
  "key_eq n a b \<longleftrightarrow> take n a = take n b"

fun chain_find :: "nat \<Rightarrow> byte list \<Rightarrow> 'v chain \<Rightarrow> 'v option" where
  "chain_find n key [] = None"
| "chain_find n key ((k, v) # c) = (if key_eq n key k then Some v else chain_find n key c)"

definition htable_lookup :: "'v htable \<Rightarrow> byte list \<Rightarrow> 'v option" where
  "htable_lookup t key = chain_find (hashlength t) key (table t ! hash_index t key)"

fun chain_remove :: "nat \<Rightarrow> byte list \<Rightarrow> 'v chain \<Rightarrow> 'v chain" where
  "chain_remove n key [] = []"
| "chain_remove n key ((k, v) # c) =
     (if key_eq n key k then c else (k, v) # chain_remove n key c)"

definition htable_remove :: "byte list \<Rightarrow> 'v htable \<Rightarrow> 'v htable \<times> 'v option" where
  "htable_remove key t =
     (let i = hash_index t key in
      case htable_lookup t key of
        None \<Rightarrow> (t, None)
      | Some v \<Rightarrow> (t\<lparr>table := (table t)[i := chain_remove (hashlength t) key (table t ! i)],
                     num_items := num_items t - 1\<rparr>, Some v))"

text \<open>
  Callers write through the pointer that \<open>lookup\<close> returns (\<open>segment->length += n\<close>): the first
  matching item of the chain is replaced by its new value.
\<close>

fun chain_update :: "nat \<Rightarrow> byte list \<Rightarrow> ('v \<Rightarrow> 'v) \<Rightarrow> 'v chain \<Rightarrow> 'v chain" where
  "chain_update n key f [] = []"
| "chain_update n key f ((k, v) # c) =
     (if key_eq n key k then (k, f v) # c else (k, v) # chain_update n key f c)"

definition htable_update :: "byte list \<Rightarrow> ('v \<Rightarrow> 'v) \<Rightarrow> 'v htable \<Rightarrow> 'v htable" where
  "htable_update key f t =
     (let i = hash_index t key
      in t\<lparr>table := (table t)[i := chain_update (hashlength t) key f (table t ! i)]\<rparr>)"

section \<open>The invariant\<close>

text \<open>
  Every item hangs in the bucket of its key, the index stays inside the table, and the counters
  agree with the chains.
\<close>

definition ht_inv :: "nat \<Rightarrow> 'v htable \<Rightarrow> bool" where
  "ht_inv n t \<longleftrightarrow>
     hashlength t = n \<and> 0 < buckets t \<and> unat (hmask t) < buckets t \<and>
     length (table t) = buckets t \<and> max_items t = buckets t * 4 \<and>
     num_items t = length (htable_items t) \<and>
     (\<forall>i < buckets t. \<forall>kv \<in> set (table t ! i).
        length (fst kv) = n \<and> hash_index t (fst kv) = i)"

lemma hash_index_cong:
  "buckets t = buckets u \<Longrightarrow> hashlength t = hashlength u \<Longrightarrow> hmask t = hmask u \<Longrightarrow>
   hash_index t k = hash_index u k"
  by (simp add: hash_index_def)

lemma hash_index_bound:
  assumes "unat (hmask t) < buckets t"
  shows "hash_index t k < buckets t"
proof -
  have "h AND ucast (hmask t) \<le> (ucast (hmask t) :: 64 word)" for h
    by (metis word_and_le1)
  then have "hash_index t k \<le> unat (ucast (hmask t) :: 64 word)"
    by (simp add: hash_index_def word_le_nat_alt)
  also have "\<dots> = unat (hmask t)"
  proof -
    have "unat (hmask t) < 2 ^ 32" using unsigned_less [of "hmask t"] by simp
    then have "unat (hmask t) < 2 ^ 64" by simp
    then show ?thesis by (simp add: unsigned_ucast_eq take_bit_nat_eq_self)
  qed
  finally show ?thesis using assms by simp
qed

lemma hash_index_in [simp]: "ht_inv n t \<Longrightarrow> hash_index t k < buckets t"
  by (simp add: ht_inv_def hash_index_bound)

lemma in_htable_items:
  "kv \<in> set (htable_items t) \<longleftrightarrow> (\<exists>i < length (table t). kv \<in> set (table t ! i))"
  by (metis (no_types, lifting) UN_iff htable_items_def in_set_conv_nth nth_mem set_concat)

lemma htable_items_key:
  "ht_inv n t \<Longrightarrow> kv \<in> set (htable_items t) \<Longrightarrow>
   length (fst kv) = n \<and> kv \<in> set (table t ! hash_index t (fst kv))"
  by (auto simp: in_htable_items ht_inv_def)

lemma chain_items:
  "ht_inv n t \<Longrightarrow> kv \<in> set (table t ! hash_index t k) \<Longrightarrow> kv \<in> set (htable_items t)"
  unfolding in_htable_items using hash_index_in [of n t k] by (auto simp: ht_inv_def)

section \<open>Creation\<close>

lemma pwr_loop_zero [simp]: "pwr_loop 0 p = Some p"
  by (subst pwr_loop.simps) simp

lemma pwr_loop_total: "0 \<le> tsize \<Longrightarrow> \<exists>p. pwr_loop tsize q = Some p"
proof (induction "nat tsize" arbitrary: tsize q rule: less_induct)
  case less
  show ?case
  proof (cases "tsize = 0")
    case True
    then show ?thesis by simp
  next
    case False
    with less.prems have "nat (tsize div 2) < nat tsize" "0 \<le> tsize div 2" by auto
    with less.hyps obtain p where "pwr_loop (tsize div 2) (Suc q) = Some p" by blast
    with False show ?thesis by (subst pwr_loop.simps) simp
  qed
qed

lemma pwr_loop_negative: "tsize < 0 \<Longrightarrow> pwr_loop tsize q \<noteq> Some p"
proof
  assume neg: "tsize < 0" and ret: "pwr_loop tsize q = Some p"
  have "0 \<le> tsize"
  proof (rule pwr_loop.raw_induct [where P = "\<lambda>tsize q p. 0 \<le> tsize", OF _ ret])
    fix f :: "int \<Rightarrow> nat \<Rightarrow> nat option" and tsize q p
    assume IH: "\<And>tsize q p. f tsize q = Some p \<Longrightarrow> 0 \<le> tsize"
      and eq: "(if tsize \<noteq> 0 then f (tsize div 2) (Suc q) else Some q) = Some p"
    show "0 \<le> tsize"
    proof (cases "tsize = 0")
      case False
      with eq have "f (tsize div 2) (Suc q) = Some p" by simp
      then have "0 \<le> tsize div 2" by (rule IH)
      then show ?thesis by simp
    qed simp
  qed
  with neg show False by simp
qed

lemma unat_mask_new: "unat (NOT (push_bit p (NOT 0)) :: 32 word) < 2 ^ p"
proof -
  have "NOT (push_bit p (NOT 0)) = (Bit_Operations.mask p :: 32 word)"
    by (simp add: mask_eq_exp_minus_1 minus_exp_eq_not_mask [symmetric] push_bit_minus_one_eq_not_mask)
  moreover have "unat (Bit_Operations.mask p :: 32 word) < 2 ^ p"
  proof -
    have "(2::int) ^ min 32 p \<le> 2 ^ p" by (intro power_increasing) auto
    moreover have "uint (Bit_Operations.mask p :: 32 word) = 2 ^ min 32 p - 1"
      unfolding uint_mask_eq by (simp add: mask_eq_exp_minus_1)
    ultimately have "uint (Bit_Operations.mask p :: 32 word) < 2 ^ p" by linarith
    then show ?thesis by (metis of_nat_less_iff of_nat_numeral of_nat_power of_nat_unat)
  qed
  ultimately show ?thesis by simp
qed

lemma ht_inv_new [simp, inv_intros]: "ht_inv n (htable_of_pwr n p)"
  using unat_mask_new [of p] by (simp add: ht_inv_def htable_of_pwr_def htable_items_def)

lemma htable_items_new [simp]: "htable_items (htable_of_pwr n p) = []"
  by (simp add: htable_items_def htable_of_pwr_def)

section \<open>Lookup, insertion, removal\<close>

lemma htable_link_fields [simp]:
  "buckets (htable_link k v t) = buckets t" "hmask (htable_link k v t) = hmask t"
  "hashlength (htable_link k v t) = hashlength t" "max_items (htable_link k v t) = max_items t"
  "num_items (htable_link k v t) = Suc (num_items t)"
  "hash_index (htable_link k v t) k' = hash_index t k'"
  by (auto simp: htable_link_def Let_def hash_index_def)

lemma htable_link_table:
  "table (htable_link k v t) = (table t)[hash_index t k := (k, v) # table t ! hash_index t k]"
  by (simp add: htable_link_def Let_def)

lemma mset_concat_update:
  "i < length xss \<Longrightarrow> mset (concat (xss[i := x # xss ! i])) = add_mset x (mset (concat xss))"
proof (induction xss arbitrary: i)
  case (Cons ys yss)
  then show ?case by (cases i) auto
qed simp

lemma mset_htable_link:
  "ht_inv n t \<Longrightarrow> mset (htable_items (htable_link k v t)) = mset ((k, v) # htable_items t)"
  using hash_index_in [of n t k]
  by (simp add: htable_items_def htable_link_def Let_def ht_inv_def mset_concat_update)

lemma ht_inv_link [inv_intros]:
  assumes "ht_inv n t" "length k = n"
  shows "ht_inv n (htable_link k v t)"
proof -
  have "num_items (htable_link k v t) = length (htable_items (htable_link k v t))"
    using assms mset_htable_link [of n t k v] by (metis htable_link_fields(5) ht_inv_def
        length_Cons size_mset)
  moreover have "\<forall>kv \<in> set (table (htable_link k v t) ! i).
      length (fst kv) = n \<and> hash_index (htable_link k v t) (fst kv) = i" if "i < buckets t" for i
    using assms that
    by (cases "i = hash_index t k")
      (simp_all add: ht_inv_def htable_link_table nth_list_update)
  ultimately show ?thesis
    using assms by (simp add: ht_inv_def htable_link_table)
qed

lemma foldl_link:
  assumes "ht_inv n t" "\<forall>kv\<in>set xs. length (fst kv) = n"
  shows "ht_inv n (foldl (\<lambda>t (k, v). htable_link k v t) t xs)
    \<and> mset (htable_items (foldl (\<lambda>t (k, v). htable_link k v t) t xs)) = mset (xs @ htable_items t)
    \<and> max_items (foldl (\<lambda>t (k, v). htable_link k v t) t xs) = max_items t
    \<and> num_items (foldl (\<lambda>t (k, v). htable_link k v t) t xs) = length xs + num_items t"
  using assms
proof (induction xs arbitrary: t)
  case Nil
  then show ?case by simp
next
  case (Cons x xs)
  obtain k v where x: "x = (k, v)" by (cases x)
  have "ht_inv n (htable_link k v t)" using Cons.prems x by (auto intro: ht_inv_link)
  from Cons.IH [OF this] Cons.prems x mset_htable_link [of n t k v] show ?case by auto
qed

lemma unat_big_mask:
  assumes "unat (m :: 32 word) < b"
  shows "unat (push_bit 1 m OR 1) < b * 2"
proof -
  have "even (push_bit 1 m)" by (simp add: push_bit_eq_mult)
  then have "push_bit 1 m OR 1 = 2 * m + 1"
    by (simp add: or_one_eq push_bit_eq_mult)
  moreover have "unat (2 * m + 1) \<le> 2 * unat m + 1"
    by (simp add: unat_word_ariths mod_less_eq_dividend)
  ultimately have "unat (push_bit 1 m OR 1) \<le> 2 * unat m + 1" by simp
  with assms show ?thesis by simp
qed

lemma ht_inv_big [inv_intros]: "ht_inv n t \<Longrightarrow> ht_inv n (big_table t)"
  using unat_big_mask [of "hmask t" "buckets t"]
  by (simp add: ht_inv_def big_table_def htable_items_def)

lemma htable_items_big [simp]: "htable_items (big_table t) = []"
  by (simp add: htable_items_def big_table_def)

lemma big_table_fields [simp]:
  "max_items (big_table t) = 8 * buckets t" "num_items (big_table t) = 0"
  by (simp_all add: big_table_def)

lemma ht_inv_max: "ht_inv n t \<Longrightarrow> max_items t = 4 * buckets t"
  and ht_inv_num: "ht_inv n t \<Longrightarrow> num_items t = length (htable_items t)"
  and ht_inv_buckets: "ht_inv n t \<Longrightarrow> 0 < buckets t"
  by (simp_all add: ht_inv_def)

lemma grow_table_spec:
  assumes "ht_inv n t"
  shows "ht_inv n (grow_table t) \<and> mset (htable_items (grow_table t)) = mset (htable_items t)
    \<and> max_items (grow_table t) = 2 * max_items t \<and> num_items (grow_table t) = num_items t"
proof -
  have "\<forall>kv\<in>set (htable_items t). length (fst kv) = n"
    using assms htable_items_key by blast
  from foldl_link [OF ht_inv_big [OF assms] this] assms show ?thesis
    by (simp add: grow_table_def ht_inv_max ht_inv_num)
qed

text \<open>
  The insertions that \<open>grow_table\<close> makes into the new table never reach its limit, so the C code's
  recursion \<open>insert\<close> / \<open>grow_table\<close> is one level deep.
\<close>

lemma grow_never_nests:
  assumes "ht_inv n t" "num_items t = max_items t" "m \<le> length (htable_items t)"
  shows "num_items (foldl (\<lambda>big (k, v). htable_link k v big) (big_table t)
           (take m (htable_items t)))
       < max_items (foldl (\<lambda>big (k, v). htable_link k v big) (big_table t)
           (take m (htable_items t)))"
proof -
  have "\<forall>kv\<in>set (take m (htable_items t)). length (fst kv) = n"
    using assms(1) htable_items_key by (meson in_set_takeD)
  from foldl_link [OF ht_inv_big [OF assms(1)] this] assms
    ht_inv_buckets [OF assms(1)] show ?thesis
    by (simp add: ht_inv_max ht_inv_num)
qed

lemma ht_inv_insert [inv_intros]:
  "ht_inv n t \<Longrightarrow> length k = n \<Longrightarrow> ht_inv n (htable_insert k v t)"
  by (simp add: htable_insert_def Let_def ht_inv_link grow_table_spec)

lemma mset_htable_insert:
  "ht_inv n t \<Longrightarrow> length k = n \<Longrightarrow>
   mset (htable_items (htable_insert k v t)) = mset ((k, v) # htable_items t)"
  using grow_table_spec [OF ht_inv_link [of n t k v]] mset_htable_link [of n t k v]
  by (simp add: htable_insert_def Let_def)

lemma htable_hashlength_insert [simp]:
  "ht_inv n t \<Longrightarrow> length k = n \<Longrightarrow> hashlength (htable_insert k v t) = n"
  using ht_inv_insert [of n t k v] by (simp add: ht_inv_def)

lemma set_htable_insert:
  "ht_inv n t \<Longrightarrow> length k = n \<Longrightarrow>
   set (htable_items (htable_insert k v t)) = insert (k, v) (set (htable_items t))"
  using mset_htable_insert [of n t k v] by (metis list.simps(15) mset_eq_setD)

lemma htable_size_insert:
  assumes "ht_inv n t" "length k = n"
  shows "htable_size (htable_insert k v t) = Suc (htable_size t)"
proof -
  have "length (htable_items (htable_insert k v t)) = length ((k, v) # htable_items t)"
    using mset_htable_insert [OF assms] by (metis mset_eq_length)
  with assms ht_inv_insert [OF assms] show ?thesis by (simp add: ht_inv_def htable_size_def)
qed

lemma htable_size_new [simp]: "htable_size (htable_of_pwr n p) = 0"
  by (simp add: htable_size_def htable_of_pwr_def)

text \<open>Loading a list of items.\<close>

lemma foldl_htable_insert:
  assumes "ht_inv n t" "\<forall>kv\<in>set xs. length (fst kv) = n"
  shows "ht_inv n (foldl (\<lambda>t (k, v). htable_insert k v t) t xs) \<and>
    set (htable_items (foldl (\<lambda>t (k, v). htable_insert k v t) t xs)) = set xs \<union> set (htable_items t) \<and>
    htable_size (foldl (\<lambda>t (k, v). htable_insert k v t) t xs) = length xs + htable_size t"
  using assms
proof (induction xs arbitrary: t)
  case (Cons x xs)
  obtain k v where x: "x = (k, v)" by (cases x)
  with Cons.prems have t: "ht_inv n (htable_insert k v t)" by (simp add: ht_inv_insert)
  have "\<forall>kv\<in>set xs. length (fst kv) = n" using Cons.prems by simp
  from Cons.IH [OF t this] Cons.prems x show ?case
    by (simp add: set_htable_insert htable_size_insert)
qed simp

text \<open>The table grows before its chains hold four items on average.\<close>

lemma htable_insert_load:
  assumes "ht_inv n t" "length k = n" "num_items t < max_items t"
  shows "num_items (htable_insert k v t) < max_items (htable_insert k v t)"
proof -
  have "0 < max_items t" using assms by simp
  with assms grow_table_spec [OF ht_inv_link [OF assms(1,2), of v]] show ?thesis
    by (auto simp: htable_insert_def Let_def)
qed

lemma chain_find_map_of:
  "\<forall>kv\<in>set c. length (fst kv) = n \<Longrightarrow> length key = n \<Longrightarrow> chain_find n key c = map_of c key"
  by (induction c) (auto simp: key_eq_def)

lemma ht_inv_chain:
  "ht_inv n t \<Longrightarrow> kv \<in> set (table t ! hash_index t k) \<Longrightarrow> length (fst kv) = n"
  using hash_index_in [of n t k] by (auto simp: ht_inv_def)

lemma htable_lookup_chain:
  assumes "ht_inv n t" "length key = n"
  shows "htable_lookup t key = map_of (table t ! hash_index t key) key"
proof -
  have "\<forall>kv\<in>set (table t ! hash_index t key). length (fst kv) = n"
    using assms ht_inv_chain by blast
  with assms show ?thesis
    by (simp add: htable_lookup_def chain_find_map_of ht_inv_def)
qed

lemma htable_lookup_Some_items:
  "ht_inv n t \<Longrightarrow> length key = n \<Longrightarrow> htable_lookup t key = Some v \<Longrightarrow> (key, v) \<in> set (htable_items t)"
  by (metis chain_items htable_lookup_chain map_of_SomeD)

lemma htable_lookup_None:
  assumes "ht_inv n t" "length key = n"
  shows "htable_lookup t key = None \<longleftrightarrow> key \<notin> fst ` set (htable_items t)"
proof -
  have "key \<in> fst ` set (table t ! hash_index t key) \<longleftrightarrow> key \<in> fst ` set (htable_items t)"
    using assms chain_items htable_items_key by (smt (verit) image_iff)
  then show ?thesis
    using assms by (simp add: htable_lookup_chain map_of_eq_None_iff)
qed

lemma htable_lookup_items:
  assumes "ht_inv n t" "length key = n" "distinct (map fst (htable_items t))"
  shows "htable_lookup t key = map_of (htable_items t) key"
proof (cases "htable_lookup t key")
  case None
  with assms have "key \<notin> fst ` set (htable_items t)" by (simp add: htable_lookup_None)
  with None show ?thesis by (metis map_of_eq_None_iff)
next
  case (Some v)
  with assms have "(key, v) \<in> set (htable_items t)" by (blast intro: htable_lookup_Some_items)
  with Some assms show ?thesis by simp
qed

lemma chain_remove_filter:
  "\<forall>kv\<in>set c. length (fst kv) = n \<Longrightarrow> length key = n \<Longrightarrow> distinct (map fst c) \<Longrightarrow>
   chain_remove n key c = filter (\<lambda>kv. fst kv \<noteq> key) c"
proof (induction c)
  case (Cons kv c)
  obtain k v where kv: "kv = (k, v)" by (cases kv)
  have "filter (\<lambda>kv. fst kv \<noteq> k) c = c" if "k \<notin> fst ` set c"
    using that by (auto simp: filter_id_conv)
  with Cons kv show ?case by (auto simp: key_eq_def)
qed simp

lemma chain_remove_sub: "set (chain_remove n key c) \<subseteq> set c"
proof (induction c)
  case (Cons kv c)
  then show ?case by (cases kv) auto
qed simp

lemma chain_remove_length:
  "chain_find n key c = Some v \<Longrightarrow> Suc (length (chain_remove n key c)) = length c"
  by (induction c) (auto split: if_splits)

lemma length_concat_update:
  "i < length xss \<Longrightarrow> length (concat (xss[i := ys])) + length (xss ! i)
     = length (concat xss) + length ys"
proof (induction xss arbitrary: i)
  case (Cons zs zss)
  then show ?case by (cases i) auto
qed simp

lemma concat_update_filter:
  "i < length xss \<Longrightarrow> (\<And>j. j < length xss \<Longrightarrow> j \<noteq> i \<Longrightarrow> filter P (xss ! j) = xss ! j) \<Longrightarrow>
   concat (xss[i := filter P (xss ! i)]) = filter P (concat xss)"
proof (induction xss arbitrary: i)
  case (Cons zs zss)
  show ?case
  proof (cases i)
    case 0
    have "filter P zs' = zs'" if "zs' \<in> set zss" for zs'
    proof -
      from that obtain j where "j < length zss" "zss ! j = zs'" by (auto simp: in_set_conv_nth)
      with Cons.prems(2) [of "Suc j"] 0 show ?thesis by simp
    qed
    then have "filter P (concat zss) = concat zss"
      by (simp add: filter_concat map_idI)
    with 0 show ?thesis by simp
  next
    case (Suc j)
    have "concat (zss[j := filter P (zss ! j)]) = filter P (concat zss)"
      by (rule Cons.IH) (use Cons.prems(1) Cons.prems(2) [of "Suc _"] Suc in auto)
    moreover have "filter P zs = zs" using Cons.prems(2) [of 0] Suc by simp
    ultimately show ?thesis using Suc by simp
  qed
qed simp

lemma distinct_chain:
  assumes "i < length xss" "distinct (map fst (concat xss))"
  shows "distinct (map fst (xss ! i))"
proof -
  obtain as bs where "xss = as @ xss ! i # bs" by (metis assms(1) id_take_nth_drop)
  then have "concat xss = concat as @ xss ! i @ concat bs" by (metis concat.simps(2) concat_append)
  with assms(2) show ?thesis by simp
qed

lemma htable_remove_items:
  assumes inv: "ht_inv n t" and len: "length key = n" and d: "distinct (map fst (htable_items t))"
  shows "htable_items (fst (htable_remove key t)) = filter (\<lambda>kv. fst kv \<noteq> key) (htable_items t)"
proof (cases "htable_lookup t key")
  case None
  then have "key \<notin> fst ` set (htable_items t)" using inv len by (simp add: htable_lookup_None)
  then have "filter (\<lambda>kv. fst kv \<noteq> key) (htable_items t) = htable_items t"
    by (auto simp: filter_id_conv)
  with None show ?thesis by (simp add: htable_remove_def Let_def)
next
  case (Some v)
  let ?i = "hash_index t key"
  have i: "?i < length (table t)" using inv by (simp add: ht_inv_def hash_index_bound)
  have "chain_remove n key (table t ! ?i) = filter (\<lambda>kv. fst kv \<noteq> key) (table t ! ?i)"
    using ht_inv_chain [OF inv] len d i
    by (intro chain_remove_filter) (auto simp: htable_items_def distinct_chain)
  moreover have "filter (\<lambda>kv. fst kv \<noteq> key) (table t ! j) = table t ! j"
    if "j < length (table t)" "j \<noteq> ?i" for j
    using inv that by (auto simp: filter_id_conv ht_inv_def)
  ultimately show ?thesis
    using Some i inv
    by (simp add: htable_remove_def Let_def htable_items_def concat_update_filter ht_inv_def)
qed

lemma ht_inv_remove [inv_intros]:
  assumes inv: "ht_inv n t" and len: "length key = n"
  shows "ht_inv n (fst (htable_remove key t))"
proof (cases "htable_lookup t key")
  case None
  with inv show ?thesis by (simp add: htable_remove_def Let_def)
next
  case (Some v)
  let ?i = "hash_index t key"
  let ?c = "chain_remove n key (table t ! ?i)"
  have i: "?i < length (table t)" using inv by (simp add: ht_inv_def hash_index_bound)
  have n: "hashlength t = n" using inv by (simp add: ht_inv_def)
  have r: "fst (htable_remove key t) = t\<lparr>table := (table t)[?i := ?c], num_items := num_items t - 1\<rparr>"
    using Some n by (simp add: htable_remove_def Let_def)
  have "Suc (length ?c) = length (table t ! ?i)"
    using Some n by (auto simp: htable_lookup_def intro: chain_remove_length)
  with length_concat_update [OF i, of ?c] inv
  have "num_items t - 1 = length (concat ((table t)[?i := ?c]))"
    by (simp add: ht_inv_def htable_items_def)
  moreover have "length (fst kv) = n \<and> hash_index t (fst kv) = j"
    if "j < buckets t" "kv \<in> set ((table t)[?i := ?c] ! j)" for j kv
    using inv that i chain_remove_sub [of n key "table t ! ?i"]
    by (cases "j = ?i") (auto simp: ht_inv_def)
  ultimately show ?thesis
    using inv unfolding r by (simp add: ht_inv_def htable_items_def hash_index_def)
qed

section \<open>Writing through a looked-up pointer\<close>

lemma map_fst_chain_update [simp]: "map fst (chain_update n key f c) = map fst c"
proof (induction c)
  case (Cons kv c)
  then show ?case by (cases kv) auto
qed simp

lemma map_of_chain_update:
  "\<forall>kv\<in>set c. length (fst kv) = n \<Longrightarrow> length key = n \<Longrightarrow>
   map_of (chain_update n key f c) k = (if k = key then map_option f (map_of c k) else map_of c k)"
proof (induction c)
  case (Cons kv c)
  then show ?case by (cases kv) (auto simp: key_eq_def)
qed simp

lemma set_map_fst_eq: "map fst xs = map fst ys \<Longrightarrow> fst ` set xs = fst ` set ys"
  by (metis list.set_map)

lemma htable_update_fields [simp]:
  "buckets (htable_update k f t) = buckets t" "hmask (htable_update k f t) = hmask t"
  "hashlength (htable_update k f t) = hashlength t" "num_items (htable_update k f t) = num_items t"
  "max_items (htable_update k f t) = max_items t"
  "hash_index (htable_update k f t) k' = hash_index t k'"
  by (auto simp: htable_update_def Let_def hash_index_def)

lemma htable_update_table:
  "table (htable_update k f t) = (table t)[hash_index t k :=
     chain_update (hashlength t) k f (table t ! hash_index t k)]"
  by (simp add: htable_update_def Let_def)

lemma map_fst_concat_update:
  "i < length xss \<Longrightarrow> map fst ys = map fst (xss ! i) \<Longrightarrow>
   map fst (concat (xss[i := ys])) = map fst (concat xss)"
proof (induction xss arbitrary: i)
  case (Cons zs zss)
  then show ?case by (cases i) auto
qed simp

lemma htable_update_keys:
  assumes "ht_inv n t"
  shows "map fst (htable_items (htable_update k f t)) = map fst (htable_items t)"
  using assms unfolding htable_items_def htable_update_table
  by (intro map_fst_concat_update) (auto simp: ht_inv_def hash_index_bound)

lemma ht_inv_update [inv_intros]:
  assumes "ht_inv n t"
  shows "ht_inv n (htable_update k f t)"
proof -
  let ?u = "htable_update k f t"
  have "length (fst kv) = n \<and> hash_index t (fst kv) = i"
    if "i < buckets t" "kv \<in> set (table ?u ! i)" for i kv
  proof -
    have "map fst (table ?u ! i) = map fst (table t ! i)"
      using that assms by (cases "i = hash_index t k") (auto simp: htable_update_table ht_inv_def)
    then have "fst kv \<in> fst ` set (table t ! i)"
      using that(2) set_map_fst_eq by (metis image_eqI)
    then obtain kv' where "kv' \<in> set (table t ! i)" "fst kv' = fst kv" by force
    with assms that(1) show ?thesis unfolding ht_inv_def by metis
  qed
  moreover have "length (htable_items ?u) = length (htable_items t)"
    using htable_update_keys [OF assms, of k f] by (metis length_map)
  ultimately show ?thesis
    using assms by (simp add: ht_inv_def htable_update_table)
qed

lemma htable_lookup_update:
  assumes "ht_inv n t" "length key = n" "length k = n"
  shows "htable_lookup (htable_update key f t) k
    = (if k = key then map_option f (htable_lookup t k) else htable_lookup t k)"
proof (cases "hash_index t k = hash_index t key")
  case True
  moreover have "hash_index t key < length (table t)" "hashlength t = n"
    using assms(1) by (simp_all add: ht_inv_def hash_index_bound)
  moreover have "\<forall>kv\<in>set (table t ! hash_index t key). length (fst kv) = n"
    using ht_inv_chain [OF assms(1)] by blast
  moreover note ht_inv_update [OF assms(1), of key f]
  ultimately show ?thesis
    using assms by (simp add: htable_lookup_chain htable_update_table map_of_chain_update)
next
  case False
  then have "k \<noteq> key" by auto
  with False assms ht_inv_update [OF assms(1), of key f] show ?thesis
    by (simp add: htable_lookup_chain htable_update_table)
qed

section \<open>The walk visits every item once, in the order of the buckets\<close>

definition walk_rest :: "'v htable \<Rightarrow> (byte list \<times> 'v) list" where
  "walk_rest t = walkptr t @ concat (drop (walk_index t) (table t))"

lemma walk_skip_fields [simp]:
  "table (walk_skip t) = table t" "buckets (walk_skip t) = buckets t"
  by (induction t rule: walk_skip.induct; subst walk_skip.simps; simp)+

lemma walk_skip_rest:
  "length (table t) = buckets t \<Longrightarrow>
   walk_rest (walk_skip t) = walk_rest t \<and> (walkptr (walk_skip t) = [] \<longrightarrow> walk_rest t = [])"
proof (induction t rule: walk_skip.induct)
  case (1 t)
  show ?case
  proof (cases "walkptr t = [] \<and> walk_index t < buckets t")
    case True
    with 1 have "drop (walk_index t) (table t)
        = table t ! walk_index t # drop (Suc (walk_index t)) (table t)"
      by (simp add: Cons_nth_drop_Suc)
    with True 1 show ?thesis by (subst (1 2) walk_skip.simps) (simp add: walk_rest_def)
  next
    case False
    with "1.prems" show ?thesis by (subst (1 2) walk_skip.simps) (auto simp: walk_rest_def)
  qed
qed

lemma walk_from_rest:
  assumes "length (table t) = buckets t" "walkptr t = [] \<longrightarrow> walk_rest t = []"
    "length (walk_rest t) < n"
  shows "walk_from n (t, walk_item t) = Some (walk_rest t)"
  using assms
proof (induction n arbitrary: t)
  case 0
  then show ?case by simp
next
  case (Suc n)
  show ?case
  proof (cases "walkptr t")
    case Nil
    with Suc.prems show ?thesis by (simp add: walk_item_def)
  next
    case (Cons kv c)
    let ?t = "walk_skip (t\<lparr>walkptr := c\<rparr>)"
    have rest: "walk_rest t = kv # walk_rest (t\<lparr>walkptr := c\<rparr>)"
      using Cons by (simp add: walk_rest_def)
    have sk: "walk_rest ?t = walk_rest (t\<lparr>walkptr := c\<rparr>)"
      "walkptr ?t = [] \<longrightarrow> walk_rest (t\<lparr>walkptr := c\<rparr>) = []"
      using walk_skip_rest [of "t\<lparr>walkptr := c\<rparr>"] Suc.prems by auto
    have "walk_from n (?t, walk_item ?t) = Some (walk_rest ?t)"
      by (rule Suc.IH) (use Suc.prems sk rest in auto)
    with Cons rest sk show ?thesis
      by (simp add: walk_item_def htable_next_def Let_def)
  qed
qed

lemma walk_visits_items:
  assumes "ht_inv n t" "length (htable_items t) < fuel"
  shows "walk_from fuel (htable_first t) = Some (htable_items t)"
proof -
  let ?u = "t\<lparr>walkptr := table t ! 0, walk_index := 1\<rparr>"
  have len: "length (table ?u) = buckets ?u" using assms by (simp add: ht_inv_def)
  have "table t \<noteq> []" using assms by (auto simp: ht_inv_def)
  then have rest: "walk_rest ?u = htable_items t"
    by (cases "table t") (auto simp: walk_rest_def htable_items_def)
  have sk: "walk_rest (walk_skip ?u) = walk_rest ?u"
    "walkptr (walk_skip ?u) = [] \<longrightarrow> walk_rest ?u = []"
    using walk_skip_rest [OF len] by auto
  have "walk_from fuel (walk_skip ?u, walk_item (walk_skip ?u)) = Some (walk_rest (walk_skip ?u))"
    by (rule walk_from_rest) (use sk rest len assms in auto)
  with sk(1) rest show ?thesis by (simp add: htable_first_def Let_def)
qed

section \<open>The table implements the dictionary interface\<close>

interpretation ht: dict_remove "ht_inv n" "\<lambda>k. length k = n" htable_lookup htable_insert
  htable_items htable_size "\<lambda>k t. fst (htable_remove k t)"
  for n :: nat
proof unfold_locales
  fix t :: "'a htable" and k k' :: "byte list" and v :: 'a and kv
  show "ht_inv n t \<Longrightarrow> length k = n \<Longrightarrow> ht_inv n (htable_insert k v t)"
    by (rule ht_inv_insert)
  show "ht_inv n t \<Longrightarrow> length k = n \<Longrightarrow> distinct (map fst (htable_items t)) \<Longrightarrow>
      htable_lookup t k = map_of (htable_items t) k"
    by (rule htable_lookup_items)
  show "ht_inv n t \<Longrightarrow> length k = n \<Longrightarrow> (htable_lookup t k = None) = (k \<notin> fst ` set (htable_items t))"
    by (rule htable_lookup_None)
  show "ht_inv n t \<Longrightarrow> length k = n \<Longrightarrow> htable_lookup t k = None \<Longrightarrow>
      mset (htable_items (htable_insert k v t)) = mset ((k, v) # htable_items t)"
    by (rule mset_htable_insert)
  show "ht_inv n t \<Longrightarrow> kv \<in> set (htable_items t) \<Longrightarrow> length (fst kv) = n"
    by (simp add: htable_items_key)
  show "ht_inv n t \<Longrightarrow> htable_size t = length (htable_items t)"
    by (simp add: htable_size_def ht_inv_num)
  show "ht_inv n t \<Longrightarrow> length k = n \<Longrightarrow> ht_inv n (fst (htable_remove k t))"
    by (rule ht_inv_remove)
  show "ht_inv n t \<Longrightarrow> length k = n \<Longrightarrow> distinct (map fst (htable_items t)) \<Longrightarrow>
      htable_items (fst (htable_remove k t)) = filter (\<lambda>kv. fst kv \<noteq> k) (htable_items t)"
    by (rule htable_remove_items)
qed

lemmas htable_simps = ht.lookup_insert ht.lookup_remove ht.lookup_None htable_lookup_update

lemma htable_cleanD: "ht.clean n t \<Longrightarrow> ht_inv n t" "ht.clean n t \<Longrightarrow> distinct (map fst (htable_items t))"
  by (simp_all add: ht.clean_def)

lemma htable_clean_update:
  assumes "ht.clean n t"
  shows "ht.clean n (htable_update k f t)"
proof -
  note c = htable_cleanD [OF assms]
  show ?thesis
    unfolding ht.clean_def htable_update_keys [OF c(1)] using c(2) ht_inv_update [OF c(1)] by blast
qed

lemma htable_clean_items:
  assumes "ht.clean n t"
  shows "(k, v) \<in> set (htable_items t) \<longleftrightarrow> length k = n \<and> htable_lookup t k = Some v"
proof
  note c = htable_cleanD [OF assms]
  assume i: "(k, v) \<in> set (htable_items t)"
  then have "length k = n" using c htable_items_key [of n t "(k, v)"] by simp
  with i c show "length k = n \<and> htable_lookup t k = Some v"
    by (simp add: htable_lookup_items)
next
  assume "length k = n \<and> htable_lookup t k = Some v"
  with htable_cleanD [OF assms] show "(k, v) \<in> set (htable_items t)"
    by (simp add: htable_lookup_Some_items)
qed

lemma htable_entries_insert:
  assumes "ht.clean n t" "length k = n" "htable_lookup t k = None"
  shows "map_of (htable_items (htable_insert k v t)) = (map_of (htable_items t))(k \<mapsto> v)"
proof -
  note c = htable_cleanD [OF assms(1)]
  have "distinct (map fst (htable_items (htable_insert k v t)))"
    using ht.clean_insert [OF assms] by (simp add: ht.clean_def)
  moreover have "distinct (map fst ((k, v) # htable_items t))"
    using c assms(2,3) htable_lookup_None [OF c(1) assms(2)] by simp
  moreover have "set (htable_items (htable_insert k v t)) = set ((k, v) # htable_items t)"
    using c(1) assms(2) by (simp add: set_htable_insert)
  ultimately have "map_of (htable_items (htable_insert k v t)) = map_of ((k, v) # htable_items t)"
    by (rule map_of_distinct_set)
  then show ?thesis by simp
qed

lemma htable_fresh:
  assumes "0 \<le> n"
  shows "\<exists>t. htable_init h n = Some t \<and> ht.clean h t \<and> htable_items t = [] \<and> (\<forall>k. length k = h \<longrightarrow> htable_lookup t k = None)"
proof -
  have "0 \<le> n div 4" using assms by simp
  then obtain p where "pwr_loop (n div 4) 0 = Some p" using pwr_loop_total by blast
  then have "htable_init h n = Some (htable_of_pwr h p)" by (simp add: htable_init_def)
  moreover have "htable_lookup (htable_of_pwr h p) k = None" if "length k = h" for k
    using htable_lookup_None [OF ht_inv_new that] by simp
  moreover have "ht.clean h (htable_of_pwr h p :: 'a htable)" by (simp add: ht.clean_def)
  ultimately show ?thesis by (intro exI [of _ "htable_of_pwr h p"]) auto
qed

end
