(* ===== verification/RabinWindow.thy ===== *)
theory RabinWindow
  imports Rabin
begin

text \<open>
  What the rolling fingerprint of client/lib/rabin.c computes. The bit loops are additive over
  XOR, so the tables are; the table step \<open>append8\<close> therefore multiplies by x^8 modulo
  \<open>FINGERPRINT_PT\<close> (checked on the basis), and \<open>U\<close> holds what a byte has become after 47 more
  steps, so that \<open>slide8\<close> keeps the fingerprint of exactly the 48 bytes in the ring buffer. As a
  chunk is never cut before 2048 bytes, the cut depends on the bytes of the chunk only.
\<close>

unbundle bit_operations_syntax

section \<open>Additive functions of words\<close>

definition additive_upto :: "nat \<Rightarrow> ('a::len word \<Rightarrow> 'b::len word) \<Rightarrow> bool" where
  "additive_upto n f \<longleftrightarrow> (\<forall>a b. take_bit n a = a \<longrightarrow> take_bit n b = b \<longrightarrow> f (a XOR b) = f a XOR f b)"

lemma additive_zero: "additive_upto n f \<Longrightarrow> f 0 = 0"
  unfolding additive_upto_def by (metis take_bit_of_0 xor_self_eq)

lemma take_bit_Suc_xor:
  "take_bit (Suc n) (p :: 'a::len word) = take_bit n p XOR (if bit p n then push_bit n 1 else 0)"
  by (rule bit_word_eqI) (auto simp: bit_simps less_Suc_eq)

lemma additive_eqI:
  assumes f: "additive_upto n f" and g: "additive_upto n g"
    and b: "\<And>i. i < n \<Longrightarrow> f (push_bit i 1) = g (push_bit i 1)"
    and p: "take_bit n p = p"
  shows "f p = g p"
proof -
  have tt: "take_bit n (take_bit m p) = take_bit m p" if "m \<le> n" for m
    using that by (simp add: min_absorb2)
  have "m \<le> n \<Longrightarrow> f (take_bit m p) = g (take_bit m p)" for m
  proof (induction m)
    case 0
    with f g show ?case by (simp add: additive_zero)
  next
    case (Suc m)
    have e: "take_bit n (push_bit m 1 :: 'a word) = push_bit m 1"
      using Suc.prems by (intro bit_word_eqI) (auto simp: bit_simps)
    show ?case
    proof (cases "bit p m")
      case True
      with Suc f g tt [of m] e b [of m] show ?thesis
        by (simp add: take_bit_Suc_xor additive_upto_def)
    next
      case False
      with Suc show ?thesis by (simp add: take_bit_Suc_xor)
    qed
  qed
  from this [of n] p show ?thesis by simp
qed

lemmas xor_rules = xor.assoc xor.left_commute xor.commute

lemma xor_cancel_left [simp]: "a XOR (a XOR b) = (b :: 'a::len word)"
  by (simp add: xor.assoc [symmetric])

lemma polymod_lo_xor:
  "polymod_lo d k n (a XOR b) = polymod_lo d k n a XOR polymod_lo d k n b"
proof (induction n arbitrary: a b)
  case 0
  show ?case by simp
next
  case (Suc n)
  let ?s = "\<lambda>x. if bit x n then x XOR drop_bit (63 - n) d else x"
  have "?s (a XOR b) = ?s a XOR ?s b"
    by (auto simp: bit_xor_iff xor_rules)
  with Suc [of "?s a" "?s b"] show ?case by (simp only: polymod_lo.simps split: if_split) simp
qed

lemma polymod_hi_xor:
  "polymod_hi d n (a XOR b, a' XOR b') =
     (fst (polymod_hi d n (a, a')) XOR fst (polymod_hi d n (b, b')),
      snd (polymod_hi d n (a, a')) XOR snd (polymod_hi d n (b, b')))"
proof (induction n arbitrary: a b a' b')
  case 0
  show ?case by simp
next
  case (Suc n)
  let ?s = "\<lambda>(x, y). if bit x n then (x XOR drop_bit (63 - n) d, y XOR push_bit (n + 1) d) else (x, y)"
  have s: "polymod_hi d (Suc n) (x, y) = polymod_hi d n (?s (x, y))" for x y
    by simp
  have "?s (a XOR b, a' XOR b') =
     (fst (?s (a, a')) XOR fst (?s (b, b')), snd (?s (a, a')) XOR snd (?s (b, b')))"
    by (auto simp: bit_xor_iff xor_rules)
  then show ?case
    unfolding s using Suc [of "fst (?s (a, a'))" "fst (?s (b, b'))" "snd (?s (a, a'))" "snd (?s (b, b'))"]
    by simp
qed

lemma polymod_hi_0: "polymod_hi d n (0, b) = (0, b)"
  by (induction n) auto

lemma polymod_xor: "polymod (a XOR b) (a' XOR b') d = polymod a a' d XOR polymod b b' d"
proof -
  define D where "D = push_bit (63 - (fls64 d - 1)) d"
  define top where "top x = (if bit x 63 then x XOR D else x)" for x
  have p: "polymod x y d = polymod_lo D (fls64 d - 1) 64 (snd (polymod_hi D 63 (top x, y)))" for x y
    by (auto simp: polymod_def Let_def D_def top_def polymod_hi_0 split: prod.split)
  have "top (a XOR b) = top a XOR top b"
    by (auto simp: top_def bit_xor_iff intro!: bit_word_eqI)
  then show ?thesis by (simp add: p polymod_hi_xor polymod_lo_xor)
qed

lemma polymult_fold_xor:
  "fold (polymult_step (x XOR x') y) is (a XOR a', b XOR b') =
    (let s = fold (polymult_step x y) is (a, b); s' = fold (polymult_step x' y) is (a', b')
     in (fst s XOR fst s', snd s XOR snd s'))"
proof (induction "is" arbitrary: a a' b b')
  case Nil
  then show ?case by simp
next
  case (Cons i "is")
  have "polymult_step (x XOR x') y i (a XOR a', b XOR b') =
     (fst (polymult_step x y i (a, b)) XOR fst (polymult_step x' y i (a', b')),
      snd (polymult_step x y i (a, b)) XOR snd (polymult_step x' y i (a', b')))"
    by (auto simp: polymult_step_def bit_xor_iff intro!: bit_word_eqI)
  with Cons show ?case by simp
qed

lemma polymmult_xor: "polymmult (x XOR x') y d = polymmult x y d XOR polymmult x' y d"
proof -
  have "polymult (x XOR x') y =
    (fst (polymult x y) XOR fst (polymult x' y), snd (polymult x y) XOR snd (polymult x' y))"
    using polymult_fold_xor [of x x' y "[1..<64]" 0 0 "if bit x 0 then y else 0"
        "if bit x' 0 then y else 0"]
    by (auto simp: polymult_def Let_def bit_xor_iff)
  then show ?thesis by (simp add: polymmult_def polymod_xor split: prod.split)
qed

section \<open>The tables\<close>

lemma polymod_lo_small:
  assumes "bit d 63" "k \<le> n" "n \<le> 64" "take_bit n x = x"
  shows "take_bit k (polymod_lo d k n x) = polymod_lo d k n x"
  using assms
proof (induction n arbitrary: x)
  case 0
  then show ?case by simp
next
  case (Suc n)
  show ?case
  proof (cases "n < k")
    case True
    with Suc.prems have "k = Suc n" by simp
    with Suc.prems show ?thesis by simp
  next
    case False
    let ?y = "if bit x n then x XOR drop_bit (63 - n) d else x"
    have hi: "\<not> bit x j" if "n < j" for j
      using Suc.prems(4) that by (metis bit_take_bit_iff not_less_eq)
    have "take_bit n ?y = ?y"
    proof (rule bit_word_eqI)
      fix j assume j: "j < LENGTH(64)"
      have "\<not> bit ?y j" if "n \<le> j"
      proof (cases "j = n")
        case True
        with Suc.prems(1,3) show ?thesis by (auto simp: bit_simps)
      next
        case False
        with that hi [of j] hi j Suc.prems(3) show ?thesis
          by (auto simp: bit_simps dest: bit_imp_le_length)
      qed
      then show "bit (take_bit n ?y) j = bit ?y j"
        by (meson bit_take_bit_iff not_le)
    qed
    with Suc.IH [of ?y] Suc.prems False show ?thesis by simp
  qed
qed

lemma fls64_PT: "fls64 FINGERPRINT_PT = 64"
  by code_simp

lemma polymmult_PT_small: "take_bit 63 (polymmult a b FINGERPRINT_PT) = polymmult a b FINGERPRINT_PT"
proof -
  have "bit FINGERPRINT_PT 63" by code_simp
  then have "take_bit 63 (polymod_lo FINGERPRINT_PT 63 64 x) = polymod_lo FINGERPRINT_PT 63 64 x" for x
    by (intro polymod_lo_small) (auto intro!: bit_word_eqI simp: bit_simps)
  then show ?thesis
    by (auto simp: polymmult_def polymod_def fls64_PT Let_def split: prod.split)
qed

definition TT :: "64 word list" where "TT = calcT FINGERPRINT_PT"
definition UU :: "64 word list" where "UU = calcU FINGERPRINT_PT 55 TT"

lemma shift_PT: "calcT_shift FINGERPRINT_PT = 55"
  by (simp add: calcT_shift_def fls64_PT)

definition T1_PT :: "64 word" where "T1_PT = 4604570691050114435"

lemma T1_PT: "polymod 0 (push_bit 63 1) FINGERPRINT_PT = T1_PT"
  by code_simp

definition Tw :: "64 word \<Rightarrow> 64 word" where
  "Tw w = polymmult w T1_PT FINGERPRINT_PT XOR push_bit 63 w"

lemma TT_nth:
  assumes "j < 256"
  shows "TT ! j = Tw (word_of_nat j)"
proof -
  have "TT ! j = polymmult (word_of_nat j) T1_PT FINGERPRINT_PT OR push_bit 63 (word_of_nat j)"
    using assms T1_PT by (simp add: TT_def calcT_def fls64_PT)
  also have "\<dots> = Tw (word_of_nat j)"
  proof -
    have "a OR push_bit 63 b = a XOR push_bit 63 b" if "take_bit 63 a = a" for a b :: "64 word"
    proof (rule bit_word_eqI)
      fix i assume "i < LENGTH(64)"
      show "bit (a OR push_bit 63 b) i = bit (a XOR push_bit 63 b) i"
        by (subst (1 2) that [symmetric]) (auto simp: bit_simps)
    qed
    with polymmult_PT_small show ?thesis by (simp add: Tw_def)
  qed
  finally show ?thesis .
qed

lemma Tw_xor: "Tw (a XOR b) = Tw a XOR Tw b"
  by (simp add: Tw_def polymmult_xor xor_rules)

section \<open>The table step is multiplication by x^8\<close>

definition A8 :: "64 word \<Rightarrow> 64 word" where
  "A8 p = push_bit 8 p XOR Tw (drop_bit 55 p)"

lemma A8_xor: "A8 (a XOR b) = A8 a XOR A8 b"
  by (simp add: A8_def Tw_xor xor_rules)

lemma drop55_less: "take_bit 63 p = p \<Longrightarrow> unat (drop_bit 55 (p :: 64 word)) < 256"
proof -
  assume p: "take_bit 63 p = p"
  then have "unat p = take_bit 63 (unat p)"
    by (metis unsigned_take_bit_eq)
  then have "unat p < 2 ^ 63" by (metis take_bit_nat_less_exp)
  then have "unat p div 2 ^ 55 < 256" by simp
  moreover have "unat (drop_bit 55 p) = unat p div 2 ^ 55"
    by (simp only: unat_drop_bit_eq) (simp only: drop_bit_eq_div)
  ultimately show ?thesis by simp
qed

lemma append8_A8:
  assumes "take_bit 63 p = p"
  shows "append8 55 TT p m = A8 p XOR ucast m"
proof -
  have "TT ! unat (drop_bit 55 p) = Tw (drop_bit 55 p)"
    using drop55_less [OF assms] by (simp add: TT_nth)
  moreover have "push_bit 8 p OR ucast m = push_bit 8 p XOR ucast m"
    by (rule bit_word_eqI) (auto simp: bit_simps dest: bit_imp_le_length)
  ultimately show ?thesis by (simp add: append8_def A8_def xor_rules)
qed

definition mulx :: "64 word \<Rightarrow> 64 word" where
  "mulx p = push_bit 1 p XOR (if bit p 62 then FINGERPRINT_PT else 0)"

lemma mulx_xor: "mulx (a XOR b) = mulx a XOR mulx b"
  by (auto simp: mulx_def bit_xor_iff xor_rules)

lemma len64: "LENGTH(64) = 64"
  by simp

lemma le_63: "63 \<le> n \<Longrightarrow> n < 64 \<Longrightarrow> n = (63 :: nat)"
  by simp

lemma mulx_small: "take_bit 63 p = p \<Longrightarrow> take_bit 63 (mulx p) = mulx p"
proof -
  assume "take_bit 63 p = p"
  then have "\<not> bit p 63" by (metis bit_take_bit_iff less_irrefl)
  moreover have "bit FINGERPRINT_PT 63" by code_simp
  moreover have "bit (push_bit 1 p) 63 = bit p 62"
    by (simp only: bit_push_bit_iff) simp
  ultimately have "\<not> bit (mulx p) 63"
    unfolding mulx_def by (simp only: bit_xor_iff) auto
  then show ?thesis
    by (intro bit_word_eqI) (metis bit_take_bit_iff le_63 len64 not_less)
qed

primrec mulx_pow :: "nat \<Rightarrow> 64 word \<Rightarrow> 64 word" where
  "mulx_pow 0 p = p"
| "mulx_pow (Suc n) p = mulx_pow n (mulx p)"

lemma mulx_pow_xor: "mulx_pow n (a XOR b) = mulx_pow n a XOR mulx_pow n b"
  by (induction n arbitrary: a b) (auto simp: mulx_xor)

lemma mulx_pow_small: "take_bit 63 p = p \<Longrightarrow> take_bit 63 (mulx_pow n p) = mulx_pow n p"
  by (induction n arbitrary: p) (auto simp: mulx_small)

lemma mulx_pow_add: "mulx_pow m (mulx_pow n p) = mulx_pow (n + m) p"
  by (induction n arbitrary: p) auto

lemma mulx_pow_low: "i + n \<le> 62 \<Longrightarrow> mulx_pow n (push_bit i 1) = push_bit (i + n) 1"
proof (induction n arbitrary: i)
  case 0
  then show ?case by simp
next
  case (Suc n)
  then have "\<not> bit (push_bit i 1 :: 64 word) 62" by (auto simp: bit_simps)
  then have "mulx (push_bit i 1) = push_bit (Suc i) 1" by (simp add: mulx_def)
  with Suc show ?case by (simp only: mulx_pow.simps) simp
qed

lemma additive_A8: "additive_upto n A8"
  by (simp add: additive_upto_def A8_xor)

lemma additive_mulx_pow: "additive_upto n (mulx_pow k)"
  by (simp add: additive_upto_def mulx_pow_xor)

lemma A8_high:
  "A8 (push_bit 55 1) = mulx_pow 8 (push_bit 55 1)" "A8 (push_bit 56 1) = mulx_pow 8 (push_bit 56 1)"
  "A8 (push_bit 57 1) = mulx_pow 8 (push_bit 57 1)" "A8 (push_bit 58 1) = mulx_pow 8 (push_bit 58 1)"
  "A8 (push_bit 59 1) = mulx_pow 8 (push_bit 59 1)" "A8 (push_bit 60 1) = mulx_pow 8 (push_bit 60 1)"
  "A8 (push_bit 61 1) = mulx_pow 8 (push_bit 61 1)" "A8 (push_bit 62 1) = mulx_pow 8 (push_bit 62 1)"
  by code_simp+

lemma A8_low: "i < 55 \<Longrightarrow> A8 (push_bit i 1) = mulx_pow 8 (push_bit i 1)"
proof -
  assume i: "i < 55"
  have "drop_bit 55 (push_bit i 1 :: 64 word) = 0"
    using i by (intro bit_word_eqI) (auto simp: bit_simps)
  moreover have "Tw 0 = 0" by (metis Tw_xor xor_self_eq)
  moreover have "mulx_pow 8 (push_bit i 1) = push_bit 8 (push_bit i 1)"
    using mulx_pow_low [of i 8] i by (simp only: push_bit_push_bit) (simp add: add.commute)
  ultimately show ?thesis by (simp only: A8_def) simp
qed

text \<open>The table step multiplies by x^8 modulo the polynomial.\<close>

lemma A8_mulx: "take_bit 63 p = p \<Longrightarrow> A8 p = mulx_pow 8 p"
proof (rule additive_eqI [OF additive_A8 additive_mulx_pow])
  fix i :: nat assume "i < 63"
  then consider "i < 55" | "i = 55" | "i = 56" | "i = 57" | "i = 58" | "i = 59" | "i = 60" | "i = 61" | "i = 62"
    by linarith
  then show "A8 (push_bit i 1) = mulx_pow 8 (push_bit i 1)"
    by cases (simp_all only: A8_low A8_high)
qed

definition S_PT :: "64 word" where "S_PT = 3516854836665139219"

lemma append8_mulx: "take_bit 63 p = p \<Longrightarrow> append8 55 TT p m = mulx_pow 8 p XOR ucast m"
  by (simp add: append8_A8 A8_mulx)

lemma S_PT: "mulx_pow 376 1 = S_PT"
  by code_simp

lemma mulx_pow_376: "i < 8 \<Longrightarrow> mulx_pow 376 (push_bit i 1) = mulx_pow i S_PT"
proof -
  assume "i < 8"
  then have "push_bit i 1 = mulx_pow i 1"
    using mulx_pow_low [of 0 i] by simp
  then show ?thesis by (simp add: mulx_pow_add flip: S_PT) (simp add: add.commute)
qed

lemma U_basis:
  "polymmult (push_bit 0 1) S_PT FINGERPRINT_PT = mulx_pow 0 S_PT"
  "polymmult (push_bit 1 1) S_PT FINGERPRINT_PT = mulx_pow 1 S_PT"
  "polymmult (push_bit 2 1) S_PT FINGERPRINT_PT = mulx_pow 2 S_PT"
  "polymmult (push_bit 3 1) S_PT FINGERPRINT_PT = mulx_pow 3 S_PT"
  "polymmult (push_bit 4 1) S_PT FINGERPRINT_PT = mulx_pow 4 S_PT"
  "polymmult (push_bit 5 1) S_PT FINGERPRINT_PT = mulx_pow 5 S_PT"
  "polymmult (push_bit 6 1) S_PT FINGERPRINT_PT = mulx_pow 6 S_PT"
  "polymmult (push_bit 7 1) S_PT FINGERPRINT_PT = mulx_pow 7 S_PT"
  by code_simp+

lemma polymmult_S: "take_bit 8 p = p \<Longrightarrow> polymmult p S_PT FINGERPRINT_PT = mulx_pow 376 p"
proof (rule additive_eqI [where f = "\<lambda>p. polymmult p S_PT FINGERPRINT_PT" and g = "mulx_pow 376"
      and n = 8])
  show "additive_upto 8 (\<lambda>p. polymmult p S_PT FINGERPRINT_PT)"
    by (simp add: additive_upto_def polymmult_xor)
  show "additive_upto 8 (mulx_pow 376)" by (rule additive_mulx_pow)
  fix i :: nat assume i: "i < 8"
  then consider "i = 0" | "i = 1" | "i = 2" | "i = 3" | "i = 4" | "i = 5" | "i = 6" | "i = 7"
    by linarith
  then show "polymmult (push_bit i 1) S_PT FINGERPRINT_PT = mulx_pow 376 (push_bit i 1)"
    unfolding mulx_pow_376 [OF i] by cases (simp_all only: U_basis)
qed

section \<open>The fingerprint of a window\<close>

lemma append8_small:
  "take_bit 63 p = p \<Longrightarrow> take_bit 63 (append8 55 TT p m) = append8 55 TT p m"
proof -
  assume p: "take_bit 63 p = p"
  have "take_bit 63 (ucast m :: 64 word) = ucast m"
    by (rule bit_word_eqI) (auto simp: bit_simps dest: bit_imp_le_length)
  with p show ?thesis by (simp add: append8_mulx mulx_pow_small)
qed

lemma append8_pow_0:
  "take_bit 63 p = p \<Longrightarrow> ((\<lambda>s. append8 55 TT s 0) ^^ n) p = mulx_pow (8 * n) p"
proof (induction n)
  case 0
  then show ?case by simp
next
  case (Suc n)
  have "append8 55 TT (mulx_pow (8 * n) p) 0 = mulx_pow 8 (mulx_pow (8 * n) p)"
    using Suc.prems by (simp only: append8_mulx mulx_pow_small) simp
  with Suc show ?case by (simp only: funpow.simps o_apply mulx_pow_add) (simp add: algebra_simps)
qed

lemma UU_nth:
  assumes "j < 256"
  shows "UU ! j = mulx_pow 376 (word_of_nat j)"
proof -
  have "((\<lambda>s. append8 55 TT s 0) ^^ (win_size - 1)) 1 = S_PT"
    using S_PT by (simp add: append8_pow_0 win_size_def)
  then have "UU ! j = polymmult (word_of_nat j) S_PT FINGERPRINT_PT"
    using assms by (simp add: UU_def calcU_def Let_def)
  moreover have "take_bit 8 (word_of_nat j :: 64 word) = word_of_nat j"
    using assms by (simp add: take_bit_of_nat take_bit_nat_eq_self)
  ultimately show ?thesis by (simp add: polymmult_S)
qed

definition roll :: "byte list \<Rightarrow> 64 word" where
  "roll bs = foldl (append8 55 TT) 0 bs"

lemma foldl_append8_xor:
  "take_bit 63 a = a \<Longrightarrow> take_bit 63 c = c \<Longrightarrow>
   foldl (append8 55 TT) (a XOR c) bs = mulx_pow (8 * length bs) a XOR foldl (append8 55 TT) c bs"
proof (induction bs arbitrary: a c)
  case Nil
  then show ?case by simp
next
  case (Cons b bs)
  have "append8 55 TT (a XOR c) b = mulx_pow 8 a XOR append8 55 TT c b"
    using Cons.prems by (simp add: append8_mulx mulx_pow_xor xor_rules del: mulx_pow.simps)
  with Cons show ?case
    by (simp add: append8_small mulx_pow_small mulx_pow_add del: mulx_pow.simps)
qed

lemma roll_small: "take_bit 63 (roll bs) = roll bs"
proof -
  have "take_bit 63 a = a \<Longrightarrow> take_bit 63 (foldl (append8 55 TT) a bs) = foldl (append8 55 TT) a bs" for a
    by (induction bs arbitrary: a) (auto simp: append8_small)
  then show ?thesis by (simp add: roll_def)
qed

text \<open>Removing the oldest byte of a full window and appending one.\<close>

lemma roll_slide:
  assumes "length bs = 47"
  shows "append8 55 TT (roll (b # bs) XOR UU ! unat b) m = roll (bs @ [m])"
proof -
  have b: "take_bit 63 (ucast b :: 64 word) = ucast b"
    by (rule bit_word_eqI) (auto simp: bit_simps dest: bit_imp_le_length)
  have "append8 55 TT 0 b = ucast b"
    using append8_mulx [of 0 b] mulx_pow_xor [of 8 0 0] by simp
  then have "roll (b # bs) = mulx_pow 376 (ucast b) XOR roll bs"
    using foldl_append8_xor [OF b, of 0 bs] assms by (simp add: roll_def)
  moreover have "UU ! unat b = mulx_pow 376 (ucast b)"
    using UU_nth [OF unat_less_256 [of b]] by simp
  ultimately have "roll (b # bs) XOR UU ! unat b = roll bs" by (simp add: xor_rules)
  then show ?thesis by (simp add: roll_def)
qed

section \<open>The ring buffer\<close>

definition window_of :: "rabin \<Rightarrow> byte list" where
  "window_of st = drop (nat (bufpos st + 1)) (wbuf st) @ take (nat (bufpos st + 1)) (wbuf st)"

definition rabin_ok :: "rabin \<Rightarrow> bool" where
  "rabin_ok st \<longleftrightarrow> shift st = 55 \<and> T st = TT \<and> U st = UU \<and> length (wbuf st) = 48 \<and>
     -1 \<le> bufpos st \<and> bufpos st < 48 \<and> fingerprint st = roll (window_of st)"

lemma slide8_spec:
  assumes "rabin_ok st"
  shows "rabin_ok (slide8 m st)" "window_of (slide8 m st) = tl (window_of st) @ [m]"
proof -
  define p where "p = (if bufpos st + 1 \<ge> 48 then 0 else nat (bufpos st + 1))"
  have st: "length (wbuf st) = 48" "shift st = 55" "T st = TT" "U st = UU"
    "fingerprint st = roll (window_of st)" "-1 \<le> bufpos st" "bufpos st < 48"
    using assms by (auto simp: rabin_ok_def)
  have p: "p < 48" using st by (auto simp: p_def)
  have w: "window_of st = wbuf st ! p # drop (Suc p) (wbuf st) @ take p (wbuf st)"
  proof (cases "bufpos st + 1 \<ge> 48")
    case True
    then have "nat (bufpos st + 1) = 48" "p = 0" using st by (auto simp: p_def)
    with st Cons_nth_drop_Suc [of 0 "wbuf st"] show ?thesis by (simp add: window_of_def)
  next
    case False
    then have "window_of st = drop p (wbuf st) @ take p (wbuf st)" by (simp add: window_of_def p_def)
    with p st show ?thesis by (simp add: Cons_nth_drop_Suc)
  qed
  let ?bp = "if bufpos st + 1 \<ge> int win_size then 0 else bufpos st + 1"
  have bp: "nat ?bp = p" "-1 \<le> ?bp" "?bp < 48" "nat (?bp + 1) = Suc p"
    using st by (auto simp: p_def win_size_def)
  have s: "bufpos (slide8 m st) = ?bp" "wbuf (slide8 m st) = (wbuf st)[p := m]"
    "fingerprint (slide8 m st) = append8 55 TT (fingerprint st XOR UU ! unat (wbuf st ! p)) m"
    "shift (slide8 m st) = 55" "T (slide8 m st) = TT" "U (slide8 m st) = UU"
    using st bp by (simp_all add: slide8_def Let_def append8_def)
  show w': "window_of (slide8 m st) = tl (window_of st) @ [m]"
  proof -
    have "window_of (slide8 m st) = drop (Suc p) (wbuf st) @ take p (wbuf st) @ [m]"
      using p st bp(4) by (simp add: window_of_def s take_Suc_conv_app_nth)
    then show ?thesis by (simp add: w)
  qed
  have "length (drop (Suc p) (wbuf st) @ take p (wbuf st)) = 47" using p st by simp
  from roll_slide [OF this, of "wbuf st ! p" m]
  have "fingerprint (slide8 m st) = roll (window_of (slide8 m st))"
    unfolding s w' st(5) by (simp add: w)
  then show "rabin_ok (slide8 m st)"
    using s st bp by (simp add: rabin_ok_def)
qed

lemma length_window_of: "rabin_ok st \<Longrightarrow> length (window_of st) = 48"
  by (simp add: window_of_def rabin_ok_def)

lemma append8_0: "append8 55 TT 0 0 = 0"
  using append8_mulx [of 0 0] mulx_pow_xor [of 8 0 0] by simp

lemma roll_zeros: "roll (replicate n 0) = 0"
  unfolding roll_def by (induction n) (simp_all add: append8_0)

lemma chunk_alg_init_ok:
  assumes "rabin_init_flag st \<Longrightarrow> rabin_ok st"
  shows "rabin_ok (chunk_alg_init st)" "window_of (chunk_alg_init st) = replicate 48 0"
    "rabin_init_flag (chunk_alg_init st)"
proof -
  have "bufpos (chunk_alg_init st) = (if rabin_init_flag st then bufpos st else -1)"
    "wbuf (chunk_alg_init st) = replicate 48 0" "fingerprint (chunk_alg_init st) = 0"
    by (auto simp: chunk_alg_init_def windows_reset_def window_init_def Let_def win_size_def)
  moreover have "shift (chunk_alg_init st) = 55 \<and> T (chunk_alg_init st) = TT \<and> U (chunk_alg_init st) = UU"
    using assms by (auto simp: chunk_alg_init_def windows_reset_def window_init_def Let_def
        shift_PT TT_def UU_def rabin_ok_def)
  moreover have "rabin_init_flag st \<Longrightarrow> -1 \<le> bufpos st \<and> bufpos st < 48"
    using assms by (simp add: rabin_ok_def)
  moreover from calculation show "window_of (chunk_alg_init st) = replicate 48 0"
    by (simp add: window_of_def flip: replicate_add)
  ultimately show "rabin_ok (chunk_alg_init st)" by (auto simp: rabin_ok_def roll_zeros)
  show "rabin_init_flag (chunk_alg_init st)"
    by (auto simp: chunk_alg_init_def windows_reset_def)
qed

text \<open>The window after a run of bytes is made of the last 48 of them.\<close>

definition last48 :: "byte list \<Rightarrow> byte list" where
  "last48 bs = drop (length bs - 48) bs"

lemma last48_snoc: "48 \<le> length bs \<Longrightarrow> last48 (bs @ [m]) = tl (last48 bs) @ [m]"
proof -
  assume "48 \<le> length bs"
  moreover then have "length (bs @ [m]) - 48 = Suc (length bs - 48)" by simp
  ultimately show ?thesis by (simp only: last48_def) (simp add: drop_Suc tl_drop)
qed

lemma last48_long: "48 \<le> length bs \<Longrightarrow> last48 (ws @ bs) = last48 bs"
  by (simp add: last48_def)

section \<open>Where a chunk ends\<close>

definition cut_point :: "byte list \<Rightarrow> nat \<Rightarrow> nat \<Rightarrow> bool" where
  "cut_point p n i \<longleftrightarrow> at_boundary (roll (last48 (take i p))) n i"

lemma at_boundary_prefix:
  assumes "length ws = 48" "i \<le> length p"
  shows "at_boundary (roll (last48 (ws @ take i p))) n i = cut_point p n i"
proof (cases "48 \<le> i")
  case True
  with assms show ?thesis by (simp add: cut_point_def last48_long)
next
  case False
  then show ?thesis by (simp add: cut_point_def at_boundary_def MIN_CHUNK_SIZE_def)
qed

lemma chunk_loop_spec:
  assumes "rabin_ok st" "length ws = 48" "window_of st = last48 (ws @ take (i - 1) p)"
    and "1 \<le> i" "i \<le> n" "n \<le> length p"
  shows "let (st', r) = chunk_loop p n i st in
     rabin_ok st' \<and> i \<le> r \<and> r \<le> n \<and> cut_point p n r \<and> (\<forall>j. i \<le> j \<and> j < r \<longrightarrow> \<not> cut_point p n j)"
  using assms
proof (induction p n i st rule: chunk_loop.induct)
  case (1 p n i st)
  let ?st = "slide8 (p ! (i - 1)) st"
  have ok: "rabin_ok ?st" using "1.prems" by (simp add: slide8_spec)
  have "take i p = take (i - 1) p @ [p ! (i - 1)]"
    using "1.prems" take_Suc_conv_app_nth [of "i - 1" p] by simp
  then have w: "window_of ?st = last48 (ws @ take (Suc i - 1) p)"
    using "1.prems" last48_snoc [of "ws @ take (i - 1) p" "p ! (i - 1)"] by (simp add: slide8_spec)
  then have b: "at_boundary (fingerprint ?st) n i = cut_point p n i"
    using ok "1.prems" at_boundary_prefix [of ws i p n] by (simp add: rabin_ok_def)
  show ?case
  proof (cases "cut_point p n i")
    case True
    with b ok "1.prems" show ?thesis
      by (auto simp: chunk_loop.simps [of p n i] Let_def)
  next
    case False
    then have "Suc i \<le> n" using "1.prems" by (auto simp: cut_point_def at_boundary_def)
    with "1.IH" [OF "1.prems"(5) refl _ ok "1.prems"(2) w] False b "1.prems" show ?thesis
      by (auto simp: chunk_loop.simps [of p n i] Let_def le_less_Suc_eq not_less_eq_eq
          dest: le_neq_implies_less)
  qed
qed

lemma chunk_data_first_cut:
  assumes "rabin_ok st" "1 \<le> n" "n \<le> length p" "chunk_data p n st = (st', r)"
  shows "rabin_ok st'" "1 \<le> r" "r \<le> n" "cut_point p n r" "\<forall>j. 1 \<le> j \<and> j < r \<longrightarrow> \<not> cut_point p n j"
proof -
  have w: "window_of st = last48 (window_of st @ take (1 - 1) p)"
    using assms(1) by (simp add: last48_def length_window_of)
  from chunk_loop_spec [OF assms(1) length_window_of [OF assms(1)] w _ assms(2,3)] assms(4)
  show "rabin_ok st'" "1 \<le> r" "r \<le> n" "cut_point p n r" "\<forall>j. 1 \<le> j \<and> j < r \<longrightarrow> \<not> cut_point p n j"
    by (auto simp: chunk_data_def)
qed

lemma first_cut_unique:
  fixes r r' :: nat
  assumes "P r" "\<forall>j. 1 \<le> j \<and> j < r \<longrightarrow> \<not> P j" "P r'" "\<forall>j. 1 \<le> j \<and> j < r' \<longrightarrow> \<not> P j" "1 \<le> r" "1 \<le> r'"
  shows "r = r'"
  using assms by (meson linorder_neqE_nat)

lemma cut_point_local:
  assumes "take k p = take k p'" "i \<le> k" "i < n" "i < n'"
  shows "cut_point p n i = cut_point p' n' i"
proof -
  have "take i p = take i p'" using assms(1,2) by (metis min_absorb2 take_take min.commute)
  with assms show ?thesis by (simp add: cut_point_def at_boundary_def)
qed

lemma start_ok: "rabin_ok (chunk_alg_init rabin_start)"
  by (rule chunk_alg_init_ok(1)) (simp add: rabin_start_def)

lemma length_calcT: "length (calcT p) = 256"
  by (simp add: calcT_def Let_def)

section \<open>Properties\<close>

text \<open>The table-driven step of the fingerprint is multiplication by x^8, bit by bit and reduced
  modulo the polynomial, plus the new byte; every table access is in bounds.\<close>

lemma append8_is_mulx:
  assumes "take_bit 63 p = p"
  shows "append8 (calcT_shift FINGERPRINT_PT) (calcT FINGERPRINT_PT) p m = mulx_pow 8 p XOR ucast m
    \<and> unat (drop_bit (calcT_shift FINGERPRINT_PT) p) < length (calcT FINGERPRINT_PT)"
  using append8_mulx [OF assms] drop55_less [OF assms] by (simp add: shift_PT TT_def length_calcT)

text \<open>C19: the rolling window. After \<open>slide8\<close> the ring buffer holds the last 48 bytes, and the
  fingerprint is the one computed from scratch over them; the buffer position, the window and
  the tables stay well formed.\<close>

theorem slide8_window:
  assumes "rabin_ok st"
  shows "rabin_ok (slide8 m st) \<and> window_of (slide8 m st) = tl (window_of st) @ [m] \<and>
    fingerprint (slide8 m st) =
      foldl (append8 (calcT_shift FINGERPRINT_PT) (calcT FINGERPRINT_PT)) 0 (tl (window_of st) @ [m])"
  using slide8_spec [OF assms, of m] by (simp add: rabin_ok_def roll_def shift_PT TT_def)

lemma slide8_window_witness:
  "window_of (slide8 5 (chunk_alg_init rabin_start)) = replicate 47 0 @ [5]"
proof -
  have "window_of (chunk_alg_init rabin_start) = replicate 48 0"
    by (rule chunk_alg_init_ok(2)) (simp add: rabin_start_def)
  moreover have "tl (replicate 48 (0 :: byte)) = replicate 47 0" by (simp add: tl_replicate)
  ultimately show ?thesis using slide8_window [OF start_ok, of 5] by simp
qed

text \<open>chunk boundaries depend on content alone. If a cut was made before the end of the data,
  then any other data with the same bytes up to the cut, more bytes behind it and any history of
  the rolling hash is cut at the same place.\<close>

lemma chunk_data_local:
  assumes "rabin_ok st" "rabin_ok st'" "n \<le> length p" "n' \<le> length p'"
    and "snd (chunk_data p n st) = r" "1 \<le> n" "r < n" "r < n'" "take r p = take r p'"
  shows "snd (chunk_data p' n' st') = r"
proof -
  obtain s where c: "chunk_data p n st = (s, r)" using assms(5) by (metis prod.collapse)
  obtain s' r' where c': "chunk_data p' n' st' = (s', r')" by fastforce
  have n': "1 \<le> n'" using assms by linarith
  note a = chunk_data_first_cut [OF assms(1,6,3) c]
  note b = chunk_data_first_cut [OF assms(2) n' assms(4) c']
  have eq: "cut_point p n i = cut_point p' n' i" if "i \<le> r" for i
    using cut_point_local [OF assms(9) that] that assms(7,8) by simp
  have "r' = r"
    by (rule first_cut_unique [of "cut_point p' n'"]) (use a b eq in auto)
  then show ?thesis by (simp add: c')
qed

lemma cut_zeros:
  assumes "rabin_ok st" "65536 < n"
  shows "snd (chunk_data (replicate n 0) n st) = 65536"
proof -
  obtain s r where c: "chunk_data (replicate n 0) n st = (s, r)" by fastforce
  have r: "cut_point (replicate n 0) n i = (65536 \<le> i)" if "i \<le> n" for i
    using that assms(2) by (auto simp: cut_point_def at_boundary_def last48_def roll_zeros
        MAX_CHUNK_SIZE_def MIN_CHUNK_SIZE_def BREAKMARK_VALUE_def)
  have "\<forall>j. 1 \<le> j \<and> j < 65536 \<longrightarrow> \<not> cut_point (replicate n 0) n j" "cut_point (replicate n 0) n 65536"
    using r assms(2) by auto
  with chunk_data_first_cut [OF assms(1) _ _ c] assms(2)
    first_cut_unique [of "cut_point (replicate n 0) n" r 65536]
  show ?thesis by (simp add: c)
qed

end
