(* ===== verification/Recipe.thy ===== *)
theory Recipe
  imports Prelude
begin

text \<open>
  The file recipe of the client (client/src/recipe.h and recipe.c): a file with its fingerprints
  and the list of its chunks, and a byte source for the functions that read files. The linked
  list \<open>first .. last\<close> of a \<open>FileInfo\<close> is a list here; the mutex of a chunk is not modelled.
\<close>

record fingerchunk =
  chunk_hash :: fingerprint
  fc_is_new :: int
  chunklen :: int
  fc_offset :: int
  fc_address :: chunkaddress

record fileinfo =
  file_hash :: fingerprint
  rep_finger :: fingerprint
  file_path :: "byte list"
  fi_is_new :: int
  file_size :: int
  chunknum :: int
  fchunks :: "fingerchunk list"

definition file_new :: fileinfo where
  "file_new = \<lparr>file_hash = memset0 20, rep_finger = memset0 20, file_path = memset0 256,
     fi_is_new = -1, file_size = 0, chunknum = 0, fchunks = []\<rparr>"

definition fingerchunk_new :: fingerchunk where
  "fingerchunk_new = \<lparr>chunk_hash = memset0 20, fc_is_new = NEW_CHUNK, chunklen = 0, fc_offset = 0,
     fc_address = memset0 64\<rparr>"

definition file_append_fingerchunk :: "fileinfo \<Rightarrow> fingerchunk \<Rightarrow> fileinfo" where
  "file_append_fingerchunk fi fc =
     fi\<lparr>fchunks := fchunks fi @ [fc], chunknum := chunknum fi + 1\<rparr>"

text \<open>The number of chunks a recipe claims is the number it holds.\<close>

definition recipe_ok :: "fileinfo \<Rightarrow> bool" where
  "recipe_ok fi \<longleftrightarrow> chunknum fi = int (length (fchunks fi))"

lemma recipe_ok_new [inv_intros]: "recipe_ok file_new"
  by (simp add: recipe_ok_def file_new_def)

lemma recipe_ok_append [inv_intros]: "recipe_ok fi \<Longrightarrow> recipe_ok (file_append_fingerchunk fi fc)"
  by (simp add: recipe_ok_def file_append_fingerchunk_def)

lemma fold_append_fingerchunk:
  "foldl file_append_fingerchunk fi fcs =
     fi\<lparr>fchunks := fchunks fi @ fcs, chunknum := chunknum fi + int (length fcs)\<rparr>"
  by (induction fcs arbitrary: fi) (auto simp: file_append_fingerchunk_def)

section \<open>A file open for reading\<close>

text \<open>
  The bytes not read yet and, possibly, the distance to a byte that cannot be read. \<open>file_readn\<close>
  is \<open>readn\<close> (client/lib/bnet.c) on such a descriptor: all of the \<open>n\<close> bytes, fewer at the end of
  the file, or \<open>ERROR\<close> (\<open>None\<close>) when the fault is among them.
\<close>

record fdesc =
  fd_data :: "byte list"
  fd_fault :: "nat option"

definition file_readn :: "nat \<Rightarrow> fdesc \<Rightarrow> byte list option \<times> fdesc" where
  "file_readn n fd =
     (case fd_fault fd of
        Some k \<Rightarrow> if k < min n (length (fd_data fd)) then (None, fd)
                  else (Some (take n (fd_data fd)), \<lparr>fd_data = drop n (fd_data fd), fd_fault = Some (k - n)\<rparr>)
      | None \<Rightarrow> (Some (take n (fd_data fd)), \<lparr>fd_data = drop n (fd_data fd), fd_fault = None\<rparr>))"

lemma file_readn_data:
  "file_readn n fd = (Some d, fd') \<Longrightarrow> d = take n (fd_data fd) \<and> fd_data fd' = drop n (fd_data fd)"
  by (auto simp: file_readn_def split: option.splits if_splits)

end
