(* ===== verification/Chunker.thy ===== *)
theory Chunker
  imports RabinWindow Recipe
begin

text \<open>
  \<open>chunk_file\<close> (client/src/backup.c): the file is read in blocks of \<open>MAX_CHUNK_SIZE\<close> into a buffer
  of twice that size, every block is cut by \<open>chunk_data\<close>, and what is left of a block without a
  boundary moves to the front of the buffer. The SHA-1 of OpenSSL that \<open>chunk_finger\<close> calls is
  the parameter \<open>fp\<close>.

  \<open>ref_chunks\<close> cuts the whole file at the first boundary of what remains. The lemmas show that
  \<open>chunk_file\<close> computes it: neither the blocks nor the state the fingerprint was left in matter.
\<close>

definition new_chunk :: "(byte list \<Rightarrow> fingerprint) \<Rightarrow> byte list \<Rightarrow> int \<Rightarrow> fingerchunk" where
  "new_chunk fp d off =
     fingerchunk_new\<lparr>chunk_hash := fp d, chunklen := int (length d), fc_offset := off\<rparr>"

text \<open>The loop \<open>while (len < srclen)\<close> over one buffer; the second result is what \<open>memmove\<close> keeps.\<close>

function cut_buffer ::
  "(byte list \<Rightarrow> fingerprint) \<Rightarrow> byte list \<Rightarrow> rabin \<Rightarrow> int \<Rightarrow> fileinfo
    \<Rightarrow> rabin \<times> byte list \<times> int \<times> fileinfo" where
  "cut_buffer fp p rst off fi =
     (if p = [] then (rst, [], off, fi)
      else let n = length p;
               r = chunk_data p n rst;
               size = snd r
           in if n = size \<and> n < MAX_CHUNK_SIZE then (fst r, p, off, fi)
              else cut_buffer fp (drop size p) (fst r) (off + int size)
                     (file_append_fingerchunk fi (new_chunk fp (take size p) off)))"
  by pat_completeness auto
termination
proof (relation "measure (\<lambda>(fp, p, rst, off, fi). length p)", goal_cases)
  case 1
  show ?case by simp
next
  case (2 fp p rst off fi x xa xb)
  then have "1 \<le> xb" using chunk_data_bounds(1) [of "length p" p rst]
    by (cases p) auto
  with 2 show ?case by simp
qed

declare cut_buffer.simps [simp del]

text \<open>
  The loop \<open>while (1)\<close> over the blocks: the bytes that the code after the loop turns into the last
  chunk, and where it starts.
\<close>

function read_loop ::
  "(byte list \<Rightarrow> fingerprint) \<Rightarrow> fdesc \<Rightarrow> byte list \<Rightarrow> rabin \<Rightarrow> int \<Rightarrow> fileinfo
    \<Rightarrow> rabin \<times> byte list \<times> int \<times> fileinfo" where
  "read_loop fp fd left rst off fi =
     (case file_readn MAX_CHUNK_SIZE fd of
        (None, fd') \<Rightarrow> (rst, left, off, fi)
      | (Some d, fd') \<Rightarrow>
          if d = [] then (rst, left, off, fi)
          else let src = left @ d
               in if length src < MIN_CHUNK_SIZE then (rst, src, off, fi)
                  else let (rst', left', off', fi') = cut_buffer fp src rst off fi
                       in read_loop fp fd' left' rst' off' fi')"
  by pat_completeness auto
termination
proof (relation "measure (\<lambda>(fp, fd, _). length (fd_data fd))", goal_cases)
  case 1
  show ?case by simp
next
  case (2 fp fd left rst off fi x y d)
  from file_readn_data [OF this(1) [symmetric, unfolded this(2)]] this(3) show ?case
    by (cases "fd_data fd") (auto simp: MAX_CHUNK_SIZE_def)
qed

declare read_loop.simps [simp del]

text \<open>The file is \<open>None\<close> when it cannot be opened. The result is the recipe and the return value.\<close>

definition chunk_file ::
  "(byte list \<Rightarrow> fingerprint) \<Rightarrow> fdesc option \<Rightarrow> rabin \<Rightarrow> fileinfo \<Rightarrow> rabin \<times> fileinfo \<times> int" where
  "chunk_file fp file rst fi =
     (let rst = chunk_alg_init rst in
      case file of
        None \<Rightarrow> (rst, fi, FAILURE)
      | Some fd \<Rightarrow>
          let (rst, more, off, fi) = read_loop fp fd [] rst 0 fi;
              fi = (if 0 < length more then file_append_fingerchunk fi (new_chunk fp more off) else fi)
          in (rst, fi, SUCCESS))"

section \<open>The reference chunking\<close>

definition first_cut :: "byte list \<Rightarrow> nat" where
  "first_cut p = hd (filter (cut_point p (length p)) [1..<Suc (length p)])"

function ref_chunks :: "byte list \<Rightarrow> byte list list" where
  "ref_chunks p = (if p = [] then [] else take (max 1 (first_cut p)) p # ref_chunks (drop (max 1 (first_cut p)) p))"
  by pat_completeness auto
termination by (relation "measure length") auto

declare ref_chunks.simps [simp del]

fun chunk_list :: "(byte list \<Rightarrow> fingerprint) \<Rightarrow> int \<Rightarrow> byte list list \<Rightarrow> fingerchunk list" where
  "chunk_list fp off [] = []"
| "chunk_list fp off (d # ds) = new_chunk fp d off # chunk_list fp (off + int (length d)) ds"

lemma first_cut_eqI:
  assumes "1 \<le> r" "r \<le> length p" "cut_point p (length p) r"
    "\<forall>j. 1 \<le> j \<and> j < r \<longrightarrow> \<not> cut_point p (length p) j"
  shows "first_cut p = r"
proof -
  have "[1..<Suc (length p)] = [1..<r] @ r # [Suc r..<Suc (length p)]"
    using assms(1,2) upt_add_eq_append [of 1 r "Suc (length p) - r"] upt_conv_Cons [of r "Suc (length p)"]
    by simp
  then have "filter (cut_point p (length p)) [1..<Suc (length p)] =
      filter (cut_point p (length p)) [1..<r] @ r # filter (cut_point p (length p)) [Suc r..<Suc (length p)]"
    using assms(3) by simp
  moreover have "filter (cut_point p (length p)) [1..<r] = []"
    using assms(4) by (auto simp: filter_empty_conv)
  ultimately show ?thesis by (simp only: first_cut_def) simp
qed

lemma chunk_data_first_cut':
  assumes "rabin_ok st" "p \<noteq> []"
  shows "rabin_ok (fst (chunk_data p (length p) st))" "snd (chunk_data p (length p) st) = first_cut p"
proof -
  obtain st' r where c: "chunk_data p (length p) st = (st', r)" by fastforce
  have "1 \<le> length p" using assms by (cases p) auto
  from chunk_data_first_cut [OF assms(1) this order_refl c] first_cut_eqI [of r p] c
  show "rabin_ok (fst (chunk_data p (length p) st))" "snd (chunk_data p (length p) st) = first_cut p"
    by auto
qed

lemma first_cut_bounds:
  assumes "p \<noteq> []"
  shows "1 \<le> first_cut p" "first_cut p \<le> length p" "first_cut p \<le> MAX_CHUNK_SIZE"
    "first_cut p < length p \<Longrightarrow> MIN_CHUNK_SIZE \<le> first_cut p"
proof -
  obtain st where st: "rabin_ok st" using start_ok by blast
  have "1 \<le> length p" using assms by (cases p) auto
  from chunk_data_bounds [OF this, of p st] chunk_data_first_cut'(2) [OF st assms]
  show "1 \<le> first_cut p" "first_cut p \<le> length p" "first_cut p \<le> MAX_CHUNK_SIZE"
    "first_cut p < length p \<Longrightarrow> MIN_CHUNK_SIZE \<le> first_cut p"
    by auto
qed

lemma first_cut_is_cut:
  assumes "p \<noteq> []"
  shows "cut_point p (length p) (first_cut p)"
    "\<forall>j. 1 \<le> j \<and> j < first_cut p \<longrightarrow> \<not> cut_point p (length p) j"
proof -
  obtain st where st: "rabin_ok st" using start_ok by blast
  have l: "1 \<le> length p" using assms by (cases p) auto
  obtain st' r where c: "chunk_data p (length p) st = (st', r)" by fastforce
  from chunk_data_first_cut [OF st l order_refl c] chunk_data_first_cut'(2) [OF st assms] c
  show "cut_point p (length p) (first_cut p)"
    "\<forall>j. 1 \<le> j \<and> j < first_cut p \<longrightarrow> \<not> cut_point p (length p) j"
    by auto
qed

lemma ref_chunks_Nil [simp]: "ref_chunks [] = []"
  by (simp add: ref_chunks.simps)

lemma ref_chunks_Cons:
  "p \<noteq> [] \<Longrightarrow> ref_chunks p = take (first_cut p) p # ref_chunks (drop (first_cut p) p)"
  using first_cut_bounds(1) [of p] by (subst ref_chunks.simps) (simp add: max_def)

text \<open>More bytes behind a cut do not move it.\<close>

lemma first_cut_append:
  assumes p: "p \<noteq> []" and c: "first_cut p < length p \<or> length p \<ge> MAX_CHUNK_SIZE"
  shows "first_cut (p @ q) = first_cut p"
proof (rule first_cut_eqI)
  have b: "1 \<le> first_cut p" "first_cut p \<le> length p" "first_cut p \<le> MAX_CHUNK_SIZE"
    using first_cut_bounds [OF p] by auto
  then show "1 \<le> first_cut p" "first_cut p \<le> length (p @ q)" by auto
  have eq: "cut_point (p @ q) (length (p @ q)) i = cut_point p (length p) i"
    if "i < length p" for i
    using that cut_point_local [of "length p" "p @ q" p i "length (p @ q)" "length p"] by simp
  show "\<forall>j. 1 \<le> j \<and> j < first_cut p \<longrightarrow> \<not> cut_point (p @ q) (length (p @ q)) j"
    using b eq first_cut_is_cut(2) [OF p] by auto
  show "cut_point (p @ q) (length (p @ q)) (first_cut p)"
  proof (cases "first_cut p < length p")
    case True
    with eq first_cut_is_cut(1) [OF p] show ?thesis by simp
  next
    case False
    with b c have "MAX_CHUNK_SIZE \<le> first_cut p" by linarith
    then show ?thesis by (simp add: cut_point_def at_boundary_def)
  qed
qed

lemma first_cut_short: "p \<noteq> [] \<Longrightarrow> length p < MIN_CHUNK_SIZE \<Longrightarrow> first_cut p = length p"
  using first_cut_bounds(2,4) [of p] by linarith

lemma ref_chunks_last: "p \<noteq> [] \<Longrightarrow> first_cut p = length p \<Longrightarrow> ref_chunks p = [p]"
  by (simp add: ref_chunks_Cons)

lemma ref_chunks_append:
  assumes "p \<noteq> []" "first_cut p < length p \<or> length p \<ge> MAX_CHUNK_SIZE"
  shows "ref_chunks (p @ q) = take (first_cut p) p # ref_chunks (drop (first_cut p) p @ q)"
  using assms first_cut_bounds(2) [of p] by (simp add: ref_chunks_Cons first_cut_append)

section \<open>The loops compute the reference\<close>

definition add_chunks :: "fileinfo \<Rightarrow> fingerchunk list \<Rightarrow> fileinfo" where
  "add_chunks fi fcs = fi\<lparr>fchunks := fchunks fi @ fcs, chunknum := chunknum fi + int (length fcs)\<rparr>"

lemma add_chunks_simps [simp]:
  "add_chunks fi [] = fi" "add_chunks (add_chunks fi xs) ys = add_chunks fi (xs @ ys)"
  "file_append_fingerchunk fi x = add_chunks fi [x]"
  by (simp_all add: add_chunks_def file_append_fingerchunk_def)

lemma chunk_list_append:
  "chunk_list fp off (xs @ ys) =
     chunk_list fp off xs @ chunk_list fp (off + int (length (concat xs))) ys"
  by (induction xs arbitrary: off) (auto simp: algebra_simps)

text \<open>What is carried from one block to the next: nothing, or bytes without a boundary.\<close>

definition carry_ok :: "byte list \<Rightarrow> bool" where
  "carry_ok left \<longleftrightarrow> left = [] \<or> (first_cut left = length left \<and> length left < MAX_CHUNK_SIZE)"

lemma carry_ok_ref: "carry_ok left \<Longrightarrow> ref_chunks left = (if left = [] then [] else [left])"
  by (auto simp: carry_ok_def ref_chunks_last)

lemma cut_buffer_spec:
  assumes "rabin_ok rst"
  shows "\<exists>rst' left cs.
     cut_buffer fp p rst off fi =
       (rst', left, off + int (length (concat cs)), add_chunks fi (chunk_list fp off cs)) \<and>
     rabin_ok rst' \<and> carry_ok left \<and> (\<forall>q. ref_chunks (p @ q) = cs @ ref_chunks (left @ q))"
  using assms
proof (induction "length p" arbitrary: p rst off fi rule: less_induct)
  case less
  show ?case
  proof (cases "p = []")
    case True
    with less.prems show ?thesis
      by (intro exI [of _ rst] exI [of _ "[]"] exI [of _ "[]"]) (simp add: cut_buffer.simps carry_ok_def)
  next
    case False
    let ?r = "chunk_data p (length p) rst"
    have r: "rabin_ok (fst ?r)" "snd ?r = first_cut p"
      using chunk_data_first_cut' less.prems False by auto
    show ?thesis
    proof (cases "length p = first_cut p \<and> length p < MAX_CHUNK_SIZE")
      case True
      with False r show ?thesis
        by (intro exI [of _ "fst ?r"] exI [of _ p] exI [of _ "[]"])
          (simp add: cut_buffer.simps [of fp p] carry_ok_def Let_def)
    next
      case c: False
      let ?d = "take (first_cut p) p" and ?p = "drop (first_cut p) p"
      let ?fi = "add_chunks fi [new_chunk fp ?d off]"
      have b: "1 \<le> first_cut p" "first_cut p \<le> length p" using first_cut_bounds [OF False] by auto
      then have "length ?p < length p" using False by auto
      from less.hyps [OF this r(1), of "off + int (first_cut p)" ?fi]
      obtain rst' left cs where IH: "cut_buffer fp ?p (fst ?r) (off + int (first_cut p)) ?fi =
          (rst', left, off + int (first_cut p) + int (length (concat cs)),
           add_chunks ?fi (chunk_list fp (off + int (first_cut p)) cs))"
        "rabin_ok rst'" "carry_ok left" "\<And>q. ref_chunks (?p @ q) = cs @ ref_chunks (left @ q)"
        by blast
      have "first_cut p < length p \<or> length p \<ge> MAX_CHUNK_SIZE" using c b by linarith
      then have "ref_chunks (p @ q) = (?d # cs) @ ref_chunks (left @ q)" for q
        by (simp only: ref_chunks_append [OF False] IH(4) append_Cons)
      moreover have "cut_buffer fp p rst off fi =
          (rst', left, off + int (length (concat (?d # cs))), add_chunks fi (chunk_list fp off (?d # cs)))"
      proof -
        have "cut_buffer fp p rst off fi = cut_buffer fp ?p (fst ?r) (off + int (first_cut p)) ?fi"
          using False c r(2) by (subst cut_buffer.simps) (simp only: Let_def r(2) if_False add_chunks_simps)
        also note IH(1)
        finally show ?thesis using b by (simp add: add.assoc)
      qed
      ultimately show ?thesis using IH(2,3)
        by (intro exI [of _ rst'] exI [of _ left] exI [of _ "?d # cs"]) blast
    qed
  qed
qed

lemma read_loop_spec:
  assumes "fd_fault fd = None" "rabin_ok rst" "carry_ok left"
  shows "\<exists>rst' more cs.
     read_loop fp fd left rst off fi =
       (rst', more, off + int (length (concat cs)), add_chunks fi (chunk_list fp off cs)) \<and>
     rabin_ok rst' \<and> ref_chunks (left @ fd_data fd) = cs @ (if more = [] then [] else [more])"
  using assms
proof (induction "length (fd_data fd)" arbitrary: fd left rst off fi rule: less_induct)
  case less
  let ?d = "take MAX_CHUNK_SIZE (fd_data fd)"
  let ?fd = "\<lparr>fd_data = drop MAX_CHUNK_SIZE (fd_data fd), fd_fault = None\<rparr>"
  have rd: "file_readn MAX_CHUNK_SIZE fd = (Some ?d, ?fd)"
    using less.prems(1) by (simp add: file_readn_def)
  have M: "0 < MAX_CHUNK_SIZE" "MIN_CHUNK_SIZE < MAX_CHUNK_SIZE"
    by (auto simp: MAX_CHUNK_SIZE_def MIN_CHUNK_SIZE_def)
  show ?case
  proof (cases "fd_data fd = []")
    case True
    with rd less.prems show ?thesis
      by (intro exI [of _ rst] exI [of _ left] exI [of _ "[]"])
        (simp add: read_loop.simps [of fp fd] carry_ok_ref)
  next
    case ne: False
    then have d: "?d \<noteq> []" using M by auto
    let ?src = "left @ ?d"
    show ?thesis
    proof (cases "length ?src < MIN_CHUNK_SIZE")
      case True
      then have "?d = fd_data fd" using M by auto
      moreover have "ref_chunks ?src = [?src]"
        using True d by (intro ref_chunks_last first_cut_short) auto
      ultimately show ?thesis using True rd d less.prems(2)
        by (intro exI [of _ rst] exI [of _ ?src] exI [of _ "[]"])
          (simp add: read_loop.simps [of fp fd])
    next
      case False
      from cut_buffer_spec [OF less.prems(2), of fp ?src off fi]
      obtain rst1 left1 cs1 where c: "cut_buffer fp ?src rst off fi =
          (rst1, left1, off + int (length (concat cs1)), add_chunks fi (chunk_list fp off cs1))"
        "rabin_ok rst1" "carry_ok left1" "\<And>q. ref_chunks (?src @ q) = cs1 @ ref_chunks (left1 @ q)"
        by blast
      have "length (fd_data ?fd) < length (fd_data fd)" using ne M by (cases "fd_data fd") auto
      from less.hyps [OF this _ c(2,3), of "off + int (length (concat cs1))"
          "add_chunks fi (chunk_list fp off cs1)"]
      obtain rst2 more cs2 where IH: "read_loop fp ?fd left1 rst1 (off + int (length (concat cs1)))
            (add_chunks fi (chunk_list fp off cs1)) =
          (rst2, more, off + int (length (concat cs1)) + int (length (concat cs2)),
           add_chunks fi (chunk_list fp off cs1 @ chunk_list fp (off + int (length (concat cs1))) cs2))"
        "rabin_ok rst2" "ref_chunks (left1 @ fd_data ?fd) = cs2 @ (if more = [] then [] else [more])"
        by auto
      have "ref_chunks (left @ fd_data fd) = ref_chunks (?src @ fd_data ?fd)" by simp
      also have "\<dots> = cs1 @ cs2 @ (if more = [] then [] else [more])"
        by (simp only: c(4) IH(3))
      finally show ?thesis using False d rd c(1) IH(1,2)
        by (intro exI [of _ rst2] exI [of _ more] exI [of _ "cs1 @ cs2"])
          (simp add: read_loop.simps [of fp fd] chunk_list_append)
    qed
  qed
qed

lemma chunk_file_eq:
  assumes "rabin_init_flag rst \<Longrightarrow> rabin_ok rst" "fd_fault fd = None"
  shows "\<exists>rst'. rabin_ok rst' \<and> chunk_file fp (Some fd) rst fi =
     (rst', add_chunks fi (chunk_list fp 0 (ref_chunks (fd_data fd))), SUCCESS)"
proof -
  have "carry_ok []" by (simp add: carry_ok_def)
  from read_loop_spec [OF assms(2) chunk_alg_init_ok(1) [OF assms(1)] this, of fp 0 fi]
  obtain rst' more cs where "read_loop fp fd [] (chunk_alg_init rst) 0 fi =
      (rst', more, int (length (concat cs)), add_chunks fi (chunk_list fp 0 cs))" "rabin_ok rst'"
    "ref_chunks (fd_data fd) = cs @ (if more = [] then [] else [more])"
    by auto
  then show ?thesis
    by (auto simp: chunk_file_def chunk_list_append)
qed

section \<open>What the recipe says of the file\<close>

lemma concat_ref_chunks: "concat (ref_chunks p) = p"
proof (induction "length p" arbitrary: p rule: less_induct)
  case less
  show ?case
  proof (cases "p = []")
    case False
    then have "length (drop (first_cut p) p) < length p"
      using first_cut_bounds(1) [OF False] by (cases p) auto
    with less False show ?thesis by (simp add: ref_chunks_Cons)
  qed simp
qed

lemma ref_chunks_sizes:
  "(\<forall>d\<in>set (ref_chunks p). 1 \<le> length d \<and> length d \<le> MAX_CHUNK_SIZE) \<and>
   (\<forall>d\<in>set (butlast (ref_chunks p)). MIN_CHUNK_SIZE \<le> length d)"
proof (induction "length p" arbitrary: p rule: less_induct)
  case less
  show ?case
  proof (cases "p = []")
    case False
    note b = first_cut_bounds [OF False]
    let ?p = "drop (first_cut p) p"
    have l: "length ?p < length p" using b(1) False by (cases p) auto
    from less [OF l] b False show ?thesis
      by (cases "?p = []") (auto simp: ref_chunks_Cons)
  qed simp
qed

lemma chunk_list_sum: "(\<Sum>fc\<leftarrow>chunk_list fp off ds. chunklen fc) = int (length (concat ds))"
  by (induction ds arbitrary: off) (auto simp: new_chunk_def)

lemma chunk_list_nth:
  assumes "i < length ds"
  shows "chunk_list fp off ds ! i = new_chunk fp (ds ! i) (off + int (length (concat (take i ds))))"
  using assms by (induction ds arbitrary: off i) (auto simp: nth_Cons algebra_simps split: nat.split)

lemma length_chunk_list [simp]: "length (chunk_list fp off ds) = length ds"
  by (induction ds arbitrary: off) auto

lemma concat_slice:
  assumes "i < length ds"
  shows "take (length (ds ! i)) (drop (length (concat (take i ds))) (concat ds)) = ds ! i"
proof -
  have "concat ds = concat (take i ds) @ ds ! i @ concat (drop (Suc i) ds)"
    using assms by (metis append_take_drop_id Cons_nth_drop_Suc concat.simps(2) concat_append)
  then show ?thesis by simp
qed

text \<open>A read fault in the file: the loop behaves as if the file ended at the last whole block before it.\<close>

lemma read_loop_fault:
  assumes "fd_fault fd = Some k" "k < length (fd_data fd)"
  shows "read_loop fp fd left rst off fi =
     read_loop fp \<lparr>fd_data = take (k div MAX_CHUNK_SIZE * MAX_CHUNK_SIZE) (fd_data fd), fd_fault = None\<rparr>
       left rst off fi"
  using assms
proof (induction fp fd left rst off fi arbitrary: k rule: read_loop.induct)
  case (1 fp fd left rst off fi)
  have M: "0 < MAX_CHUNK_SIZE" by (simp add: MAX_CHUNK_SIZE_def)
  show ?case
  proof (cases "k < MAX_CHUNK_SIZE")
    case True
    with 1 have "file_readn MAX_CHUNK_SIZE fd = (None, fd)" by (simp add: file_readn_def)
    with True show ?thesis
      by (simp add: read_loop.simps [of fp fd] read_loop.simps [of fp "\<lparr>fd_data = [], fd_fault = None\<rparr>"]
          file_readn_def)
  next
    case False
    let ?d = "take MAX_CHUNK_SIZE (fd_data fd)"
    let ?m = "k div MAX_CHUNK_SIZE * MAX_CHUNK_SIZE"
    let ?fd = "\<lparr>fd_data = drop MAX_CHUNK_SIZE (fd_data fd), fd_fault = Some (k - MAX_CHUNK_SIZE)\<rparr>"
    have rd: "file_readn MAX_CHUNK_SIZE fd = (Some ?d, ?fd)"
      using "1.prems" False by (simp add: file_readn_def)
    have m: "MAX_CHUNK_SIZE \<le> ?m" "(k - MAX_CHUNK_SIZE) div MAX_CHUNK_SIZE * MAX_CHUNK_SIZE = ?m - MAX_CHUNK_SIZE"
      using False M by (auto simp: le_div_geq)
    then have rd': "file_readn MAX_CHUNK_SIZE \<lparr>fd_data = take ?m (fd_data fd), fd_fault = None\<rparr> =
        (Some ?d, \<lparr>fd_data = take (?m - MAX_CHUNK_SIZE) (drop MAX_CHUNK_SIZE (fd_data fd)), fd_fault = None\<rparr>)"
      by (simp add: file_readn_def min_absorb1 drop_take)
    have d: "?d \<noteq> []" using M "1.prems" by auto
    have f: "fd_fault ?fd = Some (k - MAX_CHUNK_SIZE)" "k - MAX_CHUNK_SIZE < length (fd_data ?fd)"
      using "1.prems" False by auto
    show ?thesis
      using "1.IH" [OF rd [symmetric] refl d refl _ refl prod.collapse prod.collapse prod.collapse f]
        rd rd' d m(2)
      by (simp add: read_loop.simps [of fp fd] read_loop.simps [of fp "\<lparr>fd_data = take ?m (fd_data fd), fd_fault = None\<rparr>"]
          Let_def split_beta)
  qed
qed

section \<open>Properties\<close>

text \<open>C18: \<open>chunk_file\<close> on a readable file appends exactly the chunks of the reference chunking of the
  whole file, with their fingerprints, lengths and running offsets, and returns \<open>SUCCESS\<close>: the
  block-wise reading, the carried bytes and the state of the rolling hash do not show.\<close>

theorem chunk_file_reference:
  assumes "rabin_init_flag rst \<Longrightarrow> rabin_ok rst" "fd_fault fd = None"
  shows "snd (chunk_file fp (Some fd) rst fi) =
     (fi\<lparr>fchunks := fchunks fi @ chunk_list fp 0 (ref_chunks (fd_data fd)),
        chunknum := chunknum fi + int (length (ref_chunks (fd_data fd)))\<rparr>, SUCCESS)"
  using chunk_file_eq [OF assms, of fp fi] by (auto simp: add_chunks_def)

lemma chunk_file_reference_witness:
  "snd (chunk_file (\<lambda>d. take 20 d) (Some \<lparr>fd_data = [1, 2, 3], fd_fault = None\<rparr>) rabin_start file_new) =
     (file_new\<lparr>fchunks := chunk_list (\<lambda>d. take 20 d) 0 (ref_chunks [1, 2, 3]),
        chunknum := int (length (ref_chunks [1, 2, 3]))\<rparr>, SUCCESS)"
  using chunk_file_reference [of rabin_start "\<lparr>fd_data = [1, 2, 3], fd_fault = None\<rparr>" "\<lambda>d. take 20 d" file_new]
  by (simp add: rabin_start_def file_new_def)

text \<open>The recipe that \<open>chunk_file\<close> builds describes the file: the chunks lie end to end from
  offset 0 to the end of the file, each carries the fingerprint of the bytes at its offset, none
  is longer than 64 KB, and only the last one may be shorter than 2 KB.\<close>

lemma chunk_file_partition:
  assumes "rabin_init_flag rst \<Longrightarrow> rabin_ok rst" "fd_fault fd = None" "fchunks fi = []"
    "chunk_file fp (Some fd) rst fi = (rst', fi', r)"
  shows "r = SUCCESS \<and> (\<Sum>fc\<leftarrow>fchunks fi'. chunklen fc) = int (length (fd_data fd)) \<and>
    (\<forall>i<length (fchunks fi'). let fc = fchunks fi' ! i in
       fc_offset fc = (\<Sum>c\<leftarrow>take i (fchunks fi'). chunklen c) \<and>
       chunk_hash fc = fp (take (nat (chunklen fc)) (drop (nat (fc_offset fc)) (fd_data fd))) \<and>
       1 \<le> chunklen fc \<and> chunklen fc \<le> 65536 \<and>
       (Suc i < length (fchunks fi') \<longrightarrow> 2048 \<le> chunklen fc))"
proof -
  let ?ds = "ref_chunks (fd_data fd)"
  have f: "fchunks fi' = chunk_list fp 0 ?ds" "r = SUCCESS"
    using chunk_file_eq [OF assms(1,2), of fp fi] assms(3,4) by (auto simp: add_chunks_def)
  have t: "take i (chunk_list fp off ds) = chunk_list fp off (take i ds)" for i off ds
    by (induction ds arbitrary: i off) (auto simp: take_Cons split: nat.split)
  show ?thesis
  proof (intro conjI allI impI)
    fix i assume i: "i < length (fchunks fi')"
    then have i': "i < length ?ds" by (simp add: f)
    have in_bl: "?ds ! i \<in> set (butlast ?ds)" if "Suc i < length ?ds"
      using that by (metis One_nat_def less_diff_conv add.commute plus_1_eq_Suc length_butlast nth_butlast nth_mem)
    show "let fc = fchunks fi' ! i in fc_offset fc = (\<Sum>c\<leftarrow>take i (fchunks fi'). chunklen c) \<and>
       chunk_hash fc = fp (take (nat (chunklen fc)) (drop (nat (fc_offset fc)) (fd_data fd))) \<and>
       1 \<le> chunklen fc \<and> chunklen fc \<le> 65536 \<and>
       (Suc i < length (fchunks fi') \<longrightarrow> 2048 \<le> chunklen fc)"
      using i' ref_chunks_sizes [of "fd_data fd"] concat_slice [OF i'] in_bl
      by (auto simp: f t chunk_list_nth chunk_list_sum new_chunk_def concat_ref_chunks
          MAX_CHUNK_SIZE_def MIN_CHUNK_SIZE_def)
  qed (simp_all add: f chunk_list_sum concat_ref_chunks)
qed

text \<open>C20: a read error in the middle of a file is taken for its end. \<open>chunk_file\<close> still returns
  \<open>SUCCESS\<close>, with the recipe of the file cut at the last whole 64 KB block before the fault.\<close>

theorem chunk_file_read_fault:
  assumes "fd_fault fd = Some k" "k < length (fd_data fd)"
  shows "chunk_file fp (Some fd) rst fi =
      chunk_file fp (Some \<lparr>fd_data = take (k div 65536 * 65536) (fd_data fd), fd_fault = None\<rparr>) rst fi
    \<and> snd (snd (chunk_file fp (Some fd) rst fi)) = SUCCESS"
  using read_loop_fault [OF assms]
  by (simp add: chunk_file_def MAX_CHUNK_SIZE_def split: prod.split)

lemma chunk_file_read_fault_witness:
  "chunk_file (take 20) (Some \<lparr>fd_data = [1, 2, 3], fd_fault = Some 1\<rparr>) rabin_start file_new =
     chunk_file (take 20) (Some \<lparr>fd_data = [], fd_fault = None\<rparr>) rabin_start file_new"
  using chunk_file_read_fault [of "\<lparr>fd_data = [1, 2, 3], fd_fault = Some 1\<rparr>" 1 "take 20" rabin_start file_new]
  by simp

end
