(* ===== verification/Container.thy ===== *)
theory Container
  imports Htable
begin

text \<open>
  Containers (client/src/container.c, container.h): a buffer of 4 MB that collects chunks, a
  table from the fingerprint of a chunk to its offset and length, and their image in a file of
  the directory \<open>./tmp/\<close>. The hash of a \<open>ChunkAddr\<close> is the key of the table. Memory that C leaves
  uninitialised reads as zero. The upload of a container (\<open>cloud_upload\<close>)
  is in Cloud; \<open>SIMULATE\<close> is an argument.

  The lemmas show that no operation writes outside the 4 MB, that a chunk is read back as it was
  appended, and that writing a container and reading it back keeps its content.
\<close>

definition DEFAULT_CONTAINER_SIZE :: nat where "DEFAULT_CONTAINER_SIZE = 4 * 1024 * 1024"
definition container_valid :: int where "container_valid = 0xf5f5e4e4 - 2 ^ 32"
definition TmpPath :: "byte list" where "TmpPath = asc ''./tmp/''"

record chunk_addr =
  ca_offset :: int
  ca_length :: int

record chunk =
  ck_length :: int
  ck_hash :: fingerprint
  ck_address :: chunkaddress
  ck_data :: "byte list option"

record container =
  data_size :: int
  chunk_num :: int
  cname :: "byte list"
  meta_table :: "chunk_addr htable"
  data_buffer :: "byte list"

section \<open>Names and creation\<close>

text \<open>\<open>sprintf(name, "%011o%d", (int)time(NULL), randomabc)\<close> after \<open>randomabc += 1\<close>.\<close>

definition GetContainerName :: "int \<Rightarrow> nat \<Rightarrow> byte list \<times> nat" where
  "GetContainerName now randomabc =
     (let randomabc = randomabc + 1
      in (oct_digits 11 (nat (now mod 2 ^ 32)) @ dec_digits randomabc, randomabc))"

definition InitContainer :: "int \<Rightarrow> nat \<Rightarrow> (container \<times> nat) option" where
  "InitContainer now randomabc =
     (let (name, randomabc) = GetContainerName now randomabc in
      case htable_init FINGER_LENGTH 512 of
        None \<Rightarrow> None
      | Some t \<Rightarrow> Some (\<lparr>data_size = 0, chunk_num = 0, cname = strcpy_to (memset0 CHUNK_ADDRESS_LENGTH) name,
                         meta_table = t, data_buffer = memset0 DEFAULT_CONTAINER_SIZE\<rparr>, randomabc))"

section \<open>Chunks in memory\<close>

text \<open>The \<open>length\<close> bytes at \<open>data\<close>.\<close>

definition chunk_bytes :: "chunk \<Rightarrow> byte list" where
  "chunk_bytes ck = (case ck_data ck of None \<Rightarrow> [] | Some d \<Rightarrow> take (nat (ck_length ck)) d)"

text \<open>The test is unsigned: 32 bits wide on the left, 64 bits on the right.\<close>

definition container_full :: "container \<Rightarrow> int \<Rightarrow> bool" where
  "container_full c len \<longleftrightarrow>
     (32 + int (htable_size (meta_table c)) * 28 + data_size c) mod 2 ^ 32
       > (int DEFAULT_CONTAINER_SIZE - 28 - len - 1) mod 2 ^ 64"

definition AppendChunkToContainer :: "container \<Rightarrow> chunk \<Rightarrow> container \<times> bool" where
  "AppendChunkToContainer c ck =
     (if container_full c (ck_length ck) then (c, False)
      else let buf = memcpy_at (data_buffer c) (nat (data_size c)) (chunk_bytes ck);
               a = \<lparr>ca_offset = data_size c, ca_length = ck_length ck\<rparr>;
               size = data_size c + ck_length ck
           in (c\<lparr>data_buffer := buf[nat size := 9], data_size := size + 1,
                 meta_table := htable_insert (ck_hash ck) a (meta_table c),
                 chunk_num := chunk_num c + 1\<rparr>, True))"

definition buf_at :: "byte list \<Rightarrow> int \<Rightarrow> byte" where
  "buf_at b i = (if 0 \<le> i \<and> nat i < length b then b ! nat i else 0)"

definition slice :: "byte list \<Rightarrow> chunk_addr \<Rightarrow> byte list" where
  "slice b a = take (nat (ca_length a)) (drop (nat (ca_offset a)) b)"

definition ReadChunkFromContainer :: "container \<Rightarrow> chunk \<Rightarrow> chunk" where
  "ReadChunkFromContainer c ck =
     (case htable_lookup (meta_table c) (ck_hash ck) of
        None \<Rightarrow> ck\<lparr>ck_data := None\<rparr>
      | Some a \<Rightarrow>
          if ca_length a < 0 \<or> ca_offset a > data_size c \<or> ca_offset a < 0 then ck\<lparr>ck_data := None\<rparr>
          else let ck = ck\<lparr>ck_length := ca_length a\<rparr>
               in if buf_at (data_buffer c) (ca_offset a + ck_length ck) \<noteq> 9 then ck\<lparr>ck_data := None\<rparr>
                  else ck\<lparr>ck_data := Some (slice (data_buffer c) a)\<rparr>)"

section \<open>The image of a container\<close>

definition enc_addr :: "byte list \<times> chunk_addr \<Rightarrow> byte list" where
  "enc_addr ka = put_int 4 (ca_offset (snd ka)) @ put_int 4 (ca_length (snd ka)) @ fst ka"

definition dec_addr :: "byte list \<Rightarrow> byte list \<times> chunk_addr" where
  "dec_addr p = (take FINGER_LENGTH (drop 8 p), \<lparr>ca_offset = get_int 4 p, ca_length = get_int 4 (drop 4 p)\<rparr>)"

definition addr_fits :: "byte list \<times> chunk_addr \<Rightarrow> bool" where
  "addr_fits ka \<longleftrightarrow> length (fst ka) = FINGER_LENGTH \<and> fits 4 (ca_offset (snd ka)) \<and> fits 4 (ca_length (snd ka))"

definition container_image :: "bool \<Rightarrow> container \<Rightarrow> byte list" where
  "container_image simulate c =
     put_int 4 container_valid @ put_int 4 (chunk_num c) @ put_int 4 (data_size c)
     @ concat (map enc_addr (htable_items (meta_table c)))
     @ (if simulate then [] else take (nat (data_size c)) (data_buffer c))"

text \<open>The file is opened without \<open>O_TRUNC\<close>: what is longer than the image stays.\<close>

definition container_save :: "disk \<Rightarrow> byte list \<Rightarrow> byte list \<Rightarrow> disk \<times> int" where
  "container_save dk name d =
     (let path = TmpPath @ cstr name in
      if denied dk path then (dk, FAILURE) else (disk_pwrite dk path 0 d, SUCCESS))"

text \<open>\<open>WriteContainer\<close> does not look at the result of \<open>container_save\<close>.\<close>

definition WriteContainer :: "bool \<Rightarrow> disk \<Rightarrow> container \<Rightarrow> disk \<times> int" where
  "WriteContainer simulate dk c =
     (fst (container_save dk (cname c) (container_image simulate c)), SUCCESS)"

text \<open>The bytes of a file in a zeroed buffer of 4 MB.\<close>

definition bytes_at :: "byte list \<Rightarrow> nat \<Rightarrow> nat \<Rightarrow> byte list" where
  "bytes_at b off n = take n (drop off b @ replicate n 0)"

definition ReadContainer :: "disk \<Rightarrow> byte list \<Rightarrow> container \<Rightarrow> container \<times> int" where
  "ReadContainer dk name c =
     (let c = c\<lparr>cname := strcpy_to (memset0 CHUNK_ADDRESS_LENGTH) name\<rparr> in
      case files dk (TmpPath @ cstr name) of
        None \<Rightarrow> (c, FAILURE)
      | Some f \<Rightarrow>
          let p = take DEFAULT_CONTAINER_SIZE f in
          if get_int 4 p \<noteq> container_valid then (c, FAILURE)
          else let n = get_int 4 (drop 4 p);
                   size = get_int 4 (drop 8 p);
                   addrs = dec_many dec_addr 28 (nat n) (drop 12 p)
               in (c\<lparr>chunk_num := n, data_size := size,
                     meta_table := foldl (\<lambda>t (k, a). htable_insert k a t) (meta_table c) addrs,
                     data_buffer := memcpy_at (data_buffer c) 0 (bytes_at p (12 + 28 * nat n) (nat size))\<rparr>,
                   SUCCESS))"

definition get_container_size :: "disk \<Rightarrow> byte list \<Rightarrow> int" where
  "get_container_size dk name =
     (case files dk (TmpPath @ cstr name) of
        None \<Rightarrow> FAILURE
      | Some f \<Rightarrow> if get_int 4 f \<noteq> container_valid then -1
                  else int (length f) + get_int 4 (drop 8 f))"

section \<open>The restore cache\<close>

text \<open>
  A list of containers, most recently used first. \<open>search_cache\<close> moves the container of that
  name to the front, or else replaces the last one by a fresh container at the front.
\<close>

fun init_cache :: "nat \<Rightarrow> (nat \<Rightarrow> int) \<Rightarrow> nat \<Rightarrow> (container list \<times> nat) option" where
  "init_cache 0 clock r = Some ([], r)"
| "init_cache (Suc n) clock r =
     (case InitContainer (clock r) r of
        None \<Rightarrow> None
      | Some (c, r) \<Rightarrow> map_option (\<lambda>(cs, r). (c # cs, r)) (init_cache n clock r))"

fun cache_split :: "byte list \<Rightarrow> container list \<Rightarrow> container list \<Rightarrow> (container \<times> container list) option" where
  "cache_split name pre [] = None"
| "cache_split name pre (c # cs) =
     (if strcmp_eq (cname c) name then Some (c, rev pre @ cs) else cache_split name (c # pre) cs)"

definition search_cache ::
  "container list \<Rightarrow> byte list \<Rightarrow> (nat \<Rightarrow> int) \<Rightarrow> nat \<Rightarrow> (container list \<times> nat \<times> int) option" where
  "search_cache cs name clock r =
     (case cache_split name [] cs of
        Some (c, rest) \<Rightarrow> Some (c # rest, r, SUCCESS)
      | None \<Rightarrow>
          (case InitContainer (clock r) r of
             None \<Rightarrow> None
           | Some (c, r) \<Rightarrow> Some (c # butlast cs, r, FAILURE)))"

section \<open>Invariant\<close>

text \<open>
  Every entry of the table lies inside the used part of the buffer and is followed by the
  separator, the counters agree, and the image with its header still fits into 4 MB.
\<close>

definition entry_ok :: "container \<Rightarrow> chunk_addr \<Rightarrow> bool" where
  "entry_ok c a \<longleftrightarrow> 0 \<le> ca_offset a \<and> 0 \<le> ca_length a \<and> ca_offset a + ca_length a < data_size c \<and>
     data_buffer c ! nat (ca_offset a + ca_length a) = 9"

definition container_inv :: "container \<Rightarrow> bool" where
  "container_inv c \<longleftrightarrow>
     ht_inv 20 (meta_table c) \<and> chunk_num c = int (htable_size (meta_table c)) \<and>
     length (data_buffer c) = DEFAULT_CONTAINER_SIZE \<and> 0 \<le> data_size c \<and>
     32 + 28 * chunk_num c + data_size c \<le> int DEFAULT_CONTAINER_SIZE \<and>
     (\<forall>ka\<in>set (htable_items (meta_table c)). entry_ok c (snd ka))"

text \<open>The chunks a container holds, as pairs of fingerprint and bytes.\<close>

definition content :: "container \<Rightarrow> (fingerprint \<times> byte list) set" where
  "content c = (\<lambda>ka. (fst ka, slice (data_buffer c) (snd ka))) ` set (htable_items (meta_table c))"

lemma DCS [simp]: "DEFAULT_CONTAINER_SIZE = 4194304"
  by (simp add: DEFAULT_CONTAINER_SIZE_def)

lemma init_512: "htable_init 20 512 = Some (htable_of_pwr 20 8)"
proof -
  have "pwr_loop 128 0 = Some 8"
    by (simp add: pwr_loop.simps)
  then show ?thesis by (simp add: htable_init_def)
qed

lemma InitContainer_eq:
  "InitContainer now r = Some (\<lparr>data_size = 0, chunk_num = 0,
     cname = strcpy_to (memset0 64) (fst (GetContainerName now r)),
     meta_table = htable_of_pwr 20 8, data_buffer = memset0 DEFAULT_CONTAINER_SIZE\<rparr>, r + 1)"
  by (simp add: InitContainer_def GetContainerName_def init_512)

lemma container_inv_init [inv_intros]:
  "InitContainer now r = Some (c, r') \<Longrightarrow> container_inv c \<and> content c = {} \<and> r' = r + 1"
  by (auto simp: InitContainer_eq container_inv_def content_def)

lemma container_full_inv:
  assumes "container_inv c" "0 \<le> len" "len \<le> 65536"
  shows "container_full c len \<longleftrightarrow> 32 + 28 * (chunk_num c + 1) + (data_size c + len + 1) > int DEFAULT_CONTAINER_SIZE"
proof -
  have "0 \<le> chunk_num c" using assms(1) by (simp add: container_inv_def)
  then have "(32 + chunk_num c * 28 + data_size c) mod 2 ^ 32 = 32 + chunk_num c * 28 + data_size c"
    using assms(1) by (intro mod_pos_pos_trivial) (auto simp: container_inv_def)
  moreover have "(4194304 - 28 - len - 1) mod 2 ^ 64 = 4194304 - 28 - len - 1"
    using assms(2,3) by (intro mod_pos_pos_trivial) auto
  ultimately show ?thesis
    using assms(1) by (simp add: container_full_def container_inv_def) linarith
qed

lemma memcpy_at_slice:
  assumes "off + n \<le> pos" "pos + length d \<le> length b"
  shows "take n (drop off (memcpy_at b pos d)) = take n (drop off b)"
  using assms by (simp add: memcpy_at_def take_drop)

lemma memcpy_at_nth:
  assumes "i < pos" "pos \<le> length b"
  shows "memcpy_at b pos d ! i = b ! i"
  using assms by (simp add: memcpy_at_def nth_append)

lemma take_drop_update_after: "off + n \<le> i \<Longrightarrow> take n (drop off (b[i := x])) = take n (drop off b)"
  by (simp add: take_drop)

definition chunk_ok :: "chunk \<Rightarrow> bool" where
  "chunk_ok ck \<longleftrightarrow> 0 \<le> ck_length ck \<and> ck_length ck \<le> 65536 \<and> length (ck_hash ck) = 20 \<and>
     (\<exists>d. ck_data ck = Some d \<and> int (length d) \<ge> ck_length ck)"

lemma length_chunk_bytes: "chunk_ok ck \<Longrightarrow> length (chunk_bytes ck) = nat (ck_length ck)"
  by (auto simp: chunk_ok_def chunk_bytes_def)

lemma AppendChunk_spec:
  assumes c: "container_inv c" and ck: "chunk_ok ck"
  shows "container_inv (fst (AppendChunkToContainer c ck))"
    and "snd (AppendChunkToContainer c ck) \<Longrightarrow>
      content (fst (AppendChunkToContainer c ck)) = insert (ck_hash ck, chunk_bytes ck) (content c)"
    and "\<not> snd (AppendChunkToContainer c ck) \<Longrightarrow> fst (AppendChunkToContainer c ck) = c"
    and "cname (fst (AppendChunkToContainer c ck)) = cname c"
    and "snd (AppendChunkToContainer c ck) \<longleftrightarrow>
      32 + 28 * (chunk_num c + 1) + (data_size c + ck_length ck + 1) \<le> int DEFAULT_CONTAINER_SIZE"
proof -
  let ?r = "AppendChunkToContainer c ck" and ?n = "ck_length ck"
  have len: "0 \<le> ?n" "?n \<le> 65536" "length (ck_hash ck) = 20" using ck by (auto simp: chunk_ok_def)
  note full = container_full_inv [OF c len(1,2)]
  show "snd ?r \<longleftrightarrow> 32 + 28 * (chunk_num c + 1) + (data_size c + ?n + 1) \<le> int DEFAULT_CONTAINER_SIZE"
    using full by (auto simp: AppendChunkToContainer_def Let_def)
  show "\<not> snd ?r \<Longrightarrow> fst ?r = c" "cname (fst ?r) = cname c"
    by (auto simp: AppendChunkToContainer_def Let_def)
  have main: "container_inv (fst ?r) \<and> content (fst ?r) = insert (ck_hash ck, chunk_bytes ck) (content c)"
    if nf: "\<not> container_full c ?n"
  proof -
    define b where "b = memcpy_at (data_buffer c) (nat (data_size c)) (chunk_bytes ck)"
    define b' where "b' = b[nat (data_size c + ?n) := 9]"
    define a where "a = \<lparr>ca_offset = data_size c, ca_length = ?n\<rparr>"
    have r: "fst ?r = c\<lparr>data_buffer := b', data_size := data_size c + ?n + 1,
        meta_table := htable_insert (ck_hash ck) a (meta_table c), chunk_num := chunk_num c + 1\<rparr>"
      using nf by (simp add: AppendChunkToContainer_def Let_def a_def b_def b'_def)
    have I: "ht_inv 20 (meta_table c)" "chunk_num c = int (htable_size (meta_table c))"
      "length (data_buffer c) = 4194304" "0 \<le> data_size c"
      "\<forall>ka\<in>set (htable_items (meta_table c)). entry_ok c (snd ka)"
      using c by (auto simp: container_inv_def)
    have room: "nat (data_size c) + nat ?n < 4194304" "nat (data_size c + ?n) = nat (data_size c) + nat ?n"
      using nf full I(2,4) len by auto
    have lb: "length b = 4194304" "length b' = 4194304"
      using room I(3) by (auto simp: b_def b'_def length_chunk_bytes [OF ck])
    have items: "set (htable_items (htable_insert (ck_hash ck) a (meta_table c))) =
        insert (ck_hash ck, a) (set (htable_items (meta_table c)))"
      using I(1) len(3) by (simp add: set_htable_insert)
    have size: "htable_size (htable_insert (ck_hash ck) a (meta_table c)) = Suc (htable_size (meta_table c))"
      using I(1) len(3) by (simp add: htable_size_insert)
    have old: "slice b' a' = slice (data_buffer c) a'" "b' ! nat (ca_offset a' + ca_length a') = 9"
      if "entry_ok c a'" for a'
    proof -
      have le: "nat (ca_offset a') + nat (ca_length a') \<le> nat (data_size c)"
        "nat (ca_offset a' + ca_length a') < nat (data_size c)"
        using that by (auto simp: entry_ok_def)
      then show "slice b' a' = slice (data_buffer c) a'"
        using room I(3) by (simp add: slice_def b'_def b_def take_drop_update_after memcpy_at_slice
            length_chunk_bytes [OF ck])
      show "b' ! nat (ca_offset a' + ca_length a') = 9"
        unfolding b'_def b_def using le(2) room I(3) that
        by (subst nth_list_update_neq) (auto simp: memcpy_at_nth entry_ok_def simp del: nat_add_distrib)
    qed
    have new: "slice b' a = chunk_bytes ck" "b' ! nat (data_size c + ?n) = 9"
    proof -
      have "take (nat ?n) (drop (nat (data_size c)) b) = chunk_bytes ck"
        using room I(3) length_chunk_bytes [OF ck] by (simp add: b_def memcpy_at_def)
      then show "slice b' a = chunk_bytes ck"
        using room by (simp add: slice_def a_def b'_def take_drop_update_after)
      show "b' ! nat (data_size c + ?n) = 9" using lb room by (simp add: b'_def)
    qed
    have "content (fst ?r) = insert (ck_hash ck, chunk_bytes ck) (content c)"
      using I(5) old(1) new(1) by (auto simp: content_def r items image_iff) 
    moreover have "entry_ok (fst ?r) a"
      using len(1) I(4) new(2) by (simp add: entry_ok_def r a_def)
    moreover have "entry_ok (fst ?r) a'" if "entry_ok c a'" for a'
      using that old(2) [OF that] len(1) by (simp add: entry_ok_def r)
    ultimately show ?thesis
      using I nf full lb size len(1,3) items
      by (auto simp: container_inv_def r ht_inv_insert simp del: snd_conv) (auto simp: r)
  qed
  show "container_inv (fst ?r)"
    using main c by (cases "container_full c ?n") (auto simp: AppendChunkToContainer_def)
  show "snd ?r \<Longrightarrow> content (fst ?r) = insert (ck_hash ck, chunk_bytes ck) (content c)"
    using main by (auto simp: AppendChunkToContainer_def Let_def split: if_splits)
qed

section \<open>Reading a chunk\<close>

lemma content_entry:
  assumes "container_inv c" "(h, d) \<in> content c"
  shows "length h = 20" "length d < nat (data_size c)"
proof -
  obtain a where a: "(h, a) \<in> set (htable_items (meta_table c))" "d = slice (data_buffer c) a" "entry_ok c a"
    using assms by (auto simp: content_def container_inv_def)
  then show "length h = 20" using assms(1) htable_items_key [of 20 "meta_table c" "(h, a)"]
    by (simp add: container_inv_def)
  show "length d < nat (data_size c)" using a(2,3) by (auto simp: slice_def entry_ok_def)
qed

lemma ReadChunk_lookup:
  assumes "container_inv c" "length (ck_hash ck) = 20"
  shows "case htable_lookup (meta_table c) (ck_hash ck) of
      None \<Rightarrow> ReadChunkFromContainer c ck = ck\<lparr>ck_data := None\<rparr> \<and> ck_hash ck \<notin> fst ` content c
    | Some a \<Rightarrow> (ck_hash ck, slice (data_buffer c) a) \<in> content c \<and>
        ReadChunkFromContainer c ck = ck\<lparr>ck_length := int (length (slice (data_buffer c) a)),
          ck_data := Some (slice (data_buffer c) a)\<rparr>"
proof (cases "htable_lookup (meta_table c) (ck_hash ck)")
  case None
  have "fst ` content c = fst ` set (htable_items (meta_table c))"
    by (force simp: content_def)
  moreover have "ck_hash ck \<notin> fst ` set (htable_items (meta_table c))"
    using None assms htable_lookup_None [of 20 "meta_table c" "ck_hash ck"] by (simp add: container_inv_def)
  ultimately show ?thesis
    using None by (simp add: ReadChunkFromContainer_def)
next
  case (Some a)
  have I: "ht_inv 20 (meta_table c)" "length (data_buffer c) = 4194304" "data_size c \<le> 4194304"
    "\<forall>ka\<in>set (htable_items (meta_table c)). entry_ok c (snd ka)"
    using assms(1) by (auto simp: container_inv_def)
  then have a: "(ck_hash ck, a) \<in> set (htable_items (meta_table c))" "entry_ok c a"
    using htable_lookup_Some_items [OF I(1) assms(2) Some] by force+
  then have m: "(ck_hash ck, slice (data_buffer c) a) \<in> content c"
    by (force simp: content_def)
  have "nat (ca_offset a + ca_length a) < length (data_buffer c)" "0 \<le> ca_offset a + ca_length a"
    using a(2) I(2,3) by (auto simp: entry_ok_def)
  then have "buf_at (data_buffer c) (ca_offset a + ca_length a) = 9"
    using a(2) by (simp add: buf_at_def entry_ok_def)
  moreover have "int (length (slice (data_buffer c) a)) = ca_length a"
    using a(2) I(2,3) by (auto simp: slice_def entry_ok_def)
  ultimately show ?thesis using Some a(2) m
    by (auto simp: ReadChunkFromContainer_def entry_ok_def)
qed

text \<open>\<open>holds c h d\<close>: the container has chunks with the fingerprint \<open>h\<close>, and all of them are \<open>d\<close>.\<close>

definition holds :: "container \<Rightarrow> fingerprint \<Rightarrow> byte list \<Rightarrow> bool" where
  "holds c h d \<longleftrightarrow> (h, d) \<in> content c \<and> (\<forall>d'. (h, d') \<in> content c \<longrightarrow> d' = d)"

lemma ReadChunk_holds:
  assumes "container_inv c" "holds c (ck_hash ck) d"
  shows "ReadChunkFromContainer c ck = ck\<lparr>ck_length := int (length d), ck_data := Some d\<rparr>"
proof -
  have h: "(ck_hash ck, d) \<in> content c" "\<And>d'. (ck_hash ck, d') \<in> content c \<Longrightarrow> d' = d"
    using assms(2) by (auto simp: holds_def)
  then have i: "ck_hash ck \<in> fst ` content c" by force
  note r = ReadChunk_lookup [OF assms(1) content_entry(1) [OF assms(1) h(1)]]
  show ?thesis
  proof (cases "htable_lookup (meta_table c) (ck_hash ck)")
    case None
    with r i show ?thesis by simp
  next
    case (Some a)
    with r h(2) [of "slice (data_buffer c) a"] show ?thesis by simp
  qed
qed

section \<open>The image\<close>

interpretation addr_codec: fixed_codec enc_addr dec_addr 28 addr_fits
  by unfold_locales (auto simp: enc_addr_def dec_addr_def addr_fits_def)

lemma entry_fits:
  assumes "container_inv c" "ka \<in> set (htable_items (meta_table c))"
  shows "addr_fits ka"
proof -
  have "entry_ok c (snd ka)" "data_size c \<le> 4194304"
    using assms by (auto simp: container_inv_def)
  moreover have "length (fst ka) = 20"
    using assms htable_items_key [of 20 "meta_table c" ka] by (simp add: container_inv_def)
  ultimately show ?thesis by (auto simp: addr_fits_def entry_ok_def)
qed

lemma container_size_items:
  "container_inv c \<Longrightarrow> chunk_num c = int (length (htable_items (meta_table c)))"
  by (simp add: container_inv_def htable_size_def ht_inv_def)

lemma length_container_image:
  assumes "container_inv c"
  shows "int (length (container_image simulate c)) =
      12 + 28 * chunk_num c + (if simulate then 0 else data_size c)"
    and "length (container_image simulate c) < DEFAULT_CONTAINER_SIZE"
proof -
  let ?m = "concat (map enc_addr (htable_items (meta_table c)))"
  have "length ?m = 28 * length (htable_items (meta_table c))"
    using assms entry_fits by (intro addr_codec.enc_many_length) auto
  moreover have "nat (data_size c) \<le> length (data_buffer c)" "0 \<le> data_size c"
    using assms by (auto simp: container_inv_def)
  ultimately show l: "int (length (container_image simulate c)) =
      12 + 28 * chunk_num c + (if simulate then 0 else data_size c)"
    using container_size_items [OF assms] by (auto simp: container_image_def min_absorb2)
  then show "length (container_image simulate c) < DEFAULT_CONTAINER_SIZE"
    using assms by (auto simp: container_inv_def split: if_splits)
qed

lemma bytes_at_append: "length a = off \<Longrightarrow> n = length b \<Longrightarrow> bytes_at (a @ b @ r) off n = b"
  by (simp add: bytes_at_def)

lemma drop_append_exact': "length a = n \<Longrightarrow> drop (n + m) (a @ b) = drop m b"
  by simp

lemma ReadContainer_image:
  assumes c: "container_inv c" and c0: "container_inv c0" "content c0 = {}" "data_size c0 = 0"
    and f: "files dk (TmpPath @ cstr name) = Some (container_image False c @ r)"
    and res: "ReadContainer dk name c0 = (c', ret)"
  shows "ret = SUCCESS \<and> container_inv c' \<and> content c' = content c \<and>
    chunk_num c' = chunk_num c \<and> data_size c' = data_size c \<and>
    cname c' = strcpy_to (memset0 64) name"
proof -
  let ?items = "htable_items (meta_table c)"
  let ?n = "length ?items"
  let ?d = "take (nat (data_size c)) (data_buffer c)"
  have I: "length (data_buffer c) = 4194304" "0 \<le> data_size c" "chunk_num c = int ?n"
    "32 + 28 * chunk_num c + data_size c \<le> 4194304" "ht_inv 20 (meta_table c)"
    "\<forall>ka\<in>set ?items. entry_ok c (snd ka)"
    using c container_size_items [OF c] by (auto simp: container_inv_def)
  have J: "length (data_buffer c0) = 4194304" "ht_inv 20 (meta_table c0)" "htable_items (meta_table c0) = []"
    using c0 by (auto simp: container_inv_def content_def)
  define r' where "r' = take (4194304 - length (container_image False c)) r"
  define m where "m = concat (map enc_addr ?items)"
  have lm: "length m = 28 * ?n" unfolding m_def using c entry_fits by (intro addr_codec.enc_many_length) auto
  have p: "take 4194304 (container_image False c @ r) =
      put_int 4 container_valid @ put_int 4 (chunk_num c) @ put_int 4 (data_size c) @ m @ ?d @ r'"
  proof -
    have "take 4194304 (container_image False c @ r) = container_image False c @ r'"
      using length_container_image(2) [OF c, of False] by (simp add: r'_def)
    then show ?thesis by (simp only: container_image_def m_def if_False append_assoc)
  qed
  let ?p = "put_int 4 container_valid @ put_int 4 (chunk_num c) @ put_int 4 (data_size c) @ m @ ?d @ r'"
  have g: "get_int 4 ?p = container_valid" "get_int 4 (drop 4 ?p) = chunk_num c"
    "get_int 4 (drop 8 ?p) = data_size c" "drop 12 ?p = m @ ?d @ r'"
    using I(2-4) by (auto simp: container_valid_def)
  have many: "dec_many dec_addr 28 (nat (chunk_num c)) (m @ ?d @ r') = ?items"
    unfolding m_def I(3) nat_int using c entry_fits by (intro addr_codec.dec_enc_many) auto
  have data: "bytes_at ?p (12 + 28 * nat (chunk_num c)) (nat (data_size c)) = ?d"
    using bytes_at_append [of "put_int 4 container_valid @ put_int 4 (chunk_num c) @ put_int 4 (data_size c) @ m"
        "12 + 28 * nat (chunk_num c)" "nat (data_size c)" ?d r'] lm I by simp
  let ?b = "memcpy_at (data_buffer c0) 0 ?d"
  let ?t = "foldl (\<lambda>t (k, a). htable_insert k a t) (meta_table c0) ?items"
  have R: "ret = SUCCESS" "c' = c0\<lparr>cname := strcpy_to (memset0 64) name, chunk_num := chunk_num c,
      data_size := data_size c, meta_table := ?t, data_buffer := ?b\<rparr>"
    using res f g many data by (simp_all add: ReadContainer_def p Let_def del: take_append)
  have t: "ht_inv 20 ?t" "set (htable_items ?t) = set ?items" "htable_size ?t = ?n"
    using foldl_htable_insert [OF J(2), of ?items] htable_items_key [OF I(5)] J
    by (auto simp: htable_size_def ht_inv_def)
  have lb: "length ?b = 4194304" using I(1) J(1) I(4) I(3) by (subst length_memcpy_at) auto
  have same: "slice ?b a = slice (data_buffer c) a" "?b ! nat (ca_offset a + ca_length a) = 9"
    if "entry_ok c a" for a
  proof -
    have le: "nat (ca_offset a) + nat (ca_length a) \<le> nat (data_size c)"
      "nat (ca_offset a + ca_length a) < nat (data_size c)" "nat (data_size c) \<le> 4194304"
      using that I(2-4) by (auto simp: entry_ok_def)
    have "take (nat (data_size c)) ?b = ?d" using I(1) le(3) by (simp add: memcpy_at_def)
    then have t: "take k ?b = take k (data_buffer c)" if "k \<le> nat (data_size c)" for k
      using that by (metis min_absorb1 take_take)
    show "slice ?b a = slice (data_buffer c) a"
      using t [OF le(1)] by (simp add: slice_def take_drop add.commute)
    have "?b ! nat (ca_offset a + ca_length a) = data_buffer c ! nat (ca_offset a + ca_length a)"
      using le(2) \<open>take (nat (data_size c)) ?b = ?d\<close> by (metis nth_take)
    with that show "?b ! nat (ca_offset a + ca_length a) = 9" by (simp add: entry_ok_def)
  qed
  have "content c' = content c"
    using I(6) same(1) by (auto simp: content_def R t image_iff)
  moreover have "container_inv c'"
    using I t lb same(2) by (auto simp: container_inv_def R entry_ok_def)
  ultimately show ?thesis by (simp add: R)
qed

section \<open>Names and cache\<close>

lemma container_name_ok:
  "0 \<notin> set (fst (GetContainerName now r))"
  "r < 10 ^ 10 - 1 \<Longrightarrow> length (fst (GetContainerName now r)) \<le> 21"
proof -
  show "0 \<notin> set (fst (GetContainerName now r))"
    by (simp add: GetContainerName_def Let_def oct_digits_nonzero dec_digits_nonzero)
  assume "r < 10 ^ 10 - 1"
  then have "r + 1 < 10 ^ 10" by simp
  from length_dec_digits [OF this] show "length (fst (GetContainerName now r)) \<le> 21"
    by (simp add: GetContainerName_def Let_def)
qed

lemma container_name_inject:
  "fst (GetContainerName now r) = fst (GetContainerName now' r') \<Longrightarrow> r = r'"
  by (auto simp: GetContainerName_def Let_def dest: dec_digits_inject)

lemma cache_split_Some:
  "cache_split name pre cs = Some (c, rest) \<Longrightarrow>
   \<exists>a b. cs = a @ c # b \<and> rest = rev pre @ a @ b \<and> strcmp_eq (cname c) name \<and>
     (\<forall>x\<in>set a. \<not> strcmp_eq (cname x) name)"
proof (induction cs arbitrary: pre)
  case (Cons x cs)
  show ?case
  proof (cases "strcmp_eq (cname x) name")
    case True
    with Cons.prems show ?thesis by (intro exI [of _ "[]"] exI [of _ cs]) auto
  next
    case False
    with Cons.prems Cons.IH [of "x # pre"] obtain a b where "cs = a @ c # b"
      "rest = rev (x # pre) @ a @ b" "strcmp_eq (cname c) name" "\<forall>x\<in>set a. \<not> strcmp_eq (cname x) name"
      by auto
    with False show ?thesis by (intro exI [of _ "x # a"] exI [of _ b]) auto
  qed
qed simp

lemma cache_split_None:
  "cache_split name pre cs = None \<longleftrightarrow> (\<forall>c\<in>set cs. \<not> strcmp_eq (cname c) name)"
  by (induction cs arbitrary: pre) auto

lemma pwrite_0: "pwrite f 0 d = d @ drop (length d) f"
  by (simp add: pwrite_def)

section \<open>Properties\<close>

text \<open>\<open>AppendChunkToContainer\<close> keeps the container well formed, with all its writes inside the
  4 MB buffer; it takes the chunk exactly when header, table entry, bytes and separator still
  fit, adds just that chunk to the content, and changes nothing when it refuses.\<close>

lemma append_chunk_correct:
  assumes "container_inv c" "chunk_ok ck" "AppendChunkToContainer c ck = (c', taken)"
  shows "container_inv c' \<and>
    taken = (32 + 28 * (chunk_num c + 1) + (data_size c + ck_length ck + 1) \<le> 4194304) \<and>
    (if taken then content c' = insert (ck_hash ck, chunk_bytes ck) (content c) else c' = c)"
  using AppendChunk_spec [OF assms(1,2)] assms(3) by auto

definition demo_chunk :: "byte list \<Rightarrow> chunk" where
  "demo_chunk d = \<lparr>ck_length = int (length d), ck_hash = replicate 20 7, ck_address = memset0 64, ck_data = Some d\<rparr>"

lemma demo_chunk_ok: "length d \<le> 65536 \<Longrightarrow> chunk_ok (demo_chunk d)"
  by (simp add: demo_chunk_def chunk_ok_def)

definition demo_container :: container where
  "demo_container = fst (the (InitContainer 0 1))"

lemma demo_container: "InitContainer 0 1 = Some (demo_container, 2)"
  by (simp add: demo_container_def InitContainer_eq)

lemma demo_container_inv: "container_inv demo_container" "content demo_container = {}"
  using container_inv_init [OF demo_container] by auto

text \<open>a chunk is read back as it was stored: if all the chunks of the container with this
  fingerprint are \<open>d\<close>, \<open>ReadChunkFromContainer\<close> returns \<open>d\<close> and its length; for a fingerprint that
  the container does not have it returns no data.\<close>

lemma read_chunk_correct:
  assumes "container_inv c" "length (ck_hash ck) = 20"
  shows "(holds c (ck_hash ck) d \<longrightarrow>
      ReadChunkFromContainer c ck = ck\<lparr>ck_length := int (length d), ck_data := Some d\<rparr>) \<and>
    (ck_data (ReadChunkFromContainer c ck) = None \<longleftrightarrow> ck_hash ck \<notin> fst ` content c)"
proof -
  have "ck_data (ReadChunkFromContainer c ck) = None \<longleftrightarrow> ck_hash ck \<notin> fst ` content c"
    using ReadChunk_lookup [OF assms]
    by (cases "htable_lookup (meta_table c) (ck_hash ck)") force+
  with ReadChunk_holds [OF assms(1), of ck d] show ?thesis by blast
qed

text \<open>C21: the round trip through the disk. What \<open>WriteContainer\<close> writes fits into the 4 MB that
  \<open>ReadContainer\<close> reads, and reading it into a fresh container gives back a well-formed container
  with the same content, whatever longer file was there before.\<close>

theorem container_roundtrip:
  assumes "container_inv c" "InitContainer now r = Some (c0, r')"
    and "\<not> denied dk (TmpPath @ cstr (cname c))" "WriteContainer False dk c = (dk', s)"
  shows "\<exists>c'. ReadContainer dk' (cname c) c0 = (c', SUCCESS) \<and> container_inv c' \<and> content c' = content c"
proof -
  have c0: "container_inv c0" "content c0 = {}" "data_size c0 = 0"
    using assms(2) container_inv_init by (auto simp: InitContainer_eq)
  have f: "files dk' (TmpPath @ cstr (cname c)) = Some (container_image False c @
      drop (length (container_image False c)) (case files dk (TmpPath @ cstr (cname c)) of None \<Rightarrow> [] | Some f \<Rightarrow> f))"
    using assms(3,4) by (auto simp: WriteContainer_def container_save_def Let_def disk_pwrite_def pwrite_0)
  obtain c' ret where "ReadContainer dk' (cname c) c0 = (c', ret)" by fastforce
  with ReadContainer_image [OF assms(1) c0 f this] show ?thesis by blast
qed

lemma container_roundtrip_witness:
  "\<exists>c'. ReadContainer (fst (WriteContainer False \<lparr>files = \<lambda>_. None, denied = \<lambda>_. False\<rparr> demo_container))
      (cname demo_container) demo_container = (c', SUCCESS) \<and> content c' = {}"
  using container_roundtrip [OF demo_container_inv(1) demo_container _ prod.collapse [symmetric],
      of "\<lparr>files = \<lambda>_. None, denied = \<lambda>_. False\<rparr>"] demo_container_inv(2)
  by auto

text \<open>\<open>WriteContainer\<close> reports \<open>SUCCESS\<close> even when the file cannot be opened and nothing was
  written.\<close>

lemma write_container_denied:
  assumes "denied dk (TmpPath @ cstr (cname c))"
  shows "WriteContainer sim dk c = (dk, SUCCESS)"
  using assms by (simp add: WriteContainer_def container_save_def)

text \<open>The restore cache is a least-recently-used cache. A hit moves the first container of that
  name to the front and keeps the order of the others; a miss drops the last one and puts an
  empty container at the front.\<close>

lemma search_cache_lru:
  assumes "search_cache cs name clock r = Some (cs', r', res)"
  shows "(res = SUCCESS \<and> r' = r \<and> (\<exists>a c b. cs = a @ c # b \<and> cs' = c # a @ b \<and>
        strcmp_eq (cname c) name \<and> (\<forall>x\<in>set a. \<not> strcmp_eq (cname x) name)))
    \<or> (res = FAILURE \<and> r' = r + 1 \<and> (\<forall>x\<in>set cs. \<not> strcmp_eq (cname x) name) \<and>
        tl cs' = butlast cs \<and> container_inv (hd cs') \<and> content (hd cs') = {})"
proof (cases "cache_split name [] cs")
  case None
  with assms have "res = FAILURE" "r' = r + 1" "tl cs' = butlast cs"
    and c: "InitContainer (clock r) r = Some (hd cs', r')"
    by (auto simp: search_cache_def InitContainer_eq)
  with container_inv_init [OF c] None show ?thesis by (simp add: cache_split_None)
next
  case (Some x)
  obtain c rest where x: "x = (c, rest)" by (cases x)
  from cache_split_Some [OF Some [unfolded x]] Some x assms show ?thesis
    by (auto simp: search_cache_def)
qed

end
