(* ===== verification/Store.thy ===== *)
theory Store
  imports Container
begin

text \<open>
  The chunk store (client/src/store.c): \<open>store_chunk\<close> fills the current container and writes it
  when the next chunk does not fit, \<open>restore_chunk\<close> finds a chunk again through the cache of
  containers. The global variables are the fields of two records. \<open>clock r\<close> is what \<open>time(NULL)\<close>
  gives for the container name made when the counter \<open>randomabc\<close> is \<open>r\<close>. The download of a
  container from the cloud is the parameter \<open>fetch\<close>; the uploads are in Cloud.

  The lemmas give the store its contract: every chunk stored stays retrievable under the address
  it got, whatever is stored later, and \<open>restore_chunk\<close> returns its bytes.
\<close>

record store =
  st_disk :: disk
  st_container :: container
  randomabc :: nat
  clock :: "nat \<Rightarrow> int"

definition store_init :: "disk \<Rightarrow> nat \<Rightarrow> (nat \<Rightarrow> int) \<Rightarrow> store option" where
  "store_init dk r clk =
     map_option (\<lambda>(c, r'). \<lparr>st_disk = dk, st_container = c, randomabc = r', clock = clk\<rparr>)
       (InitContainer (clk r) r)"

definition store_chunk :: "bool \<Rightarrow> store \<Rightarrow> chunk \<Rightarrow> (store \<times> chunk \<times> int) option" where
  "store_chunk simulate st ck =
     (case AppendChunkToContainer (st_container st) ck of
        (c, True) \<Rightarrow> Some (st\<lparr>st_container := c\<rparr>, ck\<lparr>ck_address := cname c\<rparr>, SUCCESS)
      | (_, False) \<Rightarrow>
          let (dk, _) = WriteContainer simulate (st_disk st) (st_container st) in
          case InitContainer (clock st (randomabc st)) (randomabc st) of
            None \<Rightarrow> None
          | Some (c, r) \<Rightarrow>
              let (c, _) = AppendChunkToContainer c ck
              in Some (st\<lparr>st_disk := dk, st_container := c, randomabc := r\<rparr>,
                       ck\<lparr>ck_address := cname c\<rparr>, SUCCESS))"

definition store_destory :: "bool \<Rightarrow> store \<Rightarrow> store" where
  "store_destory simulate st =
     (if chunk_num (st_container st) > 0
      then st\<lparr>st_disk := fst (WriteContainer simulate (st_disk st) (st_container st))\<rparr> else st)"

section \<open>Restoring\<close>

record restore =
  rs_disk :: disk
  got_containers :: "unit htable"
  restore_cache :: "container list"
  rs_randomabc :: nat
  rs_clock :: "nat \<Rightarrow> int"
  download_size :: int
  download_count :: int

definition restore_init ::
  "nat \<Rightarrow> disk \<Rightarrow> nat \<Rightarrow> (nat \<Rightarrow> int) \<Rightarrow> int \<Rightarrow> int \<Rightarrow> restore option" where
  "restore_init cache_size dk r clk dsize dcount =
     (case htable_init CHUNK_ADDRESS_LENGTH 3200 of
        None \<Rightarrow> None
      | Some t \<Rightarrow>
          map_option (\<lambda>(cs, r'). \<lparr>rs_disk = dk, got_containers = t, restore_cache = cs, rs_randomabc = r',
              rs_clock = clk, download_size = dsize, download_count = dcount\<rparr>)
            (init_cache cache_size clk r))"

text \<open>The part of \<open>restore_chunk\<close> that runs when the container was not asked for before.\<close>

definition get_container ::
  "bool \<Rightarrow> (disk \<Rightarrow> byte list \<Rightarrow> byte list \<Rightarrow> disk \<times> bool) \<Rightarrow> restore \<Rightarrow> chunkaddress \<Rightarrow> restore \<times> int" where
  "get_container cloud fetch rs addr =
     (let path = TmpPath @ cstr addr;
          (rs, ok) = (if cloud
            then let (dk, ok) = fetch (rs_disk rs) path (asc ''/TCBackupTest/'' @ cstr addr)
                 in (rs\<lparr>rs_disk := dk\<rparr>, ok)
            else (rs\<lparr>download_size := download_size rs
                      + (case files (rs_disk rs) path of None \<Rightarrow> 0 | Some f \<Rightarrow> int (length f)),
                    download_count := download_count rs + 1\<rparr>, True))
      in if \<not> ok then (rs, FAILURE)
         else (rs\<lparr>got_containers := htable_insert addr () (got_containers rs)\<rparr>, SUCCESS))"

definition restore_chunk ::
  "bool \<Rightarrow> (disk \<Rightarrow> byte list \<Rightarrow> byte list \<Rightarrow> disk \<times> bool) \<Rightarrow> restore \<Rightarrow> chunk
    \<Rightarrow> (restore \<times> chunk \<times> int) option" where
  "restore_chunk cloud fetch rs ck =
     (let (rs, got) = (case htable_lookup (got_containers rs) (ck_address ck) of
                         None \<Rightarrow> get_container cloud fetch rs (ck_address ck)
                       | Some _ \<Rightarrow> (rs, SUCCESS))
      in if got = FAILURE then Some (rs, ck, FAILURE)
         else case search_cache (restore_cache rs) (ck_address ck) (rs_clock rs) (rs_randomabc rs) of
           None \<Rightarrow> None
         | Some (cs, r, hit) \<Rightarrow>
             let (c, ret) = (if hit = FAILURE then ReadContainer (rs_disk rs) (ck_address ck) (hd cs)
                             else (hd cs, SUCCESS));
                 rs = rs\<lparr>restore_cache := c # tl cs, rs_randomabc := r\<rparr>
             in if ret = FAILURE then Some (rs, ck, FAILURE)
                else let ck = ReadChunkFromContainer c ck
                     in Some (rs, ck, if ck_data ck = None then FAILURE else SUCCESS))"

section \<open>What the store holds\<close>

text \<open>
  \<open>on_disk dk addr S\<close>: the file of that container begins with the image of a well-formed
  container with the content \<open>S\<close>.
\<close>

definition on_disk :: "disk \<Rightarrow> chunkaddress \<Rightarrow> (fingerprint \<times> byte list) set \<Rightarrow> bool" where
  "on_disk dk addr S \<longleftrightarrow> (\<exists>c r. files dk (TmpPath @ cstr addr) = Some (container_image False c @ r) \<and>
     container_inv c \<and> content c = S)"

definition held :: "store \<Rightarrow> chunkaddress \<Rightarrow> (fingerprint \<times> byte list) set \<Rightarrow> bool" where
  "held st addr S \<longleftrightarrow> (if cstr addr = cstr (cname (st_container st)) then content (st_container st) = S
     else on_disk (st_disk st) addr S)"

definition fresh_name :: "store \<Rightarrow> nat \<Rightarrow> byte list" where
  "fresh_name st r = fst (GetContainerName (clock st r) r)"

definition store_ok :: "store \<Rightarrow> bool" where
  "store_ok st \<longleftrightarrow> container_inv (st_container st) \<and>
     (\<exists>r < randomabc st. cstr (cname (st_container st)) = fresh_name st r) \<and>
     length (cname (st_container st)) = 64 \<and>
     files (st_disk st) (TmpPath @ cstr (cname (st_container st))) = None \<and>
     (\<forall>r \<ge> randomabc st. files (st_disk st) (TmpPath @ fresh_name st r) = None) \<and>
     (\<forall>p. \<not> denied (st_disk st) p)"

lemma fresh_name_inject: "fresh_name st r = fresh_name st r' \<longleftrightarrow> r = r'"
  unfolding fresh_name_def using container_name_inject by blast

lemma InitContainer_name:
  assumes "InitContainer now r = Some (c, r')" "r < 2147483647"
  shows "cstr (cname c) = fst (GetContainerName now r)" "length (cname c) = 64"
proof -
  let ?n = "fst (GetContainerName now r)"
  have n: "0 \<notin> set ?n" "length ?n \<le> 21"
    using container_name_ok [where now = now and r = r] assms(2) by auto
  have "cname c = strcpy_to (memset0 64) (name_buf 0 ?n)"
    using assms(1) by (auto simp: InitContainer_eq name_buf_def)
  also have "\<dots> = name_buf 64 ?n" using n by (intro strcpy_to_zeroed) auto
  finally show "cstr (cname c) = fst (GetContainerName now r)" "length (cname c) = 64"
    using n by auto
qed

lemma store_init_ok:
  assumes "store_init dk r clk = Some st" "r < 2147483647" "\<forall>p. \<not> denied dk p"
    "\<forall>r' \<ge> r. files dk (TmpPath @ fst (GetContainerName (clk r') r')) = None"
  shows "store_ok st"
proof -
  obtain c where c: "InitContainer (clk r) r = Some (c, r + 1)"
    by (simp add: InitContainer_eq)
  with assms(1) have st: "st = \<lparr>st_disk = dk, st_container = c, randomabc = r + 1, clock = clk\<rparr>"
    by (simp add: store_init_def)
  from InitContainer_name [OF c assms(2)] container_inv_init [OF c] assms(3,4) show ?thesis
    by (auto simp: store_ok_def st fresh_name_def intro!: exI [of _ r])
qed

section \<open>Storing\<close>

lemma on_disk_write:
  assumes "container_inv c" "\<forall>p. \<not> denied dk p"
  shows "on_disk (fst (WriteContainer False dk c)) addr S \<longleftrightarrow>
     (if cstr addr = cstr (cname c) then S = content c else on_disk dk addr S)"
proof -
  let ?old = "case files dk (TmpPath @ cstr (cname c)) of None \<Rightarrow> [] | Some f \<Rightarrow> f"
  have f: "files (fst (WriteContainer False dk c)) =
      (files dk)(TmpPath @ cstr (cname c) \<mapsto> container_image False c @ drop (length (container_image False c)) ?old)"
    using assms(2) by (simp add: WriteContainer_def container_save_def Let_def disk_pwrite_def pwrite_0)
  show ?thesis
  proof (cases "cstr addr = cstr (cname c)")
    case True
    have "S = content c" if "on_disk (fst (WriteContainer False dk c)) addr S"
    proof -
      from that obtain c' r where c': "container_image False c @ drop (length (container_image False c)) ?old =
          container_image False c' @ r" "container_inv c'" "content c' = S"
        by (auto simp: on_disk_def f True)
      obtain c0 where c0: "container_inv c0" "content c0 = {}" "data_size c0 = 0"
        using container_inv_init [of 0 0] by (auto simp: InitContainer_eq)
      let ?dk = "\<lparr>files = \<lambda>_. Some (container_image False c' @ r), denied = \<lambda>_. False\<rparr>"
      obtain x ret where R: "ReadContainer ?dk [] c0 = (x, ret)" by fastforce
      have f1: "files ?dk (TmpPath @ cstr []) = Some (container_image False c' @ r)" by simp
      have f2: "files ?dk (TmpPath @ cstr []) =
          Some (container_image False c @ drop (length (container_image False c)) ?old)"
        using c'(1) by simp
      from ReadContainer_image [OF c'(2) c0 f1 R] ReadContainer_image [OF assms(1) c0 f2 R] c'(3)
      show ?thesis by simp
    qed
    moreover have "on_disk (fst (WriteContainer False dk c)) addr (content c)"
      using True assms(1) by (auto simp: on_disk_def f)
    ultimately show ?thesis using True by auto
  next
    case False
    then show ?thesis by (auto simp: on_disk_def f)
  qed
qed

lemma on_disk_unique: "on_disk dk addr S \<Longrightarrow> on_disk dk addr S' \<Longrightarrow> S = S'"
proof -
  assume "on_disk dk addr S" "on_disk dk addr S'"
  then obtain c r c' r' where "files dk (TmpPath @ cstr addr) = Some (container_image False c @ r)"
    "container_inv c" "content c = S" "files dk (TmpPath @ cstr addr) = Some (container_image False c' @ r')"
    "container_inv c'" "content c' = S'"
    by (auto simp: on_disk_def)
  moreover obtain c0 where c0: "container_inv c0" "content c0 = {}" "data_size c0 = 0"
    using container_inv_init [of 0 0] by (auto simp: InitContainer_eq)
  moreover obtain x ret where "ReadContainer dk addr c0 = (x, ret)" by fastforce
  ultimately show "S = S'" using ReadContainer_image by metis
qed

lemma files_write_other:
  "p \<noteq> TmpPath @ cstr (cname c) \<Longrightarrow> files (fst (WriteContainer sim dk c)) p = files dk p"
  by (auto simp: WriteContainer_def container_save_def Let_def disk_pwrite_def)

lemma denied_write [simp]: "denied (fst (WriteContainer sim dk c)) = denied dk"
  by (auto simp: WriteContainer_def container_save_def Let_def disk_pwrite_def)

lemma store_chunk_cases:
  assumes "store_ok st" "chunk_ok ck" "randomabc st < 2147483647"
    and "store_chunk False st ck = Some (st', ck', ret)"
  shows "ret = SUCCESS \<and> store_ok st' \<and> ck_address ck' = cname (st_container st') \<and>
    ck_hash ck' = ck_hash ck \<and> clock st' = clock st \<and> randomabc st \<le> randomabc st' \<and> randomabc st' \<le> randomabc st + 1 \<and>
    (\<exists>C. content (st_container st') = insert (ck_hash ck, chunk_bytes ck) C \<and>
      ((st_disk st' = st_disk st \<and> cname (st_container st') = cname (st_container st) \<and> C = content (st_container st)) \<or>
       (st_disk st' = fst (WriteContainer False (st_disk st) (st_container st)) \<and> C = {} \<and>
        cstr (cname (st_container st')) = fresh_name st (randomabc st))))"
proof -
  let ?a = "AppendChunkToContainer (st_container st) ck"
  have ci: "container_inv (st_container st)" using assms(1) by (simp add: store_ok_def)
  note A = AppendChunk_spec [OF ci assms(2)]
  show ?thesis
  proof (cases "snd ?a")
    case True
    then have eqs: "st' = st\<lparr>st_container := fst ?a\<rparr>" "ck' = ck\<lparr>ck_address := cname (fst ?a)\<rparr>" "ret = SUCCESS"
      using assms(4) by (auto simp: store_chunk_def split: prod.splits)
    have "store_ok st'"
      using assms(1) A(1,4) by (auto simp: store_ok_def eqs fresh_name_def)
    with True A(2,4) show ?thesis by (auto simp: eqs)
  next
    case False
    obtain c0 where c0: "InitContainer (clock st (randomabc st)) (randomabc st) = Some (c0, randomabc st + 1)"
      by (simp add: InitContainer_eq)
    have c0i: "container_inv c0" "content c0 = {}" using container_inv_init [OF c0] by auto
    let ?b = "AppendChunkToContainer c0 ck"
    let ?dk = "fst (WriteContainer False (st_disk st) (st_container st))"
    note B = AppendChunk_spec [OF c0i(1) assms(2)]
    have t: "snd ?b" using B(5) c0 assms(2) by (auto simp: InitContainer_eq chunk_ok_def)
    have eqs: "st' = st\<lparr>st_disk := ?dk, st_container := fst ?b, randomabc := randomabc st + 1\<rparr>"
        "ck' = ck\<lparr>ck_address := cname (fst ?b)\<rparr>" "ret = SUCCESS"
      using assms(4) False c0 by (auto simp: store_chunk_def Let_def split_beta split: prod.splits bool.splits)
    have n: "cstr (cname (fst ?b)) = fresh_name st (randomabc st)" "length (cname (fst ?b)) = 64"
      using InitContainer_name [OF c0 assms(3)] B(4) by (auto simp: fresh_name_def)
    obtain r0 where r0: "r0 < randomabc st" "cstr (cname (st_container st)) = fresh_name st r0"
      using assms(1) by (auto simp: store_ok_def)
    have other: "files ?dk (TmpPath @ fresh_name st r) = None" if "r \<ge> randomabc st" for r
    proof -
      have "fresh_name st r \<noteq> fresh_name st r0" using that r0(1) by (simp add: fresh_name_inject)
      with that r0(2) assms(1) show ?thesis
        by (subst files_write_other) (auto simp: store_ok_def)
    qed
    have "store_ok st'"
      using assms(1) B(1) n other by (auto simp: store_ok_def eqs fresh_name_def intro!: exI [of _ "randomabc st"])
    with B(2) [OF t] c0i(2) n show ?thesis by (auto simp: eqs)
  qed
qed

lemma held_store_chunk:
  assumes "store_ok st" "chunk_ok ck" "randomabc st < 2147483647"
    and "store_chunk False st ck = Some (st', ck', ret)"
    and "held st addr S"
  shows "held st' addr (if cstr addr = cstr (ck_address ck') then insert (ck_hash ck, chunk_bytes ck) S else S)"
proof -
  have ci: "container_inv (st_container st)" "\<forall>p. \<not> denied (st_disk st) p"
    "\<forall>r \<ge> randomabc st. files (st_disk st) (TmpPath @ fresh_name st r) = None"
    using assms(1) by (auto simp: store_ok_def)
  from store_chunk_cases [OF assms(1-4)] obtain C where
    C: "content (st_container st') = insert (ck_hash ck, chunk_bytes ck) C" "ck_address ck' = cname (st_container st')"
    and d: "(st_disk st' = st_disk st \<and> cname (st_container st') = cname (st_container st) \<and> C = content (st_container st)) \<or>
       (st_disk st' = fst (WriteContainer False (st_disk st) (st_container st)) \<and> C = {} \<and>
        cstr (cname (st_container st')) = fresh_name st (randomabc st))"
    by blast
  from d show ?thesis
  proof
    assume "st_disk st' = st_disk st \<and> cname (st_container st') = cname (st_container st) \<and> C = content (st_container st)"
    with C assms(5) show ?thesis by (auto simp: held_def split: if_splits)
  next
    assume n: "st_disk st' = fst (WriteContainer False (st_disk st) (st_container st)) \<and> C = {} \<and>
        cstr (cname (st_container st')) = fresh_name st (randomabc st)"
    show ?thesis
    proof (cases "cstr addr = fresh_name st (randomabc st)")
      case True
      have "cstr addr \<noteq> cstr (cname (st_container st))"
        using assms(1) True by (auto simp: store_ok_def fresh_name_inject)
      with assms(5) have "on_disk (st_disk st) addr S" by (simp add: held_def)
      with True ci(3) show ?thesis by (auto simp: on_disk_def)
    next
      case False
      with n C assms(5) show ?thesis
        by (auto simp: held_def on_disk_write [OF ci(1,2)] split: if_splits)
    qed
  qed
qed

lemma store_chunk_total: "\<exists>st' ck'. store_chunk sim st ck = Some (st', ck', SUCCESS)"
  by (auto simp: store_chunk_def InitContainer_eq Let_def split: prod.splits bool.splits)

text \<open>\<open>has st a h d\<close>: the chunk \<open>d\<close> with the fingerprint \<open>h\<close> is in the container \<open>a\<close>.\<close>

definition has :: "store \<Rightarrow> chunkaddress \<Rightarrow> fingerprint \<Rightarrow> byte list \<Rightarrow> bool" where
  "has st a h d \<longleftrightarrow> (\<exists>S. held st a S \<and> (h, d) \<in> S)"

definition on_disk_chunk :: "disk \<Rightarrow> chunkaddress \<Rightarrow> fingerprint \<Rightarrow> byte list \<Rightarrow> bool" where
  "on_disk_chunk dk a h d \<longleftrightarrow> (\<exists>S. on_disk dk a S \<and> (h, d) \<in> S)"

lemma has_store_chunk:
  assumes "store_ok st" "chunk_ok ck" "randomabc st < 2147483647"
    and "store_chunk False st ck = Some (st', ck', ret)"
  shows "has st' (ck_address ck') (ck_hash ck) (chunk_bytes ck)"
    and "has st a h d \<Longrightarrow> has st' a h d"
    and "has st' a h d \<Longrightarrow> has st a h d \<or> (h = ck_hash ck \<and> d = chunk_bytes ck)"
proof -
  from store_chunk_cases [OF assms] obtain C where
    C: "content (st_container st') = insert (ck_hash ck, chunk_bytes ck) C" "ck_address ck' = cname (st_container st')"
    and d: "(st_disk st' = st_disk st \<and> cname (st_container st') = cname (st_container st) \<and> C = content (st_container st)) \<or>
       (st_disk st' = fst (WriteContainer False (st_disk st) (st_container st)) \<and> C = {} \<and>
        cstr (cname (st_container st')) = fresh_name st (randomabc st))"
    by blast
  from C show "has st' (ck_address ck') (ck_hash ck) (chunk_bytes ck)"
    by (auto simp: has_def held_def)
  show "has st' a h d" if "has st a h d"
  proof -
    obtain S where S: "held st a S" "(h, d) \<in> S" using \<open>has st a h d\<close> by (auto simp: has_def)
    from held_store_chunk [OF assms S(1)] S(2) show ?thesis by (auto simp: has_def split: if_splits)
  qed
  show "has st a h d \<or> (h = ck_hash ck \<and> d = chunk_bytes ck)" if h: "has st' a h d"
  proof (cases "cstr a = cstr (cname (st_container st'))")
    case True
    with h C d show ?thesis by (auto simp: has_def held_def)
  next
    case False
    then have o: "\<exists>S. on_disk (st_disk st') a S \<and> (h, d) \<in> S" using h by (auto simp: has_def held_def)
    have ci: "container_inv (st_container st)" "\<forall>p. \<not> denied (st_disk st) p"
      using assms(1) by (auto simp: store_ok_def)
    from d show ?thesis
    proof
      assume "st_disk st' = st_disk st \<and> cname (st_container st') = cname (st_container st) \<and> C = content (st_container st)"
      with o False show ?thesis by (simp add: has_def held_def)
    next
      assume "st_disk st' = fst (WriteContainer False (st_disk st) (st_container st)) \<and> C = {} \<and>
        cstr (cname (st_container st')) = fresh_name st (randomabc st)"
      with o have "\<exists>S. (if cstr a = cstr (cname (st_container st)) then S = content (st_container st)
          else on_disk (st_disk st) a S) \<and> (h, d) \<in> S"
        by (simp add: on_disk_write [OF ci])
      then show ?thesis by (auto simp: has_def held_def split: if_splits)
    qed
  qed
qed

lemma store_destory_on_disk:
  assumes "store_ok st" "held st a S" "S \<noteq> {}"
  shows "on_disk (st_disk (store_destory False st)) a S"
proof -
  have ci: "container_inv (st_container st)" "\<forall>p. \<not> denied (st_disk st) p"
    using assms(1) by (auto simp: store_ok_def)
  have "chunk_num (st_container st) > 0" if "content (st_container st) = S"
  proof -
    have "htable_items (meta_table (st_container st)) \<noteq> []" using that assms(3) by (auto simp: content_def)
    then show ?thesis using container_size_items [OF ci(1)] by simp
  qed
  with assms(2) show ?thesis
    by (auto simp: store_destory_def held_def on_disk_write [OF ci] split: if_splits)
qed

section \<open>The contract of the store\<close>

text \<open>
  What the code that stores chunks relies on: a chunk is found at the address that \<open>put\<close> returned,
  nothing stored is lost, and nothing else appears. \<open>inv n\<close> leaves room for \<open>n\<close> more chunks.
\<close>

locale chunk_store =
  fixes inv :: "nat \<Rightarrow> 's \<Rightarrow> bool"
    and put :: "'s \<Rightarrow> chunk \<Rightarrow> 's \<times> chunkaddress"
    and at :: "'s \<Rightarrow> chunkaddress \<Rightarrow> fingerprint \<Rightarrow> byte list \<Rightarrow> bool"
    and addr_ok :: "chunkaddress \<Rightarrow> bool"
  assumes inv_put: "inv (Suc n) s \<Longrightarrow> chunk_ok ck \<Longrightarrow> inv n (fst (put s ck))"
    and inv_less: "inv (Suc n) s \<Longrightarrow> inv n s"
    and put_new: "inv (Suc n) s \<Longrightarrow> chunk_ok ck \<Longrightarrow>
      at (fst (put s ck)) (snd (put s ck)) (ck_hash ck) (chunk_bytes ck)"
    and put_addr: "inv (Suc n) s \<Longrightarrow> chunk_ok ck \<Longrightarrow> addr_ok (snd (put s ck))"
    and put_old: "inv (Suc n) s \<Longrightarrow> chunk_ok ck \<Longrightarrow> at s a h d \<Longrightarrow> at (fst (put s ck)) a h d"
    and put_only: "inv (Suc n) s \<Longrightarrow> chunk_ok ck \<Longrightarrow> at (fst (put s ck)) a h d \<Longrightarrow>
      at s a h d \<or> (h = ck_hash ck \<and> d = chunk_bytes ck)"
begin

primrec put_all :: "'s \<Rightarrow> chunk list \<Rightarrow> 's \<times> chunkaddress list" where
  "put_all s [] = (s, [])"
| "put_all s (ck # cks) = (let (s', a) = put s ck; (s'', as) = put_all s' cks in (s'', a # as))"

lemma put_all_spec:
  assumes "inv (length cks + n) s" "\<forall>ck\<in>set cks. chunk_ok ck" "put_all s cks = (s', as)"
  shows "inv n s' \<and> list_all2 (\<lambda>ck a. addr_ok a \<and> at s' a (ck_hash ck) (chunk_bytes ck)) cks as \<and>
    (\<forall>a h d. at s a h d \<longrightarrow> at s' a h d) \<and>
    (\<forall>a h d. at s' a h d \<longrightarrow> at s a h d \<or> (\<exists>ck\<in>set cks. h = ck_hash ck \<and> d = chunk_bytes ck))"
  using assms
proof (induction cks arbitrary: s as)
  case Nil
  then show ?case by simp
next
  case (Cons ck cks)
  obtain s1 a where p: "put s ck = (s1, a)" by fastforce
  obtain as' where q: "put_all s1 cks = (s', as')" and r: "as = a # as'"
    using Cons.prems(3) p by (auto split: prod.splits)
  have i: "inv (Suc (length cks + n)) s" "chunk_ok ck" using Cons.prems by auto
  have i1: "inv (length cks + n) s1" using inv_put [OF i] p by simp
  note IH = Cons.IH [OF i1 _ q]
  have "at s1 a (ck_hash ck) (chunk_bytes ck)" "addr_ok a"
    using put_new [OF i] put_addr [OF i] p by auto
  moreover have "\<And>a h d. at s a h d \<Longrightarrow> at s1 a h d" using put_old [OF i] p by auto
  moreover have "\<And>a h d. at s1 a h d \<Longrightarrow> at s a h d \<or> (h = ck_hash ck \<and> d = chunk_bytes ck)"
    using put_only [OF i] p by auto
  ultimately show ?case using IH Cons.prems(2) r
    by (simp add: p q) blast
qed

end

definition store_room :: "nat \<Rightarrow> store \<Rightarrow> bool" where
  "store_room n st \<longleftrightarrow> store_ok st \<and> randomabc st + n < 2147483648"

definition store_put :: "store \<Rightarrow> chunk \<Rightarrow> store \<times> chunkaddress" where
  "store_put st ck = (case store_chunk False st ck of
     Some (st', ck', _) \<Rightarrow> (st', ck_address ck') | None \<Rightarrow> (st, []))"

definition address_ok :: "chunkaddress \<Rightarrow> bool" where
  "address_ok a \<longleftrightarrow> length a = 64 \<and> length (cstr a) < 64"

lemma store_ok_address:
  assumes "store_ok st" "randomabc st < 2147483648"
  shows "address_ok (cname (st_container st))"
proof -
  obtain r where r: "r < randomabc st" "cstr (cname (st_container st)) = fresh_name st r"
    and l: "length (cname (st_container st)) = 64"
    using assms(1) by (auto simp: store_ok_def)
  have "r < 10 ^ 10 - 1" using r(1) assms(2) by simp
  then have "length (fresh_name st r) \<le> 21"
    unfolding fresh_name_def by (rule container_name_ok(2))
  with r l show ?thesis by (simp add: address_ok_def)
qed

interpretation cs: chunk_store store_room store_put has address_ok
proof unfold_locales
  fix n st ck a h d
  show "store_room (Suc n) st \<Longrightarrow> store_room n st" by (simp add: store_room_def)
  assume i: "store_room (Suc n) st" and ck: "chunk_ok ck"
  then have st: "store_ok st" "randomabc st < 2147483647" by (auto simp: store_room_def)
  obtain st' ck' where s: "store_chunk False st ck = Some (st', ck', SUCCESS)"
    using store_chunk_total by blast
  then have p: "store_put st ck = (st', ck_address ck')" by (simp add: store_put_def)
  note c = store_chunk_cases [OF st(1) ck st(2) s]
  have ok': "store_ok st'" "randomabc st' \<le> randomabc st + 1" "ck_address ck' = cname (st_container st')"
    using c by blast+
  then have r: "store_room n st'" using i by (auto simp: store_room_def)
  then show "store_room n (fst (store_put st ck))" by (simp add: p)
  have "address_ok (cname (st_container st'))"
    using r by (intro store_ok_address) (auto simp: store_room_def)
  then show "address_ok (snd (store_put st ck))" by (simp add: p ok'(3))
  note h = has_store_chunk [OF st(1) ck st(2) s]
  show "has (fst (store_put st ck)) (snd (store_put st ck)) (ck_hash ck) (chunk_bytes ck)"
    using h(1) by (simp add: p)
  show "has st a h d \<Longrightarrow> has (fst (store_put st ck)) a h d" using h(2) by (simp add: p)
  show "has (fst (store_put st ck)) a h d \<Longrightarrow> has st a h d \<or> (h = ck_hash ck \<and> d = chunk_bytes ck)"
    using h(3) by (simp add: p)
qed

section \<open>Restoring\<close>

definition cache_ok :: "restore \<Rightarrow> bool" where
  "cache_ok rs \<longleftrightarrow> restore_cache rs \<noteq> [] \<and> ht_inv 64 (got_containers rs) \<and>
     (\<forall>c\<in>set (restore_cache rs). container_inv c \<and> (\<forall>S. on_disk (rs_disk rs) (cname c) S \<longrightarrow> content c = S))"

lemma init_cache_spec:
  "\<exists>cs. init_cache n clk r = Some (cs, r + n) \<and> length cs = n \<and>
     (\<forall>c\<in>set cs. container_inv c \<and> (\<exists>r' \<ge> r. r' < r + n \<and> InitContainer (clk r') r' = Some (c, r' + 1)))"
proof (induction n arbitrary: r)
  case 0
  show ?case by simp
next
  case (Suc n)
  obtain c where c: "InitContainer (clk r) r = Some (c, r + 1)" by (simp add: InitContainer_eq)
  from Suc [of "r + 1"] obtain cs where cs: "init_cache n clk (r + 1) = Some (cs, r + 1 + n)" "length cs = n"
    "\<forall>c\<in>set cs. container_inv c \<and> (\<exists>r' \<ge> r + 1. r' < r + 1 + n \<and> InitContainer (clk r') r' = Some (c, r' + 1))"
    by blast
  have "\<exists>r' \<ge> r. r' < r + Suc n \<and> InitContainer (clk r') r' = Some (x, r' + 1)" if "x \<in> set (c # cs)" for x
    using that c cs(3) by (metis add_leD1 add_Suc_right add_Suc le_refl less_add_Suc1 plus_1_eq_Suc set_ConsD add.commute)
  with c cs container_inv_init [OF c] show ?case by (auto simp: InitContainer_eq)
qed

lemma htable_init_total: "0 \<le> tsize \<Longrightarrow> \<exists>t. htable_init n tsize = Some t \<and> ht_inv n t \<and> htable_items t = []"
proof -
  assume "0 \<le> tsize"
  then have "0 \<le> tsize div 4" by simp
  then obtain p where "pwr_loop (tsize div 4) 0 = Some p" using pwr_loop_total by blast
  then show ?thesis by (simp add: htable_init_def)
qed

lemma restore_init_ok:
  assumes "0 < m" "\<forall>r' \<ge> r. files dk (TmpPath @ fst (GetContainerName (clk r') r')) = None"
    and "r + m < 2147483647"
  shows "\<exists>rs. restore_init m dk r clk s n = Some rs \<and> cache_ok rs \<and> rs_disk rs = dk"
proof -
  obtain t :: "unit htable" where t: "htable_init 64 3200 = Some t" "ht_inv 64 t"
    using htable_init_total [of 3200 64] by auto
  from init_cache_spec [of m clk r] obtain cs where cs: "init_cache m clk r = Some (cs, r + m)" "length cs = m"
    "\<forall>c\<in>set cs. container_inv c \<and> (\<exists>r' \<ge> r. r' < r + m \<and> InitContainer (clk r') r' = Some (c, r' + 1))"
    by blast
  have "\<not> on_disk dk (cname c) S" if "c \<in> set cs" for c S
  proof -
    obtain r' where r': "r' \<ge> r" "r' < r + m" "InitContainer (clk r') r' = Some (c, r' + 1)" using bspec [OF cs(3) \<open>c \<in> set cs\<close>] by auto
    have "r' < 2147483647" using r'(2) assms(3) by linarith
    then have "cstr (cname c) = fst (GetContainerName (clk r') r')"
      by (rule InitContainer_name(1) [OF r'(3)])
    with assms(2) r'(1) show ?thesis by (auto simp: on_disk_def)
  qed
  with t cs assms(1) show ?thesis
    by (auto simp: restore_init_def cache_ok_def)
qed

lemma cstr_strcpy [simp]: "length (cstr a) < n \<Longrightarrow> cstr (strcpy_to (memset0 n) a) = cstr a"
proof -
  assume "length (cstr a) < n"
  moreover have "strcpy_to (memset0 n) a = strcpy_to (memset0 n) (name_buf 0 (cstr a))"
    by (simp only: strcpy_to_def cstr_name_buf [OF zero_not_in_cstr])
  ultimately show ?thesis using strcpy_to_zeroed [OF zero_not_in_cstr, of a n 0] by simp
qed

lemma on_disk_cong: "cstr a = cstr b \<Longrightarrow> on_disk dk a S = on_disk dk b S"
  by (simp add: on_disk_def)

lemma search_cache_total: "\<exists>cs' r' hit. search_cache cs a clk r = Some (cs', r', hit)"
  by (cases "cache_split a [] cs") (auto simp: search_cache_def InitContainer_eq)

lemma restore_chunk_spec:
  assumes ok: "cache_ok rs" and addr: "length (ck_address ck) = 64" "length (cstr (ck_address ck)) < 64"
    and S: "on_disk (rs_disk rs) (ck_address ck) S" "(ck_hash ck, d) \<in> S" "\<forall>d'. (ck_hash ck, d') \<in> S \<longrightarrow> d' = d"
  shows "\<exists>rs'. restore_chunk False fetch rs ck =
     Some (rs', ck\<lparr>ck_length := int (length d), ck_data := Some d\<rparr>, SUCCESS) \<and> cache_ok rs' \<and> rs_disk rs' = rs_disk rs"
proof -
  let ?a = "ck_address ck"
  obtain rs1 where rs1: "(case htable_lookup (got_containers rs) ?a of
        None \<Rightarrow> get_container False fetch rs ?a | Some _ \<Rightarrow> (rs, SUCCESS)) = (rs1, SUCCESS)"
      "cache_ok rs1" "rs_disk rs1 = rs_disk rs" "restore_cache rs1 = restore_cache rs"
  proof (cases "htable_lookup (got_containers rs) ?a")
    case None
    then show ?thesis
      using that ok addr(1) by (simp add: get_container_def Let_def cache_ok_def ht_inv_insert)
  next
    case (Some x)
    then show ?thesis using that ok by simp
  qed
  obtain cs r hit where sc: "search_cache (restore_cache rs1) ?a (rs_clock rs1) (rs_randomabc rs1) = Some (cs, r, hit)"
    using search_cache_total by blast
  define c where "c = (if hit = FAILURE then fst (ReadContainer (rs_disk rs1) ?a (hd cs)) else hd cs)"
  have cs_ok: "\<forall>c\<in>set (restore_cache rs1). container_inv c \<and> (\<forall>S. on_disk (rs_disk rs) (cname c) S \<longrightarrow> content c = S)"
    using rs1 ok by (simp add: cache_ok_def)
  have main: "container_inv c \<and> content c = S \<and> (\<forall>S'. on_disk (rs_disk rs) (cname c) S' \<longrightarrow> S' = S) \<and>
      set (tl cs) \<subseteq> set (restore_cache rs1) \<and>
      (if hit = FAILURE then ReadContainer (rs_disk rs1) ?a (hd cs) else (hd cs, SUCCESS)) = (c, SUCCESS)"
    using search_cache_lru [OF sc]
  proof
    assume h: "hit = SUCCESS \<and> r = rs_randomabc rs1 \<and> (\<exists>a c b. restore_cache rs1 = a @ c # b \<and> cs = c # a @ b \<and>
        strcmp_eq (cname c) ?a \<and> (\<forall>x\<in>set a. \<not> strcmp_eq (cname x) ?a))"
    then obtain a c1 b where c1: "restore_cache rs1 = a @ c1 # b" "cs = c1 # a @ b" "cstr (cname c1) = cstr ?a"
      by (auto simp: strcmp_eq_def)
    then have "on_disk (rs_disk rs) (cname c1) S"
      using S(1) on_disk_cong [OF c1(3)] by simp
    moreover have "c = c1" using h c1(2) by (simp add: c_def)
    moreover have "container_inv c1" "\<forall>S. on_disk (rs_disk rs) (cname c1) S \<longrightarrow> content c1 = S"
      using cs_ok c1(1) by auto
    ultimately show ?thesis using h c1(1,2) by (auto dest: on_disk_unique)
  next
    assume h: "hit = FAILURE \<and> r = rs_randomabc rs1 + 1 \<and> (\<forall>x\<in>set (restore_cache rs1). \<not> strcmp_eq (cname x) ?a) \<and>
        tl cs = butlast (restore_cache rs1) \<and> container_inv (hd cs) \<and> content (hd cs) = {}"
    have size: "data_size (hd cs) = 0"
      using sc h by (auto simp: search_cache_def InitContainer_eq split: option.splits prod.splits)
    obtain c1 r1 where c1: "files (rs_disk rs1) (TmpPath @ cstr ?a) = Some (container_image False c1 @ r1)"
      "container_inv c1" "content c1 = S"
      using S(1) rs1(3) by (auto simp: on_disk_def)
    obtain x ret where R: "ReadContainer (rs_disk rs1) ?a (hd cs) = (x, ret)" by fastforce
    have "container_inv (hd cs)" "content (hd cs) = {}" using h by auto
    from ReadContainer_image [OF c1(2) this size c1(1) R] c1(3)
    have x: "ret = SUCCESS" "container_inv x" "content x = S" "cname x = strcpy_to (memset0 64) ?a" by auto
    have u: "\<forall>S'. on_disk (rs_disk rs) (cname x) S' \<longrightarrow> S' = S"
    proof (intro allI impI)
      fix S' assume "on_disk (rs_disk rs) (cname x) S'"
      then have "on_disk (rs_disk rs) ?a S'" using on_disk_cong [of "cname x" ?a] addr(2) by (simp add: x(4))
      then show "S' = S" using S(1) by (rule on_disk_unique)
    qed
    have cx: "c = x" using h R by (simp add: c_def)
    have sub: "set (tl cs) \<subseteq> set (restore_cache rs1)" using h by (auto dest: in_set_butlastD)
    show ?thesis unfolding cx by (intro conjI x(2,3) u sub) (use h R x(1) in simp)
  qed
  let ?rs = "rs1\<lparr>restore_cache := c # tl cs, rs_randomabc := r\<rparr>"
  have m: "container_inv c" "content c = S" "set (tl cs) \<subseteq> set (restore_cache rs1)"
    "(if hit = FAILURE then ReadContainer (rs_disk rs1) ?a (hd cs) else (hd cs, SUCCESS)) = (c, SUCCESS)"
    "\<And>S'. on_disk (rs_disk rs) (cname c) S' \<Longrightarrow> S' = S"
    using main by blast+
  have "holds c (ck_hash ck) d" unfolding holds_def m(2) using S(2,3) by blast
  then have "ReadChunkFromContainer c ck = ck\<lparr>ck_length := int (length d), ck_data := Some d\<rparr>"
    by (rule ReadChunk_holds [OF m(1)])
  then have "restore_chunk False fetch rs ck = Some (?rs, ck\<lparr>ck_length := int (length d), ck_data := Some d\<rparr>, SUCCESS)"
    using m(4) by (simp add: restore_chunk_def rs1(1) sc)
  moreover have "cache_ok ?rs"
  proof -
    have "container_inv x \<and> (\<forall>S. on_disk (rs_disk rs) (cname x) S \<longrightarrow> content x = S)"
      if "x \<in> set (c # tl cs)" for x
    proof (cases "x = c")
      case True
      with m(1,2) show ?thesis using m(5) by blast
    next
      case False
      with that m(3) cs_ok show ?thesis by auto
    qed
    with rs1(2,3) show ?thesis by (simp add: cache_ok_def)
  qed
  ultimately show ?thesis using rs1(3) by auto
qed

lemma restore_held:
  assumes "store_ok st" "has st a h d" "\<And>d'. has st a h d' \<Longrightarrow> d' = d" "address_ok a"
    and "cache_ok rs" "rs_disk rs = st_disk (store_destory False st)"
  shows "\<exists>rs'. restore_chunk False fetch rs (ck\<lparr>ck_hash := h, ck_address := a\<rparr>) =
     Some (rs', ck\<lparr>ck_hash := h, ck_address := a, ck_length := int (length d), ck_data := Some d\<rparr>, SUCCESS) \<and>
     cache_ok rs' \<and> rs_disk rs' = rs_disk rs"
proof -
  obtain S where S: "held st a S" "(h, d) \<in> S" using assms(2) by (auto simp: has_def)
  then have o: "on_disk (rs_disk rs) a S"
    using store_destory_on_disk [OF assms(1) S(1)] assms(6) by auto
  define ck' where "ck' = ck\<lparr>ck_hash := h, ck_address := a\<rparr>"
  have ck': "ck_hash ck' = h" "ck_address ck' = a" by (simp_all add: ck'_def)
  have u: "\<forall>d'. (ck_hash ck', d') \<in> S \<longrightarrow> d' = d"
    unfolding ck' using S(1) assms(3) unfolding has_def by blast
  have p: "length (ck_address ck') = 64" "length (cstr (ck_address ck')) < 64"
    "on_disk (rs_disk rs) (ck_address ck') S" "(ck_hash ck', d) \<in> S"
    unfolding ck' using assms(4) o S(2) by (auto simp: address_ok_def)
  from restore_chunk_spec [OF assms(5) p u, of fetch] show ?thesis by (simp add: ck'_def)
qed

section \<open>Properties\<close>

text \<open>C10: \<open>store_chunk\<close> always succeeds; the chunk is then found in the container whose name it
  returns as the address, every chunk stored before stays where it was - in memory or on disk,
  also when the full container is written and a new one begun - and nothing else appears.\<close>

theorem store_chunk_contract:
  assumes "store_ok st" "chunk_ok ck" "randomabc st < 2147483647"
  shows "\<exists>st' ck'. store_chunk False st ck = Some (st', ck', SUCCESS) \<and> store_ok st' \<and>
     address_ok (ck_address ck') \<and> has st' (ck_address ck') (ck_hash ck) (chunk_bytes ck) \<and>
     (\<forall>a h d. has st a h d \<longrightarrow> has st' a h d) \<and>
     (\<forall>a h d. has st' a h d \<longrightarrow> has st a h d \<or> (h = ck_hash ck \<and> d = chunk_bytes ck))"
proof -
  obtain st' ck' where s: "store_chunk False st ck = Some (st', ck', SUCCESS)"
    using store_chunk_total by blast
  have r: "store_room (Suc 0) st" using assms(1,3) by (simp add: store_room_def)
  have p: "store_put st ck = (st', ck_address ck')" by (simp add: store_put_def s)
  from s cs.inv_put [OF r assms(2)] cs.put_new [OF r assms(2)] cs.put_addr [OF r assms(2)]
    cs.put_old [OF r assms(2)] cs.put_only [OF r assms(2)]
  show ?thesis by (simp add: p store_room_def) 
qed

definition demo_store :: store where "demo_store = the (store_init empty_disk 1 (\<lambda>_. 0))"

lemma demo_store: "store_init empty_disk 1 (\<lambda>_. 0) = Some demo_store"
  by (simp add: demo_store_def store_init_def InitContainer_eq)

lemma demo_store_fields [simp]: "randomabc demo_store = 2" "clock demo_store = (\<lambda>_. 0)"
  "st_disk demo_store = empty_disk" "content (st_container demo_store) = {}"
  using container_inv_init [of 0 1]
  by (simp_all add: demo_store_def store_init_def InitContainer_eq)

lemma demo_store_ok: "store_ok demo_store"
  by (rule store_init_ok [OF demo_store]) (simp_all add: empty_disk_def)

lemma store_chunk_contract_witness:
  "\<exists>st' ck'. store_chunk False demo_store (demo_chunk [1, 2, 3]) = Some (st', ck', SUCCESS) \<and>
     has st' (ck_address ck') (replicate 20 7) [1, 2, 3]"
proof -
  have h: "ck_hash (demo_chunk [1, 2, 3]) = replicate 20 7" "chunk_bytes (demo_chunk [1, 2, 3]) = [1, 2, 3]"
    by (simp_all add: demo_chunk_def chunk_bytes_def)
  have r: "randomabc demo_store < 2147483647" "chunk_ok (demo_chunk [1, 2, 3])"
    using demo_chunk_ok [of "[1, 2, 3]"] by simp_all
  from store_chunk_contract [OF demo_store_ok r(2,1)] show ?thesis unfolding h by blast
qed

text \<open>C7: store, close, restore. After any sequence of chunks was stored and the store closed,
  \<open>restore_chunk\<close> with the fingerprint and the address of any of them returns its bytes, through any
  well-formed cache, and keeps the cache well formed - provided that equal fingerprints mean
  equal bytes.\<close>

theorem store_restore:
  assumes "store_room (length cks) st" "\<forall>ck\<in>set cks. chunk_ok ck" "cs.put_all st cks = (st', as)"
    and "\<And>a h d ck. has st a h d \<Longrightarrow> ck \<in> set cks \<Longrightarrow> ck_hash ck = h \<Longrightarrow> chunk_bytes ck = d"
    and "\<And>ck ck'. ck \<in> set cks \<Longrightarrow> ck' \<in> set cks \<Longrightarrow> ck_hash ck = ck_hash ck' \<Longrightarrow> chunk_bytes ck = chunk_bytes ck'"
    and "cache_ok rs" "rs_disk rs = st_disk (store_destory False st')" "i < length cks"
  shows "\<exists>rs' ck'. restore_chunk False fetch rs (ck\<lparr>ck_hash := ck_hash (cks ! i), ck_address := as ! i\<rparr>) =
      Some (rs', ck', SUCCESS) \<and> ck_data ck' = Some (chunk_bytes (cks ! i)) \<and>
      ck_length ck' = int (length (chunk_bytes (cks ! i))) \<and> cache_ok rs' \<and> rs_disk rs' = rs_disk rs"
proof -
  have "store_room (length cks + 0) st" using assms(1) by simp
  note P = cs.put_all_spec [OF this assms(2,3)]
  then have st': "store_ok st'" by (simp add: store_room_def)
  have i: "address_ok (as ! i)" "has st' (as ! i) (ck_hash (cks ! i)) (chunk_bytes (cks ! i))"
    using P assms(8) by (auto simp: list_all2_conv_all_nth)
  have "d' = chunk_bytes (cks ! i)" if "has st' (as ! i) (ck_hash (cks ! i)) d'" for d'
  proof -
    from P that have "has st (as ! i) (ck_hash (cks ! i)) d' \<or>
        (\<exists>ck\<in>set cks. ck_hash (cks ! i) = ck_hash ck \<and> d' = chunk_bytes ck)" by blast
    then show ?thesis
    proof
      assume "has st (as ! i) (ck_hash (cks ! i)) d'"
      from assms(4) [OF this nth_mem [OF assms(8)] refl] show ?thesis by simp
    next
      assume "\<exists>ck\<in>set cks. ck_hash (cks ! i) = ck_hash ck \<and> d' = chunk_bytes ck"
      with assms(5) nth_mem [OF assms(8)] show ?thesis by metis
    qed
  qed
  from restore_held [OF st' i(2) this i(1) assms(6,7), of fetch ck] show ?thesis by auto
qed

definition demo_restore :: "store \<Rightarrow> restore" where
  "demo_restore st = the (restore_init 4 (st_disk (store_destory False st)) 100 (\<lambda>_. 0) 0 0)"

lemma demo_names_free:
  assumes "cs.put_all demo_store [demo_chunk [1, 2, 3]] = (st', as)" "100 \<le> r"
  shows "files (st_disk (store_destory False st')) (TmpPath @ fst (GetContainerName 0 r)) = None"
proof -
  have ck: "chunk_ok (demo_chunk [1, 2, 3])" using demo_chunk_ok [of "[1, 2, 3]"] by simp
  obtain st1 ck1 where s: "store_chunk False demo_store (demo_chunk [1, 2, 3]) = Some (st1, ck1, SUCCESS)"
    using store_chunk_total by blast
  have p: "st1 = st'" using assms(1) by (simp add: store_put_def s)
  from store_chunk_cases [OF demo_store_ok ck _ s]
  have st': "store_ok st'" "clock st' = clock demo_store" "randomabc st' \<le> 3" by (auto simp: p)
  obtain r0 where r0: "r0 < 3" "cstr (cname (st_container st')) = fresh_name st' r0"
    using st'(1,3) unfolding store_ok_def by (meson less_le_trans)
  have "fresh_name st' r \<noteq> fresh_name st' r0" using r0(1) assms(2) by (simp add: fresh_name_inject)
  moreover have "files (st_disk st') (TmpPath @ fresh_name st' r) = None"
    using st'(1,3) assms(2) by (auto simp: store_ok_def)
  moreover have "fresh_name st' r = fst (GetContainerName 0 r)" by (simp add: fresh_name_def st'(2))
  ultimately show ?thesis unfolding store_destory_def using r0(2) by (auto simp: files_write_other)
qed

lemma store_restore_witness:
  "\<exists>rs' ck'. restore_chunk False (\<lambda>dk _ _. (dk, False))
      (the (restore_init 4 (st_disk (store_destory False (fst (cs.put_all demo_store [demo_chunk [1, 2, 3]])))) 100 (\<lambda>_. 0) 0 0))
      ((demo_chunk [])\<lparr>ck_hash := replicate 20 7,
         ck_address := snd (cs.put_all demo_store [demo_chunk [1, 2, 3]]) ! 0\<rparr>) = Some (rs', ck', SUCCESS) \<and>
      ck_data ck' = Some [1, 2, 3]"
proof -
  let ?ck = "demo_chunk [1, 2, 3]"
  let ?st = "fst (cs.put_all demo_store [?ck])"
  let ?dk = "st_disk (store_destory False ?st)"
  have ck: "\<forall>ck\<in>set [?ck]. chunk_ok ck" using demo_chunk_ok [of "[1, 2, 3]"] by simp
  have room: "store_room (length [?ck]) demo_store" using demo_store_ok by (simp add: store_room_def)
  have empty: "\<not> has demo_store a h d" for a h d
    by (auto simp: has_def held_def on_disk_def empty_disk_def split: if_splits)
  have fresh: "files ?dk (TmpPath @ fst (GetContainerName 0 r)) = None" if "100 \<le> r" for r
    by (rule demo_names_free [OF prod.collapse [symmetric] that])
  from restore_init_ok [of 4 100 ?dk "\<lambda>_. 0" 0 0] fresh
  obtain rs where rs: "restore_init 4 ?dk 100 (\<lambda>_. 0) 0 0 = Some rs" "cache_ok rs" "rs_disk rs = ?dk"
    by auto
  have R: "\<exists>rs' ck'. restore_chunk False (\<lambda>dk _ _. (dk, False)) rs ((demo_chunk [])\<lparr>ck_hash := ck_hash ([?ck] ! 0),
       ck_address := snd (cs.put_all demo_store [?ck]) ! 0\<rparr>) = Some (rs', ck', SUCCESS) \<and>
      ck_data ck' = Some (chunk_bytes ([?ck] ! 0)) \<and> ck_length ck' = int (length (chunk_bytes ([?ck] ! 0))) \<and>
      cache_ok rs' \<and> rs_disk rs' = rs_disk rs"
    by (rule store_restore [OF room ck prod.collapse [symmetric] _ _ rs(2,3)]) (auto simp: empty)
  have "ck_hash ?ck = replicate 20 7" "chunk_bytes ?ck = [1, 2, 3]"
    by (simp_all add: demo_chunk_def chunk_bytes_def)
  with R show ?thesis unfolding rs(1) option.sel by (simp only: nth_Cons_0) blast
qed

end
