(* ===== verification/ExBin.thy ===== *)
theory ExBin
  imports Recipe Container
begin

text \<open>
  The client's index of known chunks (client/src/extreme_binning.c): bins that map the fingerprint
  of a chunk to the container it is in, kept in volumes on disk, a primary index from a
  representative fingerprint to the address of its bin, and a cache of the bins in use. The
  volume of level \<open>l\<close> is a header of 20 bytes followed by slots of \<open>512 * 2 ^ l\<close> bytes; an address
  is \<open>(level << 56) + offset\<close>.

  A \<open>Bin\<close> is shared in C between the cache and its users; here it lives in the cache. A loop that
  never ends (reading a slot behind the end of a volume, a bin that fits no level) is \<open>None\<close>.
\<close>

definition magic_key :: int where "magic_key = 0xa1b2c3d4 - 2 ^ 32"
definition bvolume_head_size :: int where "bvolume_head_size = 20"
definition max_bin_level :: int where "max_bin_level = 30"
definition level_factor :: int where "level_factor = 512"
definition BinPath :: "byte list" where "BinPath = asc ''./bin/''"

record main_index =
  mi_file_hash :: fingerprint
  mi_binaddr :: int

record bin_volume =
  current_bin_num :: int
  current_volume_length :: int
  bv_filename :: "byte list"
  bv_level :: int

text \<open>A \<open>ChunkMeta\<close> is the key of the table, its finger, and its value, the address.\<close>

record bin =
  b_rep_finger :: fingerprint
  b_fingers :: "chunkaddress htable"
  b_address :: int

record exbin =
  main_table :: "main_index htable"
  bin_cache :: "bin htable"
  bin_volume_array :: "bin_volume list"
  eb_disk :: disk

section \<open>Volumes\<close>

definition volume_header :: "int \<Rightarrow> int \<Rightarrow> int \<Rightarrow> byte list" where
  "volume_header level num len = put_int 4 magic_key @ put_int 4 level @ put_int 4 num @ put_int 8 len"

definition BinVolumeInit :: "disk \<Rightarrow> int \<Rightarrow> disk \<times> bin_volume" where
  "BinVolumeInit dk level =
     (let bvol = \<lparr>current_bin_num = 0, current_volume_length = bvolume_head_size,
                  bv_filename = BinPath @ asc ''bvol'' @ dec_digits (nat level), bv_level = level\<rparr> in
      case open_creat dk (bv_filename bvol) of
        None \<Rightarrow> (dk, bvol)
      | Some dk \<Rightarrow>
          let f = file_bytes dk (bv_filename bvol) in
          if 4 \<le> length f \<and> get_int 4 f = magic_key then
            if length f < 8 \<or> get_int 4 (drop 4 f) \<noteq> level then (dk, bvol)
            else (dk, bvol\<lparr>current_bin_num := read_int 4 0 (drop 8 f),
                           current_volume_length := read_int 8 bvolume_head_size (drop 12 f)\<rparr>)
          else (disk_pwrite dk (bv_filename bvol) 0 (volume_header level 0 bvolume_head_size), bvol))"

definition BinVolumeFlush :: "disk \<Rightarrow> bin_volume \<Rightarrow> disk \<times> bool" where
  "BinVolumeFlush dk bvol =
     (case open_creat dk (bv_filename bvol) of
        None \<Rightarrow> (dk, False)
      | Some dk \<Rightarrow> (disk_pwrite dk (bv_filename bvol) 0
            (volume_header (bv_level bvol) (current_bin_num bvol) (current_volume_length bvol)), True))"

section \<open>The primary index on disk\<close>

definition enc_main :: "byte list \<times> main_index \<Rightarrow> byte list" where
  "enc_main km = fst km @ mi_file_hash (snd km) @ put_int 8 (mi_binaddr (snd km))"

definition dec_main :: "byte list \<Rightarrow> byte list \<times> main_index" where
  "dec_main p = (take 20 p, \<lparr>mi_file_hash = take 20 (drop 20 p), mi_binaddr = get_int 8 (drop 40 p)\<rparr>)"

definition repfinger_path :: "byte list" where "repfinger_path = BinPath @ asc ''repfinger''"

fun init_volumes :: "disk \<Rightarrow> int list \<Rightarrow> disk \<times> bin_volume list" where
  "init_volumes dk [] = (dk, [])"
| "init_volumes dk (i # is) =
     (let (dk, v) = BinVolumeInit dk i; (dk, vs) = init_volumes dk is in (dk, v # vs))"

text \<open>The two tables are created first, then the index is read; \<open>False\<close>: it could not be opened.\<close>

definition ExtremeBinningInit :: "disk \<Rightarrow> (exbin \<times> bool) option" where
  "ExtremeBinningInit dk =
     (case (htable_init FINGER_LENGTH 3200, htable_init FINGER_LENGTH 100) of
        (Some mt, Some bc) \<Rightarrow>
          (case open_creat dk repfinger_path of
             None \<Rightarrow> Some (\<lparr>main_table = mt, bin_cache = bc, bin_volume_array = [], eb_disk = dk\<rparr>, False)
           | Some dk \<Rightarrow>
               let f = file_bytes dk repfinger_path;
                   n = (if 4 \<le> length f \<and> get_int 4 f = magic_key then nat (read_int 4 0 (drop 4 f)) else 0);
                   items = dec_many dec_main 48 n (drop 8 f @ replicate (48 * n) 0);
                   mt = foldl (\<lambda>t (k, m). htable_insert k m t) mt items;
                   (dk, vs) = init_volumes dk (map int [0..<nat max_bin_level])
               in Some (\<lparr>main_table = mt, bin_cache = bc, bin_volume_array = vs, eb_disk = dk\<rparr>, True))
      | _ \<Rightarrow> None)"

fun flush_volumes :: "disk \<Rightarrow> bin_volume list \<Rightarrow> disk" where
  "flush_volumes dk [] = dk"
| "flush_volumes dk (v # vs) = flush_volumes (fst (BinVolumeFlush dk v)) vs"

definition ExtremeBinningFlush :: "exbin \<Rightarrow> exbin \<times> bool" where
  "ExtremeBinningFlush ex =
     (case open_creat (eb_disk ex) repfinger_path of
        None \<Rightarrow> (ex, False)
      | Some dk \<Rightarrow>
          let d = put_int 4 magic_key @ put_int 4 (int (htable_size (main_table ex)))
                  @ concat (map enc_main (htable_items (main_table ex)));
              dk = disk_pwrite dk repfinger_path 0 d
          in (ex\<lparr>eb_disk := flush_volumes dk (bin_volume_array ex)\<rparr>, True))"

section \<open>Bins\<close>

definition level_to_max_amount :: "int \<Rightarrow> int" where
  "level_to_max_amount level =
     (if level < 0 \<or> level > max_bin_level then -1 else 2 ^ nat level * level_factor)"

partial_function (option) fit_level :: "int \<Rightarrow> int \<Rightarrow> int \<Rightarrow> (int \<times> int) option" where
  "fit_level nlen level off =
     (if nlen > level_to_max_amount level then fit_level nlen (level + 1) 0 else Some (level, off))"

definition enc_meta :: "byte list \<times> chunkaddress \<Rightarrow> byte list" where
  "enc_meta fa = fst fa @ snd fa"

definition dec_meta :: "byte list \<Rightarrow> byte list \<times> chunkaddress" where
  "dec_meta p = (take 20 p, take 64 (drop 20 p))"

definition bin_image :: "bin \<Rightarrow> int \<Rightarrow> byte list" where
  "bin_image b amount =
     (let d = b_rep_finger b @ put_int 4 (int (htable_size (b_fingers b)))
              @ concat (map enc_meta (htable_items (b_fingers b)))
      in d @ replicate (nat amount - length d) 0xcf)"

text \<open>\<open>nlen\<close> is cut to 32 bits.\<close>

definition bin_nlen :: "bin \<Rightarrow> int" where
  "bin_nlen b = get_int 4 (put_int 4 (20 + 4 + int (htable_size (b_fingers b)) * 84))"

definition WriteBinToVolume :: "exbin \<Rightarrow> bin \<Rightarrow> (exbin \<times> int) option" where
  "WriteBinToVolume ex b =
     (case fit_level (bin_nlen b) (b_address b div 2 ^ 56) (b_address b mod 2 ^ 56) of
        None \<Rightarrow> None
      | Some (level, off) \<Rightarrow>
          let amount = level_to_max_amount level;
              tmp = bin_image b amount;
              bvol = bin_volume_array ex ! nat level;
              (bvol, off) =
                (if off = 0
                 then (bvol\<lparr>current_bin_num := current_bin_num bvol + 1,
                            current_volume_length := current_volume_length bvol + amount\<rparr>,
                       current_volume_length bvol)
                 else (bvol, off));
              ex = ex\<lparr>bin_volume_array := (bin_volume_array ex)[nat level := bvol]\<rparr>
          in if denied (eb_disk ex) (bv_filename bvol) \<or> files (eb_disk ex) (bv_filename bvol) = None
             then Some (ex, 0)
             else Some (ex\<lparr>eb_disk := disk_pwrite (eb_disk ex) (bv_filename bvol) (nat off) tmp\<rparr>,
                        level * 2 ^ 56 + off))"

definition ReadBinFromVolume :: "exbin \<Rightarrow> bin \<Rightarrow> (bin \<times> bool) option" where
  "ReadBinFromVolume ex b =
     (let level = b_address b div 2 ^ 56;
          off = nat (b_address b mod 2 ^ 56);
          bvol = bin_volume_array ex ! nat level;
          amount = nat (level_to_max_amount level)
      in if denied (eb_disk ex) (bv_filename bvol) then Some (b, False)
         else case files (eb_disk ex) (bv_filename bvol) of
           None \<Rightarrow> Some (b, False)
         | Some f \<Rightarrow>
             if length f < off + amount then None
             else let p = pread f off amount in
               if take 20 p \<noteq> b_rep_finger b then Some (b, False)
               else let n = nat (get_int 4 (drop 20 p));
                        metas = dec_many dec_meta 84 n (drop 24 p)
                    in Some (b\<lparr>b_fingers := foldl (\<lambda>t (k, a). htable_insert k a t) (b_fingers b) metas\<rparr>, True))"

definition NewBin :: "int \<Rightarrow> fingerprint \<Rightarrow> int \<Rightarrow> bin option" where
  "NewBin addr rep chunknum0 =
     map_option (\<lambda>t. \<lparr>b_rep_finger = rep, b_fingers = t, b_address = addr\<rparr>) (htable_init FINGER_LENGTH chunknum0)"

definition LocationBin :: "exbin \<Rightarrow> fileinfo \<Rightarrow> exbin \<times> int" where
  "LocationBin ex fi =
     (case htable_lookup (main_table ex) (rep_finger fi) of
        Some m \<Rightarrow> (ex, mi_binaddr m)
      | None \<Rightarrow>
          (ex\<lparr>main_table := htable_insert (rep_finger fi)
                \<lparr>mi_file_hash = file_hash fi, mi_binaddr = 0\<rparr> (main_table ex)\<rparr>, 0))"

text \<open>The bin is inserted into the cache before it is read; reading it writes through the pointer.\<close>

definition LoadBin :: "exbin \<Rightarrow> fileinfo \<Rightarrow> (exbin \<times> bin) option" where
  "LoadBin ex fi =
     (case htable_lookup (bin_cache ex) (rep_finger fi) of
        Some b \<Rightarrow> Some (ex, b)
      | None \<Rightarrow>
          let (ex, addr) = LocationBin ex fi in
          case NewBin addr (rep_finger fi) (chunknum fi) of
            None \<Rightarrow> None
          | Some b \<Rightarrow>
              let ex = ex\<lparr>bin_cache := htable_insert (b_rep_finger b) b (bin_cache ex)\<rparr> in
              if addr = 0 then Some (ex, b)
              else case ReadBinFromVolume ex b of
                None \<Rightarrow> None
              | Some (b, _) \<Rightarrow>
                  Some (ex\<lparr>bin_cache := htable_update (b_rep_finger b) (\<lambda>_. b) (bin_cache ex)\<rparr>, b))"

definition FreeBin :: "exbin \<Rightarrow> bin \<Rightarrow> exbin option" where
  "FreeBin ex b =
     (case WriteBinToVolume ex b of
        None \<Rightarrow> None
      | Some (ex, new_addr) \<Rightarrow>
          if new_addr \<noteq> 0 \<and> htable_lookup (main_table ex) (b_rep_finger b) = None then Some ex
          else let ex = (if new_addr \<noteq> 0
                         then ex\<lparr>main_table := htable_update (b_rep_finger b) (\<lambda>m. m\<lparr>mi_binaddr := new_addr\<rparr>)
                                                 (main_table ex)\<rparr>
                         else ex)
               in Some (ex\<lparr>bin_cache := fst (htable_remove (b_rep_finger b) (bin_cache ex))\<rparr>))"

text \<open>
  \<open>free_cache_bin\<close> calls \<open>FreeBin\<close> for every bin it meets while it walks the cache, the walk going on
  from the bin just freed; the bins are those that a walk of the table meets.
\<close>

fun free_bins :: "exbin \<Rightarrow> bin list \<Rightarrow> exbin option" where
  "free_bins ex [] = Some ex"
| "free_bins ex (b # bs) = (case FreeBin ex b of None \<Rightarrow> None | Some ex \<Rightarrow> free_bins ex bs)"

definition free_cache_bin :: "exbin \<Rightarrow> exbin option" where
  "free_cache_bin ex = free_bins ex (map snd (htable_items (bin_cache ex)))"

section \<open>Levels and slots\<close>

definition slot :: "nat \<Rightarrow> nat" where "slot l = 512 * 2 ^ l"

lemma slot_pos [simp]: "0 < slot l"
  by (simp add: slot_def)

lemma level_amount: "l \<le> 30 \<Longrightarrow> level_to_max_amount (int l) = int (slot l)"
  by (simp add: level_to_max_amount_def max_bin_level_def level_factor_def slot_def)

lemma slot_mono: "l \<le> l' \<Longrightarrow> slot l \<le> slot l'"
  by (simp add: slot_def power_increasing)

lemma fit_level_spec:
  assumes "l < 30" "nlen < 2 ^ 31" "l' = (LEAST k. l \<le> k \<and> nlen \<le> int (slot k))"
  shows "fit_level nlen (int l) off = Some (int l', if l' = l then off else 0) \<and> l \<le> l' \<and> l' < 30 \<and> nlen \<le> int (slot l')"
proof -
  have ex: "l \<le> 29 \<and> nlen \<le> int (slot 29)" using assms(1,2) by (simp add: slot_def)
  have L: "l \<le> l'" "nlen \<le> int (slot l')" and le: "l' \<le> 29"
    using LeastI [of "\<lambda>k. l \<le> k \<and> nlen \<le> int (slot k)", OF ex] Least_le [of "\<lambda>k. l \<le> k \<and> nlen \<le> int (slot k)", OF ex]
    by (auto simp: assms(3))
  have not: "\<not> nlen \<le> int (slot k)" if "l \<le> k" "k < l'" for k
    using that not_less_Least [of k "\<lambda>k. l \<le> k \<and> nlen \<le> int (slot k)"] by (auto simp: assms(3))
  have "k \<le> l' \<Longrightarrow> l \<le> k \<Longrightarrow> fit_level nlen (int k) o' = Some (int l', if l' = k then o' else 0)" for k o'
  proof (induction "l' - k" arbitrary: k o')
    case 0
    then have "k = l'" by simp
    with L le show ?case by (subst fit_level.simps) (simp add: level_amount)
  next
    case (Suc d)
    then have k: "k < l'" "d = l' - Suc k" by auto
    have "fit_level nlen (int k) o' = fit_level nlen (int (Suc k)) 0"
      using not [OF Suc.prems(2) k(1)] k(1) le by (subst fit_level.simps) (simp add: level_amount add.commute)
    also have "\<dots> = Some (int l', 0)" using Suc.hyps(1) [OF k(2), of 0] k Suc.prems by auto
    finally show ?case using k by simp
  qed
  from this [of l off] L le show ?thesis by auto
qed

text \<open>Addresses: level in the top byte, offset below.\<close>

definition addr_of :: "nat \<Rightarrow> nat \<Rightarrow> int" where
  "addr_of l off = int l * 2 ^ 56 + int off"

lemma addr_of_decode:
  assumes "off < 2 ^ 56"
  shows "addr_of l off div 2 ^ 56 = int l" "addr_of l off mod 2 ^ 56 = int off"
proof -
  have "int off < 2 ^ 56" using assms by (metis of_nat_less_iff of_nat_numeral of_nat_power)
  then show "addr_of l off div 2 ^ 56 = int l" "addr_of l off mod 2 ^ 56 = int off"
    unfolding addr_of_def by auto
qed

section \<open>The invariant\<close>

definition vol_path :: "nat \<Rightarrow> byte list" where
  "vol_path l = BinPath @ asc ''bvol'' @ dec_digits l"

lemma vol_path_inject [simp]: "vol_path l = vol_path l' \<longleftrightarrow> l = l'"
  by (auto simp: vol_path_def dest: dec_digits_inject)

definition volume_ok :: "disk \<Rightarrow> nat \<Rightarrow> bin_volume \<Rightarrow> bool" where
  "volume_ok dk l v \<longleftrightarrow> bv_level v = int l \<and> bv_filename v = vol_path l \<and>
     20 \<le> current_volume_length v \<and> (current_volume_length v - 20) mod int (slot l) = 0 \<and>
     \<not> denied dk (vol_path l) \<and> files dk (vol_path l) \<noteq> None"

definition meta_ok :: "byte list \<times> chunkaddress \<Rightarrow> bool" where
  "meta_ok fa \<longleftrightarrow> length (fst fa) = 20 \<and> length (snd fa) = 64"

definition main_ok :: "byte list \<times> main_index \<Rightarrow> bool" where
  "main_ok km \<longleftrightarrow> length (fst km) = 20 \<and> length (mi_file_hash (snd km)) = 20 \<and> fits 8 (mi_binaddr (snd km))"

interpretation meta_codec: fixed_codec enc_meta dec_meta 84 meta_ok
  by unfold_locales (auto simp: enc_meta_def dec_meta_def meta_ok_def)

interpretation main_codec: fixed_codec enc_main dec_main 48 main_ok
  by unfold_locales (auto simp: enc_main_def dec_main_def main_ok_def)

text \<open>\<open>slot_holds d rep m\<close>: the bytes \<open>d\<close> of a slot are the image of a bin with the entries \<open>m\<close>.\<close>

definition slot_holds :: "byte list \<Rightarrow> fingerprint \<Rightarrow> (byte list \<rightharpoonup> chunkaddress) \<Rightarrow> bool" where
  "slot_holds d rep m \<longleftrightarrow> (\<exists>xs pad. d = rep @ put_int 4 (int (length xs)) @ concat (map enc_meta xs) @ pad \<and>
     length rep = 20 \<and> (\<forall>x\<in>set xs. meta_ok x) \<and> distinct (map fst xs) \<and> length xs < 25000000 \<and> m = map_of xs)"

definition stored_at :: "exbin \<Rightarrow> nat \<Rightarrow> nat \<Rightarrow> fingerprint \<Rightarrow> (byte list \<rightharpoonup> chunkaddress) \<Rightarrow> bool" where
  "stored_at ex l off rep m \<longleftrightarrow> l < 30 \<and> 20 \<le> off \<and> off < 2 ^ 56 \<and> (off - 20) mod slot l = 0 \<and>
     int (off + slot l) \<le> current_volume_length (bin_volume_array ex ! l) \<and>
     (\<exists>f. files (eb_disk ex) (vol_path l) = Some f \<and> off + slot l \<le> length f \<and>
        slot_holds (pread f off (slot l)) rep m)"

definition stored :: "exbin \<Rightarrow> int \<Rightarrow> fingerprint \<Rightarrow> (byte list \<rightharpoonup> chunkaddress) \<Rightarrow> bool" where
  "stored ex addr rep m \<longleftrightarrow> (\<exists>l off. addr = addr_of l off \<and> stored_at ex l off rep m)"

definition bin_ok :: "fingerprint \<Rightarrow> bin \<Rightarrow> bool" where
  "bin_ok rep b \<longleftrightarrow> b_rep_finger b = rep \<and> length rep = 20 \<and> ht.clean 20 (b_fingers b) \<and>
     (\<forall>x\<in>set (htable_items (b_fingers b)). meta_ok x) \<and> htable_size (b_fingers b) < 25000000"

definition volumes_ok :: "exbin \<Rightarrow> bool" where
  "volumes_ok ex \<longleftrightarrow> length (bin_volume_array ex) = 30 \<and>
     (\<forall>l<30. volume_ok (eb_disk ex) l (bin_volume_array ex ! l))"

text \<open>Room for one more slot at every level before the offsets reach the level byte.\<close>

definition volumes_room :: "nat \<Rightarrow> exbin \<Rightarrow> bool" where
  "volumes_room n ex \<longleftrightarrow> (\<forall>l<30. current_volume_length (bin_volume_array ex ! l) + int n * int (slot l) < 2 ^ 56)"

definition exbin_ok :: "exbin \<Rightarrow> bool" where
  "exbin_ok ex \<longleftrightarrow> volumes_ok ex \<and> ht.clean 20 (main_table ex) \<and> ht.clean 20 (bin_cache ex) \<and>
     (\<forall>km\<in>set (htable_items (main_table ex)). main_ok km \<and>
        (mi_binaddr (snd km) \<noteq> 0 \<longrightarrow> (\<exists>m. stored ex (mi_binaddr (snd km)) (fst km) m))) \<and>
     (\<forall>rb\<in>set (htable_items (bin_cache ex)). bin_ok (fst rb) (snd rb) \<and>
        (\<exists>m. htable_lookup (main_table ex) (fst rb) = Some m \<and> mi_binaddr m = b_address (snd rb)))"

section \<open>Writing a bin\<close>

lemma bin_ok_size:
  assumes "bin_ok rep b"
  shows "htable_size (b_fingers b) = length (htable_items (b_fingers b))"
    "bin_nlen b = 24 + 84 * int (length (htable_items (b_fingers b)))" "bin_nlen b < 2 ^ 31"
    "length (concat (map enc_meta (htable_items (b_fingers b)))) = 84 * length (htable_items (b_fingers b))"
proof -
  show s: "htable_size (b_fingers b) = length (htable_items (b_fingers b))"
    using assms by (simp add: bin_ok_def ht.clean_def htable_size_def ht_inv_def)
  show "bin_nlen b = 24 + 84 * int (length (htable_items (b_fingers b)))" "bin_nlen b < 2 ^ 31"
    using assms s by (auto simp: bin_nlen_def bin_ok_def algebra_simps)
  show "length (concat (map enc_meta (htable_items (b_fingers b)))) = 84 * length (htable_items (b_fingers b))"
    using assms by (intro meta_codec.enc_many_length) (auto simp: bin_ok_def)
qed

lemma bin_image_holds:
  assumes b: "bin_ok rep b" and n: "bin_nlen b \<le> int (slot l)"
  shows "length (bin_image b (int (slot l))) = slot l"
    "slot_holds (bin_image b (int (slot l))) rep (map_of (htable_items (b_fingers b)))"
proof -
  let ?xs = "htable_items (b_fingers b)"
  have r: "b_rep_finger b = rep" "length rep = 20" "\<forall>x\<in>set ?xs. meta_ok x" "distinct (map fst ?xs)"
    using b by (auto simp: bin_ok_def ht.clean_def)
  have im: "bin_image b (int (slot l)) = rep @ put_int 4 (int (length ?xs)) @ concat (map enc_meta ?xs) @
      replicate (slot l - (24 + 84 * length ?xs)) 0xcf"
    using bin_ok_size [OF b] r(1,2) by (simp add: bin_image_def Let_def)
  show "length (bin_image b (int (slot l))) = slot l"
    using n bin_ok_size [OF b] r(2) by (simp add: im)
  show "slot_holds (bin_image b (int (slot l))) rep (map_of ?xs)"
    unfolding slot_holds_def im using r bin_ok_size(1) [OF b] b by (auto simp: bin_ok_def)
qed

lemma slots_disjoint:
  fixes a b s :: nat
  assumes "20 \<le> a" "20 \<le> b" "(a - 20) mod s = 0" "(b - 20) mod s = 0" "a \<noteq> b"
  shows "a + s \<le> b \<or> b + s \<le> a"
proof -
  obtain i j where ij: "a - 20 = s * i" "b - 20 = s * j"
    using assms(3,4) by (metis mod_0_imp_dvd dvdE)
  then have "i \<noteq> j" using assms by auto
  then have "i + 1 \<le> j \<or> j + 1 \<le> i" by linarith
  then have "s * (i + 1) \<le> s * j \<or> s * (j + 1) \<le> s * i" by (metis mult_le_mono2)
  then show ?thesis using ij assms(1,2) by (simp add: algebra_simps) linarith
qed

lemma slot_holds_rep: "slot_holds d rep m \<Longrightarrow> take 20 d = rep"
  by (auto simp: slot_holds_def)

lemma addr_of_inject:
  "off < 2 ^ 56 \<Longrightarrow> off' < 2 ^ 56 \<Longrightarrow> addr_of l off = addr_of l' off' \<longleftrightarrow> l = l' \<and> off = off'"
  by (metis addr_of_decode of_nat_eq_iff)

lemma volume_ok_update:
  assumes "volumes_ok ex" "l < 30" "volume_ok dk' l v" "\<forall>l'. l' \<noteq> l \<longrightarrow> files dk' (vol_path l') = files (eb_disk ex) (vol_path l')"
    "denied dk' = denied (eb_disk ex)"
  shows "volumes_ok (ex\<lparr>bin_volume_array := (bin_volume_array ex)[l := v], eb_disk := dk'\<rparr>)"
  using assms by (auto simp: volumes_ok_def volume_ok_def nth_list_update)

lemma write_slot:
  assumes ex: "volumes_ok ex" and b: "bin_ok rep b" and l: "l < 30" and n: "bin_nlen b \<le> int (slot l)"
    and off: "20 \<le> off" "off < 2 ^ 56" "(off - 20) mod slot l = 0"
    and v: "v = bin_volume_array ex ! l \<or> int off = current_volume_length (bin_volume_array ex ! l)"
      "bv_level v = int l" "bv_filename v = vol_path l"
      "(current_volume_length v - 20) mod int (slot l) = 0" "int (off + slot l) \<le> current_volume_length v"
      "current_volume_length (bin_volume_array ex ! l) \<le> current_volume_length v"
    and old: "\<And>rep' m. stored_at ex l off rep' m \<Longrightarrow> rep' = rep"
    and ex': "ex' = ex\<lparr>bin_volume_array := (bin_volume_array ex)[l := v],
      eb_disk := disk_pwrite (eb_disk ex) (vol_path l) off (bin_image b (int (slot l)))\<rparr>"
  shows "volumes_ok ex' \<and> stored_at ex' l off rep (map_of (htable_items (b_fingers b))) \<and>
    (\<forall>addr rep' m. stored ex addr rep' m \<and> rep' \<noteq> rep \<longrightarrow> stored ex' addr rep' m)"
proof -
  let ?img = "bin_image b (int (slot l))"
  note img = bin_image_holds [OF b n]
  obtain f where f: "files (eb_disk ex) (vol_path l) = Some f"
    using ex l by (auto simp: volumes_ok_def volume_ok_def)
  have vl: "volume_ok (eb_disk ex) l (bin_volume_array ex ! l)" and len: "length (bin_volume_array ex) = 30"
    using ex l by (auto simp: volumes_ok_def)
  have f': "files (eb_disk ex') = (files (eb_disk ex))(vol_path l \<mapsto> pwrite f off ?img)"
    "denied (eb_disk ex') = denied (eb_disk ex)"
    by (simp_all add: ex' disk_pwrite_def f)
  have "volume_ok (eb_disk ex') l v"
    using vl v off(1) by (auto simp: volume_ok_def f')
  then have 1: "volumes_ok ex'"
    using volume_ok_update [OF ex l, of "eb_disk ex'" v] f' by (simp add: ex')
  have 2: "stored_at ex' l off rep (map_of (htable_items (b_fingers b)))"
    using l off v(5) img by (simp add: stored_at_def f' len) (simp add: ex' len l)
  have 3: "stored ex' addr rep' m" if s: "stored ex addr rep' m" "rep' \<noteq> rep" for addr rep' m
  proof -
    obtain l2 o2 where a: "addr = addr_of l2 o2" "stored_at ex l2 o2 rep' m"
      using s(1) by (auto simp: stored_def)
    have "stored_at ex' l2 o2 rep' m"
    proof (cases "l2 = l")
      case False
      with a(2) show ?thesis by (simp add: stored_at_def f') (simp add: ex')
    next
      case True
      have ne: "o2 \<noteq> off" using a(2) old s(2) True by blast
      have S: "20 \<le> o2" "(o2 - 20) mod slot l = 0" "o2 + slot l \<le> length f"
        "slot_holds (pread f o2 (slot l)) rep' m"
        "int (o2 + slot l) \<le> current_volume_length (bin_volume_array ex ! l)"
        using a(2) True f by (auto simp: stored_at_def)
      from slots_disjoint [OF S(1) off(1) S(2) off(3) ne]
      have "pread (pwrite f off ?img) o2 (slot l) = pread f o2 (slot l)"
        using S(3) img(1) by (auto intro: pread_pwrite_before pread_pwrite_after)
      with a(2) S v(6) True show ?thesis
        by (simp add: stored_at_def f') (simp add: ex' len l)
    qed
    with a(1) show ?thesis by (auto simp: stored_def)
  qed
  from 1 2 3 show ?thesis by blast
qed

lemma WriteBin_spec:
  assumes ex: "volumes_ok ex" and room: "volumes_room (Suc n) ex" and b: "bin_ok rep b"
    and addr: "b_address b = 0 \<or> (\<exists>m. stored ex (b_address b) rep m)"
  shows "\<exists>ex' a. WriteBinToVolume ex b = Some (ex', a) \<and> a \<noteq> 0 \<and> volumes_ok ex' \<and> volumes_room n ex' \<and>
    stored ex' a rep (map_of (htable_items (b_fingers b))) \<and>
    (\<forall>addr rep' m. stored ex addr rep' m \<and> rep' \<noteq> rep \<longrightarrow> stored ex' addr rep' m) \<and>
    main_table ex' = main_table ex \<and> bin_cache ex' = bin_cache ex"
proof -
  obtain l0 o0 where a0: "b_address b = addr_of l0 o0" "l0 < 30" "o0 < 2 ^ 56"
    "o0 = 0 \<or> (\<exists>m. stored_at ex l0 o0 rep m)"
  proof (cases "b_address b = 0")
    case True
    then show ?thesis using that [of 0 0] by (simp add: addr_of_def)
  next
    case False
    with addr obtain m l off where "b_address b = addr_of l off" "stored_at ex l off rep m"
      by (auto simp: stored_def)
    then show ?thesis using that [of l off] by (auto simp: stored_at_def)
  qed
  define l where "l = (LEAST k. l0 \<le> k \<and> bin_nlen b \<le> int (slot k))"
  note fl = fit_level_spec [OF a0(2) bin_ok_size(3) [OF b] l_def]
  have l: "l < 30" "bin_nlen b \<le> int (slot l)" using fl by auto
  define o1 where "o1 = (if l = l0 then o0 else 0)"
  have fit: "fit_level (bin_nlen b) (b_address b div 2 ^ 56) (b_address b mod 2 ^ 56) = Some (int l, int o1)"
    using fl [of "int o0"] addr_of_decode [OF a0(3), of l0] by (simp add: a0(1) o1_def)
  let ?v0 = "bin_volume_array ex ! l"
  have V: "volume_ok (eb_disk ex) l ?v0" "length (bin_volume_array ex) = 30"
    using ex l by (auto simp: volumes_ok_def)
  define v where "v = (if o1 = 0 then ?v0\<lparr>current_bin_num := current_bin_num ?v0 + 1,
      current_volume_length := current_volume_length ?v0 + int (slot l)\<rparr> else ?v0)"
  define off where "off = (if o1 = 0 then nat (current_volume_length ?v0) else o1)"
  define ex' where "ex' = ex\<lparr>bin_volume_array := (bin_volume_array ex)[l := v],
      eb_disk := disk_pwrite (eb_disk ex) (vol_path l) off (bin_image b (int (slot l)))\<rparr>"
  have R: "current_volume_length ?v0 + int (slot l) * (int n + 1) < 2 ^ 56"
    using room l(1) unfolding volumes_room_def by (simp add: algebra_simps)
  have Rs: "current_volume_length ?v0 + int (slot l) < 2 ^ 56"
  proof -
    have "current_volume_length ?v0 + int (slot l) + int (n * slot l) < 2 ^ 56"
      using R by (simp add: algebra_simps)
    then show ?thesis using of_nat_0_le_iff [of "n * slot l"] by linarith
  qed
  have W: "WriteBinToVolume ex b = Some (ex', addr_of l off)"
    unfolding WriteBinToVolume_def fit using V l(1)
    by (auto simp: level_amount Let_def ex'_def v_def off_def volume_ok_def addr_of_def)
  have o1: "o1 \<noteq> 0 \<Longrightarrow> \<exists>m. stored_at ex l o1 rep m" using a0(4) by (auto simp: o1_def split: if_splits)
  have O: "20 \<le> off" "off < 2 ^ 56" "(off - 20) mod slot l = 0" "int (off + slot l) \<le> current_volume_length v"
  proof -
    have "20 \<le> off \<and> off < 2 ^ 56 \<and> (off - 20) mod slot l = 0 \<and> int (off + slot l) \<le> current_volume_length v"
    proof (cases "o1 = 0")
      case True
      have "int ((nat (current_volume_length ?v0) - 20) mod slot l) = (current_volume_length ?v0 - 20) mod int (slot l)"
      proof -
        have "int (nat (current_volume_length ?v0) - 20) = current_volume_length ?v0 - 20"
          using V(1) by (auto simp: volume_ok_def)
        then show ?thesis by (simp only: zmod_int)
      qed
      with V(1) True Rs show ?thesis by (auto simp: off_def v_def volume_ok_def)
    next
      case False
      with o1 show ?thesis by (auto simp: off_def v_def stored_at_def)
    qed
    then show "20 \<le> off" "off < 2 ^ 56" "(off - 20) mod slot l = 0" "int (off + slot l) \<le> current_volume_length v"
      by auto
  qed
  have old: "rep' = rep" if "stored_at ex l off rep' m" for rep' m
  proof (cases "o1 = 0")
    case True
    with that V(1) slot_pos [of l] have False
      unfolding stored_at_def off_def volume_ok_def by auto
    then show ?thesis ..
  next
    case False
    with o1 that show ?thesis by (auto simp: stored_at_def off_def dest!: slot_holds_rep)
  qed
  have vs: "v = ?v0 \<or> int off = current_volume_length ?v0" "bv_level v = int l" "bv_filename v = vol_path l"
    "(current_volume_length v - 20) mod int (slot l) = 0" "current_volume_length ?v0 \<le> current_volume_length v"
    using V(1) by (auto simp: v_def off_def volume_ok_def mod_add_self2 algebra_simps)
  have P: "volumes_ok ex' \<and> stored_at ex' l off rep (map_of (htable_items (b_fingers b))) \<and>
    (\<forall>addr rep' m. stored ex addr rep' m \<and> rep' \<noteq> rep \<longrightarrow> stored ex' addr rep' m)"
    by (rule write_slot [OF ex b l O(1-3) vs(1-4) O(4) vs(5) _ ex'_def]) (rule old)
  have "volumes_room n ex'"
    unfolding volumes_room_def
  proof (intro allI impI)
    fix k :: nat assume k: "k < 30"
    have r: "current_volume_length (bin_volume_array ex ! k) + int (Suc n) * int (slot k) < 2 ^ 56"
      using room k by (simp add: volumes_room_def)
    show "current_volume_length (bin_volume_array ex' ! k) + int n * int (slot k) < 2 ^ 56"
      using r V(2) l(1) by (cases "k = l") (auto simp: ex'_def v_def algebra_simps)
  qed
  moreover have "addr_of l off \<noteq> 0" using O(1) by (simp add: addr_of_def)
  moreover have "main_table ex' = main_table ex" "bin_cache ex' = bin_cache ex" by (simp_all add: ex'_def)
  moreover have "stored ex' (addr_of l off) rep (map_of (htable_items (b_fingers b)))"
    using P unfolding stored_def by blast
  ultimately show ?thesis using W P by blast
qed

section \<open>Reading a bin\<close>

definition entries :: "bin \<Rightarrow> (byte list \<rightharpoonup> chunkaddress)" where
  "entries b = map_of (htable_items (b_fingers b))"

lemma foldl_insert_map_of:
  assumes "ht_inv n t" "htable_items t = []" "distinct (map fst xs)" "\<forall>x\<in>set xs. length (fst x) = n"
  shows "ht.clean n (foldl (\<lambda>t (k, v). htable_insert k v t) t xs)"
    "map_of (htable_items (foldl (\<lambda>t (k, v). htable_insert k v t) t xs)) = map_of xs"
proof -
  let ?t = "foldl (\<lambda>t (k, v). htable_insert k v t) t xs"
  have f: "ht_inv n ?t" "set (htable_items ?t) = set xs" "htable_size ?t = length xs"
    using foldl_htable_insert [OF assms(1), of xs] assms by (auto simp: htable_size_def ht_inv_def)
  have "\<forall>kv\<in>set xs. length (fst kv) = n \<and> htable_lookup t (fst kv) = None"
    using assms htable_lookup_None by force
  moreover have "ht.clean n t" using assms by (simp add: ht.clean_def)
  ultimately show c: "ht.clean n ?t"
    using ht.load_clean [of n t xs] assms(3) by blast
  show "map_of (htable_items ?t) = map_of xs"
    using c f(2) assms(3) by (intro map_of_distinct_set) (auto simp: ht.clean_def)
qed

lemma ReadBin_spec:
  assumes ex: "volumes_ok ex" and s: "stored ex (b_address b) (b_rep_finger b) m"
    and e: "ht_inv 20 (b_fingers b)" "htable_items (b_fingers b) = []"
  shows "\<exists>b'. ReadBinFromVolume ex b = Some (b', True) \<and> b_rep_finger b' = b_rep_finger b \<and>
     b_address b' = b_address b \<and> ht.clean 20 (b_fingers b') \<and> entries b' = m \<and>
     (\<forall>x\<in>set (htable_items (b_fingers b')). meta_ok x) \<and> htable_size (b_fingers b') < 25000000"
proof -
  obtain l off where a: "b_address b = addr_of l off" "stored_at ex l off (b_rep_finger b) m"
    using s by (auto simp: stored_def)
  then have S: "l < 30" "off < 2 ^ 56" by (auto simp: stored_at_def)
  obtain f where f: "files (eb_disk ex) (vol_path l) = Some f" "off + slot l \<le> length f"
    "slot_holds (pread f off (slot l)) (b_rep_finger b) m"
    using a(2) by (auto simp: stored_at_def)
  obtain xs pad where x: "pread f off (slot l) = b_rep_finger b @ put_int 4 (int (length xs)) @ concat (map enc_meta xs) @ pad"
    "length (b_rep_finger b) = 20" "\<forall>x\<in>set xs. meta_ok x" "distinct (map fst xs)" "length xs < 25000000" "m = map_of xs"
    using f(3) by (auto simp: slot_holds_def)
  have V: "volume_ok (eb_disk ex) l (bin_volume_array ex ! l)" using ex S(1) by (auto simp: volumes_ok_def)
  let ?t = "foldl (\<lambda>t (k, a). htable_insert k a t) (b_fingers b) xs"
  have d: "take 20 (pread f off (slot l)) = b_rep_finger b"
    "get_int 4 (drop 20 (pread f off (slot l))) = int (length xs)"
    "dec_many dec_meta 84 (length xs) (drop 24 (pread f off (slot l))) = xs"
    using x meta_codec.dec_enc_many [OF x(3), of pad] by (simp_all add: x(1))
  have "ReadBinFromVolume ex b = Some (b\<lparr>b_fingers := ?t\<rparr>, True)"
    unfolding ReadBinFromVolume_def a(1) addr_of_decode [OF S(2)] using V S(1) f(1,2) d
    by (simp add: Let_def level_amount volume_ok_def)
  moreover have t: "ht.clean 20 ?t" "map_of (htable_items ?t) = map_of xs" "set (htable_items ?t) = set xs"
    "htable_size ?t = length xs"
    using foldl_insert_map_of [OF e x(4)] foldl_htable_insert [OF e(1), of xs] x(3) e
    by (auto simp: meta_ok_def htable_size_def ht_inv_def)
  ultimately show ?thesis using x by (simp add: entries_def)
qed

section \<open>What the index knows\<close>

text \<open>
  \<open>bin_view ex rep m\<close>: the bin of \<open>rep\<close> has the entries \<open>m\<close>, in the cache, on disk, or not at all.
\<close>

definition bin_view :: "exbin \<Rightarrow> fingerprint \<Rightarrow> (byte list \<rightharpoonup> chunkaddress) \<Rightarrow> bool" where
  "bin_view ex rep m \<longleftrightarrow>
     (case htable_lookup (bin_cache ex) rep of
        Some b \<Rightarrow> m = entries b
      | None \<Rightarrow> (case htable_lookup (main_table ex) rep of
          None \<Rightarrow> m = Map.empty
        | Some mi \<Rightarrow> if mi_binaddr mi = 0 then m = Map.empty else stored ex (mi_binaddr mi) rep m))"

lemma exbin_okD:
  assumes "exbin_ok ex"
  shows "volumes_ok ex" "ht.clean 20 (main_table ex)" "ht.clean 20 (bin_cache ex)"
    "\<And>k mi. htable_lookup (main_table ex) k = Some mi \<Longrightarrow> length k = 20 \<Longrightarrow>
       main_ok (k, mi) \<and> (mi_binaddr mi \<noteq> 0 \<longrightarrow> (\<exists>m. stored ex (mi_binaddr mi) k m))"
    "\<And>k b. htable_lookup (bin_cache ex) k = Some b \<Longrightarrow> length k = 20 \<Longrightarrow>
       bin_ok k b \<and> (\<exists>mi. htable_lookup (main_table ex) k = Some mi \<and> mi_binaddr mi = b_address b)"
proof -
  show "volumes_ok ex" "ht.clean 20 (main_table ex)" "ht.clean 20 (bin_cache ex)"
    using assms by (auto simp: exbin_ok_def)
  then have i: "ht_inv 20 (main_table ex)" "ht_inv 20 (bin_cache ex)" by (auto simp: ht.clean_def)
  show "main_ok (k, mi) \<and> (mi_binaddr mi \<noteq> 0 \<longrightarrow> (\<exists>m. stored ex (mi_binaddr mi) k m))"
    if "htable_lookup (main_table ex) k = Some mi" "length k = 20" for k mi
    using htable_lookup_Some_items [OF i(1) that(2,1)] assms by (force simp: exbin_ok_def)
  show "bin_ok k b \<and> (\<exists>mi. htable_lookup (main_table ex) k = Some mi \<and> mi_binaddr mi = b_address b)"
    if "htable_lookup (bin_cache ex) k = Some b" "length k = 20" for k b
    using htable_lookup_Some_items [OF i(2) that(2,1)] assms by (force simp: exbin_ok_def)
qed

lemma slot_holds_unique: "slot_holds d rep m \<Longrightarrow> slot_holds d rep' m' \<Longrightarrow> m = m' \<and> rep = rep'"
proof -
  assume h: "slot_holds d rep m" "slot_holds d rep' m'"
  obtain xs pad where x: "d = rep @ put_int 4 (int (length xs)) @ concat (map enc_meta xs) @ pad"
      "length rep = 20" "\<forall>x\<in>set xs. meta_ok x" "length xs < 25000000" "m = map_of xs"
    using h(1) unfolding slot_holds_def by blast
  obtain xs' pad' where y: "d = rep' @ put_int 4 (int (length xs')) @ concat (map enc_meta xs') @ pad'"
      "length rep' = 20" "\<forall>x\<in>set xs'. meta_ok x" "length xs' < 25000000" "m' = map_of xs'"
    using h(2) unfolding slot_holds_def by blast
  have dx: "drop 20 d = put_int 4 (int (length xs)) @ concat (map enc_meta xs) @ pad"
    "drop 24 d = concat (map enc_meta xs) @ pad"
    unfolding x(1) using x(2) by simp_all
  have dy: "drop 20 d = put_int 4 (int (length xs')) @ concat (map enc_meta xs') @ pad'"
    "drop 24 d = concat (map enc_meta xs') @ pad'"
    unfolding y(1) using y(2) by simp_all
  have "get_int 4 (drop 20 d) = int (length xs)" unfolding dx(1) using x(4) by simp
  moreover have "get_int 4 (drop 20 d) = int (length xs')" unfolding dy(1) using y(4) by simp
  ultimately have n: "length xs = length xs'" by simp
  have "dec_many dec_meta 84 (length xs) (drop 24 d) = xs" unfolding dx(2) by (rule meta_codec.dec_enc_many [OF x(3)])
  moreover have "dec_many dec_meta 84 (length xs') (drop 24 d) = xs'" unfolding dy(2) by (rule meta_codec.dec_enc_many [OF y(3)])
  ultimately have "xs = xs'" unfolding n by (rule trans [OF sym])
  with x(5) y(5) have "m = m'" by simp
  moreover have "rep = rep'" using h slot_holds_rep by blast
  ultimately show ?thesis by simp
qed

lemma stored_unique: "stored ex a rep m \<Longrightarrow> stored ex a rep' m' \<Longrightarrow> m = m' \<and> rep = rep'"
  unfolding stored_def stored_at_def
  using addr_of_inject slot_holds_unique by (metis (no_types, lifting) option.inject)

lemma bin_view_unique: "bin_view ex rep m \<Longrightarrow> bin_view ex rep m' \<Longrightarrow> m = m'"
  by (auto simp: bin_view_def dest: stored_unique split: option.splits if_splits)

lemma stored_simps [simp]:
  "stored (ex\<lparr>main_table := t\<rparr>) = stored ex" "stored (ex\<lparr>bin_cache := c\<rparr>) = stored ex"
  "volumes_ok (ex\<lparr>main_table := t\<rparr>) = volumes_ok ex" "volumes_ok (ex\<lparr>bin_cache := c\<rparr>) = volumes_ok ex"
  "volumes_room n (ex\<lparr>main_table := t\<rparr>) = volumes_room n ex" "volumes_room n (ex\<lparr>bin_cache := c\<rparr>) = volumes_room n ex"
  by (auto simp: fun_eq_iff stored_def stored_at_def volumes_ok_def volumes_room_def)

lemma exbin_okI:
  assumes "volumes_ok ex" "ht.clean 20 (main_table ex)" "ht.clean 20 (bin_cache ex)"
    and "\<And>k mi. htable_lookup (main_table ex) k = Some mi \<Longrightarrow> length k = 20 \<Longrightarrow>
       main_ok (k, mi) \<and> (mi_binaddr mi \<noteq> 0 \<longrightarrow> (\<exists>m. stored ex (mi_binaddr mi) k m))"
    and "\<And>k b. htable_lookup (bin_cache ex) k = Some b \<Longrightarrow> length k = 20 \<Longrightarrow>
       bin_ok k b \<and> (\<exists>mi. htable_lookup (main_table ex) k = Some mi \<and> mi_binaddr mi = b_address b)"
  shows "exbin_ok ex"
  unfolding exbin_ok_def using assms by (auto simp: htable_clean_items)

section \<open>Freeing and loading\<close>

lemma FreeBin_spec:
  assumes ex: "exbin_ok ex" and room: "volumes_room (Suc n) ex" and rep: "length rep = 20"
    and b: "htable_lookup (bin_cache ex) rep = Some b"
  shows "\<exists>ex'. FreeBin ex b = Some ex' \<and> exbin_ok ex' \<and> volumes_room n ex' \<and>
    bin_cache ex' = fst (htable_remove rep (bin_cache ex)) \<and>
    (\<forall>rep' m. length rep' = 20 \<and> bin_view ex rep' m \<longrightarrow> bin_view ex' rep' m)"
proof -
  note D = exbin_okD [OF ex]
  obtain mi where mi: "bin_ok rep b" "htable_lookup (main_table ex) rep = Some mi" "mi_binaddr mi = b_address b"
    using D(5) [OF b rep] by blast
  have "b_address b = 0 \<or> (\<exists>m. stored ex (b_address b) rep m)"
    using D(4) [OF mi(2) rep] mi(3) by auto
  from WriteBin_spec [OF D(1) room mi(1) this] obtain ex1 a where
    W: "WriteBinToVolume ex b = Some (ex1, a)" "a \<noteq> 0" "volumes_ok ex1" "volumes_room n ex1"
      "stored ex1 a rep (entries b)" "\<And>addr rep' m. stored ex addr rep' m \<Longrightarrow> rep' \<noteq> rep \<Longrightarrow> stored ex1 addr rep' m"
      "main_table ex1 = main_table ex" "bin_cache ex1 = bin_cache ex"
    by (auto simp: entries_def)
  let ?mt = "htable_update rep (\<lambda>m. m\<lparr>mi_binaddr := a\<rparr>) (main_table ex)"
  let ?bc = "fst (htable_remove rep (bin_cache ex))"
  let ?ex = "ex1\<lparr>main_table := ?mt, bin_cache := ?bc\<rparr>"
  have br: "b_rep_finger b = rep" using mi(1) by (simp add: bin_ok_def)
  have F: "FreeBin ex b = Some ?ex"
    using W(1,2,7,8) mi(2) by (simp add: FreeBin_def br)
  have inv: "ht_inv 20 (main_table ex)" "ht_inv 20 (bin_cache ex)"
    using D(2,3) by (auto simp: ht.clean_def)
  have lm: "htable_lookup ?mt k = (if k = rep then Some (mi\<lparr>mi_binaddr := a\<rparr>) else htable_lookup (main_table ex) k)"
    if "length k = 20" for k
    using that rep mi(2) inv(1) by (simp add: htable_lookup_update)
  have lc: "htable_lookup ?bc k = (if k = rep then None else htable_lookup (bin_cache ex) k)"
    if "length k = 20" for k
    using that rep D(3) by (simp add: ht.lookup_remove)
  have "fits 8 a"
  proof -
    obtain l off where "a = addr_of l off" "l < 30" "off < 2 ^ 56"
      using W(5) by (auto simp: stored_def stored_at_def)
    then show ?thesis by (simp add: addr_of_def)
  qed
  moreover have "main_ok (rep, mi)" using D(4) [OF mi(2) rep] by simp
  ultimately have new: "main_ok (rep, mi\<lparr>mi_binaddr := a\<rparr>)" by (simp add: main_ok_def)
  have ok: "exbin_ok ?ex"
  proof (rule exbin_okI)
    show "volumes_ok ?ex" using W(3) by simp
    show "ht.clean 20 (main_table ?ex)" using htable_clean_update [OF D(2)] by simp
    show "ht.clean 20 (bin_cache ?ex)" using ht.clean_remove [OF D(3) rep] by simp
    fix k :: "byte list" assume k: "length k = 20"
    show "main_ok (k, mi') \<and> (mi_binaddr mi' \<noteq> 0 \<longrightarrow> (\<exists>m. stored ?ex (mi_binaddr mi') k m))"
      if "htable_lookup (main_table ?ex) k = Some mi'" for mi'
    proof (cases "k = rep")
      case True
      with that lm [OF k] new W(5) show ?thesis by auto
    next
      case False
      with that lm [OF k] have "htable_lookup (main_table ex) k = Some mi'" by simp
      from D(4) [OF this k] False W(6) show ?thesis by auto
    qed
    show "bin_ok k b' \<and> (\<exists>mi. htable_lookup (main_table ?ex) k = Some mi \<and> mi_binaddr mi = b_address b')"
      if "htable_lookup (bin_cache ?ex) k = Some b'" for b'
    proof -
      have "k \<noteq> rep" "htable_lookup (bin_cache ex) k = Some b'"
        using that lc [OF k] by (auto split: if_splits)
      with D(5) [of k b'] lm [OF k] k show ?thesis by auto
    qed
  qed
  have "bin_view ?ex rep' m" if v: "length rep' = 20" "bin_view ex rep' m" for rep' m
  proof (cases "rep' = rep")
    case True
    with v(2) b have "m = entries b" by (simp add: bin_view_def)
    with True W(2,5) lm [OF rep] lc [OF rep] show ?thesis by (simp add: bin_view_def)
  next
    case False
    with v W(6) lm [OF v(1)] lc [OF v(1)] show ?thesis
      by (auto simp: bin_view_def split: option.splits if_splits)
  qed
  with F ok W(4) show ?thesis by auto
qed

lemma LocationBin_spec:
  assumes ex: "exbin_ok ex" and rep: "length (rep_finger fi) = 20" "length (file_hash fi) = 20"
  shows "\<exists>ex1 addr mi. LocationBin ex fi = (ex1, addr) \<and> exbin_ok ex1 \<and>
    htable_lookup (main_table ex1) (rep_finger fi) = Some mi \<and> mi_binaddr mi = addr \<and>
    bin_cache ex1 = bin_cache ex \<and> bin_volume_array ex1 = bin_volume_array ex \<and> eb_disk ex1 = eb_disk ex \<and>
    (\<forall>rep' m. length rep' = 20 \<and> bin_view ex rep' m \<longrightarrow> bin_view ex1 rep' m)"
proof (cases "htable_lookup (main_table ex) (rep_finger fi)")
  case (Some mi)
  with ex show ?thesis by (simp add: LocationBin_def)
next
  case None
  note D = exbin_okD [OF ex]
  let ?new = "\<lparr>mi_file_hash = file_hash fi, mi_binaddr = 0\<rparr>"
  let ?mt = "htable_insert (rep_finger fi) ?new (main_table ex)"
  let ?ex = "ex\<lparr>main_table := ?mt\<rparr>"
  have lm: "htable_lookup ?mt k = (if k = rep_finger fi then Some ?new else htable_lookup (main_table ex) k)"
    if "length k = 20" for k
    using that rep(1) None D(2) by (simp add: ht.lookup_insert)
  have "exbin_ok ?ex"
  proof (rule exbin_okI)
    show "volumes_ok ?ex" using D(1) by simp
    show "ht.clean 20 (main_table ?ex)" using ht.clean_insert [OF D(2) rep(1) None] by simp
    show "ht.clean 20 (bin_cache ?ex)" using D(3) by simp
    fix k :: "byte list" assume k: "length k = 20"
    show "main_ok (k, mi') \<and> (mi_binaddr mi' \<noteq> 0 \<longrightarrow> (\<exists>m. stored ?ex (mi_binaddr mi') k m))"
      if "htable_lookup (main_table ?ex) k = Some mi'" for mi'
      using that lm [OF k] D(4) [OF _ k] rep by (auto simp: main_ok_def split: if_splits)
    show "bin_ok k b' \<and> (\<exists>mi. htable_lookup (main_table ?ex) k = Some mi \<and> mi_binaddr mi = b_address b')"
      if "htable_lookup (bin_cache ?ex) k = Some b'" for b'
      using that D(5) [OF _ k] lm [OF k] None by auto
  qed
  moreover have "bin_view ?ex rep' m" if "length rep' = 20" "bin_view ex rep' m" for rep' m
    using that None lm [OF that(1)] by (auto simp: bin_view_def split: option.splits)
  ultimately show ?thesis using lm [OF rep(1)] None by (auto simp: LocationBin_def)
qed

lemma NewBin_spec:
  assumes "0 \<le> n"
  shows "\<exists>b. NewBin addr rep n = Some b \<and> b_rep_finger b = rep \<and> b_address b = addr \<and>
    ht_inv 20 (b_fingers b) \<and> htable_items (b_fingers b) = []"
proof -
  have "0 \<le> n div 4" using assms by simp
  then obtain p where "pwr_loop (n div 4) 0 = Some p" using pwr_loop_total by blast
  then show ?thesis by (simp add: NewBin_def htable_init_def)
qed

lemma bin_ok_empty:
  "length rep = 20 \<Longrightarrow> b_rep_finger b = rep \<Longrightarrow> ht_inv 20 (b_fingers b) \<Longrightarrow> htable_items (b_fingers b) = [] \<Longrightarrow> bin_ok rep b"
  by (simp add: bin_ok_def ht.clean_def htable_size_def ht_inv_def)

text \<open>Changing what the cache holds for one representative.\<close>

lemma cache_change:
  assumes ex: "exbin_ok ex" and rep: "length rep = 20" and bc: "ht.clean 20 bc"
    and lc: "\<And>k. length k = 20 \<Longrightarrow> htable_lookup bc k = (if k = rep then Some b else htable_lookup (bin_cache ex) k)"
    and b: "bin_ok rep b" "htable_lookup (main_table ex) rep = Some mi" "mi_binaddr mi = b_address b"
  shows "exbin_ok (ex\<lparr>bin_cache := bc\<rparr>)" "bin_view (ex\<lparr>bin_cache := bc\<rparr>) rep (entries b)"
    "\<And>rep' m. length rep' = 20 \<Longrightarrow> rep' \<noteq> rep \<Longrightarrow> bin_view (ex\<lparr>bin_cache := bc\<rparr>) rep' m = bin_view ex rep' m"
proof -
  note D = exbin_okD [OF ex]
  show "exbin_ok (ex\<lparr>bin_cache := bc\<rparr>)"
  proof (rule exbin_okI)
    show "volumes_ok (ex\<lparr>bin_cache := bc\<rparr>)" "ht.clean 20 (main_table (ex\<lparr>bin_cache := bc\<rparr>))"
      "ht.clean 20 (bin_cache (ex\<lparr>bin_cache := bc\<rparr>))"
      using D(1,2) bc by simp_all
    fix k :: "byte list" assume k: "length k = 20"
    show "main_ok (k, mi') \<and> (mi_binaddr mi' \<noteq> 0 \<longrightarrow> (\<exists>m. stored (ex\<lparr>bin_cache := bc\<rparr>) (mi_binaddr mi') k m))"
      if "htable_lookup (main_table (ex\<lparr>bin_cache := bc\<rparr>)) k = Some mi'" for mi'
      using that D(4) [OF _ k] by simp
    show "bin_ok k b' \<and> (\<exists>mi. htable_lookup (main_table (ex\<lparr>bin_cache := bc\<rparr>)) k = Some mi \<and> mi_binaddr mi = b_address b')"
      if "htable_lookup (bin_cache (ex\<lparr>bin_cache := bc\<rparr>)) k = Some b'" for b'
      using that D(5) [OF _ k] lc [OF k] b by (cases "k = rep") auto
  qed
  show "bin_view (ex\<lparr>bin_cache := bc\<rparr>) rep (entries b)"
    by (simp add: bin_view_def lc [OF rep])
  show "bin_view (ex\<lparr>bin_cache := bc\<rparr>) rep' m = bin_view ex rep' m" if "length rep' = 20" "rep' \<noteq> rep" for rep' m
    using that by (auto simp: bin_view_def lc [OF that(1)] split: option.splits)
qed

lemma LoadBin_spec:
  assumes ex: "exbin_ok ex" and fi: "length (rep_finger fi) = 20" "length (file_hash fi) = 20" "0 \<le> chunknum fi"
  shows "\<exists>ex' b. LoadBin ex fi = Some (ex', b) \<and> exbin_ok ex' \<and>
    htable_lookup (bin_cache ex') (rep_finger fi) = Some b \<and> bin_view ex (rep_finger fi) (entries b) \<and>
    (\<forall>rep m. length rep = 20 \<and> bin_view ex rep m \<longrightarrow> bin_view ex' rep m) \<and>
    bin_volume_array ex' = bin_volume_array ex \<and> eb_disk ex' = eb_disk ex"
proof (cases "htable_lookup (bin_cache ex) (rep_finger fi)")
  case (Some b)
  with ex show ?thesis by (simp add: LoadBin_def bin_view_def)
next
  case None
  let ?rep = "rep_finger fi"
  obtain ex1 addr mi where L: "LocationBin ex fi = (ex1, addr)" "exbin_ok ex1"
    "htable_lookup (main_table ex1) ?rep = Some mi" "mi_binaddr mi = addr"
    "bin_cache ex1 = bin_cache ex" "bin_volume_array ex1 = bin_volume_array ex" "eb_disk ex1 = eb_disk ex"
    "\<And>rep m. length rep = 20 \<Longrightarrow> bin_view ex rep m \<Longrightarrow> bin_view ex1 rep m"
    using LocationBin_spec [OF ex fi(1,2)] by blast
  obtain b where b: "NewBin addr ?rep (chunknum fi) = Some b" "b_rep_finger b = ?rep" "b_address b = addr"
    "ht_inv 20 (b_fingers b)" "htable_items (b_fingers b) = []"
    using NewBin_spec [OF fi(3), of addr ?rep] by blast
  note D = exbin_okD [OF L(2)]
  let ?bc = "htable_insert ?rep b (bin_cache ex1)"
  let ?ex = "ex1\<lparr>bin_cache := ?bc\<rparr>"
  have n: "htable_lookup (bin_cache ex1) ?rep = None" using None L(5) by simp
  have c: "ht.clean 20 ?bc" by (rule ht.clean_insert [OF D(3) fi(1) n])
  have lc: "htable_lookup ?bc k = (if k = ?rep then Some b else htable_lookup (bin_cache ex1) k)" if "length k = 20" for k
    by (rule ht.lookup_insert [OF D(3) fi(1) n that])
  have bok: "bin_ok ?rep b" by (rule bin_ok_empty [OF fi(1) b(2,4,5)])
  have e: "entries b = Map.empty" by (simp add: entries_def b(5))
  have baddr: "mi_binaddr mi = b_address b" using L(4) b(3) by simp
  note C = cache_change [OF L(2) fi(1) c lc bok L(3) baddr]
  have view1: "m = (if addr = 0 then Map.empty else m) \<and> (addr \<noteq> 0 \<longrightarrow> stored ex1 addr ?rep m)"
    if "bin_view ex1 ?rep m" for m
    using that n L(3,4) by (auto simp: bin_view_def split: if_splits)
  show ?thesis
  proof (cases "addr = 0")
    case True
    have m: "m = Map.empty" if "bin_view ex ?rep m" for m
      using view1 [OF L(8) [OF fi(1) that]] True by simp
    have v: "bin_view ex ?rep Map.empty"
    proof (cases "htable_lookup (main_table ex) ?rep")
      case None2: None
      with None show ?thesis by (simp add: bin_view_def)
    next
      case (Some mi')
      then have "ex1 = ex" "mi_binaddr mi' = addr" using L(1) by (auto simp: LocationBin_def)
      with Some None True show ?thesis by (simp add: bin_view_def)
    qed
    have "bin_view ?ex rep m" if "length rep = 20" "bin_view ex rep m" for rep m
      using C(2,3) L(8) that m e by (cases "rep = ?rep") auto
    moreover have "LoadBin ex fi = Some (?ex, b)"
      using None b(1) True by (simp add: LoadBin_def L(1) b(2))
    ultimately show ?thesis using C(1) lc [OF fi(1)] v e L(6,7) by auto
  next
    case False
    have mt: "main_table ex1 = main_table ex" "ex1 = ex"
      using L(1) False by (auto simp: LocationBin_def split: option.splits)
    obtain m0 where m0: "stored ex1 addr ?rep m0" using D(4) [OF L(3) fi(1)] L(4) False by auto
    have "volumes_ok ?ex" "stored ?ex (b_address b) (b_rep_finger b) m0" using D(1) m0 b(2,3) by simp_all
    from ReadBin_spec [OF this b(4,5)] obtain b' where b': "ReadBinFromVolume ?ex b = Some (b', True)"
      "b_rep_finger b' = ?rep" "b_address b' = addr" "ht.clean 20 (b_fingers b')" "entries b' = m0"
      "\<forall>x\<in>set (htable_items (b_fingers b')). meta_ok x" "htable_size (b_fingers b') < 25000000"
      using b(2,3) by auto
    let ?bc' = "htable_update ?rep (\<lambda>_. b') ?bc"
    let ?ex' = "ex1\<lparr>bin_cache := ?bc'\<rparr>"
    have c': "ht.clean 20 ?bc'" by (rule htable_clean_update [OF c])
    have lc': "htable_lookup ?bc' k = (if k = ?rep then Some b' else htable_lookup (bin_cache ex1) k)"
      if "length k = 20" for k
      using htable_lookup_update [OF htable_cleanD(1) [OF c] fi(1) that] lc [OF that] lc [OF fi(1)] by simp
    have bok': "bin_ok ?rep b'" using b' fi(1) by (simp add: bin_ok_def)
    have baddr': "mi_binaddr mi = b_address b'" using L(4) b'(3) by simp
    note C' = cache_change [OF L(2) fi(1) c' lc' bok' L(3) baddr']
    have v: "bin_view ex ?rep m0" using m0 None L(3,4) False by (simp add: bin_view_def mt)
    have "bin_view ?ex' rep m" if "length rep = 20" "bin_view ex rep m" for rep m
    proof (cases "rep = ?rep")
      case True
      have "m = m0" using bin_view_unique [OF _ v, of m] that(2) True by simp
      with C'(2) b'(5) True show ?thesis by simp
    next
      case False
      with C'(3) that mt(2) show ?thesis by simp
    qed
    moreover have "LoadBin ex fi = Some (?ex', b')"
      using None False by (simp add: LoadBin_def L(1) b(1,2) b'(1,2))
    ultimately show ?thesis using C'(1) lc' [OF fi(1)] v b'(5) mt(2) by auto
  qed
qed

end
