(* ===== verification/ExBinDisk.thy ===== *)
theory ExBinDisk
  imports ExBin
begin

text \<open>
  The index across program runs (client/src/extreme_binning.c): \<open>free_cache_bin\<close> writes the bins
  back, \<open>ExtremeBinningFlush\<close> the primary index and the volume headers, and \<open>ExtremeBinningInit\<close>
  of the next run finds every bin again with the same entries.
\<close>

section \<open>Emptying the cache\<close>

lemma free_bins_spec:
  assumes "exbin_ok ex" "volumes_room (length kbs + n) ex" "distinct (map fst kbs)"
    and "\<forall>kb\<in>set kbs. length (fst kb) = 20 \<and> htable_lookup (bin_cache ex) (fst kb) = Some (snd kb)"
  shows "\<exists>ex'. free_bins ex (map snd kbs) = Some ex' \<and> exbin_ok ex' \<and> volumes_room n ex' \<and>
    (\<forall>k. length k = 20 \<longrightarrow> htable_lookup (bin_cache ex') k =
       (if k \<in> fst ` set kbs then None else htable_lookup (bin_cache ex) k)) \<and>
    (\<forall>rep m. length rep = 20 \<and> bin_view ex rep m \<longrightarrow> bin_view ex' rep m)"
  using assms
proof (induction kbs arbitrary: ex)
  case Nil
  then show ?case by simp
next
  case (Cons kb kbs)
  have k: "length (fst kb) = 20" "htable_lookup (bin_cache ex) (fst kb) = Some (snd kb)"
    using Cons.prems(4) by auto
  have room: "volumes_room (Suc (length kbs + n)) ex" using Cons.prems(2) by simp
  obtain ex1 where F: "FreeBin ex (snd kb) = Some ex1" "exbin_ok ex1" "volumes_room (length kbs + n) ex1"
    "bin_cache ex1 = fst (htable_remove (fst kb) (bin_cache ex))"
    "\<And>rep m. length rep = 20 \<Longrightarrow> bin_view ex rep m \<Longrightarrow> bin_view ex1 rep m"
    using FreeBin_spec [OF Cons.prems(1) room k] by blast
  have lc: "htable_lookup (bin_cache ex1) k' = (if k' = fst kb then None else htable_lookup (bin_cache ex) k')"
    if "length k' = 20" for k'
    unfolding F(4) by (rule ht.lookup_remove [OF exbin_okD(3) [OF Cons.prems(1)] k(1) that])
  have "\<forall>x\<in>set kbs. length (fst x) = 20 \<and> htable_lookup (bin_cache ex1) (fst x) = Some (snd x)"
  proof
    fix x assume x: "x \<in> set kbs"
    from Cons.prems(3) have "fst kb \<notin> fst ` set kbs" by simp
    with x have "fst x \<noteq> fst kb" by (metis imageI)
    moreover have "length (fst x) = 20" using x Cons.prems(4) by simp
    ultimately have "fst x \<noteq> fst kb" "length (fst x) = 20" by auto
    with x Cons.prems(4) lc show "length (fst x) = 20 \<and> htable_lookup (bin_cache ex1) (fst x) = Some (snd x)" by simp
  qed
  with Cons.IH [OF F(2,3)] Cons.prems(3) obtain ex' where
    IH: "free_bins ex1 (map snd kbs) = Some ex'" "exbin_ok ex'" "volumes_room n ex'"
    "\<forall>k. length k = 20 \<longrightarrow> htable_lookup (bin_cache ex') k =
       (if k \<in> fst ` set kbs then None else htable_lookup (bin_cache ex1) k)"
    "\<forall>rep m. length rep = 20 \<and> bin_view ex1 rep m \<longrightarrow> bin_view ex' rep m"
    by auto
  with F(1,5) lc show ?case by auto
qed

lemma free_cache_bin_spec:
  assumes ex: "exbin_ok ex" and room: "volumes_room (htable_size (bin_cache ex) + n) ex"
  shows "\<exists>ex'. free_cache_bin ex = Some ex' \<and> exbin_ok ex' \<and> volumes_room n ex' \<and>
    (\<forall>k. length k = 20 \<longrightarrow> htable_lookup (bin_cache ex') k = None) \<and>
    (\<forall>rep m. length rep = 20 \<and> bin_view ex rep m \<longrightarrow> bin_view ex' rep m)"
proof -
  let ?kbs = "htable_items (bin_cache ex)"
  note c = htable_cleanD [OF exbin_okD(3) [OF ex]]
  have len: "htable_size (bin_cache ex) = length ?kbs" using c(1) by (simp add: htable_size_def ht_inv_def)
  have l: "\<forall>kb\<in>set ?kbs. length (fst kb) = 20 \<and> htable_lookup (bin_cache ex) (fst kb) = Some (snd kb)"
    using htable_clean_items [OF exbin_okD(3) [OF ex]] by (metis prod.collapse)
  obtain ex' where F: "free_bins ex (map snd ?kbs) = Some ex'" "exbin_ok ex'" "volumes_room n ex'"
    "\<forall>k. length k = 20 \<longrightarrow> htable_lookup (bin_cache ex') k =
       (if k \<in> fst ` set ?kbs then None else htable_lookup (bin_cache ex) k)"
    "\<forall>rep m. length rep = 20 \<and> bin_view ex rep m \<longrightarrow> bin_view ex' rep m"
    using free_bins_spec [OF ex _ c(2) l, of n] room len by auto
  have "htable_lookup (bin_cache ex') k = None" if "length k = 20" for k
    using F(4) that htable_lookup_None [OF c(1) that] by auto
  with F show ?thesis by (auto simp: free_cache_bin_def)
qed

section \<open>Volumes across runs\<close>

lemma length_volume_header [simp]: "length (volume_header level num len) = 20"
  by (simp add: volume_header_def)

lemma BinVolumeInit_reload:
  assumes "\<not> denied dk (vol_path l)" "files dk (vol_path l) = Some (volume_header (int l) num len @ r)"
    "l < 30" "fits 8 len"
  shows "BinVolumeInit dk (int l) =
    (dk, \<lparr>current_bin_num = get_int 4 (put_int 4 num), current_volume_length = len,
          bv_filename = vol_path l, bv_level = int l\<rparr>)"
proof -
  let ?f = "volume_header (int l) num len @ r"
  have g: "get_int 4 ?f = magic_key" "get_int 4 (drop 4 ?f) = int l"
    "read_int 4 0 (drop 8 ?f) = get_int 4 (put_int 4 num)"
    "read_int 8 bvolume_head_size (drop 12 ?f) = len"
    using assms(3,4) by (simp_all add: volume_header_def magic_key_def read_int_full) (simp add: get_int_def)
  have p: "BinPath @ asc ''bvol'' @ dec_digits (nat (int l)) = vol_path l" by (simp add: vol_path_def)
  show ?thesis
    unfolding BinVolumeInit_def Let_def bin_volume.simps p
    using assms(1,2) g by (simp add: open_creat_exists file_bytes_def)
qed

lemma init_volumes_reload:
  assumes "\<forall>l\<in>set is. l < 30 \<and> \<not> denied dk (vol_path l) \<and> fits 8 (len l) \<and>
     (\<exists>r. files dk (vol_path l) = Some (volume_header (int l) (num l) (len l) @ r))"
  shows "init_volumes dk (map int is) = (dk, map (\<lambda>l. \<lparr>current_bin_num = get_int 4 (put_int 4 (num l)),
     current_volume_length = len l, bv_filename = vol_path l, bv_level = int l\<rparr>) is)"
  using assms
proof (induction "is")
  case (Cons l "is")
  then obtain r where "files dk (vol_path l) = Some (volume_header (int l) (num l) (len l) @ r)" by auto
  with Cons BinVolumeInit_reload [of dk l "num l" "len l" r] show ?case by simp
qed simp

lemma BinVolumeFlush_eq:
  assumes "volume_ok dk l v" "files dk (vol_path l) = Some f"
  shows "fst (BinVolumeFlush dk v) = dk\<lparr>files := (files dk)(vol_path l \<mapsto>
     pwrite f 0 (volume_header (int l) (current_bin_num v) (current_volume_length v)))\<rparr>"
  using assms by (simp add: BinVolumeFlush_def volume_ok_def open_creat_exists disk_pwrite_def)

lemma flush_volumes_spec:
  assumes "\<forall>lv\<in>set lvs. volume_ok dk (fst lv) (snd lv)" "distinct (map fst lvs)"
  shows "denied (flush_volumes dk (map snd lvs)) = denied dk \<and>
    (\<forall>lv\<in>set lvs. \<exists>f. files dk (vol_path (fst lv)) = Some f \<and>
       files (flush_volumes dk (map snd lvs)) (vol_path (fst lv)) =
         Some (pwrite f 0 (volume_header (int (fst lv)) (current_bin_num (snd lv)) (current_volume_length (snd lv))))) \<and>
    (\<forall>p. p \<notin> (vol_path \<circ> fst) ` set lvs \<longrightarrow> files (flush_volumes dk (map snd lvs)) p = files dk p)"
  using assms
proof (induction lvs arbitrary: dk)
  case Nil
  then show ?case by simp
next
  case (Cons lv lvs)
  obtain l v where lv: "lv = (l, v)" by (cases lv)
  have v: "volume_ok dk l v" using Cons.prems lv by simp
  then obtain f where f: "files dk (vol_path l) = Some f" by (auto simp: volume_ok_def)
  let ?dk = "fst (BinVolumeFlush dk v)"
  note dk = BinVolumeFlush_eq [OF v f]
  have ne: "\<forall>x\<in>set lvs. fst x \<noteq> l" using Cons.prems(2) lv by auto
  have "\<forall>x\<in>set lvs. volume_ok ?dk (fst x) (snd x)"
    using Cons.prems(1) ne by (auto simp: dk volume_ok_def)
  note IH = Cons.IH [OF this]
  have "\<forall>x\<in>set lvs. files ?dk (vol_path (fst x)) = files dk (vol_path (fst x))"
    using ne by (simp add: dk)
  moreover have "vol_path l \<notin> (vol_path \<circ> fst) ` set lvs" using ne by auto
  ultimately show ?case using IH Cons.prems(2) f
    by (auto simp: lv dk)
qed

section \<open>Flush and the next run\<close>

lemma repfinger_not_vol [simp]: "repfinger_path \<noteq> vol_path l" "vol_path l \<noteq> repfinger_path"
proof -
  have "repfinger_path ! 6 \<noteq> vol_path l ! 6"
    by (simp add: repfinger_path_def vol_path_def BinPath_def asc_def)
  then show "repfinger_path \<noteq> vol_path l" "vol_path l \<noteq> repfinger_path" by metis+
qed

lemma index_roundtrip:
  assumes mt: "ht.clean 20 mt" "\<forall>km\<in>set (htable_items mt). main_ok km"
    and t: "ht.clean 20 t" "htable_items t = []"
    and f: "f = put_int 4 magic_key @ put_int 4 (int (htable_size mt)) @ concat (map enc_main (htable_items mt)) @ r"
    and size: "htable_size mt < 2 ^ 31"
  shows "4 \<le> length f \<and> get_int 4 f = magic_key \<and> nat (read_int 4 0 (drop 4 f)) = htable_size mt \<and>
    ht.clean 20 (foldl (\<lambda>t (k, m). htable_insert k m t) t
      (dec_many dec_main 48 (htable_size mt) (drop 8 f @ z))) \<and>
    (\<forall>k. length k = 20 \<longrightarrow> htable_lookup (foldl (\<lambda>t (k, m). htable_insert k m t) t
      (dec_many dec_main 48 (htable_size mt) (drop 8 f @ z))) k = htable_lookup mt k)"
proof -
  note c = htable_cleanD [OF mt(1)]
  have len: "htable_size mt = length (htable_items mt)" using c(1) by (simp add: htable_size_def ht_inv_def)
  have d: "dec_many dec_main 48 (htable_size mt) (drop 8 f @ z) = htable_items mt"
    unfolding f len using main_codec.dec_enc_many [OF mt(2), of "r @ z"] by simp
  have g: "4 \<le> length f" "get_int 4 f = magic_key" "nat (read_int 4 0 (drop 4 f)) = htable_size mt"
    using size by (simp_all add: f magic_key_def read_int_full)
  have "\<forall>kv\<in>set (htable_items mt). length (fst kv) = 20 \<and> htable_lookup t (fst kv) = None"
    using htable_items_key [OF c(1)] htable_lookup_None [OF htable_cleanD(1) [OF t(1)]] t(2) by auto
  from ht.load_clean [OF t(1) c(2) this] ht.reload_lookup [OF mt(1) t(1,2)] g
  show ?thesis by (auto simp: d)
qed

lemma flush_init_volumes:
  assumes "exbin_ok ex" "denied dk = denied (eb_disk ex)"
    "\<forall>l<30. files dk (vol_path l) = files (eb_disk ex) (vol_path l)"
    "\<forall>l<30. current_volume_length (bin_volume_array ex ! l) < 2 ^ 63"
    "dk' = flush_volumes dk (bin_volume_array ex)"
  shows "denied dk' = denied dk \<and> files dk' repfinger_path = files dk repfinger_path \<and>
    (\<exists>vs. init_volumes dk' (map int [0..<30]) = (dk', vs) \<and> length vs = 30 \<and>
      (\<forall>l<30. volume_ok dk' l (vs ! l) \<and>
         current_volume_length (vs ! l) = current_volume_length (bin_volume_array ex ! l) \<and>
         (\<exists>f h. files (eb_disk ex) (vol_path l) = Some f \<and> length h = 20 \<and> files dk' (vol_path l) = Some (pwrite f 0 h))))"
proof -
  let ?vs = "bin_volume_array ex"
  let ?lvs = "zip [0..<30] ?vs"
  have V: "length ?vs = 30" "\<And>l. l < 30 \<Longrightarrow> volume_ok (eb_disk ex) l (?vs ! l)"
    using exbin_okD(1) [OF assms(1)] by (auto simp: volumes_ok_def)
  have vok: "volume_ok dk l (?vs ! l)" if "l < 30" for l
    using V(2) [OF that] assms(2,3) that by (simp add: volume_ok_def)
  have "\<forall>lv\<in>set ?lvs. volume_ok dk (fst lv) (snd lv)" using vok V(1) by (auto simp: set_zip)
  moreover have m: "map snd ?lvs = ?vs" "map fst ?lvs = [0..<30]" using V(1) by simp_all
  moreover have "distinct (map fst ?lvs)" unfolding m(2) by simp
  ultimately have F: "denied dk' = denied dk"
    "\<forall>lv\<in>set ?lvs. \<exists>f. files dk (vol_path (fst lv)) = Some f \<and> files dk' (vol_path (fst lv)) =
         Some (pwrite f 0 (volume_header (int (fst lv)) (current_bin_num (snd lv)) (current_volume_length (snd lv))))"
    "\<forall>p. p \<notin> (vol_path \<circ> fst) ` set ?lvs \<longrightarrow> files dk' p = files dk p"
    using flush_volumes_spec [of ?lvs dk] assms(5) by auto
  have fl: "\<exists>f. files (eb_disk ex) (vol_path l) = Some f \<and> files dk' (vol_path l) =
      Some (pwrite f 0 (volume_header (int l) (current_bin_num (?vs ! l)) (current_volume_length (?vs ! l))))"
    if "l < 30" for l
  proof -
    have "(l, ?vs ! l) \<in> set ?lvs" using that V(1) by (force simp: set_zip)
    with F(2) assms(3) that show ?thesis by force
  qed
  have "repfinger_path \<notin> (vol_path \<circ> fst) ` set ?lvs" by (metis comp_apply imageE repfinger_not_vol(1))
  then have "files dk' repfinger_path = files dk repfinger_path" using F(3) by blast
  moreover have "\<forall>l\<in>set [0..<30]. l < 30 \<and> \<not> denied dk' (vol_path l) \<and> fits 8 (current_volume_length (?vs ! l)) \<and>
     (\<exists>r. files dk' (vol_path l) = Some (volume_header (int l) (current_bin_num (?vs ! l)) (current_volume_length (?vs ! l)) @ r))"
  proof
    fix l assume "l \<in> set [0..<30::nat]"
    then have l: "l < 30" by simp
    have "20 \<le> current_volume_length (?vs ! l)" "\<not> denied dk' (vol_path l)"
      using vok [OF l] F(1) by (auto simp: volume_ok_def)
    with fl [OF l] assms(4) l show "l < 30 \<and> \<not> denied dk' (vol_path l) \<and> fits 8 (current_volume_length (?vs ! l)) \<and>
     (\<exists>r. files dk' (vol_path l) = Some (volume_header (int l) (current_bin_num (?vs ! l)) (current_volume_length (?vs ! l)) @ r))"
      by (auto simp: pwrite_0)
  qed
  note R = init_volumes_reload [OF this]
  have "\<exists>f h. files (eb_disk ex) (vol_path l) = Some f \<and> length h = 20 \<and> files dk' (vol_path l) = Some (pwrite f 0 h)"
    if "l < 30" for l
    using fl [OF that] length_volume_header by blast
  moreover have "volume_ok dk' l \<lparr>current_bin_num = get_int 4 (put_int 4 (current_bin_num (?vs ! l))),
      current_volume_length = current_volume_length (?vs ! l), bv_filename = vol_path l, bv_level = int l\<rparr>" if "l < 30" for l
    using vok [OF that] fl [OF that] F(1) by (auto simp: volume_ok_def)
  ultimately show ?thesis using F(1) R by auto
qed

lemma flush_init:
  assumes ex: "exbin_ok ex" and cache: "\<forall>k. length k = 20 \<longrightarrow> htable_lookup (bin_cache ex) k = None"
    and rep: "\<not> denied (eb_disk ex) repfinger_path" and size: "htable_size (main_table ex) < 2 ^ 31"
    and room: "volumes_room n ex"
  shows "\<exists>ex1 ex2. ExtremeBinningFlush ex = (ex1, True) \<and> ExtremeBinningInit (eb_disk ex1) = Some (ex2, True) \<and>
    exbin_ok ex2 \<and> volumes_room n ex2 \<and> (\<forall>rep m. length rep = 20 \<and> bin_view ex rep m \<longrightarrow> bin_view ex2 rep m)"
proof -
  note D = exbin_okD [OF ex]
  define d where "d = put_int 4 magic_key @ put_int 4 (int (htable_size (main_table ex)))
                  @ concat (map enc_main (htable_items (main_table ex)))"
  obtain dk1 where dk1: "open_creat (eb_disk ex) repfinger_path = Some dk1"
    using rep by (simp add: open_creat_def)
  define dk2 where "dk2 = disk_pwrite dk1 repfinger_path 0 d"
  define dk3 where "dk3 = flush_volumes dk2 (bin_volume_array ex)"
  have dk2: "denied dk2 = denied (eb_disk ex)" "\<forall>l<30. files dk2 (vol_path l) = files (eb_disk ex) (vol_path l)"
    using dk1 by (auto simp: dk2_def disk_pwrite_def open_creat_def split: if_splits)
  obtain r where r: "files dk2 repfinger_path = Some (d @ r)"
    by (auto simp: dk2_def disk_pwrite_def pwrite_0)
  have cvl: "\<forall>l<30. current_volume_length (bin_volume_array ex ! l) < 2 ^ 63"
  proof (intro allI impI)
    fix l :: nat assume "l < 30"
    with room have "current_volume_length (bin_volume_array ex ! l) + int (n * slot l) < 2 ^ 56"
      by (simp add: volumes_room_def)
    moreover have "(0 :: int) \<le> int (n * slot l)" by (rule of_nat_0_le_iff)
    moreover have "(2 :: int) ^ 56 \<le> 2 ^ 63" by simp
    ultimately show "current_volume_length (bin_volume_array ex ! l) < 2 ^ 63" by linarith
  qed
  from flush_init_volumes [OF ex dk2 cvl dk3_def] obtain vs where
    V: "denied dk3 = denied dk2" "files dk3 repfinger_path = files dk2 repfinger_path"
      "init_volumes dk3 (map int [0..<30]) = (dk3, vs)" "length vs = 30"
      "\<And>l. l < 30 \<Longrightarrow> volume_ok dk3 l (vs ! l)"
      "\<And>l. l < 30 \<Longrightarrow> current_volume_length (vs ! l) = current_volume_length (bin_volume_array ex ! l)"
      "\<And>l. l < 30 \<Longrightarrow> \<exists>f h. files (eb_disk ex) (vol_path l) = Some f \<and> length h = 20 \<and> files dk3 (vol_path l) = Some (pwrite f 0 h)"
    by blast
  have Fl: "ExtremeBinningFlush ex = (ex\<lparr>eb_disk := dk3\<rparr>, True)"
    by (simp add: ExtremeBinningFlush_def dk1 d_def dk2_def dk3_def Let_def)
  obtain mt0 :: "main_index htable" where mt0: "htable_init 20 3200 = Some mt0" "ht.clean 20 mt0" "htable_items mt0 = []"
    using htable_fresh [of 3200] by auto
  obtain bc0 :: "bin htable" where bc0: "htable_init 20 100 = Some bc0" "ht.clean 20 bc0"
    "\<forall>k. length k = 20 \<longrightarrow> htable_lookup bc0 k = None"
    using htable_fresh [of 100] by auto
  let ?f = "d @ r"
  let ?mt = "foldl (\<lambda>t (k, m). htable_insert k m t) mt0 (dec_many dec_main 48 (htable_size (main_table ex))
      (drop 8 ?f @ replicate (48 * htable_size (main_table ex)) 0))"
  have mok: "\<forall>km\<in>set (htable_items (main_table ex)). main_ok km" using ex by (simp add: exbin_ok_def)
  have I: "4 \<le> length ?f" "get_int 4 ?f = magic_key" "nat (read_int 4 0 (drop 4 ?f)) = htable_size (main_table ex)"
    "ht.clean 20 ?mt" "\<forall>k. length k = 20 \<longrightarrow> htable_lookup ?mt k = htable_lookup (main_table ex) k"
    using index_roundtrip [OF D(2) mok mt0(2,3) _ size, of ?f r] by (auto simp: d_def)
  define ex2 where "ex2 = \<lparr>main_table = ?mt, bin_cache = bc0, bin_volume_array = vs, eb_disk = dk3\<rparr>"
  have oc: "open_creat dk3 repfinger_path = Some dk3"
    using rep V(1,2) dk2(1) r by (simp add: open_creat_exists)
  have In: "ExtremeBinningInit dk3 = Some (ex2, True)"
  proof -
    have "file_bytes dk3 repfinger_path = ?f" by (simp add: file_bytes_def V(2) r)
    moreover have "nat max_bin_level = 30" by (simp add: max_bin_level_def)
    ultimately show ?thesis
      unfolding ExtremeBinningInit_def mt0(1) bc0(1) oc ex2_def Let_def
      by (simp only: option.case prod.case V(3) I(1-3) simp_thms if_True)
  qed
  have st: "stored ex2 a rep m" if s: "stored ex a rep m" for a rep m
  proof -
    obtain l off where a: "a = addr_of l off" "stored_at ex l off rep m" using s by (auto simp: stored_def)
    then have l: "l < 30" "20 \<le> off" by (auto simp: stored_at_def)
    obtain f h where f: "files (eb_disk ex) (vol_path l) = Some f" "length h = 20" "files dk3 (vol_path l) = Some (pwrite f 0 h)"
      using V(7) [OF l(1)] by blast
    have "stored_at ex2 l off rep m"
      using a(2) f l V(6) [OF l(1)] pread_pwrite_after [of 0 h off "slot l" f]
      by (simp add: stored_at_def ex2_def)
    with a(1) show ?thesis by (auto simp: stored_def)
  qed
  have "exbin_ok ex2"
  proof (rule exbin_okI)
    show "volumes_ok ex2" using V(4,5) by (simp add: volumes_ok_def ex2_def)
    show "ht.clean 20 (main_table ex2)" "ht.clean 20 (bin_cache ex2)" using I(4) bc0(2) by (simp_all add: ex2_def)
    fix k :: "byte list" assume k: "length k = 20"
    show "main_ok (k, mi) \<and> (mi_binaddr mi \<noteq> 0 \<longrightarrow> (\<exists>m. stored ex2 (mi_binaddr mi) k m))"
      if "htable_lookup (main_table ex2) k = Some mi" for mi
    proof -
      have "htable_lookup (main_table ex) k = Some mi" using that I(5) k by (simp add: ex2_def)
      from D(4) [OF this k] st show ?thesis by blast
    qed
    show "bin_ok k b \<and> (\<exists>mi. htable_lookup (main_table ex2) k = Some mi \<and> mi_binaddr mi = b_address b)"
      if "htable_lookup (bin_cache ex2) k = Some b" for b
      using that bc0(3) k by (simp add: ex2_def)
  qed
  moreover have "bin_view ex2 rep m" if "length rep = 20" "bin_view ex rep m" for rep m
  proof -
    have l: "htable_lookup (main_table ex2) rep = htable_lookup (main_table ex) rep"
      "htable_lookup (bin_cache ex2) rep = None" "htable_lookup (bin_cache ex) rep = None"
      using I(5) bc0(3) cache that(1) by (simp_all add: ex2_def)
    show ?thesis using that(2) st unfolding bin_view_def l by (auto split: option.splits if_splits)
  qed
  moreover have "volumes_room n ex2" using room V(6) by (simp add: volumes_room_def ex2_def)
  ultimately show ?thesis using Fl In by auto
qed

section \<open>The first run\<close>

lemma BinVolumeInit_fresh:
  assumes "\<not> denied dk (vol_path l)" "files dk (vol_path l) = None"
  shows "BinVolumeInit dk (int l) =
    (dk\<lparr>files := (files dk)(vol_path l \<mapsto> volume_header (int l) 0 20)\<rparr>,
     \<lparr>current_bin_num = 0, current_volume_length = 20, bv_filename = vol_path l, bv_level = int l\<rparr>)"
proof -
  have p: "BinPath @ asc ''bvol'' @ dec_digits (nat (int l)) = vol_path l" by (simp add: vol_path_def)
  show ?thesis
    unfolding BinVolumeInit_def Let_def bin_volume.simps p
    using assms by (simp add: open_creat_def file_bytes_def disk_pwrite_def pwrite_0 bvolume_head_size_def)
qed

lemma init_volumes_fresh:
  assumes "distinct is" "\<forall>p. \<not> denied dk p" "\<forall>l\<in>set is. files dk (vol_path l) = None"
  shows "init_volumes dk (map int is) =
    (dk\<lparr>files := \<lambda>p. (if p \<in> vol_path ` set is then Some (volume_header (int (THE l. p = vol_path l)) 0 20) else files dk p)\<rparr>,
     map (\<lambda>l. \<lparr>current_bin_num = 0, current_volume_length = 20, bv_filename = vol_path l, bv_level = int l\<rparr>) is)"
  using assms
proof (induction "is" arbitrary: dk)
  case Nil
  then show ?case by simp
next
  case (Cons l "is")
  let ?dk = "dk\<lparr>files := (files dk)(vol_path l \<mapsto> volume_header (int l) 0 20)\<rparr>"
  have "BinVolumeInit dk (int l) = (?dk, \<lparr>current_bin_num = 0, current_volume_length = 20, bv_filename = vol_path l, bv_level = int l\<rparr>)"
    using Cons.prems by (intro BinVolumeInit_fresh) auto
  moreover have "\<forall>k\<in>set is. files ?dk (vol_path k) = None" using Cons.prems by auto
  moreover have "(THE l'. vol_path l = vol_path l') = l" by simp
  ultimately show ?case using Cons.IH [of ?dk] Cons.prems by (auto simp: fun_eq_iff)
qed

definition demo_exbin :: exbin where
  "demo_exbin = fst (the (ExtremeBinningInit empty_disk))"

lemma first_run:
  "ExtremeBinningInit empty_disk = Some (demo_exbin, True) \<and> exbin_ok demo_exbin \<and> volumes_room 100 demo_exbin \<and>
   (\<forall>k. length k = 20 \<longrightarrow> htable_lookup (bin_cache demo_exbin) k = None \<and> htable_lookup (main_table demo_exbin) k = None) \<and>
   (\<forall>p. \<not> denied (eb_disk demo_exbin) p) \<and> htable_items (main_table demo_exbin) = [] \<and>
   htable_items (bin_cache demo_exbin) = []"
proof -
  obtain mt0 :: "main_index htable" where mt0: "htable_init 20 3200 = Some mt0" "ht.clean 20 mt0" "htable_items mt0 = []"
    "\<forall>k. length k = 20 \<longrightarrow> htable_lookup mt0 k = None"
    using htable_fresh [of 3200] by auto
  obtain bc0 :: "bin htable" where bc0: "htable_init 20 100 = Some bc0" "ht.clean 20 bc0"
    "\<forall>k. length k = 20 \<longrightarrow> htable_lookup bc0 k = None" "htable_items bc0 = []"
    using htable_fresh [of 100] by auto
  define dk where "dk = \<lparr>files = [repfinger_path \<mapsto> []], denied = \<lambda>_. False\<rparr>"
  have oc: "open_creat empty_disk repfinger_path = Some dk"
    by (simp add: open_creat_def empty_disk_def file_bytes_def dk_def)
  define vs where "vs = map (\<lambda>l. \<lparr>current_bin_num = 0, current_volume_length = 20, bv_filename = vol_path l, bv_level = int l\<rparr>) [0..<30::nat]"
  define dk' where "dk' = dk\<lparr>files := \<lambda>p. (if p \<in> vol_path ` set [0..<30] then Some (volume_header (int (THE l. p = vol_path l)) 0 20) else files dk p)\<rparr>"
  have iv: "init_volumes dk (map int [0..<30]) = (dk', vs)"
    unfolding dk'_def vs_def by (rule init_volumes_fresh) (simp_all add: dk_def del: upt_Suc)
  define ex where "ex = \<lparr>main_table = mt0, bin_cache = bc0, bin_volume_array = vs, eb_disk = dk'\<rparr>"
  have E: "ExtremeBinningInit empty_disk = Some (ex, True)"
  proof -
    have "file_bytes dk repfinger_path = []" "nat max_bin_level = 30" by (simp_all add: file_bytes_def dk_def max_bin_level_def)
    then show ?thesis
      unfolding ExtremeBinningInit_def mt0(1) bc0(1) oc ex_def Let_def option.case prod.case
      by (simp add: iv del: upt_Suc upt_rec_numeral)
  qed
  have nth: "vs ! l = \<lparr>current_bin_num = 0, current_volume_length = 20, bv_filename = vol_path l, bv_level = int l\<rparr>"
    if "l < 30" for l
    using that by (simp add: vs_def del: upt_Suc upt_rec_numeral)
  have vok: "volume_ok dk' l (vs ! l)" if "l < 30" for l
    using that by (simp add: volume_ok_def nth dk'_def dk_def del: upt_Suc upt_rec_numeral)
  have "exbin_ok ex"
  proof (rule exbin_okI)
    show "volumes_ok ex" using vok by (simp add: volumes_ok_def ex_def) (simp add: vs_def)
  qed (use mt0 bc0 in \<open>auto simp: ex_def\<close>)
  moreover have "volumes_room 100 ex"
    unfolding volumes_room_def
  proof (intro allI impI)
    fix l :: nat assume l: "l < 30"
    then have "slot l \<le> slot 30" by (intro slot_mono) simp
    then have "int (slot l) \<le> int (512 * 2 ^ 30)" unfolding slot_def by linarith
    with nth [OF l] show "current_volume_length (bin_volume_array ex ! l) + int 100 * int (slot l) < 2 ^ 56"
      by (simp add: ex_def)
  qed
  ultimately show ?thesis using E mt0 bc0 by (simp add: demo_exbin_def) (simp add: ex_def dk'_def dk_def)
qed

section \<open>Properties\<close>

text \<open>\<open>LoadBin\<close> finds in a bin exactly what the index holds for its representative fingerprint,
  whether the bin was in the cache, on disk or not there yet, and leaves what the index holds for
  every representative as it was; it returns for every well-formed index.\<close>

lemma load_bin_view:
  assumes "exbin_ok ex" "length (rep_finger fi) = 20" "length (file_hash fi) = 20" "0 \<le> chunknum fi"
  shows "\<exists>ex' b. LoadBin ex fi = Some (ex', b) \<and> exbin_ok ex' \<and>
    htable_lookup (bin_cache ex') (rep_finger fi) = Some b \<and> bin_view ex (rep_finger fi) (entries b) \<and>
    (\<forall>rep m. length rep = 20 \<and> bin_view ex rep m \<longrightarrow> bin_view ex' rep m)"
  using LoadBin_spec [OF assms] by blast

text \<open>C22: \<open>FreeBin\<close> writes a bin of the cache to its slot - in place, or to a slot of a higher level
  when it has grown - and drops it from the cache without losing anything: for every
  representative, the bin's own and all others, the index holds what it held before, because no
  two slots overlap.\<close>

theorem free_bin_view:
  assumes "exbin_ok ex" "volumes_room (Suc n) ex" "length rep = 20" "htable_lookup (bin_cache ex) rep = Some b"
  shows "\<exists>ex'. FreeBin ex b = Some ex' \<and> exbin_ok ex' \<and> volumes_room n ex' \<and>
    htable_lookup (bin_cache ex') rep = None \<and>
    (\<forall>rep' m. length rep' = 20 \<and> bin_view ex rep' m \<longrightarrow> bin_view ex' rep' m)"
  using FreeBin_spec [OF assms] ht.lookup_remove [OF exbin_okD(3) [OF assms(1)] assms(3,3)] by auto

lemma demo_loaded:
  obtains ex' b where "LoadBin demo_exbin file_new = Some (ex', b)" "exbin_ok ex'" "volumes_room 100 ex'"
    "htable_lookup (bin_cache ex') (memset0 20) = Some b"
proof -
  obtain ex' b where l: "LoadBin demo_exbin file_new = Some (ex', b)" "exbin_ok ex'"
    "htable_lookup (bin_cache ex') (rep_finger file_new) = Some b" "bin_volume_array ex' = bin_volume_array demo_exbin"
    using LoadBin_spec [of demo_exbin file_new] first_run by (auto simp: file_new_def)
  moreover have "volumes_room 100 ex'" using first_run l(4) by (simp add: volumes_room_def)
  ultimately show thesis using that by (simp add: file_new_def)
qed

lemma free_bin_view_witness:
  "\<exists>ex b ex'. LoadBin demo_exbin file_new = Some (ex, b) \<and> FreeBin ex b = Some ex' \<and>
     htable_lookup (bin_cache ex') (memset0 20) = None"
proof -
  obtain ex b where l: "LoadBin demo_exbin file_new = Some (ex, b)" "exbin_ok ex" "volumes_room 100 ex"
    "htable_lookup (bin_cache ex) (memset0 20) = Some b"
    by (rule demo_loaded)
  have "volumes_room (Suc 99) ex" using l(3) by simp
  from free_bin_view [OF l(2) this _ l(4)] l(1) show ?thesis by auto
qed



text \<open>C23: a bin of fewer than 25 million chunks finds a level: the search ends at the first level,
  from the bin's own on, whose slot is large enough, and that level is below 30; it keeps the
  offset only when it keeps the level.\<close>

theorem fit_level_terminates:
  assumes "bin_ok rep b" "l < 30"
  shows "\<exists>l'. fit_level (bin_nlen b) (int l) off = Some (int l', if l' = l then off else 0) \<and> l \<le> l' \<and> l' < 30 \<and>
    24 + 84 * int (htable_size (b_fingers b)) \<le> 512 * 2 ^ l' \<and>
    (\<forall>k. l \<le> k \<and> k < l' \<longrightarrow> 512 * 2 ^ k < 24 + 84 * int (htable_size (b_fingers b)))"
proof -
  define l' where "l' = (LEAST k. l \<le> k \<and> bin_nlen b \<le> int (slot k))"
  note f = fit_level_spec [OF assms(2) bin_ok_size(3) [OF assms(1)] l'_def, of off]
  have "512 * 2 ^ k < bin_nlen b" if "l \<le> k" "k < l'" for k
    using not_less_Least [of k "\<lambda>k. l \<le> k \<and> bin_nlen b \<le> int (slot k)"] that by (auto simp: l'_def slot_def)
  with f show ?thesis
    using bin_ok_size(1,2) [OF assms(1)] by (auto simp: slot_def)
qed

lemma fit_level_terminates_witness:
  "\<exists>l'. fit_level (bin_nlen \<lparr>b_rep_finger = memset0 20, b_fingers = htable_of_pwr 20 3, b_address = 0\<rparr>) 0 5
     = Some (int l', if l' = 0 then 5 else 0)"
proof -
  have "bin_ok (memset0 20) \<lparr>b_rep_finger = memset0 20, b_fingers = htable_of_pwr 20 3, b_address = 0\<rparr>"
    by (rule bin_ok_empty) auto
  from fit_level_terminates [OF this, of 0 5] show ?thesis by auto
qed

end
