(* ===== verification/Dedup.thy ===== *)
theory Dedup
  imports Chunker Store ExBinDisk
begin

text \<open>
  Chunk-level deduplication without rewriting (client/src/chunkdedup.c): the chunks of a file are
  looked up in the bin of its representative fingerprint; a known chunk takes the address from
  the bin, a new one is read from the file, stored and entered into the bin. The bin is passed
  as a value and written back to the cache by \<open>put_bin\<close>.

  The file is open for reading at any offset; the descriptor is \<open>None\<close> once it is closed. A read
  that never ends - the file has become shorter - is the result \<open>None\<close> of the whole function.
\<close>

section \<open>Storing one chunk\<close>

text \<open>
  The loop that reads \<open>n\<close> bytes at \<open>off\<close>: \<open>Some (Some d)\<close>, \<open>Some None\<close> for an error, \<open>None\<close> when it
  reads zero bytes again and again behind the end of the file.
\<close>

definition read_at :: "fdesc option \<Rightarrow> nat \<Rightarrow> nat \<Rightarrow> byte list option option" where
  "read_at fd off n =
     (if n = 0 then Some (Some []) else
      case fd of
        None \<Rightarrow> Some None
      | Some fd \<Rightarrow>
          (case fd_fault fd of
             Some k \<Rightarrow> if k < length (fd_data fd) \<and> off \<le> k \<and> k < off + n then Some None
                       else if length (fd_data fd) < off + n then None
                       else Some (Some (pread (fd_data fd) off n))
           | None \<Rightarrow> if length (fd_data fd) < off + n then None
                     else Some (Some (pread (fd_data fd) off n))))"

text \<open>On an error the function closes the descriptor that its caller goes on using.\<close>

definition write_chunk_to_cloud ::
  "bool \<Rightarrow> fdesc option \<Rightarrow> int \<Rightarrow> fingerchunk \<Rightarrow> store \<Rightarrow> (fdesc option \<times> fingerchunk \<times> store \<times> bool) option" where
  "write_chunk_to_cloud simulate fd off fc st =
     (case (if simulate then Some (Some (replicate (nat (chunklen fc)) 0))
            else read_at fd (nat off) (nat (chunklen fc))) of
        None \<Rightarrow> None
      | Some None \<Rightarrow> Some (None, fc, st, False)
      | Some (Some d) \<Rightarrow>
          let ck = \<lparr>ck_length = chunklen fc, ck_hash = chunk_hash fc, ck_address = memset0 64, ck_data = Some d\<rparr> in
          (case store_chunk simulate st ck of
             None \<Rightarrow> None
           | Some (st, ck, _) \<Rightarrow> Some (fd, fc\<lparr>fc_address := ck_address ck\<rparr>, st, True)))"

definition calculate_rep_finger :: "fileinfo \<Rightarrow> fileinfo" where
  "calculate_rep_finger fi = fi\<lparr>rep_finger := memset0 20\<rparr>"

section \<open>Looking the chunks up\<close>

text \<open>A duplicate file: the chunks that the bin does not know yet are entered.\<close>

fun mark_dedup_file :: "fingerchunk list \<Rightarrow> bin \<Rightarrow> bin" where
  "mark_dedup_file [] b = b"
| "mark_dedup_file (fc # fcs) b =
     (case htable_lookup (b_fingers b) (chunk_hash fc) of
        None \<Rightarrow> mark_dedup_file fcs (b\<lparr>b_fingers := htable_insert (chunk_hash fc) (fc_address fc) (b_fingers b)\<rparr>)
      | Some _ \<Rightarrow> mark_dedup_file fcs b)"

text \<open>
  A new file. A chunk that could not be written is entered into the bin all the same, with the
  address it had.
\<close>

fun mark_new_file ::
  "bool \<Rightarrow> fdesc option \<Rightarrow> int \<Rightarrow> fingerchunk list \<Rightarrow> bin \<Rightarrow> store \<Rightarrow> (fingerchunk list \<times> bin \<times> store) option" where
  "mark_new_file simulate fd off [] b st = Some ([], b, st)"
| "mark_new_file simulate fd off (fc # fcs) b st =
     (case htable_lookup (b_fingers b) (chunk_hash fc) of
        Some a \<Rightarrow>
          map_option (\<lambda>(fcs, b, st). (fc\<lparr>fc_is_new := DEDUP_CHUNK, fc_address := a\<rparr> # fcs, b, st))
            (mark_new_file simulate fd (off + chunklen fc) fcs b st)
      | None \<Rightarrow>
          (case write_chunk_to_cloud simulate fd off (fc\<lparr>fc_is_new := NEW_CHUNK\<rparr>) st of
             None \<Rightarrow> None
           | Some (fd, fc, st, _) \<Rightarrow>
               map_option (\<lambda>(fcs, b, st). (fc # fcs, b, st))
                 (mark_new_file simulate fd (off + chunklen fc) fcs
                   (b\<lparr>b_fingers := htable_insert (chunk_hash fc) (fc_address fc) (b_fingers b)\<rparr>) st)))"

definition mark_no_rewrite ::
  "bool \<Rightarrow> fdesc option \<Rightarrow> fileinfo \<Rightarrow> bin \<Rightarrow> store \<Rightarrow> (fileinfo \<times> bin \<times> store \<times> bool) option" where
  "mark_no_rewrite simulate file fi b st =
     (if \<not> simulate \<and> file = None then Some (fi, b, st, False)
      else if fi_is_new fi = DEDUP_FILE then Some (fi, mark_dedup_file (fchunks fi) b, st, True)
      else if fi_is_new fi = NEW_FILE then
        map_option (\<lambda>(fcs, b, st). (fi\<lparr>fchunks := fcs\<rparr>, b, st, True))
          (mark_new_file simulate file 0 (fchunks fi) b st)
      else Some (fi, b, st, True))"

definition put_bin :: "bin \<Rightarrow> exbin \<Rightarrow> exbin" where
  "put_bin b ex = ex\<lparr>bin_cache := htable_update (b_rep_finger b) (\<lambda>_. b) (bin_cache ex)\<rparr>"

text \<open>
  \<open>mark\<close> is \<open>mark_deplicate_chunk\<close> with the rewriting algorithm that is chosen; the file is opened
  twice, for chunking and for storing.
\<close>

definition chunk_dedup ::
  "(byte list \<Rightarrow> fingerprint) \<Rightarrow> (fileinfo \<Rightarrow> bin \<Rightarrow> store \<Rightarrow> (fileinfo \<times> bin \<times> store \<times> bool) option)
    \<Rightarrow> fdesc option \<Rightarrow> rabin \<Rightarrow> fileinfo \<Rightarrow> exbin \<Rightarrow> store \<Rightarrow> (rabin \<times> fileinfo \<times> exbin \<times> store \<times> int) option" where
  "chunk_dedup fp mark file rst fi ex st =
     (let (rst, fi, err) = chunk_file fp file rst fi in
      if err = FAILURE then Some (rst, fi, ex, st, -1)
      else let fi = calculate_rep_finger fi in
        (case LoadBin ex fi of
           None \<Rightarrow> None
         | Some (ex, b) \<Rightarrow>
             (case mark fi b st of
                None \<Rightarrow> None
              | Some (fi, b, st, ok) \<Rightarrow>
                  Some (rst, fi, put_bin b ex, st, if ok then 0 else -1))))"

section \<open>Storing a chunk of a readable file\<close>

abbreviation (input) readable :: "byte list \<Rightarrow> fdesc option" where
  "readable data \<equiv> Some \<lparr>fd_data = data, fd_fault = None\<rparr>"

text \<open>The bytes that a chunk of a recipe stands for.\<close>

definition chunk_of :: "byte list \<Rightarrow> int \<Rightarrow> fingerchunk \<Rightarrow> byte list" where
  "chunk_of data off fc = pread data (nat off) (nat (chunklen fc))"

definition chunk_fits :: "(byte list \<Rightarrow> fingerprint) \<Rightarrow> byte list \<Rightarrow> int \<Rightarrow> fingerchunk \<Rightarrow> bool" where
  "chunk_fits fp data off fc \<longleftrightarrow> 0 \<le> off \<and> 0 \<le> chunklen fc \<and> chunklen fc \<le> 65536 \<and>
     off + chunklen fc \<le> int (length data) \<and> chunk_hash fc = fp (chunk_of data off fc) \<and> length (chunk_hash fc) = 20"

lemma chunk_of_simps [simp]:
  "chunk_of data off (fc\<lparr>fc_is_new := x\<rparr>) = chunk_of data off fc"
  "chunk_fits fp data off (fc\<lparr>fc_is_new := x\<rparr>) = chunk_fits fp data off fc"
  by (simp_all add: chunk_of_def chunk_fits_def)

lemma write_chunk_spec:
  assumes fc: "chunk_fits fp data off fc" and room: "store_room (Suc n) st"
  shows "\<exists>a st'. write_chunk_to_cloud False (readable data) off fc st =
      Some (readable data, fc\<lparr>fc_address := a\<rparr>, st', True) \<and> store_room n st' \<and> address_ok a \<and>
      has st' a (chunk_hash fc) (chunk_of data off fc) \<and> (\<forall>a h d. has st a h d \<longrightarrow> has st' a h d) \<and>
      (\<forall>a h d. has st' a h d \<longrightarrow> has st a h d \<or> (h = chunk_hash fc \<and> d = chunk_of data off fc))"
proof -
  let ?d = "chunk_of data off fc"
  have len: "length ?d = nat (chunklen fc)" using fc by (auto simp: chunk_of_def pread_def chunk_fits_def)
  have rd: "read_at (readable data) (nat off) (nat (chunklen fc)) = Some (Some ?d)"
    using fc by (auto simp: read_at_def chunk_of_def chunk_fits_def pread_def)
  let ?ck = "\<lparr>ck_length = chunklen fc, ck_hash = chunk_hash fc, ck_address = memset0 64, ck_data = Some ?d\<rparr>"
  have ck: "chunk_ok ?ck" using fc len by (auto simp: chunk_ok_def chunk_fits_def)
  have cb: "chunk_bytes ?ck = ?d" using len by (simp add: chunk_bytes_def)
  obtain st' ck' where s: "store_chunk False st ?ck = Some (st', ck', SUCCESS)"
    using store_chunk_total by blast
  then have p: "store_put st ?ck = (st', ck_address ck')" by (simp add: store_put_def)
  have "write_chunk_to_cloud False (readable data) off fc st =
      Some (readable data, fc\<lparr>fc_address := ck_address ck'\<rparr>, st', True)"
    by (simp add: write_chunk_to_cloud_def rd s)
  with cs.inv_put [OF room ck] cs.put_new [OF room ck] cs.put_addr [OF room ck] cs.put_old [OF room ck]
    cs.put_only [OF room ck] cb
  show ?thesis by (intro exI [of _ "ck_address ck'"] exI [of _ st']) (simp add: p)
qed

section \<open>The chunks of a new file\<close>

text \<open>
  A bin is sound when every entry leads to a stored chunk with that fingerprint, and a store is
  genuine for a set \<open>D\<close> of data when its chunks are in \<open>D\<close> and have the fingerprint of their bytes.
\<close>

definition entries_sound :: "store \<Rightarrow> (byte list \<rightharpoonup> chunkaddress) \<Rightarrow> bool" where
  "entries_sound st m \<longleftrightarrow> (\<forall>h a. m h = Some a \<longrightarrow> address_ok a \<and> (\<exists>d. has st a h d))"

definition genuine :: "(byte list \<Rightarrow> fingerprint) \<Rightarrow> byte list set \<Rightarrow> store \<Rightarrow> bool" where
  "genuine fp D st \<longleftrightarrow> (\<forall>a h d. has st a h d \<longrightarrow> h = fp d \<and> d \<in> D)"

definition bin_room :: "nat \<Rightarrow> fingerprint \<Rightarrow> bin \<Rightarrow> bool" where
  "bin_room n rep b \<longleftrightarrow> bin_ok rep b \<and> htable_size (b_fingers b) + n < 25000000"

fun chunks_fit :: "(byte list \<Rightarrow> fingerprint) \<Rightarrow> byte list \<Rightarrow> int \<Rightarrow> fingerchunk list \<Rightarrow> bool" where
  "chunks_fit fp data off [] \<longleftrightarrow> True"
| "chunks_fit fp data off (fc # fcs) \<longleftrightarrow>
     fc_offset fc = off \<and> chunk_fits fp data off fc \<and> chunks_fit fp data (off + chunklen fc) fcs"

text \<open>What happens to one chunk: it keeps what it says of the file and gets a good address.\<close>

definition placed :: "store \<Rightarrow> fingerchunk \<Rightarrow> fingerchunk \<Rightarrow> bool" where
  "placed st fc fc' \<longleftrightarrow> chunk_hash fc' = chunk_hash fc \<and> chunklen fc' = chunklen fc \<and> fc_offset fc' = fc_offset fc \<and>
     address_ok (fc_address fc') \<and> (\<exists>d. has st (fc_address fc') (chunk_hash fc) d)"

lemma placed_mono: "placed st fc fc' \<Longrightarrow> \<forall>a h d. has st a h d \<longrightarrow> has st' a h d \<Longrightarrow> placed st' fc fc'"
  unfolding placed_def by blast

lemma address_ok_length: "address_ok a \<Longrightarrow> length a = 64"
  by (simp add: address_ok_def)

lemma bin_insert:
  assumes b: "bin_room (Suc n) rep b" and h: "length h = 20" "length a = 64" "htable_lookup (b_fingers b) h = None"
    and b': "b' = b\<lparr>b_fingers := htable_insert h a (b_fingers b)\<rparr>"
  shows "bin_room n rep b' \<and> entries b' = (entries b)(h \<mapsto> a) \<and> b_address b' = b_address b \<and> b_rep_finger b' = b_rep_finger b"
proof -
  have c: "ht.clean 20 (b_fingers b)" using b by (simp add: bin_room_def bin_ok_def)
  note i = htable_cleanD(1) [OF c]
  have "ht.clean 20 (htable_insert h a (b_fingers b))" by (rule ht.clean_insert [OF c h(1,3)])
  moreover have "entries b' = (entries b)(h \<mapsto> a)"
    unfolding entries_def b' using htable_entries_insert [OF c h(1,3)] by simp
  moreover have "\<forall>x\<in>set (htable_items (htable_insert h a (b_fingers b))). meta_ok x"
    using b h i by (simp add: set_htable_insert bin_room_def bin_ok_def meta_ok_def)
  ultimately show ?thesis
    using b h i by (simp add: bin_room_def bin_ok_def htable_size_insert b')
qed

lemma bin_lookup: "bin_ok rep b \<Longrightarrow> length h = 20 \<Longrightarrow> htable_lookup (b_fingers b) h = entries b h"
  unfolding entries_def bin_ok_def using htable_lookup_items htable_cleanD by blast

lemma mark_new_file_spec:
  assumes "chunks_fit fp data off fcs" "bin_room (length fcs + m) rep b" "store_room (length fcs + n) st"
    "entries_sound st (entries b)" "genuine fp D st" "\<forall>i k. pread data i k \<in> D"
  shows "\<exists>fcs' b' st'. mark_new_file False (readable data) off fcs b st = Some (fcs', b', st') \<and>
    bin_room m rep b' \<and> b_address b' = b_address b \<and> store_room n st' \<and>
    entries_sound st' (entries b') \<and> genuine fp D st' \<and> (\<forall>a h d. has st a h d \<longrightarrow> has st' a h d) \<and>
    list_all2 (placed st') fcs fcs' \<and> (\<forall>fc\<in>set fcs. entries b' (chunk_hash fc) \<noteq> None) \<and> entries b \<subseteq>\<^sub>m entries b'"
  using assms
proof (induction fcs arbitrary: off b st)
  case Nil
  then show ?case by simp
next
  case (Cons fc fcs)
  have fc: "chunk_fits fp data off fc" "chunks_fit fp data (off + chunklen fc) fcs" using Cons.prems(1) by auto
  have h: "length (chunk_hash fc) = 20" using fc(1) unfolding chunk_fits_def by blast
  have bok: "bin_ok rep b" using Cons.prems(2) by (simp add: bin_room_def)
  show ?case
  proof (cases "htable_lookup (b_fingers b) (chunk_hash fc)")
    case (Some a)
    then have e: "entries b (chunk_hash fc) = Some a" using bin_lookup [OF bok h] by simp
    have "bin_room (length fcs + m) rep b" "store_room (length fcs + n) st"
      using Cons.prems(2,3) cs.inv_less [of "length fcs + n" st] by (auto simp: bin_room_def)
    from Cons.IH [OF fc(2) this Cons.prems(4-6)] obtain fcs' b' st' where
      IH: "mark_new_file False (readable data) (off + chunklen fc) fcs b st = Some (fcs', b', st')"
      "bin_room m rep b'" "b_address b' = b_address b" "store_room n st'" "entries_sound st' (entries b')" "genuine fp D st'"
      "\<forall>a h d. has st a h d \<longrightarrow> has st' a h d" "list_all2 (placed st') fcs fcs'"
      "\<forall>fc\<in>set fcs. entries b' (chunk_hash fc) \<noteq> None" "entries b \<subseteq>\<^sub>m entries b'"
      by blast
    have "placed st' fc (fc\<lparr>fc_is_new := DEDUP_CHUNK, fc_address := a\<rparr>)"
    proof -
      have "address_ok a" "\<exists>d. has st a (chunk_hash fc) d" using Cons.prems(4) e by (auto simp: entries_sound_def)
      with IH(7) show ?thesis unfolding placed_def by auto
    qed
    moreover have "entries b' (chunk_hash fc) \<noteq> None" using IH(10) e by (force simp: map_le_def)
    ultimately show ?thesis using IH Some by auto
  next
    case None
    let ?fc = "fc\<lparr>fc_is_new := NEW_CHUNK\<rparr>"
    have "chunk_fits fp data off ?fc" using fc(1) by simp
    moreover have "store_room (Suc (length fcs + n)) st" using Cons.prems(3) by simp
    ultimately obtain a st1 where
      w: "write_chunk_to_cloud False (readable data) off ?fc st = Some (readable data, ?fc\<lparr>fc_address := a\<rparr>, st1, True)"
      "store_room (length fcs + n) st1" "address_ok a" "has st1 a (chunk_hash fc) (chunk_of data off ?fc)"
      "\<forall>a h d. has st a h d \<longrightarrow> has st1 a h d"
      "\<forall>a h d. has st1 a h d \<longrightarrow> has st a h d \<or> (h = chunk_hash fc \<and> d = chunk_of data off ?fc)"
      using write_chunk_spec [of fp data off ?fc "length fcs + n" st] by auto
    let ?b = "b\<lparr>b_fingers := htable_insert (chunk_hash fc) a (b_fingers b)\<rparr>"
    have room: "bin_room (Suc (length fcs + m)) rep b" using Cons.prems(2) by simp
    have b1: "bin_room (length fcs + m) rep ?b" "entries ?b = (entries b)(chunk_hash fc \<mapsto> a)" "b_address ?b = b_address b"
      using bin_insert [OF room h address_ok_length [OF w(3)] None refl] by auto
    have g1: "genuine fp D st1"
    proof -
      have "chunk_hash fc = fp (chunk_of data off ?fc)" using fc(1) by (simp add: chunk_fits_def)
      moreover have "chunk_of data off ?fc \<in> D" using Cons.prems(6) by (simp add: chunk_of_def)
      ultimately show ?thesis using w(6) Cons.prems(5) unfolding genuine_def by blast
    qed
    have "entries_sound st1 (entries ?b)"
      using Cons.prems(4) w(3,4,5) unfolding entries_sound_def b1(2) by (auto split: if_splits) blast+
    from Cons.IH [OF fc(2) b1(1) w(2) this g1 Cons.prems(6)] obtain fcs' b' st' where
      IH: "mark_new_file False (readable data) (off + chunklen fc) fcs ?b st1 = Some (fcs', b', st')"
      "bin_room m rep b'" "b_address b' = b_address ?b" "store_room n st'" "entries_sound st' (entries b')" "genuine fp D st'"
      "\<forall>a h d. has st1 a h d \<longrightarrow> has st' a h d" "list_all2 (placed st') fcs fcs'"
      "\<forall>fc\<in>set fcs. entries b' (chunk_hash fc) \<noteq> None" "entries ?b \<subseteq>\<^sub>m entries b'"
      by blast
    have "placed st' fc (?fc\<lparr>fc_address := a\<rparr>)" using w(3,4) IH(7) by (auto simp: placed_def)
    moreover have "entries b' (chunk_hash fc) \<noteq> None"
    proof -
      have "entries ?b (chunk_hash fc) = Some a" unfolding b1(2) by simp
      then have "entries b' (chunk_hash fc) = Some a" using IH(10) unfolding map_le_def by (metis domI)
      then show ?thesis by simp
    qed
    moreover have "entries b \<subseteq>\<^sub>m entries b'"
    proof -
      have "entries b (chunk_hash fc) = None" using None bin_lookup [OF bok h] by simp
      then have "entries b \<subseteq>\<^sub>m entries ?b" by (auto simp: map_le_def b1(2))
      with IH(10) show ?thesis using map_le_trans by blast
    qed
    moreover have "\<forall>a h d. has st a h d \<longrightarrow> has st' a h d" using w(5) IH(7) by blast
    ultimately show ?thesis using IH(1-6,8,9) w(1) None by auto
  qed
qed

section \<open>Deduplicating a file\<close>

lemma chunk_list_fit:
  assumes "\<forall>d. length (fp d) = 20" "data = pre @ concat ds @ post" "\<forall>d\<in>set ds. length d \<le> 65536"
  shows "chunks_fit fp data (int (length pre)) (chunk_list fp (int (length pre)) ds)"
  using assms
proof (induction ds arbitrary: pre)
  case (Cons d ds)
  have "chunks_fit fp data (int (length (pre @ d))) (chunk_list fp (int (length (pre @ d))) ds)"
    by (rule Cons.IH) (use Cons.prems in auto)
  moreover have "pread data (length pre) (length d) = d" using Cons.prems(2) by (simp add: pread_def)
  ultimately show ?case
    using Cons.prems by (auto simp: new_chunk_def chunk_fits_def chunk_of_def)
qed simp

text \<open>What must hold before and holds again after every file.\<close>

definition client_ok ::
  "(byte list \<Rightarrow> fingerprint) \<Rightarrow> byte list set \<Rightarrow> nat \<Rightarrow> exbin \<Rightarrow> store \<Rightarrow> bool" where
  "client_ok fp D n ex st \<longleftrightarrow> exbin_ok ex \<and> store_room n st \<and> genuine fp D st \<and>
     (\<forall>m. bin_view ex (memset0 20) m \<longrightarrow> entries_sound st m \<and> card (dom m) + n < 25000000)"

lemma bin_size_entries: "bin_ok rep b \<Longrightarrow> htable_size (b_fingers b) = card (dom (entries b))"
proof -
  assume b: "bin_ok rep b"
  then have "ht_inv 20 (b_fingers b)" "distinct (map fst (htable_items (b_fingers b)))"
    using htable_cleanD by (auto simp: bin_ok_def)
  then show ?thesis
    by (simp add: entries_def dom_map_of_conv_image_fst distinct_card flip: set_map) (simp add: htable_size_def ht_inv_def)
qed

lemma put_bin_spec:
  assumes ex: "exbin_ok ex" and b0: "length rep = 20" "htable_lookup (bin_cache ex) rep = Some b0"
    and b: "bin_ok rep b" "b_address b = b_address b0"
  shows "exbin_ok (put_bin b ex)" "bin_view (put_bin b ex) rep (entries b)"
    "\<And>rep' m. length rep' = 20 \<Longrightarrow> rep' \<noteq> rep \<Longrightarrow> bin_view (put_bin b ex) rep' m = bin_view ex rep' m"
proof -
  note D = exbin_okD [OF ex]
  obtain mi where mi: "htable_lookup (main_table ex) rep = Some mi" "mi_binaddr mi = b_address b0"
    using D(5) [OF b0(2,1)] by blast
  have r: "b_rep_finger b = rep" using b(1) by (simp add: bin_ok_def)
  have c: "ht.clean 20 (htable_update rep (\<lambda>_. b) (bin_cache ex))" by (rule htable_clean_update [OF D(3)])
  have l: "htable_lookup (htable_update rep (\<lambda>_. b) (bin_cache ex)) k =
      (if k = rep then Some b else htable_lookup (bin_cache ex) k)" if "length k = 20" for k
    using htable_lookup_update [OF htable_cleanD(1) [OF D(3)] b0(1) that] b0(2) by simp
  have a: "mi_binaddr mi = b_address b" using mi(2) b(2) by simp
  note C = cache_change [OF ex b0(1) c l b(1) mi(1) a]
  show "exbin_ok (put_bin b ex)" "bin_view (put_bin b ex) rep (entries b)"
    "\<And>rep' m. length rep' = 20 \<Longrightarrow> rep' \<noteq> rep \<Longrightarrow> bin_view (put_bin b ex) rep' m = bin_view ex rep' m"
    using C unfolding put_bin_def r by auto
qed

lemma chunk_dedup_spec:
  assumes ok: "client_ok fp D (length (ref_chunks data) + n) ex st"
    and rst: "rabin_init_flag rst \<Longrightarrow> rabin_ok rst"
    and fi: "fchunks fi = []" "chunknum fi = 0" "fi_is_new fi = NEW_FILE" "length (file_hash fi) = 20"
    and fp: "\<forall>d. length (fp d) = 20" and D: "\<forall>i k. pread data i k \<in> D"
  shows "\<exists>rst' fi' ex' st'.
    chunk_dedup fp (mark_no_rewrite False (readable data)) (readable data) rst fi ex st = Some (rst', fi', ex', st', 0) \<and>
    rabin_ok rst' \<and> client_ok fp D n ex' st' \<and> (\<forall>a h d. has st a h d \<longrightarrow> has st' a h d) \<and>
    list_all2 (placed st') (chunk_list fp 0 (ref_chunks data)) (fchunks fi') \<and>
    fi_is_new fi' = NEW_FILE \<and> file_path fi' = file_path fi \<and> chunknum fi' = int (length (fchunks fi')) \<and>
    length (fchunks fi') < 25000000 \<and> file_hash fi' = file_hash fi"
proof -
  let ?fcs = "chunk_list fp 0 (ref_chunks data)"
  let ?rep = "memset0 20 :: byte list"
  obtain rst' where cf: "rabin_ok rst'" "chunk_file fp (readable data) rst fi = (rst', add_chunks fi ?fcs, SUCCESS)"
    using chunk_file_eq [OF rst, of "\<lparr>fd_data = data, fd_fault = None\<rparr>" fp fi] by auto
  let ?fi = "calculate_rep_finger (add_chunks fi ?fcs)"
  have fi1: "rep_finger ?fi = ?rep" "file_hash ?fi = file_hash fi" "chunknum ?fi = int (length ?fcs)"
    "fchunks ?fi = ?fcs" "fi_is_new ?fi = NEW_FILE" "file_path ?fi = file_path fi"
    using fi by (simp_all add: calculate_rep_finger_def add_chunks_def)
  have ex: "exbin_ok ex" using ok by (simp add: client_ok_def)
  obtain ex1 b where L: "LoadBin ex ?fi = Some (ex1, b)" "exbin_ok ex1" "htable_lookup (bin_cache ex1) ?rep = Some b"
    "bin_view ex ?rep (entries b)"
    using LoadBin_spec [OF ex, of ?fi] fi1 fi(4) by auto
  have snd: "entries_sound st (entries b)" "card (dom (entries b)) + (length (ref_chunks data) + n) < 25000000"
    using ok L(4) by (auto simp: client_ok_def)
  have bok: "bin_ok ?rep b" using exbin_okD(5) [OF L(2,3)] by simp
  have broom: "bin_room (length ?fcs + n) ?rep b"
    using snd(2) bok bin_size_entries [OF bok] by (simp add: bin_room_def)
  have fit: "chunks_fit fp data 0 ?fcs"
    using chunk_list_fit [OF fp, of data "[]" "ref_chunks data" "[]"] ref_chunks_sizes [of data] concat_ref_chunks [of data]
    by (simp add: MAX_CHUNK_SIZE_def)
  have sroom: "store_room (length ?fcs + n) st" "genuine fp D st" using ok by (auto simp: client_ok_def)
  from mark_new_file_spec [OF fit broom sroom(1) snd(1) sroom(2) D] obtain fcs' b' st' where
    M: "mark_new_file False (readable data) 0 ?fcs b st = Some (fcs', b', st')"
    "bin_room n ?rep b'" "b_address b' = b_address b" "store_room n st'" "entries_sound st' (entries b')" "genuine fp D st'"
    "\<forall>a h d. has st a h d \<longrightarrow> has st' a h d" "list_all2 (placed st') ?fcs fcs'"
    by blast
  let ?fi' = "?fi\<lparr>fchunks := fcs'\<rparr>"
  have "mark_no_rewrite False (readable data) ?fi b st = Some (?fi', b', st', True)"
    using M(1) fi1 by (simp add: mark_no_rewrite_def)
  then have R: "chunk_dedup fp (mark_no_rewrite False (readable data)) (readable data) rst fi ex st =
      Some (rst', ?fi', put_bin b' ex1, st', 0)"
    using L(1) by (simp add: chunk_dedup_def cf(2))
  have b': "bin_ok ?rep b'" using M(2) by (simp add: bin_room_def)
  have rl: "length ?rep = 20" by simp
  note P = put_bin_spec [OF L(2) rl L(3) b' M(3)]
  have "entries_sound st' m \<and> card (dom m) + n < 25000000" if "bin_view (put_bin b' ex1) ?rep m" for m
  proof -
    have "m = entries b'" using bin_view_unique [OF that P(2)] .
    with M(2,5) bin_size_entries [OF b'] show ?thesis by (simp add: bin_room_def)
  qed
  then have "client_ok fp D n (put_bin b' ex1) st'"
    using P(1) M(4,6) by (simp add: client_ok_def)
  moreover have "length fcs' = length ?fcs" using list_all2_lengthD [OF M(8)] by simp
  moreover have "length ?fcs < 25000000" using snd(2) by (simp add: length_chunk_list)
  ultimately show ?thesis using R cf(1) M(7,8) fi1(2,3,5,6) by auto
qed

text \<open>A placed chunk is restored with the bytes of its piece of the file.\<close>

lemma restore_placed:
  assumes ok: "client_ok fp D n ex st" and pl: "list_all2 (placed st) (chunk_list fp 0 (ref_chunks data)) fcs"
    and D: "\<forall>i k. pread data i k \<in> D" "inj_on fp D"
    and rs: "cache_ok rs" "rs_disk rs = st_disk (store_destory False st)" and i: "i < length fcs"
  shows "\<exists>rs' ck'. restore_chunk False fetch rs (ck\<lparr>ck_hash := chunk_hash (fcs ! i), ck_address := fc_address (fcs ! i)\<rparr>) =
      Some (rs', ck', SUCCESS) \<and> ck_data ck' = Some (ref_chunks data ! i) \<and>
      ck_length ck' = int (length (ref_chunks data ! i)) \<and> cache_ok rs' \<and> rs_disk rs' = rs_disk rs"
proof -
  let ?ds = "ref_chunks data" and ?a = "fc_address (fcs ! i)" and ?h = "chunk_hash (fcs ! i)"
  have len: "length fcs = length ?ds" using pl by (auto dest: list_all2_lengthD)
  have st: "store_ok st" and g: "genuine fp D st" using ok by (auto simp: client_ok_def store_room_def)
  have "placed st (chunk_list fp 0 ?ds ! i) (fcs ! i)" using pl i by (simp add: list_all2_conv_all_nth)
  then obtain d where h: "?h = fp (?ds ! i)" "address_ok ?a" "has st ?a ?h d"
    using i len by (auto simp: placed_def chunk_list_nth new_chunk_def)
  have "?ds ! i \<in> D"
    using D(1) concat_slice [of i ?ds] i len by (metis concat_ref_chunks pread_def)
  then have u: "d' = ?ds ! i" if "has st ?a ?h d'" for d'
    using that g h(1) D(2) unfolding genuine_def inj_on_def by metis
  with h(3) have "has st ?a ?h (?ds ! i)" by blast
  from restore_held [OF st this u h(2) rs, of fetch ck] show ?thesis by auto
qed

section \<open>Properties\<close>

text \<open>C8: deduplicating a new, readable file succeeds and leaves every chunk of its recipe placed: hash,
  length and offset are those of the reference chunking, and the address - from the bin or from
  the store - leads to a stored chunk with that fingerprint. Index and store stay consistent,
  and nothing stored before is lost.\<close>

theorem chunk_dedup_correct:
  assumes "client_ok fp D (length (ref_chunks data) + n) ex st" "rabin_init_flag rst \<Longrightarrow> rabin_ok rst"
    and "fchunks fi = []" "chunknum fi = 0" "fi_is_new fi = NEW_FILE" "length (file_hash fi) = 20"
    and "\<forall>d. length (fp d) = 20" "\<forall>i k. pread data i k \<in> D"
  shows "\<exists>rst' fi' ex' st'.
    chunk_dedup fp (mark_no_rewrite False (readable data)) (readable data) rst fi ex st = Some (rst', fi', ex', st', 0) \<and>
    client_ok fp D n ex' st' \<and> (\<forall>a h d. has st a h d \<longrightarrow> has st' a h d) \<and>
    list_all2 (placed st') (chunk_list fp 0 (ref_chunks data)) (fchunks fi')"
  using chunk_dedup_spec [OF assms] by blast

definition demo_fp :: "byte list \<Rightarrow> fingerprint" where
  "demo_fp d = take 20 (d @ replicate 20 0)"

lemma length_demo_fp: "length (demo_fp d) = 20"
  by (simp add: demo_fp_def)

lemma demo_fp_nth: "i < 20 \<Longrightarrow> demo_fp d ! i = (if i < length d then d ! i else 0)"
  by (simp add: demo_fp_def nth_append)

lemma demo_fp_hd3: "map ((!) (demo_fp d)) [0, 1, 2] = map (\<lambda>i. if i < length d then d ! i else 0) [0, 1, 2]"
  by (simp add: demo_fp_nth)

lemma demo_client_ok: "client_ok demo_fp D 5 demo_exbin demo_store"
proof -
  have "\<not> has demo_store a h d" for a h d
    by (auto simp: has_def held_def on_disk_def empty_disk_def split: if_splits)
  moreover have "entries_sound demo_store m \<and> card (dom m) + 5 < 25000000"
    if v: "bin_view demo_exbin (memset0 20) m" for m
  proof -
    have "m = Map.empty" using v first_run by (simp add: bin_view_def)
    then show ?thesis by (simp add: entries_sound_def)
  qed
  ultimately show ?thesis
    using first_run demo_store_ok unfolding client_ok_def store_room_def genuine_def by simp
qed

lemma ref_chunks_123: "ref_chunks [1, 2, 3] = [[1, 2, 3]]"
  using first_cut_short [of "[1, 2, 3]"] by (intro ref_chunks_last) (simp_all add: MIN_CHUNK_SIZE_def)

lemma chunk_dedup_correct_witness:
  "\<exists>rst' fi' ex' st'. chunk_dedup demo_fp (mark_no_rewrite False (readable [1, 2, 3])) (readable [1, 2, 3])
      rabin_start (file_new\<lparr>fi_is_new := NEW_FILE\<rparr>) demo_exbin demo_store = Some (rst', fi', ex', st', 0) \<and>
    length (fchunks fi') = 1"
proof -
  have c: "client_ok demo_fp UNIV (length (ref_chunks [1, 2, 3]) + 4) demo_exbin demo_store"
    using demo_client_ok [of UNIV] by (simp add: ref_chunks_123)
  have r: "rabin_init_flag rabin_start \<Longrightarrow> rabin_ok rabin_start" by (simp add: rabin_start_def)
  from chunk_dedup_correct [OF c r, of "file_new\<lparr>fi_is_new := NEW_FILE\<rparr>"] length_demo_fp
  show ?thesis by (auto simp: file_new_def ref_chunks_123 dest!: list_all2_lengthD)
qed

definition demo_pieces :: "byte list set" where
  "demo_pieces = {[], [1], [1, 2], [1, 2, 3], [2], [2, 3], [3]}"

lemma demo_pieces_pread: "\<forall>i k. pread [1, 2, 3] i k \<in> demo_pieces"
proof (intro allI)
  fix i k :: nat
  consider "i = 0" | "i = 1" | "i = 2" | "3 \<le> i" by linarith
  then show "pread [1, 2, 3] i k \<in> demo_pieces"
    by cases (auto simp: pread_def demo_pieces_def take_Cons split: nat.splits)
qed

lemma demo_pieces_inj: "inj_on demo_fp demo_pieces"
proof (rule inj_onI)
  fix c d assume "c \<in> demo_pieces" "d \<in> demo_pieces" "demo_fp c = demo_fp d"
  with demo_fp_hd3 [of c] demo_fp_hd3 [of d] show "c = d" by (auto simp: demo_pieces_def)
qed

text \<open>Backup and restore. When the file was deduplicated and the store closed, restoring the
  chunks of the recipe by hash and address gives the pieces of the file, and these laid end to
  end are the file - provided that no two of the data involved have the same fingerprint.\<close>

lemma backup_restore:
  assumes "client_ok fp D (length (ref_chunks data) + n) ex st" "rabin_init_flag rst \<Longrightarrow> rabin_ok rst"
    and "fchunks fi = []" "chunknum fi = 0" "fi_is_new fi = NEW_FILE" "length (file_hash fi) = 20"
    and "\<forall>d. length (fp d) = 20" "\<forall>i k. pread data i k \<in> D" "inj_on fp D"
    and "chunk_dedup fp (mark_no_rewrite False (readable data)) (readable data) rst fi ex st = Some (rst', fi', ex', st', r)"
    and "cache_ok rs" "rs_disk rs = st_disk (store_destory False st')"
  shows "concat (ref_chunks data) = data \<and> length (fchunks fi') = length (ref_chunks data) \<and>
    (\<forall>i<length (fchunks fi'). \<exists>rs' ck'.
      restore_chunk False fetch rs (ck\<lparr>ck_hash := chunk_hash (fchunks fi' ! i), ck_address := fc_address (fchunks fi' ! i)\<rparr>) =
        Some (rs', ck', SUCCESS) \<and> ck_data ck' = Some (ref_chunks data ! i) \<and> cache_ok rs' \<and> rs_disk rs' = rs_disk rs)"
proof -
  obtain ex1 where ok: "client_ok fp D n ex1 st'"
    and pl: "list_all2 (placed st') (chunk_list fp 0 (ref_chunks data)) (fchunks fi')"
    using chunk_dedup_spec [OF assms(1-8)] assms(10) by auto
  have "length (fchunks fi') = length (ref_chunks data)" using pl by (auto dest: list_all2_lengthD)
  with restore_placed [OF ok pl assms(8,9,11,12), of _ fetch ck] concat_ref_chunks [of data] show ?thesis by blast
qed

text \<open>A new chunk that cannot be read (the descriptor was closed after a read error) is entered
  into the bin all the same, with the address its recipe entry happened to have, although nothing
  was stored; the loop goes on and the file counts as deduplicated.\<close>

lemma unwritten_chunk_entered:
  assumes "htable_lookup (b_fingers b) (chunk_hash fc) = None" "0 < chunklen fc"
  shows "mark_new_file False None off [fc] b st =
      Some ([fc\<lparr>fc_is_new := NEW_CHUNK\<rparr>],
        b\<lparr>b_fingers := htable_insert (chunk_hash fc) (fc_address fc) (b_fingers b)\<rparr>, st)"
  using assms by (simp add: write_chunk_to_cloud_def read_at_def)

text \<open>If the file has become shorter than a chunk of its recipe, storing that chunk never returns:
  the loop reads zero bytes for ever.\<close>

lemma short_file_never_returns:
  assumes "int (length data) < off + chunklen fc" "0 \<le> off" "0 < chunklen fc"
  shows "write_chunk_to_cloud False (readable data) off fc st = None"
  using assms by (auto simp: write_chunk_to_cloud_def read_at_def)

end
