(* ===== verification/Queue.thy ===== *)
theory Queue
  imports Prelude
begin

text \<open>
  The queue of client/lib/queue.c: singly linked cells with a pointer to the first and the last
  one, in a heap of cells where address 0 is NULL and \<open>q_brk\<close> is the next address \<open>malloc\<close> returns.
  The elements are pointers, so \<open>None\<close> is the element NULL, which \<open>queue_pop\<close> also returns for an
  empty queue. The abstract queue is a list; the locale \<open>fifo\<close> states what its users rely on.
\<close>

section \<open>The code\<close>

record 'a queue_ele =
  qe_next :: nat
  qe_data :: "'a option"

record 'a queue =
  q_cells :: "nat \<Rightarrow> 'a queue_ele option"
  q_brk :: nat
  q_first :: nat
  q_last :: nat
  elem_num :: int

definition queue_new :: "'a queue" where
  "queue_new = \<lparr>q_cells = \<lambda>_. None, q_brk = 1, q_first = 0, q_last = 0, elem_num = 0\<rparr>"

definition queue_init :: "'a queue \<Rightarrow> 'a queue" where
  "queue_init q = q\<lparr>q_first := 0, q_last := 0, elem_num := 0\<rparr>"

text \<open>\<open>oom\<close>: \<open>malloc\<close> fails, and the element is dropped with a message.\<close>

definition queue_push :: "bool \<Rightarrow> 'a queue \<Rightarrow> 'a option \<Rightarrow> 'a queue" where
  "queue_push oom q x =
     (if oom then q else
      let item = q_brk q; cells = (q_cells q)(item \<mapsto> \<lparr>qe_next = 0, qe_data = x\<rparr>) in
      (if q_first q = 0
       then q\<lparr>q_cells := cells, q_brk := item + 1, q_first := item, q_last := item, elem_num := elem_num q + 1\<rparr>
       else q\<lparr>q_cells := cells(q_last q := map_option (qe_next_update (\<lambda>_. item)) (cells (q_last q))),
              q_brk := item + 1, q_last := item, elem_num := elem_num q + 1\<rparr>))"

definition queue_pop :: "'a queue \<Rightarrow> 'a queue \<times> 'a option" where
  "queue_pop q =
     (if elem_num q = 0 then (q, None) else
      case q_cells q (q_first q) of
        None \<Rightarrow> (q, None)
      | Some item \<Rightarrow>
          (q\<lparr>q_first := qe_next item, q_last := (if q_last q = q_first q then 0 else q_last q),
             elem_num := elem_num q - 1, q_cells := (q_cells q)(q_first q := None)\<rparr>, qe_data item))"

definition queue_size :: "'a queue \<Rightarrow> int" where
  "queue_size q = elem_num q"

text \<open>The loop of \<open>queue_empty\<close> ends when the count is 0; each round lowers it by one.\<close>

function queue_empty :: "'a queue \<Rightarrow> 'a queue" where
  "queue_empty q = (if elem_num q \<le> 0 \<or> q_cells q (q_first q) = None then q else queue_empty (fst (queue_pop q)))"
  by pat_completeness auto
termination
  by (relation "measure (\<lambda>q. nat (elem_num q))") (auto simp: queue_pop_def)

declare queue_empty.simps [simp del]

section \<open>The list it stands for\<close>

text \<open>The cells from \<open>p\<close> on, as a list of addresses that ends in NULL.\<close>

fun cell_path :: "(nat \<Rightarrow> 'a queue_ele option) \<Rightarrow> nat \<Rightarrow> nat list \<Rightarrow> bool" where
  "cell_path h p [] \<longleftrightarrow> p = 0"
| "cell_path h p (a # as) \<longleftrightarrow> p = a \<and> a \<noteq> 0 \<and> (\<exists>c. h a = Some c \<and> cell_path h (qe_next c) as)"

definition cell_data :: "(nat \<Rightarrow> 'a queue_ele option) \<Rightarrow> nat \<Rightarrow> 'a option" where
  "cell_data h a = Option.bind (h a) qe_data"

definition queue_rep :: "'a queue \<Rightarrow> 'a option list \<Rightarrow> bool" where
  "queue_rep q xs \<longleftrightarrow> (\<exists>as. cell_path (q_cells q) (q_first q) as \<and> distinct as \<and>
     xs = map (cell_data (q_cells q)) as \<and> q_last q = (if as = [] then 0 else last as) \<and>
     elem_num q = int (length xs) \<and> 0 < q_brk q \<and> (\<forall>a\<in>dom (q_cells q). a < q_brk q))"

text \<open>The same by running along the cells.\<close>

fun collect :: "(nat \<Rightarrow> 'a queue_ele option) \<Rightarrow> nat \<Rightarrow> nat \<Rightarrow> 'a option list" where
  "collect h p 0 = []"
| "collect h p (Suc n) = (case h p of None \<Rightarrow> [] | Some c \<Rightarrow> qe_data c # collect h (qe_next c) n)"

definition queue_list :: "'a queue \<Rightarrow> 'a option list" where
  "queue_list q = collect (q_cells q) (q_first q) (nat (elem_num q))"

lemma collect_path: "cell_path h p as \<Longrightarrow> collect h p (length as) = map (cell_data h) as"
  by (induction h p as rule: cell_path.induct) (auto simp: cell_data_def)

lemma queue_rep_list: "queue_rep q xs \<Longrightarrow> queue_list q = xs"
  by (auto simp: queue_rep_def queue_list_def collect_path)

lemma cell_path_dom: "cell_path h p as \<Longrightarrow> a \<in> set as \<Longrightarrow> a \<in> dom h"
  by (induction h p as rule: cell_path.induct) auto

lemma cell_path_frame: "cell_path h p as \<Longrightarrow> \<forall>a\<in>set as. h' a = h a \<Longrightarrow> cell_path h' p as"
  by (induction h p as rule: cell_path.induct) auto

lemma cell_path_extend:
  assumes "cell_path h p as" "distinct as" "as \<noteq> []" "b \<noteq> 0" "h b = None"
  shows "cell_path ((h(b \<mapsto> \<lparr>qe_next = 0, qe_data = x\<rparr>))
    (last as := map_option (qe_next_update (\<lambda>_. b)) (h (last as)))) p (as @ [b])"
  using assms
proof (induction h p as rule: cell_path.induct)
  case (2 h p a as)
  show ?case
  proof (cases "as = []")
    case True
    with 2 show ?thesis by auto
  next
    case False
    with 2 have "last as \<noteq> a" "a \<noteq> b" by auto
    with 2 False show ?thesis by auto
  qed
qed simp

lemma cell_path_zero: "cell_path h p as \<Longrightarrow> p = 0 \<longleftrightarrow> as = []"
  by (cases as) auto

lemma queue_rep_new: "queue_rep queue_new []"
  by (auto simp: queue_rep_def queue_new_def intro: exI [of _ "[]"])

lemma queue_rep_push:
  assumes "queue_rep q xs"
  shows "queue_rep (queue_push False q x) (xs @ [x])"
proof -
  from assms obtain as where as: "cell_path (q_cells q) (q_first q) as" "distinct as"
    "xs = map (cell_data (q_cells q)) as" "q_last q = (if as = [] then 0 else last as)" "elem_num q = int (length xs)"
    "0 < q_brk q" "\<forall>a\<in>dom (q_cells q). a < q_brk q"
    unfolding queue_rep_def by blast
  have fresh: "q_cells q (q_brk q) = None" "q_brk q \<notin> set as"
    using as(7) cell_path_dom [OF as(1)] by (auto simp: domIff)
  show ?thesis
  proof (cases "as = []")
    case True
    then have "queue_push False q x = q\<lparr>q_cells := (q_cells q)(q_brk q \<mapsto> \<lparr>qe_next = 0, qe_data = x\<rparr>), q_brk := q_brk q + 1,
      q_first := q_brk q, q_last := q_brk q, elem_num := elem_num q + 1\<rparr>"
      using as(1) by (simp add: queue_push_def Let_def)
    with as True show ?thesis
      by (auto simp: queue_rep_def cell_data_def dom_def intro!: exI [of _ "[q_brk q]"])
  next
    case False
    let ?h = "((q_cells q)(q_brk q \<mapsto> \<lparr>qe_next = 0, qe_data = x\<rparr>))
      (last as := map_option (qe_next_update (\<lambda>_. q_brk q)) (q_cells q (last as)))"
    have l: "last as \<noteq> q_brk q" "q_last q = last as" "last as \<in> dom (q_cells q)"
      using fresh(2) False as(4) cell_path_dom [OF as(1)] last_in_set [OF False] by metis+
    have P: "queue_push False q x = q\<lparr>q_cells := ?h, q_brk := q_brk q + 1, q_last := q_brk q, elem_num := elem_num q + 1\<rparr>"
      using False l cell_path_zero [OF as(1)] by (simp add: queue_push_def Let_def)
    have p: "cell_path ?h (q_first q) (as @ [q_brk q])"
      by (rule cell_path_extend) (use as fresh False in auto)
    have d: "map (cell_data ?h) as = xs"
      using fresh(2) by (auto simp: as(3) cell_data_def bind_eq_Some_conv split: option.split) 
        (cases "q_cells q (last as)"; simp)
    have "cell_data ?h (q_brk q) = x" using l by (simp add: cell_data_def)
    moreover have "dom ?h = insert (q_brk q) (dom (q_cells q))" using l by (auto split: if_splits)
    ultimately show ?thesis
      unfolding queue_rep_def P using p d as(2,5,6,7) fresh(2)
      by (intro exI [of _ "as @ [q_brk q]"]) (auto simp: less_Suc_eq)
  qed
qed

lemma queue_rep_oom: "queue_push True q x = q"
  by (simp add: queue_push_def)

lemma queue_rep_pop:
  assumes "queue_rep q xs"
  shows "case xs of [] \<Rightarrow> queue_pop q = (q, None)
    | x # ys \<Rightarrow> snd (queue_pop q) = x \<and> queue_rep (fst (queue_pop q)) ys"
proof -
  from assms obtain as where as: "cell_path (q_cells q) (q_first q) as" "distinct as"
    "xs = map (cell_data (q_cells q)) as" "q_last q = (if as = [] then 0 else last as)" "elem_num q = int (length xs)"
    "0 < q_brk q" "\<forall>a\<in>dom (q_cells q). a < q_brk q"
    unfolding queue_rep_def by blast
  show ?thesis
  proof (cases as)
    case Nil
    with as show ?thesis by (simp add: queue_pop_def)
  next
    case (Cons a bs)
    then obtain c where c: "q_cells q a = Some c" "cell_path (q_cells q) (qe_next c) bs" "q_first q = a"
      using as(1) by auto
    have "cell_path ((q_cells q)(a := None)) (qe_next c) bs"
      by (rule cell_path_frame [OF c(2)]) (use as(2) Cons in auto)
    moreover have "map (cell_data ((q_cells q)(a := None))) bs = map (cell_data (q_cells q)) bs"
      using as(2) Cons by (auto simp: cell_data_def)
    moreover have "(if q_last q = a then 0 else q_last q) = (if bs = [] then 0 else last bs)"
      using as(2,4) Cons by (auto split: if_splits)
    ultimately show ?thesis
      using as c Cons by (auto simp: queue_pop_def queue_rep_def cell_data_def domIff intro!: exI [of _ bs])
  qed
qed

section \<open>The interface\<close>

text \<open>
  A first-in first-out store: \<open>repr q xs\<close> says that \<open>q\<close> holds \<open>xs\<close>, oldest first. A client may run
  any sequence of operations on the list instead.
\<close>

datatype 'e queue_op = Push 'e | Pop

locale fifo =
  fixes repr :: "'q \<Rightarrow> 'e option list \<Rightarrow> bool"
    and push :: "'q \<Rightarrow> 'e option \<Rightarrow> 'q"
    and pop :: "'q \<Rightarrow> 'q \<times> 'e option"
  assumes repr_push: "repr q xs \<Longrightarrow> repr (push q x) (xs @ [x])"
    and repr_pop: "repr q (x # xs) \<Longrightarrow> repr (fst (pop q)) xs \<and> snd (pop q) = x"
    and repr_pop_Nil: "repr q [] \<Longrightarrow> pop q = (q, None)"
begin

fun run :: "'q \<Rightarrow> 'e option queue_op list \<Rightarrow> 'q \<times> 'e option list" where
  "run q [] = (q, [])"
| "run q (Push x # ops) = run (push q x) ops"
| "run q (Pop # ops) = (let (q, r) = pop q; (q, rs) = run q ops in (q, r # rs))"

fun run_list :: "'e option list \<Rightarrow> 'e option queue_op list \<Rightarrow> 'e option list \<times> 'e option list" where
  "run_list xs [] = (xs, [])"
| "run_list xs (Push x # ops) = run_list (xs @ [x]) ops"
| "run_list [] (Pop # ops) = (let (xs, rs) = run_list [] ops in (xs, None # rs))"
| "run_list (x # xs) (Pop # ops) = (let (xs, rs) = run_list xs ops in (xs, x # rs))"

lemma run_refines: "repr q xs \<Longrightarrow> repr (fst (run q ops)) (fst (run_list xs ops)) \<and> snd (run q ops) = snd (run_list xs ops)"
proof (induction xs ops arbitrary: q rule: run_list.induct)
  case (2 xs x ops)
  then show ?case using repr_push by simp
next
  case (3 ops)
  then show ?case using repr_pop_Nil by (simp add: split_beta)
next
  case (4 x xs ops)
  then show ?case using repr_pop by (simp add: split_beta)
qed simp

text \<open>What comes out, and what is still inside, is what went in, in the order it went in.\<close>

lemma run_list_order:
  "filter (\<lambda>r. r \<noteq> None) (xs @ [x. Push x \<leftarrow> ops]) =
   filter (\<lambda>r. r \<noteq> None) (snd (run_list xs ops) @ fst (run_list xs ops))"
  by (induction xs ops rule: run_list.induct) (auto simp: split_beta)

end

interpretation q: fifo queue_rep "queue_push False" queue_pop
proof unfold_locales
  fix q :: "'a queue" and xs x
  show "queue_rep q xs \<Longrightarrow> queue_rep (queue_push False q x) (xs @ [x])" by (rule queue_rep_push)
  show "queue_rep q (x # xs) \<Longrightarrow> queue_rep (fst (queue_pop q)) xs \<and> snd (queue_pop q) = x"
    using queue_rep_pop [of q "x # xs"] by simp
  show "queue_rep q [] \<Longrightarrow> queue_pop q = (q, None)" using queue_rep_pop [of q "[]"] by simp
qed

text \<open>Running the operations of a client one after the other on the cells.\<close>

fun queue_run :: "'a queue \<Rightarrow> 'a option queue_op list \<Rightarrow> 'a queue \<times> 'a option list" where
  "queue_run q [] = (q, [])"
| "queue_run q (Push x # ops) = queue_run (queue_push False q x) ops"
| "queue_run q (Pop # ops) = (let (q, r) = queue_pop q; (q, rs) = queue_run q ops in (q, r # rs))"

lemma queue_run_eq: "queue_run q ops = q.run q ops"
proof (induction ops arbitrary: q)
  case (Cons c ops)
  then show ?case by (cases c) (simp_all add: split_beta)
qed simp

lemma queue_run_spec:
  "queue_rep q xs \<Longrightarrow> queue_rep (fst (queue_run q ops)) (fst (q.run_list xs ops)) \<and>
     snd (queue_run q ops) = snd (q.run_list xs ops)"
  unfolding queue_run_eq by (rule q.run_refines)

lemma queue_empty_rep: "queue_rep q xs \<Longrightarrow> queue_rep (queue_empty q) []"
proof (induction xs arbitrary: q)
  case Nil
  then show ?case by (subst queue_empty.simps) (auto simp: queue_rep_def)
next
  case (Cons x xs)
  obtain c where "\<not> elem_num q \<le> 0" "q_cells q (q_first q) = Some c" using Cons.prems by (auto simp: queue_rep_def)
  then have "queue_empty q = queue_empty (fst (queue_pop q))" by (subst queue_empty.simps) simp
  with Cons.IH queue_rep_pop [OF Cons.prems] show ?case by simp
qed


end
