(* ===== verification/SyncQueue.thy ===== *)
theory SyncQueue
  imports Queue
begin

text \<open>
  The queue between the threads of a pipeline (\<open>SyncQueue\<close> of client/lib/queue.c): any number of
  threads call \<open>sync_queue_push\<close> and \<open>sync_queue_pop\<close>; the model interleaves the steps between two
  operations on the mutex or the condition variable. A thread in \<open>pthread_cond_wait\<close> has given the
  mutex up, may wake up for no reason, and must take the mutex again before it goes on. The two
  logs record what was entered into the queue and what was handed out, for the theorems only.
\<close>

datatype 'a pc =
    Outside
  | Push_lock "'a option" | Push_in "'a option" | Push_signal | Push_unlock
  | Pop_lock | Pop_in | Pop_wait | Pop_woken | Pop_unlock "'a option"

record ('t, 'a) sync =
  sy_queue :: "'a queue"
  sy_valid :: bool
  sy_mutex :: "'t option"
  sy_pc :: "'t \<Rightarrow> 'a pc"
  sy_pushed :: "'a option list"
  sy_popped :: "'a option list"

definition sync_queue_new :: "('t, 'a) sync" where
  "sync_queue_new = \<lparr>sy_queue = queue_new, sy_valid = True, sy_mutex = None, sy_pc = \<lambda>_. Outside,
     sy_pushed = [], sy_popped = []\<rparr>"

definition goto :: "'t \<Rightarrow> 'a pc \<Rightarrow> ('t, 'a) sync \<Rightarrow> ('t, 'a) sync" where
  "goto t c s = s\<lparr>sy_pc := (sy_pc s)(t := c)\<rparr>"

text \<open>\<open>pthread_cond_broadcast\<close>: every thread that waits is woken.\<close>

definition broadcast :: "('t, 'a) sync \<Rightarrow> ('t, 'a) sync" where
  "broadcast s = s\<lparr>sy_pc := \<lambda>u. if sy_pc s u = Pop_wait then Pop_woken else sy_pc s u\<rparr>"

inductive sync_step :: "('t, 'a) sync \<Rightarrow> ('t, 'a) sync \<Rightarrow> bool" where
  call_push: "sy_pc s t = Outside \<Longrightarrow> sync_step s (goto t (Push_lock x) s)"
| push_lock: "sy_pc s t = Push_lock x \<Longrightarrow> sy_mutex s = None \<Longrightarrow>
    sync_step s (goto t (if sy_valid s then Push_in x else Push_unlock) (s\<lparr>sy_mutex := Some t\<rparr>))"
| push_in: "sy_pc s t = Push_in x \<Longrightarrow>
    sync_step s (goto t Push_signal (s\<lparr>sy_queue := queue_push False (sy_queue s) x, sy_pushed := sy_pushed s @ [x]\<rparr>))"
| push_signal: "sy_pc s t = Push_signal \<Longrightarrow> sync_step s (goto t Push_unlock (broadcast s))"
| push_unlock: "sy_pc s t = Push_unlock \<Longrightarrow> sync_step s (goto t Outside (s\<lparr>sy_mutex := None\<rparr>))"
| call_pop: "sy_pc s t = Outside \<Longrightarrow> sync_step s (goto t Pop_lock s)"
| pop_lock: "sy_pc s t = Pop_lock \<Longrightarrow> sy_mutex s = None \<Longrightarrow>
    sync_step s (goto t (if sy_valid s then Pop_in else Pop_unlock None) (s\<lparr>sy_mutex := Some t\<rparr>))"
| pop_got: "sy_pc s t = Pop_in \<Longrightarrow> queue_pop (sy_queue s) = (q, Some x) \<Longrightarrow>
    sync_step s (goto t (Pop_unlock (Some x)) (s\<lparr>sy_queue := q, sy_popped := sy_popped s @ [Some x]\<rparr>))"
| pop_null: "sy_pc s t = Pop_in \<Longrightarrow> queue_pop (sy_queue s) = (q, None) \<Longrightarrow>
    sync_step s (goto t Pop_wait (s\<lparr>sy_queue := q, sy_mutex := None\<rparr>))"
| spurious: "sy_pc s t = Pop_wait \<Longrightarrow> sync_step s (goto t Pop_woken s)"
| relock: "sy_pc s t = Pop_woken \<Longrightarrow> sy_mutex s = None \<Longrightarrow> sync_step s (goto t Pop_in (s\<lparr>sy_mutex := Some t\<rparr>))"
| pop_unlock: "sy_pc s t = Pop_unlock r \<Longrightarrow> sync_step s (goto t Outside (s\<lparr>sy_mutex := None\<rparr>))"

inductive sync_reachable :: "('t, 'a) sync \<Rightarrow> bool" where
  start: "sync_reachable sync_queue_new"
| step: "sync_reachable s \<Longrightarrow> sync_step s s' \<Longrightarrow> sync_reachable s'"

inductive_cases sync_stepE: "sync_step s s'"

fun inside :: "'a pc \<Rightarrow> bool" where
  "inside (Push_in x) = True"
| "inside Push_signal = True"
| "inside Push_unlock = True"
| "inside Pop_in = True"
| "inside (Pop_unlock r) = True"
| "inside _ = False"

definition non_null :: "'a option list \<Rightarrow> 'a option list" where
  "non_null xs = filter (\<lambda>x. x \<noteq> None) xs"

lemma non_null_simps [simp]:
  "non_null [] = []" "non_null (xs @ ys) = non_null xs @ non_null ys"
  "non_null (Some x # xs) = Some x # non_null xs" "non_null (None # xs) = non_null xs"
  by (simp_all add: non_null_def)

definition sync_inv :: "('t, 'a) sync \<Rightarrow> bool" where
  "sync_inv s \<longleftrightarrow> (\<forall>t. inside (sy_pc s t) \<longleftrightarrow> sy_mutex s = Some t) \<and>
     (\<exists>xs. queue_rep (sy_queue s) xs \<and> non_null (sy_pushed s) = sy_popped s @ non_null xs \<and>
       set xs \<subseteq> set (sy_pushed s) \<and>
       (None \<notin> set (sy_pushed s) \<and> (\<exists>t. sy_pc s t = Pop_wait) \<and> xs \<noteq> [] \<longrightarrow> (\<exists>u. sy_pc s u = Push_signal)))"

lemma sync_inv_start: "sync_inv sync_queue_new"
  using queue_rep_new by (auto simp: sync_inv_def sync_queue_new_def)

text \<open>A step that moves one thread and leaves the queue alone.\<close>

lemma sync_inv_goto:
  assumes "sync_inv s" "c \<noteq> Pop_wait" "sy_pc s t \<noteq> Push_signal"
    and "\<forall>u. inside (if u = t then c else sy_pc s u) \<longleftrightarrow> m = Some u"
  shows "sync_inv (goto t c (s\<lparr>sy_mutex := m\<rparr>))"
proof -
  from assms(1) obtain xs where "queue_rep (sy_queue s) xs" "non_null (sy_pushed s) = sy_popped s @ non_null xs"
    "set xs \<subseteq> set (sy_pushed s)"
    "None \<notin> set (sy_pushed s) \<and> (\<exists>t. sy_pc s t = Pop_wait) \<and> xs \<noteq> [] \<longrightarrow> (\<exists>u. sy_pc s u = Push_signal)"
    unfolding sync_inv_def by blast
  then show ?thesis
    unfolding sync_inv_def using assms(2-4)
    by (intro conjI exI [of _ xs]) (auto simp: goto_def split: if_splits)
qed

lemma sync_inv_mutex: "sync_inv s \<Longrightarrow> inside (sy_pc s t) \<longleftrightarrow> sy_mutex s = Some t"
  by (simp add: sync_inv_def)

lemma sync_inv_push:
  assumes "sync_inv s" "sy_pc s t = Push_in x"
  shows "sync_inv (goto t Push_signal (s\<lparr>sy_queue := queue_push False (sy_queue s) x, sy_pushed := sy_pushed s @ [x]\<rparr>))"
proof -
  from assms(1) obtain xs where xs: "queue_rep (sy_queue s) xs" "non_null (sy_pushed s) = sy_popped s @ non_null xs"
    "set xs \<subseteq> set (sy_pushed s)"
    unfolding sync_inv_def by blast
  have m: "inside (sy_pc s u) \<longleftrightarrow> sy_mutex s = Some u" for u by (rule sync_inv_mutex [OF assms(1)])
  then have "sy_mutex s = Some t" using assms(2) by (metis inside.simps(1))
  with m assms(2) xs q.repr_push [OF xs(1), of x] show ?thesis
    unfolding sync_inv_def by (intro conjI exI [of _ "xs @ [x]"]) (auto simp: goto_def)
qed

lemma sync_inv_signal:
  assumes "sync_inv s" "sy_pc s t = Push_signal"
  shows "sync_inv (goto t Push_unlock (broadcast s))"
proof -
  from assms(1) obtain xs where xs: "queue_rep (sy_queue s) xs" "non_null (sy_pushed s) = sy_popped s @ non_null xs"
    "set xs \<subseteq> set (sy_pushed s)"
    unfolding sync_inv_def by blast
  have m: "inside (sy_pc s u) \<longleftrightarrow> sy_mutex s = Some u" for u by (rule sync_inv_mutex [OF assms(1)])
  then have "sy_mutex s = Some t" using assms(2) by (metis inside.simps(2))
  moreover from m have "inside (if sy_pc s u = Pop_wait then Pop_woken else sy_pc s u) \<longleftrightarrow> sy_mutex s = Some u" for u
    by (cases "sy_pc s u = Pop_wait") force+
  ultimately show ?thesis
    unfolding sync_inv_def using xs m assms(2)
    by (intro conjI exI [of _ xs]) (auto simp: goto_def broadcast_def)
qed

lemma sync_inv_pop:
  assumes "sync_inv s" "sy_pc s t = Pop_in" "queue_pop (sy_queue s) = (q, r)"
  shows "sync_inv (case r of
      None \<Rightarrow> goto t Pop_wait (s\<lparr>sy_queue := q, sy_mutex := None\<rparr>)
    | Some x \<Rightarrow> goto t (Pop_unlock r) (s\<lparr>sy_queue := q, sy_popped := sy_popped s @ [r]\<rparr>))"
proof -
  from assms(1) obtain xs where xs: "queue_rep (sy_queue s) xs" "non_null (sy_pushed s) = sy_popped s @ non_null xs"
    "set xs \<subseteq> set (sy_pushed s)"
    "None \<notin> set (sy_pushed s) \<and> (\<exists>t. sy_pc s t = Pop_wait) \<and> xs \<noteq> [] \<longrightarrow> (\<exists>u. sy_pc s u = Push_signal)"
    unfolding sync_inv_def by blast
  have m: "inside (sy_pc s u) \<longleftrightarrow> sy_mutex s = Some u" for u by (rule sync_inv_mutex [OF assms(1)])
  then have me: "sy_mutex s = Some t" using assms(2) by (metis inside.simps(4))
  then have no_signal: "sy_pc s u \<noteq> Push_signal" for u
    using m [of u] assms(2) by (cases "u = t") auto
  show ?thesis
  proof (cases xs)
    case Nil
    then have "q = sy_queue s" "r = None" using q.repr_pop_Nil [of "sy_queue s"] xs(1) assms(3) by simp_all
    then show ?thesis
      unfolding sync_inv_def using xs m me Nil by (auto simp: goto_def intro!: exI [of _ "[]"])
  next
    case (Cons y ys)
    then have q: "queue_rep q ys" "r = y" using q.repr_pop [of "sy_queue s" y ys] xs(1) assms(3) by auto
    show ?thesis
    proof (cases r)
      case None
      then have "None \<in> set (sy_pushed s)" using xs(3) Cons q by auto
      with None q xs m me Cons show ?thesis
        unfolding sync_inv_def by (auto simp: goto_def intro!: exI [of _ ys])
    next
      case (Some x)
      with xs m me assms(2) Cons q no_signal show ?thesis
        unfolding sync_inv_def by (auto simp: goto_def intro!: exI [of _ ys] split: if_splits)
    qed
  qed
qed

lemma sync_inv_step:
  assumes "sync_inv s" "sync_step s s'"
  shows "sync_inv s'"
proof -
  have m: "inside (sy_pc s u) \<longleftrightarrow> sy_mutex s = Some u" for u by (rule sync_inv_mutex [OF assms(1)])
  have move: "sync_inv (goto t c (s\<lparr>sy_mutex := if inside c then Some t else if inside (sy_pc s t) then None else sy_mutex s\<rparr>))"
    if "c \<noteq> Pop_wait" "sy_pc s t \<noteq> Push_signal" "inside c \<longrightarrow> sy_mutex s = None" for t c
  proof (rule sync_inv_goto [OF assms(1) that(1,2)])
    show "\<forall>u. inside (if u = t then c else sy_pc s u) \<longleftrightarrow>
      (if inside c then Some t else if inside (sy_pc s t) then None else sy_mutex s) = Some u"
    proof
      fix u
      show "inside (if u = t then c else sy_pc s u) \<longleftrightarrow>
        (if inside c then Some t else if inside (sy_pc s t) then None else sy_mutex s) = Some u"
        using m [of u] m [of t] that(3) by (cases "u = t"; cases "inside c"; cases "inside (sy_pc s t)") auto
    qed
  qed
  from assms(2) show ?thesis
  proof cases
    case (call_push t x)
    then show ?thesis using move [of "Push_lock x" t] by simp
  next
    case (push_lock t x)
    then show ?thesis using move [of "if sy_valid s then Push_in x else Push_unlock" t] by (auto split: if_splits)
  next
    case (push_in t x)
    then show ?thesis using sync_inv_push [OF assms(1)] by simp
  next
    case (push_signal t)
    then show ?thesis using sync_inv_signal [OF assms(1)] by simp
  next
    case (push_unlock t)
    then show ?thesis using move [of Outside t] by simp
  next
    case (call_pop t)
    then show ?thesis using move [of Pop_lock t] by simp
  next
    case (pop_lock t)
    then show ?thesis using move [of "if sy_valid s then Pop_in else Pop_unlock None" t] by (auto split: if_splits)
  next
    case (pop_got t q x)
    then show ?thesis using sync_inv_pop [OF assms(1), of t q "Some x"] by simp
  next
    case (pop_null t q)
    then show ?thesis using sync_inv_pop [OF assms(1), of t q None] by simp
  next
    case (spurious t)
    then show ?thesis using move [of Pop_woken t] by simp
  next
    case (relock t)
    then show ?thesis using move [of Pop_in t] by simp
  next
    case (pop_unlock t r)
    then show ?thesis using move [of Outside t] by simp
  qed
qed

lemma sync_reachable_inv: "sync_reachable s \<Longrightarrow> sync_inv s"
  by (induction rule: sync_reachable.induct) (auto intro: sync_inv_start sync_inv_step)

text \<open>C11: in every state the threads can reach, at most one is inside push or pop; what was handed
  out is, in order, what was entered first (NULLs aside) with the rest still in the queue; and no
  wake-up is lost: when a thread waits although the queue is not empty, some thread is about to
  broadcast - unless a NULL was pushed.\<close>

theorem sync_queue_safe:
  assumes "sync_reachable s"
  shows "(\<forall>t u. inside (sy_pc s t) \<and> inside (sy_pc s u) \<longrightarrow> t = u) \<and>
    non_null (sy_pushed s) = sy_popped s @ non_null (queue_list (sy_queue s)) \<and>
    (None \<notin> set (sy_pushed s) \<and> sy_pc s t = Pop_wait \<and> queue_list (sy_queue s) \<noteq> [] \<longrightarrow> (\<exists>u. sy_pc s u = Push_signal))"
proof -
  have inv: "sync_inv s" by (rule sync_reachable_inv [OF assms])
  then obtain xs where xs: "queue_rep (sy_queue s) xs" "non_null (sy_pushed s) = sy_popped s @ non_null xs"
    "None \<notin> set (sy_pushed s) \<and> (\<exists>t. sy_pc s t = Pop_wait) \<and> xs \<noteq> [] \<longrightarrow> (\<exists>u. sy_pc s u = Push_signal)"
    unfolding sync_inv_def by blast
  have "queue_list (sy_queue s) = xs" by (rule queue_rep_list [OF xs(1)])
  with xs(2,3) show ?thesis using sync_inv_mutex [OF inv] by (metis option.inject)
qed

lemma sync_queue_safe_witness:
  "\<exists>s :: (nat, nat) sync. sync_reachable s \<and> sy_pushed s = [Some 5] \<and> inside (sy_pc s 0) \<and> \<not> inside (sy_pc s 1) \<and>
     non_null (queue_list (sy_queue s)) = [Some 5]"
proof -
  let ?s1 = "goto 0 (Push_lock (Some 5)) sync_queue_new :: (nat, nat) sync"
  let ?s2 = "goto 0 (Push_in (Some 5)) (?s1\<lparr>sy_mutex := Some 0\<rparr>)"
  let ?s3 = "goto 0 Push_signal (?s2\<lparr>sy_queue := queue_push False (sy_queue ?s2) (Some 5), sy_pushed := sy_pushed ?s2 @ [Some 5]\<rparr>)"
  have "sync_step sync_queue_new ?s1" by (rule call_push) (simp add: sync_queue_new_def)
  moreover have "sync_step ?s1 ?s2"
    using push_lock [of ?s1 0 "Some 5"] by (simp add: goto_def sync_queue_new_def)
  moreover have "sync_step ?s2 ?s3" by (rule push_in) (simp add: goto_def)
  ultimately have r: "sync_reachable ?s3" using sync_reachable.intros by blast
  have p: "sy_pushed ?s3 = [Some 5]" "sy_popped ?s3 = []" "inside (sy_pc ?s3 0)"
    by (simp_all add: goto_def sync_queue_new_def)
  from sync_queue_safe [OF r, of 0] p have "non_null (queue_list (sy_queue ?s3)) = [Some 5]"
    and "inside (sy_pc ?s3 0) \<and> inside (sy_pc ?s3 1) \<longrightarrow> (0 :: nat) = 1" by (metis append_Nil non_null_simps(1,3))+
  with r p show ?thesis by (intro exI [of _ ?s3]) simp
qed

end
