(* ===== verification/Rewrite.thy ===== *)
theory Rewrite
  imports Dedup
begin

text \<open>
  What the three rewriting algorithms of the client share (capping.c, cfl.c, perfect_rewrite.c).
  They keep pointers to the chunks of several files and decide later where a chunk goes, so the
  chunks live in a memory here: a list of cells, a pointer being an index. \<open>locked\<close> is the set of
  chunks whose mutex is held; the stage of the pipeline that sends the recipe locks a chunk
  before it reads the address, so a chunk must be locked until it is settled, and unlocked then.

  A step settles one chunk. Its result is \<open>None\<close> when it never returns or dereferences NULL.
\<close>

section \<open>The code\<close>

record cmem =
  cells :: "fingerchunk list"
  locked :: "nat set"

type_synonym step_fun =
  "fdesc option \<Rightarrow> fingerchunk \<Rightarrow> bin \<Rightarrow> store \<Rightarrow> (fdesc option \<times> fingerchunk \<times> bin \<times> store \<times> bool) option"

text \<open>A chunk marked as new: another copy of it may have been stored since.\<close>

definition place_new :: "bool \<Rightarrow> step_fun" where
  "place_new simulate fd fc b st =
     (case htable_lookup (b_fingers b) (chunk_hash fc) of
        Some a \<Rightarrow> Some (fd, fc\<lparr>fc_is_new := DEDUP_CHUNK, fc_address := a\<rparr>, b, st, True)
      | None \<Rightarrow>
          (case write_chunk_to_cloud simulate fd (fc_offset fc) fc st of
             None \<Rightarrow> None
           | Some (fd, fc, st, ok) \<Rightarrow>
               if ok then Some (fd, fc, b\<lparr>b_fingers := htable_insert (chunk_hash fc) (fc_address fc) (b_fingers b)\<rparr>, st, True)
               else Some (fd, fc, b, st, False)))"

text \<open>A duplicate that is stored again: its entry in the bin is redirected. \<open>checked\<close>: the code tests
  whether there is an entry.\<close>

definition write_again :: "bool \<Rightarrow> bool \<Rightarrow> step_fun" where
  "write_again checked simulate fd fc b st =
     (case write_chunk_to_cloud simulate fd (fc_offset fc) fc st of
        None \<Rightarrow> None
      | Some (fd, fc, st, ok) \<Rightarrow>
          if \<not> ok then Some (fd, fc, b, st, False)
          else let fc = fc\<lparr>fc_is_new := NEW_CHUNK\<rparr> in
            (case htable_lookup (b_fingers b) (chunk_hash fc) of
               None \<Rightarrow> if checked then Some (fd, fc, b, st, False) else None
             | Some _ \<Rightarrow>
                 Some (fd, fc, b\<lparr>b_fingers := htable_update (chunk_hash fc) (\<lambda>_. fc_address fc) (b_fingers b)\<rparr>, st, True)))"

text \<open>The chunks \<open>ps\<close> of one open file in turn; a failure leaves the loop with the chunk still locked.\<close>

fun rw_chunks :: "step_fun \<Rightarrow> fdesc option \<Rightarrow> nat list \<Rightarrow> bin \<Rightarrow> store \<Rightarrow> cmem \<Rightarrow> (bin \<times> store \<times> cmem \<times> bool) option" where
  "rw_chunks step fd [] b st mem = Some (b, st, mem, True)"
| "rw_chunks step fd (p # ps) b st mem =
     (case step fd (cells mem ! p) b st of
        None \<Rightarrow> None
      | Some (fd, fc, b, st, ok) \<Rightarrow>
          let mem = mem\<lparr>cells := (cells mem)[p := fc]\<rparr> in
          if ok then rw_chunks step fd ps b st (mem\<lparr>locked := locked mem - {p}\<rparr>)
          else Some (b, st, mem, False))"

text \<open>The chunk lists of a queue, each with the path of its file; the rest of the queue when one fails.\<close>

fun rw_files :: "step_fun \<Rightarrow> (byte list \<Rightarrow> fdesc option) \<Rightarrow> (byte list \<times> nat list) list \<Rightarrow> bin \<Rightarrow> store \<Rightarrow> cmem
    \<Rightarrow> (bin \<times> store \<times> cmem \<times> (byte list \<times> nat list) list \<times> bool) option" where
  "rw_files step opn [] b st mem = Some (b, st, mem, [], True)"
| "rw_files step opn ((path, ps) # cls) b st mem =
     (case rw_chunks step (opn path) ps b st mem of
        None \<Rightarrow> None
      | Some (b, st, mem, ok) \<Rightarrow> if ok then rw_files step opn cls b st mem else Some (b, st, mem, cls, False))"

section \<open>What a step must do\<close>

text \<open>Bin and store fit together, with room for \<open>m\<close> entries and \<open>n\<close> chunks.\<close>

definition world_ok ::
  "(byte list \<Rightarrow> fingerprint) \<Rightarrow> byte list set \<Rightarrow> fingerprint \<Rightarrow> nat \<Rightarrow> nat \<Rightarrow> bin \<Rightarrow> store \<Rightarrow> bool" where
  "world_ok fp D rep m n b st \<longleftrightarrow> bin_room m rep b \<and> store_room n st \<and> entries_sound st (entries b) \<and> genuine fp D st"

text \<open>The marks on a chunk are right: a duplicate has an entry in the bin, and its address leads to it.\<close>

definition ready :: "bin \<Rightarrow> store \<Rightarrow> fingerchunk \<Rightarrow> bool" where
  "ready b st fc \<longleftrightarrow> fc_is_new fc = NEW_CHUNK \<or>
     fc_is_new fc = DEDUP_CHUNK \<and> entries b (chunk_hash fc) \<noteq> None \<and> placed st fc fc"

text \<open>Nothing stored is lost and no finger leaves the bin.\<close>

definition later :: "bin \<Rightarrow> store \<Rightarrow> bin \<Rightarrow> store \<Rightarrow> bool" where
  "later b st b' st' \<longleftrightarrow> (\<forall>a h d. has st a h d \<longrightarrow> has st' a h d) \<and> dom (entries b) \<subseteq> dom (entries b')"

lemma later_refl: "later b st b st"
  by (simp add: later_def)

lemma later_trans: "later b st b1 st1 \<Longrightarrow> later b1 st1 b' st' \<Longrightarrow> later b st b' st'"
  unfolding later_def by blast

lemma later_placed: "later b st b' st' \<Longrightarrow> placed st fc fc' \<Longrightarrow> placed st' fc fc'"
  using placed_mono by (auto simp: later_def)

lemma later_ready: "later b st b' st' \<Longrightarrow> ready b st fc \<Longrightarrow> ready b' st' fc"
  using later_placed unfolding ready_def later_def by blast

lemma placed_same: "placed st fc fc' \<Longrightarrow> chunk_fits fp data off fc \<Longrightarrow> chunk_fits fp data off fc'"
  unfolding placed_def chunk_fits_def chunk_of_def by metis

lemma world_less: "world_ok fp D rep (k + m) (k + n) b st \<Longrightarrow> world_ok fp D rep m n b st"
  by (auto simp: world_ok_def bin_room_def store_room_def)

lemma clean_map_of:
  assumes "ht.clean n t"
  shows "map_of (htable_items t) k = (if length k = n then htable_lookup t k else None)"
proof (cases "length k = n")
  case True
  with htable_cleanD [OF assms] show ?thesis by (simp add: htable_lookup_items)
next
  case False
  then have "\<forall>v. (k, v) \<notin> set (htable_items t)" using htable_clean_items [OF assms] by blast
  with False show ?thesis by (auto simp: map_of_eq_None_iff)
qed

lemma htable_entries_update:
  assumes "ht.clean n t" "length k = n"
  shows "map_of (htable_items (htable_update k f t)) =
    (\<lambda>k'. if k' = k then map_option f (map_of (htable_items t) k) else map_of (htable_items t) k')"
  using clean_map_of [OF htable_clean_update [OF assms(1)], of k f] clean_map_of [OF assms(1)] assms(2)
    htable_lookup_update [OF htable_cleanD(1) [OF assms(1)] assms(2)]
  by (auto simp: fun_eq_iff)

lemma htable_size_update: "ht_inv n t \<Longrightarrow> htable_size (htable_update k f t) = htable_size t"
  by (simp add: htable_size_def)

lemma bin_redirect:
  assumes b: "bin_ok rep b" and h: "length h = 20" "length a = 64" "entries b h \<noteq> None"
    and b': "b' = b\<lparr>b_fingers := htable_update h (\<lambda>_. a) (b_fingers b)\<rparr>"
  shows "bin_ok rep b' \<and> entries b' = (entries b)(h \<mapsto> a) \<and> htable_size (b_fingers b') = htable_size (b_fingers b)"
proof -
  have c: "ht.clean 20 (b_fingers b)" using b by (simp add: bin_ok_def)
  note c' = htable_clean_update [OF c, of h "\<lambda>_. a"]
  have e: "entries b' = (entries b)(h \<mapsto> a)"
    using htable_entries_update [OF c h(1), of "\<lambda>_. a"] h(3) by (auto simp: entries_def b' fun_eq_iff)
  have "meta_ok (k, v)" if "(k, v) \<in> set (htable_items (b_fingers b'))" for k v
  proof -
    have "entries b' k = Some v" "length k = 20"
      using that htable_clean_items [OF c'] clean_map_of [OF c'] by (auto simp: entries_def b')
    then have "k = h \<and> v = a \<or> (k, v) \<in> set (htable_items (b_fingers b))"
      unfolding e by (auto simp: entries_def split: if_splits dest: map_of_SomeD)
    with b h(1,2) show ?thesis by (auto simp: bin_ok_def meta_ok_def)
  qed
  then have "bin_ok rep b'"
    using b c' htable_size_update [OF htable_cleanD(1) [OF c]] by (auto simp: bin_ok_def b')
  with e htable_size_update [OF htable_cleanD(1) [OF c]] show ?thesis by (simp add: b')
qed

text \<open>Storing a chunk, seen from bin and store.\<close>

lemma write_world:
  assumes fc: "chunk_fits fp data (fc_offset fc) fc" and D: "\<forall>i k. pread data i k \<in> D"
    and w: "world_ok fp D rep m (Suc n) b st"
  shows "\<exists>a st'. write_chunk_to_cloud False (readable data) (fc_offset fc) fc st =
      Some (readable data, fc\<lparr>fc_address := a\<rparr>, st', True) \<and> world_ok fp D rep m n b st' \<and> later b st b st' \<and>
      placed st' fc (fc\<lparr>fc_address := a\<rparr>) \<and> length a = 64"
proof -
  from write_chunk_spec [OF fc, of n st] w obtain a st' where
    W: "write_chunk_to_cloud False (readable data) (fc_offset fc) fc st = Some (readable data, fc\<lparr>fc_address := a\<rparr>, st', True)"
    "store_room n st'" "address_ok a" "has st' a (chunk_hash fc) (chunk_of data (fc_offset fc) fc)"
    "\<forall>a h d. has st a h d \<longrightarrow> has st' a h d"
    "\<forall>a h d. has st' a h d \<longrightarrow> has st a h d \<or> (h = chunk_hash fc \<and> d = chunk_of data (fc_offset fc) fc)"
    by (auto simp: world_ok_def)
  have "chunk_hash fc = fp (chunk_of data (fc_offset fc) fc)" "chunk_of data (fc_offset fc) fc \<in> D"
    using fc D by (simp_all add: chunk_fits_def chunk_of_def)
  then have "genuine fp D st'" using W(6) w unfolding genuine_def world_ok_def by blast
  moreover have "entries_sound st' (entries b)" using w W(5) unfolding entries_sound_def world_ok_def by blast
  ultimately show ?thesis
    using W w address_ok_length [OF W(3)]
    by (intro exI [of _ a] exI [of _ st']) (auto simp: world_ok_def later_def placed_def)
qed

lemma world_enter:
  assumes w: "world_ok fp D rep (Suc m) n b st" and p: "placed st fc (fc\<lparr>fc_address := a\<rparr>)"
    and h: "length (chunk_hash fc) = 20" "length a = 64" "entries b (chunk_hash fc) = None"
    and b': "b' = b\<lparr>b_fingers := htable_insert (chunk_hash fc) a (b_fingers b)\<rparr>"
  shows "world_ok fp D rep m n b' st \<and> later b st b' st \<and> entries b' (chunk_hash fc) \<noteq> None"
proof -
  have "bin_room (Suc m) rep b" "bin_ok rep b" using w by (auto simp: world_ok_def bin_room_def)
  then have "bin_room m rep b'" "entries b' = (entries b)(chunk_hash fc \<mapsto> a)"
    using bin_insert [of m rep b "chunk_hash fc" a b'] h b' bin_lookup [of rep b "chunk_hash fc"] by auto
  with w p show ?thesis
    unfolding world_ok_def later_def entries_sound_def placed_def by auto
qed

lemma world_redirect:
  assumes w: "world_ok fp D rep m n b st" and p: "placed st fc (fc\<lparr>fc_address := a\<rparr>)"
    and h: "length (chunk_hash fc) = 20" "length a = 64" "entries b (chunk_hash fc) \<noteq> None"
    and b': "b' = b\<lparr>b_fingers := htable_update (chunk_hash fc) (\<lambda>_. a) (b_fingers b)\<rparr>"
  shows "world_ok fp D rep m n b' st \<and> later b st b' st \<and> entries b' (chunk_hash fc) \<noteq> None"
proof -
  have "bin_ok rep b" using w by (simp add: world_ok_def bin_room_def)
  then have "bin_ok rep b'" "entries b' = (entries b)(chunk_hash fc \<mapsto> a)" "htable_size (b_fingers b') = htable_size (b_fingers b)"
    using bin_redirect [of rep b "chunk_hash fc" a b'] h b' by auto
  with w p show ?thesis
    unfolding world_ok_def bin_room_def later_def entries_sound_def placed_def by auto
qed

lemma place_new_ok:
  assumes fc: "chunk_fits fp data (fc_offset fc) fc" and D: "\<forall>i k. pread data i k \<in> D"
    and w: "world_ok fp D rep (Suc m) (Suc n) b st"
  shows "\<exists>fc' b' st'. place_new False (readable data) fc b st = Some (readable data, fc', b', st', True) \<and>
      world_ok fp D rep m n b' st' \<and> later b st b' st' \<and> placed st' fc fc'"
proof -
  have h: "length (chunk_hash fc) = 20" using fc unfolding chunk_fits_def by blast
  have l: "htable_lookup (b_fingers b) (chunk_hash fc) = entries b (chunk_hash fc)"
    using bin_lookup [OF _ h] w by (auto simp: world_ok_def bin_room_def)
  show ?thesis
  proof (cases "entries b (chunk_hash fc)")
    case (Some a)
    then have "placed st fc (fc\<lparr>fc_is_new := DEDUP_CHUNK, fc_address := a\<rparr>)"
      using w by (auto simp: world_ok_def entries_sound_def placed_def)
    with Some l w world_less [of fp D rep 1 m n b st] show ?thesis by (simp add: place_new_def later_refl)
  next
    case None
    obtain a st1 where W: "write_chunk_to_cloud False (readable data) (fc_offset fc) fc st =
        Some (readable data, fc\<lparr>fc_address := a\<rparr>, st1, True)" "world_ok fp D rep (Suc m) n b st1" "later b st b st1"
      "placed st1 fc (fc\<lparr>fc_address := a\<rparr>)" "length a = 64"
      using write_world [OF fc D w] by blast
    note E = world_enter [OF W(2,4) h W(5) None refl]
    with W None l later_trans [OF W(3)] show ?thesis by (simp add: place_new_def)
  qed
qed

lemma write_again_ok:
  assumes fc: "chunk_fits fp data (fc_offset fc) fc" and D: "\<forall>i k. pread data i k \<in> D"
    and w: "world_ok fp D rep m (Suc n) b st" and e: "entries b (chunk_hash fc) \<noteq> None"
  shows "\<exists>fc' b' st'. write_again checked False (readable data) fc b st = Some (readable data, fc', b', st', True) \<and>
      world_ok fp D rep m n b' st' \<and> later b st b' st' \<and> placed st' fc fc'"
proof -
  have h: "length (chunk_hash fc) = 20" using fc unfolding chunk_fits_def by blast
  have "htable_lookup (b_fingers b) (chunk_hash fc) = entries b (chunk_hash fc)"
    using bin_lookup [OF _ h] w by (auto simp: world_ok_def bin_room_def)
  moreover obtain a st1 where W: "write_chunk_to_cloud False (readable data) (fc_offset fc) fc st =
      Some (readable data, fc\<lparr>fc_address := a\<rparr>, st1, True)" "world_ok fp D rep m n b st1" "later b st b st1"
    "placed st1 fc (fc\<lparr>fc_address := a\<rparr>)" "length a = 64"
    using write_world [OF fc D w] by blast
  moreover note E = world_redirect [OF W(2,4) h W(5) e refl]
  moreover have "placed st1 fc (fc\<lparr>fc_address := a, fc_is_new := NEW_CHUNK\<rparr>)" using W(4) by (simp add: placed_def)
  ultimately show ?thesis using e later_trans [OF W(3)] by (auto simp: write_again_def)
qed

text \<open>What a step does to a chunk holds for every chunk of the lists.\<close>

lemma rw_chunks_cells:
  assumes "rw_chunks step fd ps b st mem = Some (b', st', mem', True)" "distinct ps" "\<forall>p\<in>set ps. p < length (cells mem)"
    and R: "\<forall>fd fc b st fd' fc' b' st'. step fd fc b st = Some (fd', fc', b', st', True) \<longrightarrow> R fc fc'"
  shows "(\<forall>p\<in>set ps. R (cells mem ! p) (cells mem' ! p)) \<and> (\<forall>p. p \<notin> set ps \<longrightarrow> cells mem' ! p = cells mem ! p) \<and>
    length (cells mem') = length (cells mem)"
  using assms(1-3)
proof (induction ps arbitrary: fd b st mem)
  case (Cons p ps)
  from Cons.prems(1) obtain fd1 fc1 b1 st1 where S: "step fd (cells mem ! p) b st = Some (fd1, fc1, b1, st1, True)"
    "rw_chunks step fd1 ps b1 st1 (mem\<lparr>cells := (cells mem)[p := fc1], locked := locked mem - {p}\<rparr>) = Some (b', st', mem', True)"
    by (auto simp: Let_def split: option.splits prod.splits if_splits)
  let ?mem = "mem\<lparr>cells := (cells mem)[p := fc1], locked := locked mem - {p}\<rparr>"
  have IH: "\<forall>q\<in>set ps. R (cells ?mem ! q) (cells mem' ! q)" "\<forall>q. q \<notin> set ps \<longrightarrow> cells mem' ! q = cells ?mem ! q"
    "length (cells mem') = length (cells ?mem)"
    using Cons.IH [OF S(2)] Cons.prems(2,3) by simp_all
  have p: "p \<notin> set ps" "p < length (cells mem)" using Cons.prems(2,3) by auto
  have same: "cells ?mem ! q = cells mem ! q" if "q \<noteq> p" for q using that by simp
  have "cells mem' ! p = fc1" using IH(2) p by simp
  then have "R (cells mem ! p) (cells mem' ! p)" using R S(1) by blast
  moreover
  have "R (cells mem ! q) (cells mem' ! q)" if "q \<in> set ps" for q using that IH(1) p(1) same by metis
  moreover have "cells mem' ! q = cells mem ! q" if "q \<notin> set (p # ps)" for q
    
  proof -
    have "q \<notin> set ps" "q \<noteq> p" using that by auto
    then show ?thesis using IH(2) same by metis
  qed
  moreover have "length (cells mem') = length (cells mem)" using IH(3) by simp
  ultimately show ?case by (metis set_ConsD)
qed simp

lemma rw_files_cells:
  assumes "rw_files step opn cls b st mem = Some (b', st', mem', rest, True)" "distinct (concat (map snd cls))"
    "\<forall>p\<in>set (concat (map snd cls)). p < length (cells mem)"
    and R: "\<forall>fd fc b st fd' fc' b' st'. step fd fc b st = Some (fd', fc', b', st', True) \<longrightarrow> R fc fc'"
  shows "(\<forall>p\<in>set (concat (map snd cls)). R (cells mem ! p) (cells mem' ! p)) \<and>
    (\<forall>p. p \<notin> set (concat (map snd cls)) \<longrightarrow> cells mem' ! p = cells mem ! p)"
  using assms(1-3)
proof (induction cls arbitrary: b st mem)
  case (Cons cl cls)
  obtain path ps where cl: "cl = (path, ps)" by (cases cl)
  let ?qs = "concat (map snd cls)"
  from Cons.prems(1) cl obtain b1 st1 mem1 where S: "rw_chunks step (opn path) ps b st mem = Some (b1, st1, mem1, True)"
    "rw_files step opn cls b1 st1 mem1 = Some (b', st', mem', rest, True)"
    by (auto split: option.splits prod.splits if_splits)
  have d: "distinct ps" "distinct ?qs" "set ps \<inter> set ?qs = {}" "\<forall>p\<in>set ps. p < length (cells mem)"
    "\<forall>p\<in>set ?qs. p < length (cells mem)" "set (concat (map snd (cl # cls))) = set ps \<union> set ?qs"
    using Cons.prems(2,3) cl by auto
  have C: "\<forall>p\<in>set ps. R (cells mem ! p) (cells mem1 ! p)" "\<forall>p. p \<notin> set ps \<longrightarrow> cells mem1 ! p = cells mem ! p"
    "length (cells mem1) = length (cells mem)"
    using rw_chunks_cells [OF S(1) d(1,4) R] by blast+
  have IH: "\<forall>p\<in>set ?qs. R (cells mem1 ! p) (cells mem' ! p)" "\<forall>p. p \<notin> set ?qs \<longrightarrow> cells mem' ! p = cells mem1 ! p"
    using Cons.IH [OF S(2) d(2)] d(5) C(3) by simp_all
  show ?case unfolding d(6) using C(1,2) IH d(3) by (metis Un_iff disjoint_iff)
qed simp

text \<open>No step changes the length of a chunk.\<close>

lemma rw_chunks_lens:
  assumes "rw_chunks step fd ps b st mem = Some (b', st', mem', ok)"
    "\<forall>fd fc b st fd' fc' b' st' ok. step fd fc b st = Some (fd', fc', b', st', ok) \<longrightarrow> chunklen fc' = chunklen fc"
  shows "map chunklen (cells mem') = map chunklen (cells mem)"
  using assms(1)
proof (induction ps arbitrary: fd b st mem)
  case (Cons p ps)
  obtain fd1 fc1 b1 st1 ok1 where S: "step fd (cells mem ! p) b st = Some (fd1, fc1, b1, st1, ok1)"
    using Cons.prems by (auto split: option.splits)
  then have l: "chunklen fc1 = chunklen (cells mem ! p)" using assms(2) by blast
  have u: "map chunklen ((cells mem)[p := fc1]) = map chunklen (cells mem)"
    by (simp add: map_update l list_update_same_conv [where i = p] flip: nth_map)
      (metis l length_map list_update_beyond list_update_id not_le nth_map)
  show ?case
    using Cons.prems Cons.IH S u by (cases ok1) (fastforce simp: Let_def)+
qed simp

lemma rw_files_lens:
  assumes "rw_files step opn cls b st mem = Some (b', st', mem', rest, ok)"
    "\<forall>fd fc b st fd' fc' b' st' ok. step fd fc b st = Some (fd', fc', b', st', ok) \<longrightarrow> chunklen fc' = chunklen fc"
  shows "map chunklen (cells mem') = map chunklen (cells mem)"
  using assms(1)
proof (induction cls arbitrary: b st mem)
  case (Cons cl cls)
  obtain path ps where cl: "cl = (path, ps)" by (cases cl)
  obtain b1 st1 mem1 ok1 where S: "rw_chunks step (opn path) ps b st mem = Some (b1, st1, mem1, ok1)"
    using Cons.prems cl by (auto split: option.splits)
  show ?case
    using Cons.prems Cons.IH S rw_chunks_lens [OF S assms(2)] cl by (cases ok1) fastforce+
qed simp

lemma write_chunk_len: "write_chunk_to_cloud simulate fd off fc st = Some (fd', fc', st', ok) \<Longrightarrow> chunklen fc' = chunklen fc"
  by (auto simp: write_chunk_to_cloud_def Let_def split: option.splits prod.splits if_splits)

lemma place_new_len: "place_new simulate fd fc b st = Some (fd', fc', b', st', ok) \<Longrightarrow> chunklen fc' = chunklen fc"
  by (auto simp: place_new_def dest!: write_chunk_len split: option.splits prod.splits if_splits)

lemma write_again_len: "write_again c simulate fd fc b st = Some (fd', fc', b', st', ok) \<Longrightarrow> chunklen fc' = chunklen fc"
  by (auto simp: write_again_def Let_def dest!: write_chunk_len split: option.splits prod.splits if_splits)

text \<open>
  The contract of a step on a chunk of a readable file; \<open>pre\<close> is what the algorithm must know of
  the chunk. \<open>rw_chunks\<close> and \<open>rw_files\<close> then settle every chunk.
\<close>

locale placing_step =
  fixes step :: step_fun and pre :: "fingerchunk \<Rightarrow> bool"
  assumes step_ok: "chunk_fits fp data (fc_offset fc) fc \<Longrightarrow> \<forall>i k. pread data i k \<in> D \<Longrightarrow>
    world_ok fp D rep (Suc m) (Suc n) b st \<Longrightarrow> ready b st fc \<Longrightarrow> pre fc \<Longrightarrow>
    \<exists>fc' b' st'. step (readable data) fc b st = Some (readable data, fc', b', st', True) \<and>
      world_ok fp D rep m n b' st' \<and> later b st b' st' \<and> placed st' fc fc'"
begin

lemma chunks_placed:
  assumes "distinct ps" "\<forall>p\<in>set ps. p < length (cells mem) \<and> chunk_fits fp data (fc_offset (cells mem ! p)) (cells mem ! p) \<and>
      ready b st (cells mem ! p) \<and> pre (cells mem ! p)"
    and "\<forall>i k. pread data i k \<in> D" "world_ok fp D rep (length ps + m) (length ps + n) b st"
  shows "\<exists>b' st' mem'. rw_chunks step (readable data) ps b st mem = Some (b', st', mem', True) \<and>
    world_ok fp D rep m n b' st' \<and> later b st b' st' \<and> length (cells mem') = length (cells mem) \<and>
    (\<forall>p\<in>set ps. placed st' (cells mem ! p) (cells mem' ! p)) \<and>
    (\<forall>p. p \<notin> set ps \<longrightarrow> cells mem' ! p = cells mem ! p) \<and> locked mem' = locked mem - set ps"
  using assms
proof (induction ps arbitrary: b st mem)
  case Nil
  then show ?case by (auto simp: later_refl)
next
  case (Cons p ps)
  let ?fc = "cells mem ! p"
  have "chunk_fits fp data (fc_offset ?fc) ?fc" "ready b st ?fc" "pre ?fc" "p < length (cells mem)"
    using Cons.prems(2) by auto
  moreover have "world_ok fp D rep (Suc (length ps + m)) (Suc (length ps + n)) b st" using Cons.prems(4) by simp
  ultimately obtain fc' b1 st1 where S: "step (readable data) ?fc b st = Some (readable data, fc', b1, st1, True)"
    "world_ok fp D rep (length ps + m) (length ps + n) b1 st1" "later b st b1 st1" "placed st1 ?fc fc'"
    using step_ok [OF _ Cons.prems(3)] by blast
  let ?mem = "mem\<lparr>cells := (cells mem)[p := fc'], locked := locked mem - {p}\<rparr>"
  have d: "distinct ps" "p \<notin> set ps" using Cons.prems(1) by auto
  have pre: "\<forall>q\<in>set ps. q < length (cells ?mem) \<and> chunk_fits fp data (fc_offset (cells ?mem ! q)) (cells ?mem ! q) \<and>
      ready b1 st1 (cells ?mem ! q) \<and> pre (cells ?mem ! q)"
  proof
    fix q assume q: "q \<in> set ps"
    with d have "q \<noteq> p" by blast
    then have "cells ?mem ! q = cells mem ! q" by simp
    with q Cons.prems(2) later_ready [OF S(3)] show "q < length (cells ?mem) \<and>
      chunk_fits fp data (fc_offset (cells ?mem ! q)) (cells ?mem ! q) \<and> ready b1 st1 (cells ?mem ! q) \<and> pre (cells ?mem ! q)"
      by simp
  qed
  from Cons.IH [OF d(1) pre Cons.prems(3) S(2)] obtain b' st' mem' where
    IH: "rw_chunks step (readable data) ps b1 st1 ?mem = Some (b', st', mem', True)"
    "world_ok fp D rep m n b' st'" "later b1 st1 b' st'" "length (cells mem') = length (cells ?mem)"
    "\<forall>q\<in>set ps. placed st' (cells ?mem ! q) (cells mem' ! q)"
    "\<forall>q. q \<notin> set ps \<longrightarrow> cells mem' ! q = cells ?mem ! q" "locked mem' = locked ?mem - set ps"
    by blast
  have "placed st' ?fc (cells mem' ! p)"
    using IH(6) d(2) \<open>p < length (cells mem)\<close> later_placed [OF IH(3) S(4)] by simp
  moreover have "\<forall>q\<in>set ps. placed st' (cells mem ! q) (cells mem' ! q)"
  proof
    fix q assume q: "q \<in> set ps"
    with d have "q \<noteq> p" by blast
    then have "cells ?mem ! q = cells mem ! q" by simp
    with IH(5) q show "placed st' (cells mem ! q) (cells mem' ! q)" by metis
  qed
  moreover have "\<forall>q. q \<notin> set (p # ps) \<longrightarrow> cells mem' ! q = cells mem ! q" using IH(6) by auto
  moreover have "rw_chunks step (readable data) (p # ps) b st mem = Some (b', st', mem', True)"
    using S(1) IH(1) by simp
  moreover have "locked mem' = locked mem - set (p # ps)" using IH(7) by auto
  moreover have "length (cells mem') = length (cells mem)" using IH(4) by simp
  ultimately show ?case
    using IH(2) later_trans [OF S(3) IH(3)] by (metis set_ConsD)
qed

lemma files_placed:
  assumes "distinct (concat (map snd cls))"
    and "\<forall>(path, ps)\<in>set cls. opn path = readable (dat path) \<and> (\<forall>i k. pread (dat path) i k \<in> D) \<and>
      (\<forall>p\<in>set ps. p < length (cells mem) \<and> chunk_fits fp (dat path) (fc_offset (cells mem ! p)) (cells mem ! p) \<and>
      ready b st (cells mem ! p) \<and> pre (cells mem ! p))"
    and "world_ok fp D rep (length (concat (map snd cls)) + m) (length (concat (map snd cls)) + n) b st"
  shows "\<exists>b' st' mem'. rw_files step opn cls b st mem = Some (b', st', mem', [], True) \<and>
    world_ok fp D rep m n b' st' \<and> later b st b' st' \<and> length (cells mem') = length (cells mem) \<and>
    (\<forall>p\<in>set (concat (map snd cls)). placed st' (cells mem ! p) (cells mem' ! p)) \<and>
    (\<forall>p. p \<notin> set (concat (map snd cls)) \<longrightarrow> cells mem' ! p = cells mem ! p) \<and>
    locked mem' = locked mem - set (concat (map snd cls))"
  using assms
proof (induction cls arbitrary: b st mem)
  case Nil
  then show ?case by (auto simp: later_refl)
next
  case (Cons cl cls)
  obtain path ps where cl: "cl = (path, ps)" by (cases cl)
  let ?qs = "concat (map snd cls)"
  have d: "distinct ps" "distinct ?qs" "set ps \<inter> set ?qs = {}" using Cons.prems(1) cl by auto
  have f: "opn path = readable (dat path)" "\<forall>i k. pread (dat path) i k \<in> D"
    "\<forall>p\<in>set ps. p < length (cells mem) \<and> chunk_fits fp (dat path) (fc_offset (cells mem ! p)) (cells mem ! p) \<and>
      ready b st (cells mem ! p) \<and> pre (cells mem ! p)" using Cons.prems(2) cl by auto
  have w: "world_ok fp D rep (length ps + (length ?qs + m)) (length ps + (length ?qs + n)) b st"
    using Cons.prems(3) cl by (simp add: add.assoc)
  from chunks_placed [OF d(1) f(3) f(2) w] obtain b1 st1 mem1 where
    S: "rw_chunks step (opn path) ps b st mem = Some (b1, st1, mem1, True)"
    "world_ok fp D rep (length ?qs + m) (length ?qs + n) b1 st1" "later b st b1 st1" "length (cells mem1) = length (cells mem)"
    "\<forall>p\<in>set ps. placed st1 (cells mem ! p) (cells mem1 ! p)"
    "\<forall>p. p \<notin> set ps \<longrightarrow> cells mem1 ! p = cells mem ! p" "locked mem1 = locked mem - set ps"
    unfolding f(1) by blast
  have keep: "cells mem1 ! p = cells mem ! p" if "p \<in> set ?qs" for p using that d(3) S(6) by blast
  have "\<forall>(path, ps)\<in>set cls. opn path = readable (dat path) \<and> (\<forall>i k. pread (dat path) i k \<in> D) \<and>
      (\<forall>p\<in>set ps. p < length (cells mem1) \<and> chunk_fits fp (dat path) (fc_offset (cells mem1 ! p)) (cells mem1 ! p) \<and>
      ready b1 st1 (cells mem1 ! p) \<and> pre (cells mem1 ! p))"
  proof (clarify, goal_cases)
    case (1 path' ps')
    then have "p \<in> set ?qs" if "p \<in> set ps'" for p using that by force
    with 1 Cons.prems(2) keep S(4) later_ready [OF S(3)] show ?case by fastforce
  qed
  from Cons.IH [OF d(2) this S(2)] obtain b' st' mem' where
    IH: "rw_files step opn cls b1 st1 mem1 = Some (b', st', mem', [], True)"
    "world_ok fp D rep m n b' st'" "later b1 st1 b' st'" "length (cells mem') = length (cells mem1)"
    "\<forall>p\<in>set ?qs. placed st' (cells mem1 ! p) (cells mem' ! p)"
    "\<forall>p. p \<notin> set ?qs \<longrightarrow> cells mem' ! p = cells mem1 ! p" "locked mem' = locked mem1 - set ?qs"
    by blast
  have "placed st' (cells mem ! p) (cells mem' ! p)" if "p \<in> set ps" for p
    using that d(3) IH(6) S(5) later_placed [OF IH(3)] by (metis disjoint_iff)
  moreover have "placed st' (cells mem ! p) (cells mem' ! p)" if "p \<in> set ?qs" for p
    using that IH(5) keep by metis
  moreover have "cells mem' ! p = cells mem ! p" if "p \<notin> set ps" "p \<notin> set ?qs" for p
    using that IH(6) S(6) by metis
  moreover have "rw_files step opn (cl # cls) b st mem = Some (b', st', mem', [], True)"
    using S(1) IH(1) cl by simp
  moreover have "locked mem' = locked mem - set (concat (map snd (cl # cls)))" using S(7) IH(7) cl by auto
  moreover have "set (concat (map snd (cl # cls))) = set ps \<union> set ?qs" using cl by simp
  ultimately show ?case
    using IH(2) S(4) IH(4) later_trans [OF S(3) IH(3)] by (metis Un_iff)
qed

end

text \<open>A list of chunks of a file that can be read.\<close>

definition in_file ::
  "(byte list \<Rightarrow> fingerprint) \<Rightarrow> (byte list \<Rightarrow> byte list) \<Rightarrow> byte list set \<Rightarrow> (byte list \<Rightarrow> fdesc option) \<Rightarrow> cmem \<Rightarrow> byte list \<times> nat list \<Rightarrow> bool" where
  "in_file fp dat D opn mem cl \<longleftrightarrow> opn (fst cl) = readable (dat (fst cl)) \<and> (\<forall>i k. pread (dat (fst cl)) i k \<in> D) \<and>
     (\<forall>p\<in>set (snd cl). p < length (cells mem) \<and> chunk_fits fp (dat (fst cl)) (fc_offset (cells mem ! p)) (cells mem ! p))"

text \<open>The chunk itself is the same: only mark and address may differ.\<close>

definition same_chunk :: "fingerchunk \<Rightarrow> fingerchunk \<Rightarrow> bool" where
  "same_chunk fc fc' \<longleftrightarrow> chunk_hash fc' = chunk_hash fc \<and> chunklen fc' = chunklen fc \<and> fc_offset fc' = fc_offset fc"

lemma same_chunk_refl [simp]: "same_chunk fc fc"
  by (simp add: same_chunk_def)

lemma same_chunk_trans: "same_chunk a b \<Longrightarrow> same_chunk b c \<Longrightarrow> same_chunk a c"
  by (simp add: same_chunk_def)

lemma same_chunk_placed: "same_chunk a b \<Longrightarrow> placed st b c \<Longrightarrow> placed st a c"
  by (simp add: same_chunk_def placed_def)

lemma same_chunk_fits: "same_chunk a b \<Longrightarrow> chunk_fits fp data off a \<Longrightarrow> chunk_fits fp data off b"
  unfolding same_chunk_def chunk_fits_def chunk_of_def by metis

lemma same_chunk_placed': "placed st a b \<Longrightarrow> same_chunk a b"
  by (simp add: same_chunk_def placed_def)

section \<open>A first bin and a first file\<close>

definition demo_mem :: cmem where
  "demo_mem = \<lparr>cells = [new_chunk demo_fp [1, 2, 3] 0], locked = {}\<rparr>"

lemma demo_mem_fits: "chunk_fits demo_fp [1, 2, 3] 0 (cells demo_mem ! 0)" "fc_offset (cells demo_mem ! 0) = 0"
    "fc_is_new (cells demo_mem ! 0) = NEW_CHUNK" "length (cells demo_mem) = 1"
    "chunklen (cells demo_mem ! 0) = 3"
  by (simp_all add: demo_mem_def new_chunk_def chunk_fits_def chunk_of_def pread_def length_demo_fp fingerchunk_new_def)

lemma demo_world_loaded:
  "\<exists>ex b. exbin_ok ex \<and> htable_lookup (bin_cache ex) (memset0 20) = Some b \<and>
    world_ok demo_fp UNIV (memset0 20) 5 5 b demo_store"
proof -
  have c: "client_ok demo_fp UNIV 5 demo_exbin demo_store" by (rule demo_client_ok)
  then have ex: "exbin_ok demo_exbin" by (simp add: client_ok_def)
  obtain ex b where L: "exbin_ok ex" "htable_lookup (bin_cache ex) (memset0 20) = Some b"
    "bin_view demo_exbin (memset0 20) (entries b)"
    using LoadBin_spec [OF ex, of file_new] by (auto simp: file_new_def)
  have bok: "bin_ok (memset0 20) b" using exbin_okD(5) [OF L(1,2)] by simp
  have "entries_sound demo_store (entries b)" "card (dom (entries b)) + 5 < 25000000"
    using c L(3) by (auto simp: client_ok_def)
  with bok c bin_size_entries [OF bok] have "world_ok demo_fp UNIV (memset0 20) 5 5 b demo_store"
    by (simp add: world_ok_def bin_room_def client_ok_def)
  with L show ?thesis by blast
qed

end
