(* ===== verification/Capping.thy ===== *)
theory Capping
  imports Rewrite
begin

text \<open>
  Rewriting by capping (client/src/capping.c): the chunks of a buffer of \<open>cp_capacity\<close> bytes are
  marked new or duplicate, and the bytes the duplicates refer to are counted per container. When
  the buffer is full, only the \<open>cp_max\<close> containers referred to most are kept; a duplicate in
  another container is stored again. \<open>buffer_length\<close> is an \<open>int\<close> here: it never exceeds the
  capacity or one chunk, see \<open>buffer_length_bound\<close>.
\<close>

section \<open>The code\<close>

text \<open>The key of a segment is the container address, its value the referenced length.\<close>

record capping =
  cp_capacity :: int
  cp_max :: int
  cp_length :: int
  cp_buffer :: "(byte list \<times> nat list) list"
  cp_segments :: "int htable"

definition new_segments :: "int htable option" where
  "new_segments = htable_init CHUNK_ADDRESS_LENGTH 50"

text \<open>The options give megabytes; every call multiplies again, in 64 bits.\<close>

definition capping_init :: "capping \<Rightarrow> capping option" where
  "capping_init s = map_option (\<lambda>t. s\<lparr>cp_capacity := signed_take_bit 63 (cp_capacity s * 1024 * 1024),
     cp_length := 0, cp_buffer := [], cp_segments := t\<rparr>) new_segments"

text \<open>The list linked through \<open>link\<close>: before the first node with a smaller length, or at the end.\<close>

fun link_node :: "byte list \<times> int \<Rightarrow> (byte list \<times> int) list \<Rightarrow> (byte list \<times> int) list" where
  "link_node rn [] = [rn]"
| "link_node rn (p # l) = (if snd rn > snd p then rn # p # l else p # link_node rn l)"

definition link_nodes :: "(byte list \<times> int) list \<Rightarrow> (byte list \<times> int) list" where
  "link_nodes rns = foldl (\<lambda>l rn. link_node rn l) [] rns"

definition sort_segments :: "int \<Rightarrow> int htable \<Rightarrow> int htable \<times> bool" where
  "sort_segments max_refer_count segs =
     (let l = link_nodes (htable_items segs);
          segs = foldl (\<lambda>t rn. fst (htable_remove (fst rn) t)) segs (drop (nat max_refer_count) l)
      in (segs, int (htable_size segs) = max_refer_count))"

definition capping_chunk :: "bool \<Rightarrow> int htable \<Rightarrow> step_fun" where
  "capping_chunk simulate segs fd fc b st =
     (if fc_is_new fc = NEW_CHUNK then place_new simulate fd fc b st
      else if fc_is_new fc = DEDUP_CHUNK then
        (if htable_lookup segs (fc_address fc) = None then write_again False simulate fd fc b st
         else Some (fd, fc, b, st, True))
      else Some (fd, fc, b, st, True))"

text \<open>The comparison with the size is unsigned.\<close>

definition over_max :: "capping \<Rightarrow> bool" where
  "over_max s \<longleftrightarrow> int (htable_size (cp_segments s)) > uint (word_of_int (cp_max s) :: 32 word)"

definition rewrite :: "bool \<Rightarrow> (byte list \<Rightarrow> fdesc option) \<Rightarrow> bin \<Rightarrow> store \<Rightarrow> cmem \<Rightarrow> capping
    \<Rightarrow> (bin \<times> store \<times> cmem \<times> capping \<times> bool) option" where
  "rewrite simulate opn b st mem s =
     (let (segs, ok) = (if over_max s then sort_segments (cp_max s) (cp_segments s) else (cp_segments s, True));
          s = s\<lparr>cp_segments := segs\<rparr>
      in if \<not> ok then Some (b, st, mem, s, False)
         else (case rw_files (capping_chunk simulate segs) opn (cp_buffer s) b st mem of
             None \<Rightarrow> None
           | Some (b, st, mem, rest, ok) \<Rightarrow>
               if \<not> ok then Some (b, st, mem, s\<lparr>cp_buffer := rest\<rparr>, False)
               else map_option (\<lambda>t. (b, st, mem, s\<lparr>cp_buffer := [], cp_segments := t\<rparr>, True)) new_segments))"

text \<open>Marking one chunk; its mutex is taken.\<close>

definition mark_chunk :: "bin \<Rightarrow> nat \<Rightarrow> cmem \<Rightarrow> capping \<Rightarrow> cmem \<times> capping" where
  "mark_chunk b p mem s =
     (let fc = cells mem ! p; mem = mem\<lparr>locked := insert p (locked mem)\<rparr> in
      case htable_lookup (b_fingers b) (chunk_hash fc) of
        None \<Rightarrow> (mem\<lparr>cells := (cells mem)[p := fc\<lparr>fc_is_new := NEW_CHUNK\<rparr>]\<rparr>, s)
      | Some a \<Rightarrow>
          (mem\<lparr>cells := (cells mem)[p := fc\<lparr>fc_is_new := DEDUP_CHUNK, fc_address := a\<rparr>]\<rparr>,
           s\<lparr>cp_segments := (case htable_lookup (cp_segments s) a of
              None \<Rightarrow> htable_insert a (chunklen fc) (cp_segments s)
            | Some _ \<Rightarrow> htable_update a (\<lambda>n. n + chunklen fc) (cp_segments s))\<rparr>))"

text \<open>\<open>cl\<close> is the chunk list of the current file since the last rewrite, \<open>first\<close>: no chunk was passed yet.\<close>

fun capping_loop :: "bool \<Rightarrow> (byte list \<Rightarrow> fdesc option) \<Rightarrow> byte list \<Rightarrow> bool \<Rightarrow> nat list \<Rightarrow> nat list
    \<Rightarrow> bin \<Rightarrow> store \<Rightarrow> cmem \<Rightarrow> capping \<Rightarrow> (bin \<times> store \<times> cmem \<times> capping \<times> bool) option" where
  "capping_loop simulate opn path first cl [] b st mem s =
     Some (b, st, mem, s\<lparr>cp_buffer := cp_buffer s @ [(path, cl)]\<rparr>, True)"
| "capping_loop simulate opn path first cl (p # ps) b st mem s =
     (let full = chunklen (cells mem ! p) + cp_length s > cp_capacity s in
      case (if full
            then rewrite simulate opn b st mem (if first then s else s\<lparr>cp_buffer := cp_buffer s @ [(path, cl)]\<rparr>)
            else Some (b, st, mem, s, True)) of
        None \<Rightarrow> None
      | Some (b, st, mem, s, ok) \<Rightarrow>
          if \<not> ok then Some (b, st, mem, s, False)
          else let (mem, s) = mark_chunk b p mem
                 (s\<lparr>cp_length := (if full then 0 else cp_length s) + chunklen (cells mem ! p)\<rparr>)
               in capping_loop simulate opn path False (if full then [p] else cl @ [p]) ps b st mem s)"

text \<open>
  The two calls: for the chunks \<open>ps\<close> of a file with its bin, and at the end of the stream, when the
  bin is looked up again.
\<close>

definition capping_file :: "bool \<Rightarrow> (byte list \<Rightarrow> fdesc option) \<Rightarrow> fileinfo \<Rightarrow> nat list \<Rightarrow> bin \<Rightarrow> store \<Rightarrow> cmem
    \<Rightarrow> capping \<Rightarrow> (bin \<times> store \<times> cmem \<times> capping \<times> bool) option" where
  "capping_file simulate opn fi ps b st mem s = capping_loop simulate opn (file_path fi) True [] ps b st mem s"

definition capping_end :: "bool \<Rightarrow> (byte list \<Rightarrow> fdesc option) \<Rightarrow> fileinfo \<Rightarrow> exbin \<Rightarrow> store \<Rightarrow> cmem \<Rightarrow> capping
    \<Rightarrow> (exbin \<times> store \<times> cmem \<times> capping \<times> bool) option" where
  "capping_end simulate opn fi ex st mem s =
     (case LoadBin ex (fi\<lparr>file_hash := memset0 20\<rparr>) of
        None \<Rightarrow> None
      | Some (ex, b) \<Rightarrow>
          map_option (\<lambda>(b, st, mem, s, ok). (put_bin b ex, st, mem, s, ok)) (rewrite simulate opn b st mem s))"

definition capping_process :: "bool \<Rightarrow> (byte list \<Rightarrow> fdesc option) \<Rightarrow> fileinfo \<Rightarrow> nat list \<Rightarrow> bin option \<Rightarrow> exbin
    \<Rightarrow> store \<Rightarrow> cmem \<Rightarrow> capping \<Rightarrow> (exbin \<times> store \<times> cmem \<times> capping \<times> bool) option" where
  "capping_process simulate opn fi ps bin ex st mem s =
     (if chunknum fi = STREAM_END then capping_end simulate opn fi ex st mem s
      else case bin of
        None \<Rightarrow> None
      | Some b \<Rightarrow> map_option (\<lambda>(b, st, mem, s, ok). (put_bin b ex, st, mem, s, ok))
          (capping_file simulate opn fi ps b st mem s))"

section \<open>The containers that are kept\<close>

lemma set_link_node: "set (link_node rn l) = insert rn (set l)"
  by (induction l) auto

lemma length_link_node [simp]: "length (link_node rn l) = Suc (length l)"
  by (induction l) auto

lemma sorted_link_node: "sorted (rev (map snd l)) \<Longrightarrow> sorted (rev (map snd (link_node rn l)))"
  by (induction l) (auto simp: sorted_append set_link_node)

lemma mset_link_node: "mset (link_node rn l) = add_mset rn (mset l)"
  by (induction l) auto

lemma link_nodes_spec: "mset (link_nodes rns) = mset rns" "sorted (rev (map snd (link_nodes rns)))"
proof -
  have "mset (foldl (\<lambda>l rn. link_node rn l) l rns) = mset l + mset rns \<and>
    (sorted (rev (map snd l)) \<longrightarrow> sorted (rev (map snd (foldl (\<lambda>l rn. link_node rn l) l rns))))" for l
    by (induction rns arbitrary: l) (auto simp: mset_link_node sorted_link_node)
  from this [of "[]"] show "mset (link_nodes rns) = mset rns" "sorted (rev (map snd (link_nodes rns)))"
    by (simp_all add: link_nodes_def)
qed

lemma remove_keys:
  assumes "ht.clean n t" "\<forall>x\<in>set xs. length (fst x) = n"
  shows "ht.clean n (foldl (\<lambda>t x. fst (htable_remove (fst x) t)) t xs) \<and>
    set (htable_items (foldl (\<lambda>t x. fst (htable_remove (fst x) t)) t xs)) =
      {kv\<in>set (htable_items t). fst kv \<notin> fst ` set xs}"
  using assms
proof (induction xs arbitrary: t)
  case (Cons x xs)
  have l: "length (fst x) = n" using Cons.prems(2) by simp
  have c: "ht.clean n (fst (htable_remove (fst x) t))" by (rule ht.clean_remove [OF Cons.prems(1) l])
  have "set (htable_items (fst (htable_remove (fst x) t))) = {kv\<in>set (htable_items t). fst kv \<noteq> fst x}"
    using htable_remove_items [OF htable_cleanD(1) [OF Cons.prems(1)] l htable_cleanD(2) [OF Cons.prems(1)]] by auto
  with Cons.IH [OF c] Cons.prems(2) show ?case by auto
qed simp

lemma clean_distinct: "ht.clean n t \<Longrightarrow> distinct (htable_items t)"
  using htable_cleanD(2) distinct_map by blast

lemma clean_size: "ht.clean n t \<Longrightarrow> htable_size t = card (set (htable_items t))"
proof -
  assume c: "ht.clean n t"
  then have "htable_size t = length (htable_items t)"
    using htable_cleanD(1) [OF c] by (simp add: htable_size_def ht_inv_def)
  then show ?thesis using clean_distinct [OF c] by (simp add: distinct_card)
qed

lemma sort_segments_spec:
  assumes c: "ht.clean 64 segs" and m: "0 \<le> m" "m \<le> int (htable_size segs)"
  shows "\<exists>segs'. sort_segments m segs = (segs', True) \<and> ht.clean 64 segs' \<and> int (htable_size segs') = m \<and>
    set (htable_items segs') \<subseteq> set (htable_items segs) \<and>
    (\<forall>x\<in>set (htable_items segs'). \<forall>y\<in>set (htable_items segs) - set (htable_items segs'). snd y \<le> snd x)"
proof -
  let ?l = "link_nodes (htable_items segs)" and ?n = "nat m"
  let ?s = "foldl (\<lambda>t rn. fst (htable_remove (fst rn) t)) segs (drop ?n ?l)"
  have ms: "mset ?l = mset (htable_items segs)" by (rule link_nodes_spec)
  then have l: "set ?l = set (htable_items segs)" "distinct ?l" "distinct (map fst ?l)" "length ?l = htable_size segs"
    using clean_distinct [OF c] htable_cleanD [OF c] mset_eq_setD mset_eq_imp_distinct_iff mset_eq_length
    by (metis, metis, metis mset_map, metis ht_inv_num htable_size_def)
  have k: "\<forall>x\<in>set (drop ?n ?l). length (fst x) = 64"
    using l(1) in_set_dropD htable_items_key [OF htable_cleanD(1) [OF c]] by metis
  note R = remove_keys [OF c k]
  have split: "set ?l = set (take ?n ?l) \<union> set (drop ?n ?l)" by (metis append_take_drop_id set_append)
  have "distinct (map fst (take ?n ?l @ drop ?n ?l))" using l(3) by simp
  then have disj: "fst ` set (take ?n ?l) \<inter> fst ` set (drop ?n ?l) = {}" unfolding map_append distinct_append by simp
  have s: "set (htable_items ?s) = set (take ?n ?l)"
    using R l(1) split disj by (auto simp: image_iff)
  have "card (set (take ?n ?l)) = ?n" using distinct_card [OF distinct_take [OF l(2)]] l(4) m by simp
  then have n: "htable_size ?s = ?n" using clean_size [of 64 ?s] R unfolding s [symmetric] by simp
  have top: "snd y \<le> snd x" if "x \<in> set (take ?n ?l)" "y \<in> set (drop ?n ?l)" for x y
  proof -
    have "sorted (rev (map snd (take ?n ?l @ drop ?n ?l)))" using link_nodes_spec(2) by simp
    then show ?thesis using that unfolding map_append rev_append sorted_append by auto
  qed
  have "sort_segments m segs = (?s, True)" using n m by (simp add: sort_segments_def Let_def)
  moreover have "set (htable_items ?s) \<subseteq> set (htable_items segs)" using s split l(1) by blast
  moreover have "\<forall>x\<in>set (htable_items ?s). \<forall>y\<in>set (htable_items segs) - set (htable_items ?s). snd y \<le> snd x"
    using s split l(1) top by blast
  ultimately show ?thesis using R n m by (intro exI [of _ ?s]) simp
qed

text \<open>Sorting the segments succeeds and keeps exactly the \<open>max_refer_count\<close> containers that are
  referred to most: no container dropped has more referenced bytes than one that is kept.\<close>

lemma sort_segments_keeps_top:
  assumes "ht.clean 64 segs" "0 \<le> m" "m \<le> int (htable_size segs)"
  shows "\<exists>segs'. sort_segments m segs = (segs', True) \<and> int (htable_size segs') = m \<and>
    set (htable_items segs') \<subseteq> set (htable_items segs) \<and>
    (\<forall>x\<in>set (htable_items segs'). \<forall>y\<in>set (htable_items segs) - set (htable_items segs'). snd y \<le> snd x)"
  using sort_segments_spec [OF assms] by blast

definition demo_segments :: "int htable" where
  "demo_segments = htable_insert (replicate 64 66) 30 (htable_insert (replicate 64 67) 20
     (htable_insert (replicate 64 65) 10 (htable_of_pwr 64 3)))"

lemma demo_segments: "ht.clean 64 demo_segments" "htable_size demo_segments = 3"
    "set (htable_items demo_segments) = {(replicate 64 66, 30), (replicate 64 67, 20), (replicate 64 65, 10)}"
proof -
  let ?t0 = "htable_of_pwr 64 3 :: int htable"
  let ?xs = "[(replicate 64 65 :: byte list, 10 :: int), (replicate 64 67, 20), (replicate 64 66, 30)]"
  have e: "demo_segments = foldl (\<lambda>t (k, v). htable_insert k v t) ?t0 ?xs" by (simp add: demo_segments_def)
  have d: "distinct (map fst ?xs)" "\<forall>x\<in>set ?xs. length (fst x) = 64" by (auto simp: replicate_eq_replicate)
  note F = foldl_htable_insert [OF ht_inv_new d(2), of 3]
  show "ht.clean 64 demo_segments" unfolding e by (rule foldl_insert_map_of(1)) (use d in simp_all)
  show "htable_size demo_segments = 3"
    "set (htable_items demo_segments) = {(replicate 64 66, 30), (replicate 64 67, 20), (replicate 64 65, 10)}"
    unfolding e using F by (simp_all add: htable_size_new insert_commute)
qed

section \<open>A rewrite settles the buffer\<close>

interpretation cap: placing_step "capping_chunk False segs" "\<lambda>_. True" for segs
proof unfold_locales
  fix fp data fc D rep m n b st
  assume fc: "chunk_fits fp data (fc_offset fc) fc" and D: "\<forall>i k. pread data i k \<in> D"
    and w: "world_ok fp D rep (Suc m) (Suc n) b st" and r: "ready b st fc"
  have w1: "world_ok fp D rep m (Suc n) b st" "world_ok fp D rep m n b st"
    using w by (auto simp: world_ok_def bin_room_def store_room_def)
  show "\<exists>fc' b' st'. capping_chunk False segs (readable data) fc b st = Some (readable data, fc', b', st', True) \<and>
      world_ok fp D rep m n b' st' \<and> later b st b' st' \<and> placed st' fc fc'"
  proof (cases "fc_is_new fc = NEW_CHUNK")
    case True
    with place_new_ok [OF fc D w] show ?thesis by (simp add: capping_chunk_def)
  next
    case False
    with r have d: "fc_is_new fc = DEDUP_CHUNK" "entries b (chunk_hash fc) \<noteq> None" "placed st fc fc" by (auto simp: ready_def)
    show ?thesis
    proof (cases "htable_lookup segs (fc_address fc)")
      case None
      with d write_again_ok [OF fc D w1(1) d(2), of False] show ?thesis by (simp add: capping_chunk_def)
    next
      case (Some n)
      with d w1(2) show ?thesis by (simp add: capping_chunk_def later_refl)
    qed
  qed
qed

definition buffered :: "capping \<Rightarrow> nat list" where
  "buffered s = concat (map snd (cp_buffer s))"

definition marked :: "bin \<Rightarrow> store \<Rightarrow> cmem \<Rightarrow> byte list \<times> nat list \<Rightarrow> bool" where
  "marked b st mem cl \<longleftrightarrow> (\<forall>p\<in>set (snd cl). ready b st (cells mem ! p))"

text \<open>The state between two chunks, with room for \<open>m\<close> more entries and \<open>n\<close> more chunks.\<close>

definition cap_ok where
  "cap_ok fp dat D rep opn m n b st mem s \<longleftrightarrow>
     distinct (buffered s) \<and> (\<forall>cl\<in>set (cp_buffer s). in_file fp dat D opn mem cl \<and> marked b st mem cl) \<and>
     world_ok fp D rep (length (buffered s) + m) (length (buffered s) + n) b st \<and>
     ht.clean 64 (cp_segments s) \<and> 0 \<le> cp_max s \<and> cp_max s < 2147483648"

lemma over_max_iff: "0 \<le> cp_max s \<Longrightarrow> cp_max s < 2147483648 \<Longrightarrow> over_max s \<longleftrightarrow> cp_max s < int (htable_size (cp_segments s))"
  by (simp add: over_max_def uint_word_of_int)

lemma kept_segments:
  assumes "ht.clean 64 (cp_segments s)" "0 \<le> cp_max s" "cp_max s < 2147483648"
  shows "\<exists>segs. (if over_max s then sort_segments (cp_max s) (cp_segments s) else (cp_segments s, True)) = (segs, True) \<and>
    ht.clean 64 segs \<and> int (htable_size segs) \<le> cp_max s"
  using sort_segments_spec [OF assms(1,2)] assms(1) over_max_iff [OF assms(2,3)] by (cases "over_max s") auto

lemma rewrite_placed:
  assumes ok: "cap_ok fp dat D rep opn m n b st mem s"
  shows "\<exists>b' st' mem' t. rewrite False opn b st mem s = Some (b', st', mem', s\<lparr>cp_buffer := [], cp_segments := t\<rparr>, True) \<and>
    ht.clean 64 t \<and> world_ok fp D rep m n b' st' \<and> later b st b' st' \<and> length (cells mem') = length (cells mem) \<and>
    (\<forall>p\<in>set (buffered s). placed st' (cells mem ! p) (cells mem' ! p)) \<and>
    (\<forall>p. p \<notin> set (buffered s) \<longrightarrow> cells mem' ! p = cells mem ! p) \<and> locked mem' = locked mem - set (buffered s)"
proof -
  obtain segs where s: "(if over_max s then sort_segments (cp_max s) (cp_segments s) else (cp_segments s, True)) = (segs, True)"
    using kept_segments ok by (auto simp: cap_ok_def)
  obtain t :: "int htable" where t: "new_segments = Some t" "ht.clean 64 t"
    using htable_fresh [of 50 64] by (auto simp: new_segments_def)
  have d: "distinct (concat (map snd (cp_buffer s)))" using ok by (simp add: cap_ok_def buffered_def)
  have f: "\<forall>(path, ps)\<in>set (cp_buffer s). opn path = readable (dat path) \<and> (\<forall>i k. pread (dat path) i k \<in> D) \<and>
      (\<forall>p\<in>set ps. p < length (cells mem) \<and> chunk_fits fp (dat path) (fc_offset (cells mem ! p)) (cells mem ! p) \<and>
      ready b st (cells mem ! p) \<and> True)"
    using ok by (fastforce simp: cap_ok_def in_file_def marked_def)
  have w: "world_ok fp D rep (length (concat (map snd (cp_buffer s))) + m) (length (concat (map snd (cp_buffer s))) + n) b st"
    using ok by (simp add: cap_ok_def buffered_def)
  from cap.files_placed [OF d f w, of segs] obtain b' st' mem' where
    R: "rw_files (capping_chunk False segs) opn (cp_buffer s) b st mem = Some (b', st', mem', [], True)"
    "world_ok fp D rep m n b' st'" "later b st b' st'" "length (cells mem') = length (cells mem)"
    "\<forall>p\<in>set (buffered s). placed st' (cells mem ! p) (cells mem' ! p)"
    "\<forall>p. p \<notin> set (buffered s) \<longrightarrow> cells mem' ! p = cells mem ! p" "locked mem' = locked mem - set (buffered s)"
    unfolding buffered_def by blast
  have "rewrite False opn b st mem s = Some (b', st', mem', s\<lparr>cp_buffer := [], cp_segments := t\<rparr>, True)"
    using s R(1) t(1) by (auto simp: rewrite_def)
  with R(2-) t(2) show ?thesis by blast
qed

text \<open>C15: the cap holds: after a rewrite the chunks of the buffer that were marked as duplicates and
  still are refer to at most \<open>max_refer_count\<close> different containers.\<close>

theorem capping_bound:
  assumes "rewrite simulate opn b st mem s = Some (b', st', mem', s', True)"
    and "distinct (buffered s)"
    and "\<forall>p\<in>set (buffered s). p < length (cells mem) \<and> length (fc_address (cells mem ! p)) = 64"
    and "ht.clean 64 (cp_segments s)" "0 \<le> cp_max s" "cp_max s < 2147483648"
  shows "int (card {fc_address (cells mem' ! p) |p. p \<in> set (buffered s) \<and>
    fc_is_new (cells mem ! p) = DEDUP_CHUNK \<and> fc_is_new (cells mem' ! p) = DEDUP_CHUNK}) \<le> cp_max s"
proof -
  obtain segs where s: "(if over_max s then sort_segments (cp_max s) (cp_segments s) else (cp_segments s, True)) = (segs, True)"
    "ht.clean 64 segs" "int (htable_size segs) \<le> cp_max s"
    using kept_segments assms(4-6) by blast
  let ?R = "\<lambda>fc fc'. fc_is_new fc = DEDUP_CHUNK \<and> fc_is_new fc' = DEDUP_CHUNK \<longrightarrow>
    fc_address fc' = fc_address fc \<and> htable_lookup segs (fc_address fc') \<noteq> None"
  have "rw_files (capping_chunk simulate segs) opn (cp_buffer s) b st mem = Some (b', st', mem', [], True) \<or>
      (\<exists>rest. rw_files (capping_chunk simulate segs) opn (cp_buffer s) b st mem = Some (b', st', mem', rest, True))"
    using assms(1) s(1) by (auto simp: rewrite_def Let_def split: option.splits prod.splits if_splits)
  then obtain rest where R: "rw_files (capping_chunk simulate segs) opn (cp_buffer s) b st mem = Some (b', st', mem', rest, True)" by blast
  have step: "\<forall>fd fc b st fd' fc' b' st'. capping_chunk simulate segs fd fc b st = Some (fd', fc', b', st', True) \<longrightarrow> ?R fc fc'"
    by (auto simp: capping_chunk_def write_again_def Let_def split: option.splits prod.splits if_splits)
  have C: "\<forall>p\<in>set (buffered s). ?R (cells mem ! p) (cells mem' ! p)"
    using rw_files_cells [OF R _ _ step] assms(2,3) unfolding buffered_def by blast
  have "{fc_address (cells mem' ! p) |p. p \<in> set (buffered s) \<and> fc_is_new (cells mem ! p) = DEDUP_CHUNK \<and>
      fc_is_new (cells mem' ! p) = DEDUP_CHUNK} \<subseteq> fst ` set (htable_items segs)" (is "?A \<subseteq> _")
  proof
    fix a assume "a \<in> ?A"
    then obtain p where p: "p \<in> set (buffered s)" "a = fc_address (cells mem ! p)" "htable_lookup segs a \<noteq> None"
      using C by auto
    then have "length a = 64" using assms(3) by simp
    with p(3) show "a \<in> fst ` set (htable_items segs)"
      using htable_lookup_None [OF htable_cleanD(1) [OF s(2)], of a] by simp
  qed
  then have "card ?A \<le> card (set (htable_items segs))"
    by (meson List.finite_set card_image_le card_mono finite_imageI order_trans)
  with s(3) clean_size [OF s(2)] show ?thesis by simp
qed

section \<open>A file and the end of the stream\<close>

lemma mark_chunk_spec:
  assumes w: "world_ok fp D rep m n b st" and c: "ht.clean 64 (cp_segments s)"
    and p: "p < length (cells mem)" "length (chunk_hash (cells mem ! p)) = 20"
  shows "\<exists>fc t. mark_chunk b p mem s = (mem\<lparr>cells := (cells mem)[p := fc], locked := insert p (locked mem)\<rparr>, s\<lparr>cp_segments := t\<rparr>) \<and>
    ht.clean 64 t \<and> ready b st fc \<and> chunk_hash fc = chunk_hash (cells mem ! p) \<and>
    chunklen fc = chunklen (cells mem ! p) \<and> fc_offset fc = fc_offset (cells mem ! p)"
proof -
  let ?fc = "cells mem ! p"
  have l: "htable_lookup (b_fingers b) (chunk_hash ?fc) = entries b (chunk_hash ?fc)"
    using bin_lookup [OF _ p(2)] w by (auto simp: world_ok_def bin_room_def)
  show ?thesis
  proof (cases "entries b (chunk_hash ?fc)")
    case None
    with l c show ?thesis
      by (intro exI [of _ "?fc\<lparr>fc_is_new := NEW_CHUNK\<rparr>"] exI [of _ "cp_segments s"])
        (simp add: mark_chunk_def ready_def Let_def)
  next
    case (Some a)
    then have pl: "address_ok a" "\<exists>d. has st a (chunk_hash ?fc) d" using w by (auto simp: world_ok_def entries_sound_def)
    let ?t = "case htable_lookup (cp_segments s) a of None \<Rightarrow> htable_insert a (chunklen ?fc) (cp_segments s)
      | Some _ \<Rightarrow> htable_update a (\<lambda>n. n + chunklen ?fc) (cp_segments s)"
    have "ht.clean 64 ?t"
      using ht.clean_insert [OF c address_ok_length [OF pl(1)]] htable_clean_update [OF c] by (auto split: option.split)
    with Some l pl show ?thesis
      by (intro exI [of _ "?fc\<lparr>fc_is_new := DEDUP_CHUNK, fc_address := a\<rparr>"] exI [of _ ?t])
        (auto simp: mark_chunk_def ready_def placed_def Let_def)
  qed
qed

text \<open>Where a chunk that was passed is afterwards: still in the buffer, or settled and unlocked.\<close>

definition fate where
  "fate st' mem mem' s' p \<longleftrightarrow>
     (if p \<in> set (buffered s') then chunk_hash (cells mem' ! p) = chunk_hash (cells mem ! p) \<and>
        chunklen (cells mem' ! p) = chunklen (cells mem ! p) \<and> fc_offset (cells mem' ! p) = fc_offset (cells mem ! p)
      else placed st' (cells mem ! p) (cells mem' ! p) \<and> p \<notin> locked mem')"

definition with_list :: "byte list \<Rightarrow> nat list \<Rightarrow> capping \<Rightarrow> capping" where
  "with_list path cl s = s\<lparr>cp_buffer := cp_buffer s @ [(path, cl)]\<rparr>"

lemma with_list_simps [simp]:
  "buffered (with_list path cl s) = buffered s @ cl" "cp_segments (with_list path cl s) = cp_segments s"
  "cp_max (with_list path cl s) = cp_max s" "buffered (s\<lparr>cp_length := k\<rparr>) = buffered s"
  "buffered (s\<lparr>cp_segments := t\<rparr>) = buffered s"
  by (simp_all add: with_list_def buffered_def)

lemma fate_same:
  "fate st' mem1 mem' s' p \<Longrightarrow> chunk_hash (cells mem1 ! p) = chunk_hash (cells mem ! p) \<Longrightarrow>
   chunklen (cells mem1 ! p) = chunklen (cells mem ! p) \<Longrightarrow> fc_offset (cells mem1 ! p) = fc_offset (cells mem ! p) \<Longrightarrow>
   fate st' mem mem' s' p"
  by (auto simp: fate_def placed_def split: if_splits)

text \<open>Entering one more marked chunk into the list of the current file.\<close>

lemma cap_ok_enter:
  assumes ok: "cap_ok fp dat D rep opn (Suc m) (Suc n) b st mem (with_list path cl s)"
    and p: "p \<notin> set (buffered s @ cl)" "in_file fp dat D opn mem (path, [p])"
    and fc: "ready b st fc" "chunk_hash fc = chunk_hash (cells mem ! p)" "chunklen fc = chunklen (cells mem ! p)"
      "fc_offset fc = fc_offset (cells mem ! p)"
    and t: "ht.clean 64 t" and mem': "mem' = mem\<lparr>cells := (cells mem)[p := fc], locked := L\<rparr>"
  shows "cap_ok fp dat D rep opn m n b st mem' (with_list path (cl @ [p]) (s\<lparr>cp_length := k, cp_segments := t\<rparr>))"
proof -
  have len: "p < length (cells mem)" "chunk_fits fp (dat path) (fc_offset (cells mem ! p)) (cells mem ! p)"
    using p(2) by (auto simp: in_file_def)
  have same: "cells mem' ! q = cells mem ! q" if "q \<noteq> p" for q using that by (simp add: mem')
  have "chunk_fits fp (dat path) (fc_offset fc) fc"
    using len(2) fc(2-4) unfolding chunk_fits_def chunk_of_def by metis
  moreover have "in_file fp dat D opn mem' c \<and> marked b st mem' c" if "c \<in> set (cp_buffer s @ [(path, cl)])" for c
  proof -
    have c: "in_file fp dat D opn mem c" "marked b st mem c" using ok that by (auto simp: cap_ok_def with_list_def)
    have "p \<notin> set (snd c)" using p(1) that by (auto simp: buffered_def)
    then have "\<forall>q\<in>set (snd c). cells mem' ! q = cells mem ! q" using same by metis
    with c show ?thesis by (simp add: in_file_def marked_def mem')
  qed
  moreover have "in_file fp dat D opn mem' (path, cl @ [p]) \<and> marked b st mem' (path, cl @ [p])"
    using calculation(2) [of "(path, cl)"] calculation(1) len(1) fc(1) by (simp add: in_file_def marked_def mem')
  ultimately have "\<forall>c\<in>set (cp_buffer (with_list path (cl @ [p]) (s\<lparr>cp_length := k, cp_segments := t\<rparr>))).
      in_file fp dat D opn mem' c \<and> marked b st mem' c"
    by (auto simp: with_list_def)
  then show ?thesis
    using ok p(1) t by (simp add: cap_ok_def)
qed

lemma capping_loop_spec:
  assumes "cap_ok fp dat D rep opn (length ps + m) (length ps + n) b st mem (with_list path cl s)"
    and "distinct ps" "set ps \<inter> set (buffered s @ cl) = {}" "in_file fp dat D opn mem (path, ps)" "first \<longrightarrow> cl = []"
  shows "\<exists>b' st' mem' s'. capping_loop False opn path first cl ps b st mem s = Some (b', st', mem', s', True) \<and>
    cap_ok fp dat D rep opn m n b' st' mem' s' \<and> later b st b' st' \<and> length (cells mem') = length (cells mem) \<and>
    (\<forall>p\<in>set (buffered s @ cl @ ps). fate st' mem mem' s' p) \<and> set (buffered s') \<subseteq> set (buffered s @ cl @ ps) \<and>
    (\<forall>p. p \<notin> set (buffered s @ cl @ ps) \<longrightarrow> cells mem' ! p = cells mem ! p \<and> (p \<in> locked mem' \<longleftrightarrow> p \<in> locked mem))"
  using assms
proof (induction ps arbitrary: first cl b st mem s)
  case Nil
  then have "capping_loop False opn path first cl [] b st mem s = Some (b, st, mem, with_list path cl s, True)"
    by (simp add: with_list_def)
  with Nil show ?case by (auto simp: fate_def later_refl)
next
  case (Cons p ps)
  let ?fc = "cells mem ! p" and ?full = "chunklen (cells mem ! p) + cp_length s > cp_capacity s"
  let ?s0 = "if first then s else with_list path cl s"
  let ?cl = "if ?full then [] else cl"
  have ok: "cap_ok fp dat D rep opn (Suc (length ps + m)) (Suc (length ps + n)) b st mem (with_list path cl s)"
    using Cons.prems(1) by simp
  have s0: "buffered ?s0 = buffered s @ cl" using Cons.prems(5) by simp
  have ok0: "cap_ok fp dat D rep opn (Suc (length ps + m)) (Suc (length ps + n)) b st mem ?s0"
    using ok Cons.prems(5) by (auto simp: cap_ok_def with_list_def buffered_def)
  obtain b1 st1 mem1 s1 where R: "(if ?full then rewrite False opn b st mem ?s0 else Some (b, st, mem, s, True)) = Some (b1, st1, mem1, s1, True)"
    and ok1: "cap_ok fp dat D rep opn (Suc (length ps + m)) (Suc (length ps + n)) b1 st1 mem1 (with_list path ?cl s1)"
    and l1: "later b st b1 st1" "length (cells mem1) = length (cells mem)"
    and b1: "set (buffered s1 @ ?cl) \<subseteq> set (buffered s @ cl)"
    and f1: "\<forall>q\<in>set (buffered s @ cl). q \<notin> set (buffered s1 @ ?cl) \<longrightarrow> placed st1 (cells mem ! q) (cells mem1 ! q) \<and> q \<notin> locked mem1"
      "\<forall>q. q \<notin> set (buffered s @ cl) \<or> q \<in> set (buffered s1 @ ?cl) \<longrightarrow> cells mem1 ! q = cells mem ! q \<and> (q \<in> locked mem1 \<longleftrightarrow> q \<in> locked mem)"
  proof (cases ?full)
    case True
    from rewrite_placed [OF ok0] obtain b1 st1 mem1 t where
      P: "rewrite False opn b st mem ?s0 = Some (b1, st1, mem1, ?s0\<lparr>cp_buffer := [], cp_segments := t\<rparr>, True)"
      "ht.clean 64 t" "world_ok fp D rep (Suc (length ps + m)) (Suc (length ps + n)) b1 st1" "later b st b1 st1"
      "length (cells mem1) = length (cells mem)" "\<forall>q\<in>set (buffered s @ cl). placed st1 (cells mem ! q) (cells mem1 ! q)"
      "\<forall>q. q \<notin> set (buffered s @ cl) \<longrightarrow> cells mem1 ! q = cells mem ! q" "locked mem1 = locked mem - set (buffered s @ cl)"
      unfolding s0 by blast
    let ?s1 = "?s0\<lparr>cp_buffer := [], cp_segments := t\<rparr>"
    have "in_file fp dat D opn mem1 (path, [])" using Cons.prems(4) by (simp add: in_file_def)
    then have "cap_ok fp dat D rep opn (Suc (length ps + m)) (Suc (length ps + n)) b1 st1 mem1 (with_list path [] ?s1)"
      using P(2,3) ok0 by (auto simp: cap_ok_def with_list_def buffered_def marked_def)
    with P True show ?thesis by (intro that [of b1 st1 mem1 ?s1]) (auto simp: buffered_def)
  next
    case False
    with ok show ?thesis by (intro that [of b st mem s]) (auto simp: later_refl)
  qed
  have p: "p \<notin> set (buffered s @ cl)" "p \<notin> set ps" using Cons.prems(2,3) by auto
  have fc1: "cells mem1 ! p = ?fc" using f1(2) p(1) by blast
  have w1: "world_ok fp D rep (length (buffered s1 @ ?cl) + Suc (length ps + m)) (length (buffered s1 @ ?cl) + Suc (length ps + n)) b1 st1"
    and c1: "ht.clean 64 (cp_segments s1)" using ok1 by (auto simp: cap_ok_def)
  have fits: "p < length (cells mem1)" "chunk_fits fp (dat path) (fc_offset ?fc) ?fc" "length (chunk_hash ?fc) = 20"
    using Cons.prems(4) l1(2) unfolding in_file_def chunk_fits_def by auto
  let ?k = "(if ?full then 0 else cp_length s1) + chunklen (cells mem1 ! p)"
  obtain fc t where M: "mark_chunk b1 p mem1 (s1\<lparr>cp_length := ?k\<rparr>) =
      (mem1\<lparr>cells := (cells mem1)[p := fc], locked := insert p (locked mem1)\<rparr>, s1\<lparr>cp_length := ?k, cp_segments := t\<rparr>)"
    "ht.clean 64 t" "ready b1 st1 fc" "chunk_hash fc = chunk_hash ?fc" "chunklen fc = chunklen ?fc" "fc_offset fc = fc_offset ?fc"
    using mark_chunk_spec [OF w1, of "s1\<lparr>cp_length := ?k\<rparr>" p mem1] c1 fits fc1 by auto
  let ?mem2 = "mem1\<lparr>cells := (cells mem1)[p := fc], locked := insert p (locked mem1)\<rparr>"
  let ?s2 = "s1\<lparr>cp_length := ?k, cp_segments := t\<rparr>"
  have same: "cells ?mem2 ! q = cells mem1 ! q" if "q \<noteq> p" for q using that by simp
  have pi: "in_file fp dat D opn mem1 (path, [p])"
    using Cons.prems(4) l1(2) fc1 by (auto simp: in_file_def)
  have "p \<notin> set (buffered s1 @ ?cl)" using p(1) b1 by blast
  then have ok2: "cap_ok fp dat D rep opn (length ps + m) (length ps + n) b1 st1 ?mem2 (with_list path (?cl @ [p]) ?s2)"
    using cap_ok_enter [OF ok1 _ pi M(3) _ _ _ M(2) refl] M(4-6) fc1 by simp
  have psi: "in_file fp dat D opn ?mem2 (path, ps)"
  proof -
    have "cells ?mem2 ! q = cells mem ! q" if "q \<in> set ps" for q
      using that p(2) f1(2) Cons.prems(3) same by (metis disjoint_iff list.set_intros(2))
    then show ?thesis using Cons.prems(4) l1(2) by (simp add: in_file_def)
  qed
  have dis: "set ps \<inter> set (buffered ?s2 @ ?cl @ [p]) = {}" "distinct ps"
    using Cons.prems(2,3) b1 by auto
  from Cons.IH [OF ok2 dis(2) _ psi, of False] dis(1) obtain b' st' mem' s' where
    IH: "capping_loop False opn path False (?cl @ [p]) ps b1 st1 ?mem2 ?s2 = Some (b', st', mem', s', True)"
    "cap_ok fp dat D rep opn m n b' st' mem' s'" "later b1 st1 b' st'" "length (cells mem') = length (cells ?mem2)"
    "\<forall>q\<in>set (buffered ?s2 @ (?cl @ [p]) @ ps). fate st' ?mem2 mem' s' q" "set (buffered s') \<subseteq> set (buffered ?s2 @ (?cl @ [p]) @ ps)"
    "\<forall>q. q \<notin> set (buffered ?s2 @ (?cl @ [p]) @ ps) \<longrightarrow> cells mem' ! q = cells ?mem2 ! q \<and> (q \<in> locked mem' \<longleftrightarrow> q \<in> locked ?mem2)"
    by auto
  let ?old = "buffered s @ cl" and ?mid = "buffered ?s2 @ (?cl @ [p]) @ ps"
  have mid: "q \<in> set ?mid \<longleftrightarrow> q \<in> set (buffered s1 @ ?cl) \<or> q = p \<or> q \<in> set ps" for q by auto
  have new: "q \<in> set (buffered s @ cl @ p # ps) \<longleftrightarrow> q \<in> set ?old \<or> q = p \<or> q \<in> set ps" for q by auto
  have run: "capping_loop False opn path first cl (p # ps) b st mem s = Some (b', st', mem', s', True)"
    using R M(1) IH(1) unfolding with_list_def by (cases ?full) simp_all
  have fates: "fate st' mem mem' s' q" if q: "q \<in> set (buffered s @ cl @ p # ps)" for q
  proof (cases "q \<in> set ?mid")
    case True
    have f: "fate st' ?mem2 mem' s' q" using IH(5) True by blast
    show ?thesis
    proof (cases "q = p")
      case True
      with f fits(1) M(4-6) show ?thesis by (intro fate_same [OF f]) simp_all
    next
      case False
      then have "cells mem1 ! q = cells mem ! q"
        using f1(2) True mid [of q] dis(1) Cons.prems(3) by (metis disjoint_iff list.set_intros(2))
      then show ?thesis using same [OF False] by (intro fate_same [OF f]) simp_all
    qed
  next
    case False
    then have n: "q \<notin> set (buffered s1 @ ?cl)" "q \<noteq> p" "q \<in> set ?old" using mid [of q] new [of q] q by blast+
    have "placed st1 (cells mem ! q) (cells mem1 ! q)" "q \<notin> locked mem1" using f1(1) n(1,3) by blast+
    moreover have "cells mem' ! q = cells mem1 ! q" "q \<in> locked mem' \<longleftrightarrow> q \<in> locked mem1"
      using IH(7) False n(2) same [OF n(2)] by simp_all
    moreover have "q \<notin> set (buffered s')" using IH(6) False by blast
    ultimately show ?thesis using later_placed [OF IH(3)] by (simp add: fate_def)
  qed
  have others: "cells mem' ! q = cells mem ! q \<and> (q \<in> locked mem' \<longleftrightarrow> q \<in> locked mem)"
    if q: "q \<notin> set (buffered s @ cl @ p # ps)" for q
  proof -
    have n: "q \<notin> set ?old" "q \<noteq> p" "q \<notin> set ?mid" using q new [of q] mid [of q] b1 by blast+
    then have "cells mem' ! q = cells mem1 ! q" "q \<in> locked mem' \<longleftrightarrow> q \<in> locked mem1"
      using IH(7) same [OF n(2)] by simp_all
    moreover have "cells mem1 ! q = cells mem ! q" "q \<in> locked mem1 \<longleftrightarrow> q \<in> locked mem" using f1(2) n(1) by blast+
    ultimately show ?thesis by simp
  qed
  have "set (buffered s') \<subseteq> set (buffered s @ cl @ p # ps)" using IH(6) mid new b1 by blast
  moreover have "length (cells mem') = length (cells mem)" using IH(4) l1(2) by simp
  ultimately show ?case using run IH(2) later_trans [OF l1(1) IH(3)] fates others by blast
qed

lemma rewrite_length:
  assumes "rewrite simulate opn b st mem s = Some (b', st', mem', s', ok)"
  shows "cp_length s' = cp_length s \<and> cp_capacity s' = cp_capacity s \<and> map chunklen (cells mem') = map chunklen (cells mem)"
proof -
  have "\<forall>fd fc b st fd' fc' b' st' ok. capping_chunk simulate segs fd fc b st = Some (fd', fc', b', st', ok) \<longrightarrow>
      chunklen fc' = chunklen fc" for segs
    by (auto simp: capping_chunk_def dest!: place_new_len write_again_len split: if_splits option.splits)
  note F = rw_files_lens [OF _ this]
  show ?thesis
    using assms F by (auto simp: rewrite_def Let_def split: option.splits prod.splits if_splits)
qed

lemma mark_chunk_length:
  assumes "mark_chunk b p mem s = (mem', s')"
  shows "cp_length s' = cp_length s \<and> cp_capacity s' = cp_capacity s \<and> map chunklen (cells mem') = map chunklen (cells mem)"
proof -
  have "map chunklen ((cells mem)[p := fc]) = map chunklen (cells mem)" if "chunklen fc = chunklen (cells mem ! p)" for fc
    using that by (cases "p < length (cells mem)") (simp_all add: map_update list_update_same_conv list_update_beyond)
  with assms show ?thesis by (auto simp: mark_chunk_def Let_def split: option.splits)
qed

text \<open>\<open>buffer_length\<close> stays between 0 and the larger of the capacity and one chunk, so the \<open>int\<close> of
  the code does not overflow for a buffer below 2 gigabytes.\<close>

lemma buffer_length_bound:
  assumes "capping_loop simulate opn path first cl ps b st mem s = Some (b', st', mem', s', ok)"
    and "\<forall>p\<in>set ps. p < length (cells mem)" "\<forall>c\<in>set (map chunklen (cells mem)). 0 \<le> c \<and> c \<le> L"
    and "0 \<le> cp_length s" "cp_length s \<le> max (cp_capacity s) L"
  shows "0 \<le> cp_length s' \<and> cp_length s' \<le> max (cp_capacity s) L \<and> cp_capacity s' = cp_capacity s"
  using assms
proof (induction ps arbitrary: first cl b st mem s)
  case (Cons p ps)
  let ?full = "chunklen (cells mem ! p) + cp_length s > cp_capacity s"
  let ?s0 = "if first then s else s\<lparr>cp_buffer := cp_buffer s @ [(path, cl)]\<rparr>"
  obtain b1 st1 mem1 s1 ok1 where R: "(if ?full then rewrite simulate opn b st mem ?s0 else Some (b, st, mem, s, True)) = Some (b1, st1, mem1, s1, ok1)"
    using Cons.prems(1) by (auto simp: Let_def split: option.splits if_splits)
  have l1: "cp_length s1 = cp_length s" "cp_capacity s1 = cp_capacity s" "map chunklen (cells mem1) = map chunklen (cells mem)"
    using R rewrite_length [of simulate opn b st mem ?s0] by (auto split: if_splits)
  show ?case
  proof (cases ok1)
    case False
    then show ?thesis using Cons.prems(1,4,5) R l1 by (auto simp: Let_def split: if_splits)
  next
    case True
    let ?k = "(if ?full then 0 else cp_length s1) + chunklen (cells mem1 ! p)"
    obtain mem2 s2 where M: "mark_chunk b1 p mem1 (s1\<lparr>cp_length := ?k\<rparr>) = (mem2, s2)" by fastforce
    note m = mark_chunk_length [OF M]
    have run: "capping_loop simulate opn path False (if ?full then [p] else cl @ [p]) ps b1 st1 mem2 s2 = Some (b', st', mem', s', ok)"
      using Cons.prems(1) R M True by (cases ?full) (auto simp: Let_def)
    have "p < length (cells mem)" using Cons.prems(2) by simp
    then have c: "chunklen (cells mem1 ! p) = chunklen (cells mem ! p)" "0 \<le> chunklen (cells mem ! p)" "chunklen (cells mem ! p) \<le> L"
      using l1(3) Cons.prems(3) by (metis length_map nth_map, auto)
    have k: "0 \<le> cp_length s2" "cp_length s2 \<le> max (cp_capacity s2) L" "cp_capacity s2 = cp_capacity s"
      using m c l1 Cons.prems(4) by auto
    have "length (cells mem2) = length (cells mem)" using m l1(3) by (metis length_map)
    then show ?thesis using Cons.IH [OF run] Cons.prems(2,3) k m l1(3) by simp
  qed
qed auto

definition demo_capping :: capping where
  "demo_capping = \<lparr>cp_capacity = 1000000, cp_max = 1, cp_length = 0, cp_buffer = [], cp_segments = htable_of_pwr 64 3\<rparr>"

abbreviation (input) demo_open :: "byte list \<Rightarrow> fdesc option" where
  "demo_open \<equiv> \<lambda>_. readable [1, 2, 3]"

lemma demo_cap_ok:
  assumes "world_ok demo_fp UNIV (memset0 20) 5 5 b demo_store"
  shows "cap_ok demo_fp (\<lambda>_. [1, 2, 3]) UNIV (memset0 20) demo_open 5 5 b demo_store demo_mem demo_capping"
  using assms by (simp add: cap_ok_def demo_capping_def buffered_def ht.clean_def)

lemma demo_in_file: "in_file demo_fp (\<lambda>_. [1, 2, 3]) UNIV demo_open demo_mem (path, [0])"
  using demo_mem_fits by (simp add: in_file_def)

text \<open>C25: a file that enters the buffer succeeds and keeps the state consistent; every chunk of the
  buffer and of the file is afterwards either still in the buffer, or has a good address and is
  unlocked, and no other chunk is touched.\<close>

theorem capping_file_placed:
  assumes "cap_ok fp dat D rep opn (length ps + m) (length ps + n) b st mem s"
    and "distinct ps" "set ps \<inter> set (buffered s) = {}" "in_file fp dat D opn mem (file_path fi, ps)"
  shows "\<exists>b' st' mem' s'. capping_file False opn fi ps b st mem s = Some (b', st', mem', s', True) \<and>
    cap_ok fp dat D rep opn m n b' st' mem' s' \<and> (\<forall>p\<in>set (buffered s @ ps). fate st' mem mem' s' p) \<and>
    (\<forall>p. p \<notin> set (buffered s @ ps) \<longrightarrow> cells mem' ! p = cells mem ! p \<and> (p \<in> locked mem' \<longleftrightarrow> p \<in> locked mem))"
proof -
  have "in_file fp dat D opn mem (file_path fi, [])" using assms(4) by (simp add: in_file_def)
  then have "cap_ok fp dat D rep opn (length ps + m) (length ps + n) b st mem (with_list (file_path fi) [] s)"
    using assms(1) by (auto simp: cap_ok_def with_list_def buffered_def marked_def)
  moreover have "set ps \<inter> set (buffered s @ []) = {}" using assms(3) by simp
  ultimately obtain b' st' mem' s' where
    R: "capping_loop False opn (file_path fi) True [] ps b st mem s = Some (b', st', mem', s', True)"
    "cap_ok fp dat D rep opn m n b' st' mem' s'" "\<forall>p\<in>set (buffered s @ [] @ ps). fate st' mem mem' s' p"
    "\<forall>p. p \<notin> set (buffered s @ [] @ ps) \<longrightarrow> cells mem' ! p = cells mem ! p \<and> (p \<in> locked mem' \<longleftrightarrow> p \<in> locked mem)"
    using capping_loop_spec [OF _ assms(2) _ assms(4)] by blast
  then show ?thesis unfolding capping_file_def append_Nil by blast
qed

lemma capping_file_placed_witness:
  "\<exists>b b' st' mem' s'. capping_file False demo_open file_new [0] b demo_store demo_mem demo_capping = Some (b', st', mem', s', True) \<and>
     fate st' demo_mem mem' s' 0"
proof -
  obtain b where "world_ok demo_fp UNIV (memset0 20) 5 5 b demo_store" using demo_world_loaded by blast
  from demo_cap_ok [OF this] have ok: "cap_ok demo_fp (\<lambda>_. [1, 2, 3]) UNIV (memset0 20) demo_open (length [0 :: nat] + 4)
      (length [0 :: nat] + 4) b demo_store demo_mem demo_capping" by simp
  have "distinct [0 :: nat]" "set [0] \<inter> set (buffered demo_capping) = {}" by (simp_all add: buffered_def demo_capping_def)
  from capping_file_placed [OF ok this demo_in_file, of file_new] obtain b' st' mem' s' where
    "capping_file False demo_open file_new [0] b demo_store demo_mem demo_capping = Some (b', st', mem', s', True)"
    "\<forall>p\<in>set (buffered demo_capping @ [0]). fate st' demo_mem mem' s' p" by blast
  moreover from this(2) have "fate st' demo_mem mem' s' 0" by simp
  ultimately show ?thesis by blast
qed

text \<open>The end of the stream settles everything: the buffer is empty, every chunk that was in it has
  a good address and is unlocked, nothing stored is lost, and the bin is back in the index.\<close>

lemma capping_end_placed:
  assumes "cap_ok fp dat D rep opn m n b st mem s" "chunknum fi = STREAM_END" "rep_finger fi = rep"
    and "exbin_ok ex" "htable_lookup (bin_cache ex) rep = Some b"
  shows "\<exists>ex' st' mem' s' b'. capping_process False opn fi ps bin ex st mem s = Some (ex', st', mem', s', True) \<and>
    buffered s' = [] \<and> (\<forall>p\<in>set (buffered s). placed st' (cells mem ! p) (cells mem' ! p) \<and> p \<notin> locked mem') \<and>
    (\<forall>a h d. has st a h d \<longrightarrow> has st' a h d) \<and> world_ok fp D rep m n b' st' \<and> ex' = put_bin b' ex"
proof -
  have L: "LoadBin ex (fi\<lparr>file_hash := memset0 20\<rparr>) = Some (ex, b)" using assms(3,5) by (simp add: LoadBin_def)
  from rewrite_placed [OF assms(1)] obtain b' st' mem' t where
    R: "rewrite False opn b st mem s = Some (b', st', mem', s\<lparr>cp_buffer := [], cp_segments := t\<rparr>, True)"
    "world_ok fp D rep m n b' st'" "later b st b' st'"
    "\<forall>p\<in>set (buffered s). placed st' (cells mem ! p) (cells mem' ! p)" "locked mem' = locked mem - set (buffered s)"
    by blast
  have "capping_process False opn fi ps bin ex st mem s =
      Some (put_bin b' ex, st', mem', s\<lparr>cp_buffer := [], cp_segments := t\<rparr>, True)"
    using R(1) L assms(2) by (simp add: capping_process_def capping_end_def)
  with R(2-5) show ?thesis by (auto simp: later_def buffered_def)
qed

lemma capping_bound_witness:
  "\<exists>b b' st' mem' s'. rewrite False demo_open b demo_store demo_mem (demo_capping\<lparr>cp_buffer := [([], [0])]\<rparr>) =
      Some (b', st', mem', s', True) \<and>
    card {fc_address (cells mem' ! p) |p. p \<in> set [0] \<and> fc_is_new (cells demo_mem ! p) = DEDUP_CHUNK \<and>
      fc_is_new (cells mem' ! p) = DEDUP_CHUNK} \<le> 1"
proof -
  let ?s = "demo_capping\<lparr>cp_buffer := [([], [0])]\<rparr>"
  obtain b where w: "world_ok demo_fp UNIV (memset0 20) 5 5 b demo_store" using demo_world_loaded by blast
  have "marked b demo_store demo_mem ([], [0])" by (simp add: marked_def ready_def demo_mem_fits(3))
  with w demo_in_file have "cap_ok demo_fp (\<lambda>_. [1, 2, 3]) UNIV (memset0 20) demo_open 4 4 b demo_store demo_mem ?s"
    by (simp add: cap_ok_def demo_capping_def buffered_def ht.clean_def)
  from rewrite_placed [OF this] obtain b' st' mem' s' where
    R: "rewrite False demo_open b demo_store demo_mem ?s = Some (b', st', mem', s', True)" by blast
  have "length (fc_address (cells demo_mem ! 0)) = 64"
    by (simp add: demo_mem_def new_chunk_def fingerchunk_new_def)
  with capping_bound [OF R] have "int (card {fc_address (cells mem' ! p) |p. p \<in> set (buffered ?s) \<and>
      fc_is_new (cells demo_mem ! p) = DEDUP_CHUNK \<and> fc_is_new (cells mem' ! p) = DEDUP_CHUNK}) \<le> 1"
    by (simp add: demo_capping_def buffered_def ht.clean_def demo_mem_fits(4))
  then have "int (card {fc_address (cells mem' ! p) |p. p \<in> set [0] \<and>
      fc_is_new (cells demo_mem ! p) = DEDUP_CHUNK \<and> fc_is_new (cells mem' ! p) = DEDUP_CHUNK}) \<le> 1"
    unfolding buffered_def by simp
  then have "card {fc_address (cells mem' ! p) |p. p \<in> set [0] \<and> fc_is_new (cells demo_mem ! p) = DEDUP_CHUNK \<and>
      fc_is_new (cells mem' ! p) = DEDUP_CHUNK} \<le> 1" by linarith
  with R show ?thesis by blast
qed

end
