(* ===== verification/Perfect.thy ===== *)
theory Perfect
  imports Rewrite
begin

text \<open>
  Perfect rewriting (client/src/perfect_rewrite.c): the whole stream is marked first, counting for
  every container the bytes that duplicates refer to; at its end every file is passed again, and
  a duplicate in a container that is used too little is stored again. \<open>low n\<close> is the outcome of
  the comparison \<open>((float)n) / DEFAULT_CONTAINER_SIZE < segment_usage_threshold\<close>. The counts are
  32-bit integers. The timers and the log that \<open>if (0)\<close> guards are left out.
\<close>

section \<open>The code\<close>

record perfect =
  dedup_buf :: "(fileinfo \<times> nat list) list"
  pr_segments :: "int htable"

definition perfect_rewrite_init :: "perfect option" where
  "perfect_rewrite_init = map_option (\<lambda>t. \<lparr>dedup_buf = [], pr_segments = t\<rparr>) (htable_init CHUNK_ADDRESS_LENGTH 200)"

definition count_segment :: "chunkaddress \<Rightarrow> int \<Rightarrow> int htable \<Rightarrow> int htable" where
  "count_segment a len segs =
     (case htable_lookup segs a of
        Some _ \<Rightarrow> htable_update a (\<lambda>n. signed_take_bit 31 (n + len)) segs
      | None \<Rightarrow> htable_insert a len segs)"

text \<open>The first pass over the chunks of a file; a new chunk in a duplicate file is an error.\<close>

fun perfect_mark :: "fileinfo \<Rightarrow> nat list \<Rightarrow> bin \<Rightarrow> cmem \<Rightarrow> int htable \<Rightarrow> cmem \<times> int htable \<times> bool" where
  "perfect_mark fi [] b mem segs = (mem, segs, True)"
| "perfect_mark fi (p # ps) b mem segs =
     (let fc = cells mem ! p; mem = mem\<lparr>locked := insert p (locked mem)\<rparr> in
      case htable_lookup (b_fingers b) (chunk_hash fc) of
        None \<Rightarrow>
          let mem = mem\<lparr>cells := (cells mem)[p := fc\<lparr>fc_is_new := NEW_CHUNK\<rparr>]\<rparr>
          in if fi_is_new fi = DEDUP_FILE then (mem, segs, False) else perfect_mark fi ps b mem segs
      | Some a \<Rightarrow>
          perfect_mark fi ps b (mem\<lparr>cells := (cells mem)[p := fc\<lparr>fc_is_new := DEDUP_CHUNK, fc_address := a\<rparr>]\<rparr>)
            (count_segment a (chunklen fc) segs))"

definition perfect_chunk :: "bool \<Rightarrow> (int \<Rightarrow> bool) \<Rightarrow> int htable \<Rightarrow> step_fun" where
  "perfect_chunk simulate low segs fd fc b st =
     (if fc_is_new fc = NEW_CHUNK then place_new simulate fd fc b st
      else if fc_is_new fc = DEDUP_CHUNK then
        (case htable_lookup segs (fc_address fc) of
           None \<Rightarrow> Some (fd, fc, b, st, False)
         | Some n \<Rightarrow> if low n then write_again True simulate fd fc b st else Some (fd, fc, b, st, True))
      else Some (fd, fc, b, st, True))"

text \<open>\<open>fc != NULL && i != chunknum\<close>\<close>

definition counted :: "fileinfo \<Rightarrow> nat list \<Rightarrow> nat list" where
  "counted fi ps = (if chunknum fi < 0 then ps else take (nat (chunknum fi)) ps)"

fun perfect_files :: "bool \<Rightarrow> (int \<Rightarrow> bool) \<Rightarrow> int htable \<Rightarrow> (byte list \<Rightarrow> fdesc option) \<Rightarrow> (fileinfo \<times> nat list) list
    \<Rightarrow> exbin \<Rightarrow> store \<Rightarrow> cmem \<Rightarrow> (exbin \<times> store \<times> cmem \<times> (fileinfo \<times> nat list) list \<times> bool) option" where
  "perfect_files simulate low segs opn [] ex st mem = Some (ex, st, mem, [], True)"
| "perfect_files simulate low segs opn ((fi, ps) # fs) ex st mem =
     (case LoadBin ex fi of
        None \<Rightarrow> None
      | Some (ex, b) \<Rightarrow>
          if \<not> simulate \<and> opn (file_path fi) = None then Some (ex, st, mem, fs, False)
          else (case rw_chunks (perfect_chunk simulate low segs) (opn (file_path fi)) (counted fi ps) b st mem of
              None \<Rightarrow> None
            | Some (b, st, mem, ok) \<Rightarrow>
                if ok then perfect_files simulate low segs opn fs (put_bin b ex) st mem
                else Some (put_bin b ex, st, mem, fs, False)))"

definition perfect_rewrite_process :: "bool \<Rightarrow> (int \<Rightarrow> bool) \<Rightarrow> (byte list \<Rightarrow> fdesc option) \<Rightarrow> fileinfo \<Rightarrow> nat list
    \<Rightarrow> bin \<Rightarrow> exbin \<Rightarrow> store \<Rightarrow> cmem \<Rightarrow> perfect \<Rightarrow> (exbin \<times> store \<times> cmem \<times> perfect \<times> bool) option" where
  "perfect_rewrite_process simulate low opn fi ps b ex st mem s =
     (let (mem, segs, ok) = perfect_mark fi ps b mem (pr_segments s); s = s\<lparr>pr_segments := segs\<rparr> in
      if \<not> ok then Some (ex, st, mem, s, False)
      else if chunknum fi \<noteq> STREAM_END then Some (ex, st, mem, s\<lparr>dedup_buf := dedup_buf s @ [(fi, ps)]\<rparr>, True)
      else map_option (\<lambda>(ex, st, mem, rest, ok). (ex, st, mem, s\<lparr>dedup_buf := rest\<rparr>, ok))
        (perfect_files simulate low segs opn (dedup_buf s) ex st mem))"

section \<open>The second pass settles every chunk\<close>

text \<open>A duplicate must have been counted.\<close>

definition counted_chunk :: "int htable \<Rightarrow> fingerchunk \<Rightarrow> bool" where
  "counted_chunk segs fc \<longleftrightarrow> fc_is_new fc = DEDUP_CHUNK \<longrightarrow> htable_lookup segs (fc_address fc) \<noteq> None"

interpretation perf: placing_step "perfect_chunk False low segs" "counted_chunk segs" for low segs
proof unfold_locales
  fix fp data fc D rep m n b st
  assume fc: "chunk_fits fp data (fc_offset fc) fc" and D: "\<forall>i k. pread data i k \<in> D"
    and w: "world_ok fp D rep (Suc m) (Suc n) b st" and r: "ready b st fc" and c: "counted_chunk segs fc"
  have w1: "world_ok fp D rep m (Suc n) b st" "world_ok fp D rep m n b st"
    using w by (auto simp: world_ok_def bin_room_def store_room_def)
  show "\<exists>fc' b' st'. perfect_chunk False low segs (readable data) fc b st = Some (readable data, fc', b', st', True) \<and>
      world_ok fp D rep m n b' st' \<and> later b st b' st' \<and> placed st' fc fc'"
  proof (cases "fc_is_new fc = NEW_CHUNK")
    case True
    with place_new_ok [OF fc D w] show ?thesis by (simp add: perfect_chunk_def)
  next
    case False
    with r have d: "fc_is_new fc = DEDUP_CHUNK" "entries b (chunk_hash fc) \<noteq> None" "placed st fc fc" by (auto simp: ready_def)
    then obtain k where k: "htable_lookup segs (fc_address fc) = Some k" using c by (auto simp: counted_chunk_def)
    show ?thesis
    proof (cases "low k")
      case True
      with d k write_again_ok [OF fc D w1(1) d(2), of True] show ?thesis by (simp add: perfect_chunk_def)
    next
      case False
      with d k w1(2) show ?thesis by (simp add: perfect_chunk_def later_refl)
    qed
  qed
qed

definition chunk_lists :: "(fileinfo \<times> nat list) list \<Rightarrow> (byte list \<times> nat list) list" where
  "chunk_lists fs = map (\<lambda>(fi, ps). (file_path fi, counted fi ps)) fs"

lemma lookup_put_bin:
  assumes "ht_inv 20 (bin_cache ex)" "htable_lookup (bin_cache ex) rep = Some b0" "b_rep_finger b = rep" "length rep = 20"
  shows "ht_inv 20 (bin_cache (put_bin b ex))" "htable_lookup (bin_cache (put_bin b ex)) rep = Some b"
  using assms htable_lookup_update [OF assms(1), of rep rep "\<lambda>_. b"] ht_inv_update [OF assms(1)]
  by (simp_all add: put_bin_def)

lemma step_rep:
  "perfect_chunk simulate low segs fd fc b st = Some (fd', fc', b', st', ok) \<Longrightarrow> b_rep_finger b' = b_rep_finger b"
  by (auto simp: perfect_chunk_def place_new_def write_again_def Let_def split: option.splits prod.splits if_splits)

lemma rw_chunks_rep:
  "rw_chunks (perfect_chunk simulate low segs) fd ps b st mem = Some (b', st', mem', ok) \<Longrightarrow> b_rep_finger b' = b_rep_finger b"
proof (induction ps arbitrary: fd b st mem)
  case (Cons p ps)
  then obtain fd1 fc1 b1 st1 ok1 where S: "perfect_chunk simulate low segs fd (cells mem ! p) b st = Some (fd1, fc1, b1, st1, ok1)"
    by (auto split: option.splits)
  show ?case using Cons S step_rep [OF S] by (cases ok1) (fastforce simp: Let_def)+
qed simp

text \<open>With the bin of the stream in the cache the pass is the pass over the chunk lists.\<close>

lemma perfect_files_eq:
  assumes "rw_files (perfect_chunk False low segs) opn (chunk_lists fs) b st mem = Some (b', st', mem', [], True)"
    and "\<forall>(fi, ps)\<in>set fs. rep_finger fi = rep \<and> opn (file_path fi) \<noteq> None"
    and "ht_inv 20 (bin_cache ex)" "htable_lookup (bin_cache ex) rep = Some b" "b_rep_finger b = rep" "length rep = 20"
  shows "\<exists>ex'. perfect_files False low segs opn fs ex st mem = Some (ex', st', mem', [], True) \<and>
    htable_lookup (bin_cache ex') rep = Some b'"
  using assms
proof (induction fs arbitrary: b st mem ex)
  case Nil
  then show ?case by (simp add: chunk_lists_def)
next
  case (Cons f fs)
  obtain fi ps where f: "f = (fi, ps)" by (cases f)
  obtain b1 st1 mem1 where R: "rw_chunks (perfect_chunk False low segs) (opn (file_path fi)) (counted fi ps) b st mem = Some (b1, st1, mem1, True)"
    "rw_files (perfect_chunk False low segs) opn (chunk_lists fs) b1 st1 mem1 = Some (b', st', mem', [], True)"
    using Cons.prems(1) f by (auto simp: chunk_lists_def split: option.splits prod.splits if_splits)
  have r1: "b_rep_finger b1 = rep" using rw_chunks_rep [OF R(1)] Cons.prems(5) by simp
  note P = lookup_put_bin [OF Cons.prems(3,4) r1 Cons.prems(6)]
  have "LoadBin ex fi = Some (ex, b)" using Cons.prems(2,4) f by (simp add: LoadBin_def)
  then have "perfect_files False low segs opn (f # fs) ex st mem = perfect_files False low segs opn fs (put_bin b1 ex) st1 mem1"
    using R(1) Cons.prems(2) f by auto
  with Cons.IH [OF R(2) _ P r1 Cons.prems(6)] Cons.prems(2) show ?case by auto
qed

text \<open>C27: the end of the stream settles every chunk of every file in the buffer: good address, same
  hash, length and offset, unlocked; and what was stored before is still there.\<close>

theorem perfect_end_placed:
  assumes "chunknum fi = STREAM_END" "world_ok fp D rep (length (concat (map snd (chunk_lists (dedup_buf s)))) + m)
      (length (concat (map snd (chunk_lists (dedup_buf s)))) + n) b st"
    and "distinct (concat (map snd (chunk_lists (dedup_buf s))))"
    and "\<forall>(path, ps)\<in>set (chunk_lists (dedup_buf s)). opn path = readable (dat path) \<and> (\<forall>i k. pread (dat path) i k \<in> D) \<and>
      (\<forall>p\<in>set ps. p < length (cells mem) \<and> chunk_fits fp (dat path) (fc_offset (cells mem ! p)) (cells mem ! p) \<and>
        ready b st (cells mem ! p) \<and> counted_chunk (pr_segments s) (cells mem ! p))"
    and "\<forall>(f, ps)\<in>set (dedup_buf s). rep_finger f = rep"
    and "ht_inv 20 (bin_cache ex)" "htable_lookup (bin_cache ex) rep = Some b"
  shows "\<exists>ex' st' mem' s' b'. perfect_rewrite_process False low opn fi [] b0 ex st mem s = Some (ex', st', mem', s', True) \<and>
    dedup_buf s' = [] \<and> (\<forall>p\<in>set (concat (map snd (chunk_lists (dedup_buf s)))).
      placed st' (cells mem ! p) (cells mem' ! p) \<and> p \<notin> locked mem') \<and>
    (\<forall>a h d. has st a h d \<longrightarrow> has st' a h d) \<and> world_ok fp D rep m n b' st' \<and> htable_lookup (bin_cache ex') rep = Some b'"
proof -
  from perf.files_placed [OF assms(3,4,2), of low] obtain b' st' mem' where
    R: "rw_files (perfect_chunk False low (pr_segments s)) opn (chunk_lists (dedup_buf s)) b st mem = Some (b', st', mem', [], True)"
    "world_ok fp D rep m n b' st'" "later b st b' st'"
    "\<forall>p\<in>set (concat (map snd (chunk_lists (dedup_buf s)))). placed st' (cells mem ! p) (cells mem' ! p)"
    "locked mem' = locked mem - set (concat (map snd (chunk_lists (dedup_buf s))))"
    by blast
  have rep: "b_rep_finger b = rep" "length rep = 20" using assms(2) by (auto simp: world_ok_def bin_room_def bin_ok_def)
  have o: "\<forall>(f, ps)\<in>set (dedup_buf s). rep_finger f = rep \<and> opn (file_path f) \<noteq> None"
    using assms(4,5) by (fastforce simp: chunk_lists_def)
  from perfect_files_eq [OF R(1) o assms(6,7) rep] obtain ex' where
    F: "perfect_files False low (pr_segments s) opn (dedup_buf s) ex st mem = Some (ex', st', mem', [], True)"
    "htable_lookup (bin_cache ex') rep = Some b'" by blast
  have "perfect_rewrite_process False low opn fi [] b0 ex st mem s = Some (ex', st', mem', s\<lparr>dedup_buf := []\<rparr>, True)"
    using F(1) assms(1) by (simp add: perfect_rewrite_process_def)
  with R(2-5) F(2) show ?thesis by (auto simp: later_def)
qed

lemma perfect_end_placed_witness:
  "\<exists>ex b ex' st' mem' s'. perfect_rewrite_process False (\<lambda>n. n < 1000) (\<lambda>_. readable [1, 2, 3])
      (file_new\<lparr>chunknum := STREAM_END\<rparr>) [] b ex demo_store demo_mem
      \<lparr>dedup_buf = [(file_new\<lparr>chunknum := 1\<rparr>, [0])], pr_segments = htable_of_pwr 64 3\<rparr> = Some (ex', st', mem', s', True) \<and>
    placed st' (cells demo_mem ! 0) (cells mem' ! 0)"
proof -
  let ?s = "\<lparr>dedup_buf = [(file_new\<lparr>chunknum := 1\<rparr>, [0])], pr_segments = htable_of_pwr 64 3\<rparr> :: perfect"
  obtain ex b where w: "exbin_ok ex" "htable_lookup (bin_cache ex) (memset0 20) = Some b"
    "world_ok demo_fp UNIV (memset0 20) 5 5 b demo_store" using demo_world_loaded by blast
  have l: "chunk_lists (dedup_buf ?s) = [(file_path file_new, [0])]" by (simp add: chunk_lists_def counted_def)
  have c: "ht_inv 20 (bin_cache ex)" using exbin_okD(3) [OF w(1)] htable_cleanD(1) by blast
  have e: "chunknum (file_new\<lparr>chunknum := STREAM_END\<rparr>) = STREAM_END" by simp
  have W: "world_ok demo_fp UNIV (memset0 20) (length (concat (map snd (chunk_lists (dedup_buf ?s)))) + 4)
      (length (concat (map snd (chunk_lists (dedup_buf ?s)))) + 4) b demo_store"
    unfolding l using w(3) by simp
  have f: "\<forall>(path, ps)\<in>set (chunk_lists (dedup_buf ?s)). readable [1, 2, 3] = readable ((\<lambda>_. [1, 2, 3]) path) \<and>
      (\<forall>i k. pread ((\<lambda>_. [1, 2, 3]) path) i k \<in> UNIV) \<and>
      (\<forall>p\<in>set ps. p < length (cells demo_mem) \<and> chunk_fits demo_fp ((\<lambda>_. [1, 2, 3]) path) (fc_offset (cells demo_mem ! p)) (cells demo_mem ! p) \<and>
        ready b demo_store (cells demo_mem ! p) \<and> counted_chunk (pr_segments ?s) (cells demo_mem ! p))"
    unfolding l using demo_mem_fits by (simp add: ready_def counted_chunk_def)
  have d: "distinct (concat (map snd (chunk_lists (dedup_buf ?s))))" "\<forall>(f, ps)\<in>set (dedup_buf ?s). rep_finger f = memset0 20"
    unfolding l by (simp_all add: file_new_def)
  from perfect_end_placed [OF e W d(1) f d(2) c w(2), of "\<lambda>n. n < 1000" b] show ?thesis unfolding l by simp blast
qed

text \<open>Which chunks are stored again.\<close>

lemma perfect_files_cells:
  assumes "perfect_files simulate low segs opn fs ex st mem = Some (ex', st', mem', rest, True)"
    "distinct (concat (map snd (chunk_lists fs)))" "\<forall>p\<in>set (concat (map snd (chunk_lists fs))). p < length (cells mem)"
    and R: "\<forall>fd fc b st fd' fc' b' st'. perfect_chunk simulate low segs fd fc b st = Some (fd', fc', b', st', True) \<longrightarrow> R fc fc'"
  shows "(\<forall>p\<in>set (concat (map snd (chunk_lists fs))). R (cells mem ! p) (cells mem' ! p)) \<and>
    (\<forall>p. p \<notin> set (concat (map snd (chunk_lists fs))) \<longrightarrow> cells mem' ! p = cells mem ! p)"
  using assms(1-3)
proof (induction fs arbitrary: ex st mem)
  case Nil
  then show ?case by (simp add: chunk_lists_def)
next
  case (Cons f fs)
  obtain fi ps where f: "f = (fi, ps)" by (cases f)
  let ?ps = "counted fi ps" and ?qs = "concat (map snd (chunk_lists fs))"
  obtain ex1 b where L: "LoadBin ex fi = Some (ex1, b)" using Cons.prems(1) f by (auto split: option.splits)
  then obtain b1 st1 mem1 where S: "rw_chunks (perfect_chunk simulate low segs) (opn (file_path fi)) ?ps b st mem = Some (b1, st1, mem1, True)"
    "perfect_files simulate low segs opn fs (put_bin b1 ex1) st1 mem1 = Some (ex', st', mem', rest, True)"
    using Cons.prems(1) f by (auto split: option.splits prod.splits if_splits)
  have d: "distinct ?ps" "distinct ?qs" "set ?ps \<inter> set ?qs = {}" "\<forall>p\<in>set ?ps. p < length (cells mem)"
    "\<forall>p\<in>set ?qs. p < length (cells mem)" "set (concat (map snd (chunk_lists (f # fs)))) = set ?ps \<union> set ?qs"
    using Cons.prems(2,3) f by (auto simp: chunk_lists_def)
  have C: "\<forall>p\<in>set ?ps. R (cells mem ! p) (cells mem1 ! p)" "\<forall>p. p \<notin> set ?ps \<longrightarrow> cells mem1 ! p = cells mem ! p"
    "length (cells mem1) = length (cells mem)"
    using rw_chunks_cells [OF S(1) d(1,4) R] by blast+
  have IH: "\<forall>p\<in>set ?qs. R (cells mem1 ! p) (cells mem' ! p)" "\<forall>p. p \<notin> set ?qs \<longrightarrow> cells mem' ! p = cells mem1 ! p"
    using Cons.IH [OF S(2) d(2)] d(5) C(3) by simp_all
  show ?case unfolding d(6) using C(1,2) IH d(3) by (metis Un_iff disjoint_iff)
qed

text \<open>The threshold decides: when the second pass succeeds, a duplicate is stored again (and marked
  new) exactly when its container is used too little; otherwise the chunk is left as it was.\<close>

lemma perfect_threshold:
  assumes "perfect_files simulate low segs opn fs ex st mem = Some (ex', st', mem', rest, True)"
    and "distinct (concat (map snd (chunk_lists fs)))" "p \<in> set (concat (map snd (chunk_lists fs)))"
    and "\<forall>p\<in>set (concat (map snd (chunk_lists fs))). p < length (cells mem)" "fc_is_new (cells mem ! p) = DEDUP_CHUNK"
  shows "\<exists>n. htable_lookup segs (fc_address (cells mem ! p)) = Some n \<and>
    (if low n then fc_is_new (cells mem' ! p) = NEW_CHUNK else cells mem' ! p = cells mem ! p)"
proof -
  let ?R = "\<lambda>fc fc'. fc_is_new fc = DEDUP_CHUNK \<longrightarrow> (\<exists>n. htable_lookup segs (fc_address fc) = Some n \<and>
    (if low n then fc_is_new fc' = NEW_CHUNK else fc' = fc))"
  have "\<forall>fd fc b st fd' fc' b' st'. perfect_chunk simulate low segs fd fc b st = Some (fd', fc', b', st', True) \<longrightarrow> ?R fc fc'"
    by (auto simp: perfect_chunk_def write_again_def Let_def split: option.splits prod.splits if_splits)
  from perfect_files_cells [OF assms(1,2,4) this] assms(3,5) show ?thesis by blast
qed

end
