(* ===== verification/Cfl.thy ===== *)
theory Cfl
  imports Rewrite
begin

text \<open>
  Rewriting by the chunk fragmentation level (client/src/cfl.c). The level is the ideal number of
  containers of the stream over the number it really refers to (\<open>cf_total\<close>, the size of the table
  \<open>RDC\<close>). While it is below the low-water mark, duplicates are collected as long as they lie in
  the same container, and stored again together when they use too little of it. The two
  comparisons of floating-point quotients are parameters: \<open>lwm ideal total\<close> for
  \<open>((float)ideal) / total < LWM\<close>, \<open>reuse len\<close> for
  \<open>((float)len) / DEFAULT_CONTAINER_SIZE < default_container_reuse\<close>.
\<close>

section \<open>The code\<close>

record cfl =
  cf_rdc :: "unit htable"
  cf_below :: bool
  cf_tmp_address :: chunkaddress
  cf_tmp_chunks :: "(byte list \<times> nat) list"
  cf_tmp_length :: int
  cf_total :: int
  cf_dataset :: "64 word"

text \<open>\<open>junk_addr\<close> and \<open>junk_len\<close>: the fields of \<open>tmp_container\<close> are used as \<open>malloc\<close> returned them.\<close>

definition cfl_init :: "bool \<Rightarrow> chunkaddress \<Rightarrow> int \<Rightarrow> cfl option" where
  "cfl_init one_below junk_addr junk_len =
     map_option (\<lambda>t. \<lparr>cf_rdc = t, cf_below = one_below, cf_tmp_address = junk_addr, cf_tmp_chunks = [],
       cf_tmp_length = junk_len, cf_total = 0, cf_dataset = 0\<rparr>) (htable_init CHUNK_ADDRESS_LENGTH 3200)"

definition rdc_add :: "chunkaddress \<Rightarrow> cfl \<Rightarrow> cfl" where
  "rdc_add a s =
     (if htable_lookup (cf_rdc s) a = None
      then s\<lparr>cf_rdc := htable_insert (strcpy_to (memset0 64) a) () (cf_rdc s), cf_total := cf_total s + 1\<rparr> else s)"

text \<open>Storing the collected chunks again; \<open>track\<close>: their new containers are entered into \<open>RDC\<close>.\<close>

fun store_tmp :: "bool \<Rightarrow> bool \<Rightarrow> (byte list \<Rightarrow> fdesc option) \<Rightarrow> (byte list \<times> nat) list \<Rightarrow> bin \<Rightarrow> store \<Rightarrow> cmem \<Rightarrow> cfl
    \<Rightarrow> (bin \<times> store \<times> cmem \<times> cfl \<times> bool) option" where
  "store_tmp track simulate opn [] b st mem s = Some (b, st, mem, s\<lparr>cf_tmp_chunks := []\<rparr>, True)"
| "store_tmp track simulate opn ((path, p) # q) b st mem s =
     (case write_again False simulate (opn path) (cells mem ! p) b st of
        None \<Rightarrow> None
      | Some (_, fc, b, st, ok) \<Rightarrow>
          let mem = mem\<lparr>cells := (cells mem)[p := fc]\<rparr> in
          if \<not> ok then Some (b, st, mem, s\<lparr>cf_tmp_chunks := q\<rparr>, False)
          else store_tmp track simulate opn q b st (mem\<lparr>locked := locked mem - {p}\<rparr>)
            (if track then rdc_add (fc_address fc) s else s))"

text \<open>Letting them go as duplicates.\<close>

definition release_tmp :: "cmem \<Rightarrow> cfl \<Rightarrow> cmem \<times> cfl" where
  "release_tmp mem s = (mem\<lparr>locked := locked mem - snd ` set (cf_tmp_chunks s)\<rparr>, s\<lparr>cf_tmp_chunks := []\<rparr>)"

definition selective_dedup :: "bool \<Rightarrow> (int \<Rightarrow> bool) \<Rightarrow> (byte list \<Rightarrow> fdesc option) \<Rightarrow> byte list \<Rightarrow> nat
    \<Rightarrow> bin \<Rightarrow> store \<Rightarrow> cmem \<Rightarrow> cfl \<Rightarrow> (bin \<times> store \<times> cmem \<times> cfl \<times> bool) option" where
  "selective_dedup simulate reuse opn path p b st mem s =
     (case (if cf_tmp_chunks s \<noteq> [] \<and> \<not> strcmp_eq (fc_address (cells mem ! p)) (cf_tmp_address s)
            then (if reuse (cf_tmp_length s)
                  then map_option (\<lambda>(b, st, mem, s, ok). (b, st, mem, if ok then s\<lparr>cf_tmp_length := 0\<rparr> else s, ok))
                         (store_tmp True simulate opn (cf_tmp_chunks s) b st mem s)
                  else let (mem, s) = release_tmp mem (rdc_add (cf_tmp_address s) s)
                       in Some (b, st, mem, s\<lparr>cf_tmp_length := 0\<rparr>, True))
            else Some (b, st, mem, s, True)) of
        None \<Rightarrow> None
      | Some (b, st, mem, s, ok) \<Rightarrow>
          if \<not> ok then Some (b, st, mem, s, False)
          else Some (b, st, mem\<lparr>locked := insert p (locked mem)\<rparr>,
            s\<lparr>cf_tmp_address := fc_address (cells mem ! p), cf_tmp_chunks := cf_tmp_chunks s @ [(path, p)],
              cf_tmp_length := cf_tmp_length s + chunklen (cells mem ! p)\<rparr>, True))"

definition typical_dedup :: "bool \<Rightarrow> fdesc option \<Rightarrow> nat \<Rightarrow> bin \<Rightarrow> store \<Rightarrow> cmem \<Rightarrow> cfl
    \<Rightarrow> (fdesc option \<times> bin \<times> store \<times> cmem \<times> cfl \<times> bool) option" where
  "typical_dedup simulate fd p b st mem s =
     (let fc = cells mem ! p in
      if fc_is_new fc = NEW_CHUNK then
        (case write_chunk_to_cloud simulate fd (fc_offset fc) fc st of
           None \<Rightarrow> None
         | Some (fd, fc, st, ok) \<Rightarrow>
             let mem = mem\<lparr>cells := (cells mem)[p := fc]\<rparr> in
             if \<not> ok then Some (fd, b, st, mem, s, False)
             else Some (fd, b\<lparr>b_fingers := htable_insert (chunk_hash fc) (fc_address fc) (b_fingers b)\<rparr>, st, mem,
               rdc_add (fc_address fc) s, True))
      else Some (fd, b, st, mem, rdc_add (fc_address fc) s, True))"

text \<open>One round of the loop over the chunks of a file.\<close>

definition cfl_chunk :: "bool \<Rightarrow> (nat \<Rightarrow> int \<Rightarrow> bool) \<Rightarrow> (int \<Rightarrow> bool) \<Rightarrow> (byte list \<Rightarrow> fdesc option) \<Rightarrow> byte list
    \<Rightarrow> fdesc option \<Rightarrow> nat \<Rightarrow> bin \<Rightarrow> store \<Rightarrow> cmem \<Rightarrow> cfl \<Rightarrow> (fdesc option \<times> bin \<times> store \<times> cmem \<times> cfl \<times> bool) option" where
  "cfl_chunk simulate lwm reuse opn path fd p b st mem s =
     (let fc = cells mem ! p; s = s\<lparr>cf_dataset := cf_dataset s + word_of_int (chunklen fc)\<rparr> in
      case (case htable_lookup (b_fingers b) (chunk_hash fc) of
          Some a \<Rightarrow>
            let mem = mem\<lparr>cells := (cells mem)[p := fc\<lparr>fc_is_new := DEDUP_CHUNK, fc_address := strcpy_to (fc_address fc) a\<rparr>]\<rparr>
            in if cf_below s
               then map_option (\<lambda>(b, st, mem, s, ok). (fd, b, st, mem, s, ok)) (selective_dedup simulate reuse opn path p b st mem s)
               else typical_dedup simulate fd p b st mem s
        | None \<Rightarrow> typical_dedup simulate fd p b st (mem\<lparr>cells := (cells mem)[p := fc\<lparr>fc_is_new := NEW_CHUNK\<rparr>]\<rparr>) s) of
        None \<Rightarrow> None
      | Some (fd, b, st, mem, s, ok) \<Rightarrow>
          Some (fd, b, st, mem,
            if ok then s\<lparr>cf_below := lwm (unat (cf_dataset s) div DEFAULT_CONTAINER_SIZE + 1) (cf_total s)\<rparr> else s, ok))"

fun cfl_loop :: "bool \<Rightarrow> (nat \<Rightarrow> int \<Rightarrow> bool) \<Rightarrow> (int \<Rightarrow> bool) \<Rightarrow> (byte list \<Rightarrow> fdesc option) \<Rightarrow> byte list
    \<Rightarrow> fdesc option \<Rightarrow> nat list \<Rightarrow> bin \<Rightarrow> store \<Rightarrow> cmem \<Rightarrow> cfl \<Rightarrow> (bin \<times> store \<times> cmem \<times> cfl \<times> bool) option" where
  "cfl_loop simulate lwm reuse opn path fd [] b st mem s = Some (b, st, mem, s, True)"
| "cfl_loop simulate lwm reuse opn path fd (p # ps) b st mem s =
     (case cfl_chunk simulate lwm reuse opn path fd p b st mem s of
        None \<Rightarrow> None
      | Some (fd, b, st, mem, s, ok) \<Rightarrow>
          if ok then cfl_loop simulate lwm reuse opn path fd ps b st mem s else Some (b, st, mem, s, False))"

text \<open>
  The whole call. The loop runs over \<open>chunknum\<close> chunks, of which a file has as many; at the end of
  the stream the collected chunks are dealt with, with the bin looked up again.
\<close>

definition cfl_process :: "bool \<Rightarrow> (nat \<Rightarrow> int \<Rightarrow> bool) \<Rightarrow> (int \<Rightarrow> bool) \<Rightarrow> (byte list \<Rightarrow> fdesc option) \<Rightarrow> fileinfo
    \<Rightarrow> nat list \<Rightarrow> bin \<Rightarrow> exbin \<Rightarrow> store \<Rightarrow> cmem \<Rightarrow> cfl \<Rightarrow> (exbin \<times> store \<times> cmem \<times> cfl \<times> bool) option" where
  "cfl_process simulate lwm reuse opn fi ps b ex st mem s =
     (if int (length ps) < chunknum fi then None
      else if chunknum fi > 0 then
        map_option (\<lambda>(b, st, mem, s, ok). (put_bin b ex, st, mem, s, ok))
          (cfl_loop simulate lwm reuse opn (file_path fi) (opn (file_path fi)) (take (nat (chunknum fi)) ps) b st mem s)
      else if chunknum fi = STREAM_END \<and> cf_tmp_chunks s \<noteq> [] then
        (case LoadBin ex fi of
           None \<Rightarrow> None
         | Some (ex, b) \<Rightarrow>
             if reuse (cf_tmp_length s) then
               map_option (\<lambda>(b, st, mem, s, ok). (put_bin b ex, st, mem, s, ok))
                 (store_tmp False simulate opn (cf_tmp_chunks s) b st mem s)
             else let (mem, s) = release_tmp mem s in Some (ex, st, mem, s, True))
      else Some (ex, st, mem, s, True))"

section \<open>The table counts the containers\<close>

definition rdc_ok :: "cfl \<Rightarrow> bool" where
  "rdc_ok s \<longleftrightarrow> ht_inv 64 (cf_rdc s) \<and> cf_total s = int (htable_size (cf_rdc s))"

lemma rdc_ok_add: "rdc_ok s \<Longrightarrow> address_ok a \<Longrightarrow> rdc_ok (rdc_add a s)"
  using htable_size_insert [of 64 "cf_rdc s" "strcpy_to (memset0 64) a" "()"]
  by (simp add: rdc_ok_def rdc_add_def address_ok_def ht_inv_insert)

lemma rdc_ok_update [simp]:
  "rdc_ok (s\<lparr>cf_tmp_chunks := q\<rparr>) = rdc_ok s" "rdc_ok (s\<lparr>cf_tmp_length := l\<rparr>) = rdc_ok s"
  "rdc_ok (s\<lparr>cf_tmp_address := a\<rparr>) = rdc_ok s" "rdc_ok (s\<lparr>cf_below := c\<rparr>) = rdc_ok s" "rdc_ok (s\<lparr>cf_dataset := d\<rparr>) = rdc_ok s"
  by (simp_all add: rdc_ok_def)

lemma rdc_add_fields [simp]:
  "cf_tmp_chunks (rdc_add a s) = cf_tmp_chunks s" "cf_tmp_length (rdc_add a s) = cf_tmp_length s"
  "cf_tmp_address (rdc_add a s) = cf_tmp_address s" "cf_below (rdc_add a s) = cf_below s" "cf_dataset (rdc_add a s) = cf_dataset s"
  by (simp_all add: rdc_add_def)

section \<open>Every chunk is collected or settled\<close>

interpretation again: placing_step "write_again False False" "\<lambda>fc. fc_is_new fc = DEDUP_CHUNK"
proof unfold_locales
  fix fp data fc D rep m n b st
  assume fc: "chunk_fits fp data (fc_offset fc) fc" and D: "\<forall>i k. pread data i k \<in> D"
    and w: "world_ok fp D rep (Suc m) (Suc n) b st" and r: "ready b st fc" "fc_is_new fc = DEDUP_CHUNK"
  have w1: "world_ok fp D rep m (Suc n) b st" using w by (auto simp: world_ok_def bin_room_def)
  have "entries b (chunk_hash fc) \<noteq> None" using r by (simp add: ready_def)
  from write_again_ok [OF fc D w1 this]
  show "\<exists>fc' b' st'. write_again False False (readable data) fc b st = Some (readable data, fc', b', st', True) \<and>
      world_ok fp D rep m n b' st' \<and> later b st b' st' \<and> placed st' fc fc'" .
qed

text \<open>\<open>store_tmp\<close> is the pass over chunk lists of one chunk each.\<close>

definition singles :: "(byte list \<times> nat) list \<Rightarrow> (byte list \<times> nat list) list" where
  "singles q = map (\<lambda>(path, p). (path, [p])) q"

lemma singles_ids: "concat (map snd (singles q)) = map snd q"
  by (induction q) (auto simp: singles_def)

lemma store_tmp_eq:
  assumes "rw_files (write_again False simulate) opn (singles q) b st mem = Some (b', st', mem', [], True)"
    and "distinct (map snd q)" "\<forall>p\<in>set (map snd q). p < length (cells mem)"
    and "rdc_ok s" "\<forall>p\<in>set (map snd q). address_ok (fc_address (cells mem' ! p))"
  shows "\<exists>s'. store_tmp track simulate opn q b st mem s = Some (b', st', mem', s', True) \<and>
    rdc_ok s' \<and> cf_tmp_chunks s' = []"
  using assms
proof (induction q arbitrary: b st mem s)
  case Nil
  then show ?case by (simp add: singles_def)
next
  case (Cons c q)
  obtain path p where c: "c = (path, p)" by (cases c)
  from Cons.prems(1) c obtain fd fc b1 st1 where W: "write_again False simulate (opn path) (cells mem ! p) b st = Some (fd, fc, b1, st1, True)"
    "rw_files (write_again False simulate) opn (singles q) b1 st1 (mem\<lparr>cells := (cells mem)[p := fc], locked := locked mem - {p}\<rparr>) =
      Some (b', st', mem', [], True)"
    by (auto simp: singles_def Let_def split: option.splits prod.splits if_splits)
  let ?mem = "mem\<lparr>cells := (cells mem)[p := fc], locked := locked mem - {p}\<rparr>"
  have d: "p \<notin> set (map snd q)" "distinct (map snd q)" "p < length (cells mem)" "\<forall>p\<in>set (map snd q). p < length (cells ?mem)"
    using Cons.prems(2,3) c by auto
  have "\<forall>p. p \<notin> set (map snd q) \<longrightarrow> cells mem' ! p = cells ?mem ! p"
    using rw_files_cells [OF W(2), of "\<lambda>_ _. True"] d(2,4) by (simp add: singles_ids)
  then have "cells mem' ! p = fc" using d(1,3) by simp
  then have "address_ok (fc_address fc)" using Cons.prems(5) c by simp
  then have "rdc_ok (if track then rdc_add (fc_address fc) s else s)" using Cons.prems(4) by (simp add: rdc_ok_add)
  from Cons.IH [OF W(2) d(2,4) this] Cons.prems(5) W(1) c show ?case by simp
qed

definition tmp_ids :: "cfl \<Rightarrow> nat list" where
  "tmp_ids s = map snd (cf_tmp_chunks s)"

lemma tmp_ids_update:
  "tmp_ids (rdc_add a s) = tmp_ids s" "tmp_ids (s\<lparr>cf_dataset := d\<rparr>) = tmp_ids s"
  "tmp_ids (s\<lparr>cf_below := c\<rparr>) = tmp_ids s" "tmp_ids (s\<lparr>cf_tmp_length := l\<rparr>) = tmp_ids s"
  by (simp_all add: tmp_ids_def)

definition collected where
  "collected fp dat D opn b st mem c \<longleftrightarrow> in_file fp dat D opn mem (fst c, [snd c]) \<and> ready b st (cells mem ! snd c) \<and>
     fc_is_new (cells mem ! snd c) = DEDUP_CHUNK"

definition cfl_ok where
  "cfl_ok fp dat D rep opn m n b st mem s \<longleftrightarrow>
     distinct (tmp_ids s) \<and> (\<forall>c\<in>set (cf_tmp_chunks s). collected fp dat D opn b st mem c) \<and>
     world_ok fp D rep (length (tmp_ids s) + m) (length (tmp_ids s) + n) b st \<and> rdc_ok s \<and>
     (cf_tmp_chunks s \<noteq> [] \<longrightarrow> address_ok (cf_tmp_address s))"

text \<open>
  What a part of the run does to the collected chunks and to the chunks \<open>ps\<close> it passes: they are
  collected, or settled and unlocked; nothing else is touched and nothing stored is lost.
\<close>

definition cfl_progress where
  "cfl_progress b st mem s b' st' mem' s' ps \<longleftrightarrow> later b st b' st' \<and> length (cells mem') = length (cells mem) \<and>
     set (tmp_ids s') \<subseteq> set (tmp_ids s @ ps) \<and>
     (\<forall>q\<in>set (tmp_ids s'). same_chunk (cells mem ! q) (cells mem' ! q)) \<and>
     (\<forall>q\<in>set (tmp_ids s @ ps) - set (tmp_ids s'). placed st' (cells mem ! q) (cells mem' ! q) \<and> q \<notin> locked mem') \<and>
     (\<forall>q. q \<notin> set (tmp_ids s @ ps) \<longrightarrow> cells mem' ! q = cells mem ! q \<and> (q \<in> locked mem' \<longleftrightarrow> q \<in> locked mem))"

lemma cfl_progress_trans:
  assumes a: "cfl_progress b st mem s b1 st1 mem1 s1 ps" and c: "cfl_progress b1 st1 mem1 s1 b' st' mem' s' qs"
    and d: "set qs \<inter> set (tmp_ids s @ ps) = {}"
  shows "cfl_progress b st mem s b' st' mem' s' (ps @ qs)"
proof -
  note A = a [unfolded cfl_progress_def] and C = c [unfolded cfl_progress_def]
  have l: "later b st b' st'" using A C later_trans by blast
  have sub: "set (tmp_ids s1) \<subseteq> set (tmp_ids s @ ps)" using A by blast
  have first: "same_chunk (cells mem ! q) (cells mem1 ! q)" if "q \<in> set (tmp_ids s1 @ qs)" for q
  proof (cases "q \<in> set qs")
    case True
    then have "q \<notin> set (tmp_ids s @ ps)" using d by blast
    then have "cells mem1 ! q = cells mem ! q" using A by blast
    then show ?thesis by simp
  next
    case False
    then have "q \<in> set (tmp_ids s1)" using that by simp
    then show ?thesis using A by blast
  qed
  have same: "same_chunk (cells mem ! q) (cells mem' ! q)" if q: "q \<in> set (tmp_ids s')" for q
  proof -
    have "q \<in> set (tmp_ids s1 @ qs)" "same_chunk (cells mem1 ! q) (cells mem' ! q)" using C q by blast+
    then show ?thesis using first same_chunk_trans by blast
  qed
  have settled: "placed st' (cells mem ! q) (cells mem' ! q) \<and> q \<notin> locked mem'"
    if q: "q \<in> set (tmp_ids s @ ps @ qs)" "q \<notin> set (tmp_ids s')" for q
  proof (cases "q \<in> set (tmp_ids s1 @ qs)")
    case True
    then have "placed st' (cells mem1 ! q) (cells mem' ! q)" "q \<notin> locked mem'" using C q(2) by blast+
    then show ?thesis using first [OF True] same_chunk_placed by blast
  next
    case False
    then have "q \<in> set (tmp_ids s @ ps) - set (tmp_ids s1)" using q by auto
    then have p: "placed st1 (cells mem ! q) (cells mem1 ! q)" "q \<notin> locked mem1" using A by blast+
    have "cells mem' ! q = cells mem1 ! q" "q \<in> locked mem' \<longleftrightarrow> q \<in> locked mem1" using C False by blast+
    moreover have "placed st' (cells mem ! q) (cells mem1 ! q)" using p(1) C later_placed by blast
    ultimately show ?thesis using p(2) by simp
  qed
  have o: "cells mem' ! q = cells mem ! q \<and> (q \<in> locked mem' \<longleftrightarrow> q \<in> locked mem)" if "q \<notin> set (tmp_ids s @ ps @ qs)" for q
  proof -
    have "q \<notin> set (tmp_ids s @ ps)" "q \<notin> set (tmp_ids s1 @ qs)" using that sub by auto
    then show ?thesis using A C by metis
  qed
  have "set (tmp_ids s') \<subseteq> set (tmp_ids s @ ps @ qs)" using A C by auto
  moreover have "length (cells mem') = length (cells mem)" using A C by simp
  ultimately show ?thesis unfolding cfl_progress_def append_assoc using l same settled o by blast
qed

lemma cfl_progress_refl: "cfl_progress b st mem s b st mem s []"
  by (auto simp: cfl_progress_def later_refl)

text \<open>Dealing with the collected chunks, both ways.\<close>

lemma store_tmp_progress:
  assumes ok: "cfl_ok fp dat D rep opn m n b st mem s"
  shows "\<exists>b' st' mem' s'. store_tmp track False opn (cf_tmp_chunks s) b st mem s = Some (b', st', mem', s', True) \<and>
    world_ok fp D rep m n b' st' \<and> rdc_ok s' \<and> cf_tmp_chunks s' = [] \<and> cfl_progress b st mem s b' st' mem' s' []"
proof -
  let ?q = "cf_tmp_chunks s"
  have d: "distinct (concat (map snd (singles ?q)))" using ok by (simp add: cfl_ok_def tmp_ids_def singles_ids)
  have w: "world_ok fp D rep (length (concat (map snd (singles ?q))) + m) (length (concat (map snd (singles ?q))) + n) b st"
    using ok by (simp add: cfl_ok_def tmp_ids_def singles_ids)
  have f: "\<forall>(path, ps)\<in>set (singles ?q). opn path = readable (dat path) \<and> (\<forall>i k. pread (dat path) i k \<in> D) \<and>
      (\<forall>p\<in>set ps. p < length (cells mem) \<and> chunk_fits fp (dat path) (fc_offset (cells mem ! p)) (cells mem ! p) \<and>
      ready b st (cells mem ! p) \<and> fc_is_new (cells mem ! p) = DEDUP_CHUNK)"
    using ok by (fastforce simp: cfl_ok_def collected_def in_file_def singles_def)
  from again.files_placed [OF d f w] obtain b' st' mem' where
    R: "rw_files (write_again False False) opn (singles ?q) b st mem = Some (b', st', mem', [], True)"
    "world_ok fp D rep m n b' st'" "later b st b' st'" "length (cells mem') = length (cells mem)"
    "\<forall>p\<in>set (tmp_ids s). placed st' (cells mem ! p) (cells mem' ! p)"
    "\<forall>p. p \<notin> set (tmp_ids s) \<longrightarrow> cells mem' ! p = cells mem ! p" "locked mem' = locked mem - set (tmp_ids s)"
    unfolding singles_ids tmp_ids_def by blast
  have "distinct (map snd ?q)" "rdc_ok s" using ok by (auto simp: cfl_ok_def tmp_ids_def)
  moreover have "\<forall>p\<in>set (map snd ?q). p < length (cells mem)"
    using ok by (auto simp: cfl_ok_def collected_def in_file_def)
  moreover have "\<forall>p\<in>set (map snd ?q). address_ok (fc_address (cells mem' ! p))"
    using R(5) by (auto simp: placed_def tmp_ids_def)
  ultimately obtain s' where S: "store_tmp track False opn ?q b st mem s = Some (b', st', mem', s', True)"
    "rdc_ok s'" "cf_tmp_chunks s' = []"
    using store_tmp_eq [OF R(1)] by blast
  have "tmp_ids s' = []" using S(3) by (simp add: tmp_ids_def)
  then have "cfl_progress b st mem s b' st' mem' s' []"
    unfolding cfl_progress_def using R(3-7) by auto
  with S R(2) show ?thesis by blast
qed

lemma release_tmp_progress:
  assumes ok: "cfl_ok fp dat D rep opn m n b st mem s" and s: "tmp_ids s1 = tmp_ids s" "rdc_ok s1"
  shows "\<exists>mem' s'. release_tmp mem s1 = (mem', s') \<and> rdc_ok s' \<and> cf_tmp_chunks s' = [] \<and> cfl_progress b st mem s b st mem' s' []"
proof -
  have "placed st (cells mem ! q) (cells mem ! q)" if "q \<in> set (tmp_ids s)" for q
    using ok that by (auto simp: cfl_ok_def tmp_ids_def collected_def ready_def)
  moreover have "snd ` set (cf_tmp_chunks s1) = set (tmp_ids s)" using s(1) by (metis list.set_map tmp_ids_def)
  moreover have "tmp_ids (s1\<lparr>cf_tmp_chunks := []\<rparr>) = []" by (simp add: tmp_ids_def)
  ultimately show ?thesis
    using s(2) by (auto simp: release_tmp_def cfl_progress_def later_refl)
qed

lemma world_more: "world_ok fp D rep (k + m) (k + n) b st \<Longrightarrow> world_ok fp D rep m n b st"
  by (rule world_less)

lemma flush_progress:
  assumes ok: "cfl_ok fp dat D rep opn m n b st mem s"
  shows "\<exists>b' st' mem' s'. (if cf_tmp_chunks s \<noteq> [] \<and> \<not> strcmp_eq a (cf_tmp_address s)
            then (if reuse (cf_tmp_length s)
                  then map_option (\<lambda>(b, st, mem, s, ok). (b, st, mem, if ok then s\<lparr>cf_tmp_length := 0\<rparr> else s, ok))
                         (store_tmp True False opn (cf_tmp_chunks s) b st mem s)
                  else let (mem, s) = release_tmp mem (rdc_add (cf_tmp_address s) s)
                       in Some (b, st, mem, s\<lparr>cf_tmp_length := 0\<rparr>, True))
            else Some (b, st, mem, s, True)) = Some (b', st', mem', s', True) \<and>
    cfl_ok fp dat D rep opn m n b' st' mem' s' \<and> cfl_progress b st mem s b' st' mem' s' []"
proof -
  have len: "cfl_progress b st mem s b' st' mem' (s'\<lparr>cf_tmp_length := 0\<rparr>) [] = cfl_progress b st mem s b' st' mem' s' []" for b' st' mem' s'
    by (simp add: cfl_progress_def tmp_ids_def)
  have empty: "cfl_ok fp dat D rep opn m n b' st' mem' (s'\<lparr>cf_tmp_length := 0\<rparr>)"
    if "world_ok fp D rep m n b' st'" "rdc_ok s'" "cf_tmp_chunks s' = []" for b' st' mem' s'
    using that by (simp add: cfl_ok_def tmp_ids_def)
  consider "cf_tmp_chunks s \<noteq> [] \<and> \<not> strcmp_eq a (cf_tmp_address s)" "reuse (cf_tmp_length s)"
    | "cf_tmp_chunks s \<noteq> [] \<and> \<not> strcmp_eq a (cf_tmp_address s)" "\<not> reuse (cf_tmp_length s)"
    | "\<not> (cf_tmp_chunks s \<noteq> [] \<and> \<not> strcmp_eq a (cf_tmp_address s))" by blast
  then show ?thesis
  proof cases
    case 1
    then show ?thesis using store_tmp_progress [OF ok, of True] empty len by fastforce
  next
    case 2
    have "rdc_ok (rdc_add (cf_tmp_address s) s)" using ok 2(1) by (simp add: cfl_ok_def rdc_ok_add)
    moreover have "tmp_ids (rdc_add (cf_tmp_address s) s) = tmp_ids s" by (simp add: tmp_ids_def)
    moreover have "world_ok fp D rep m n b st" using ok world_less by (auto simp: cfl_ok_def)
    ultimately show ?thesis using 2 release_tmp_progress [OF ok] empty len by fastforce
  next
    case 3
    then show ?thesis using ok cfl_progress_refl by auto
  qed
qed

lemma cfl_ok_frame:
  assumes "cfl_ok fp dat D rep opn m n b st mem s" "later b st b' st'" "length (cells mem') = length (cells mem)"
    and "\<forall>q\<in>set (tmp_ids s). cells mem' ! q = cells mem ! q" "tmp_ids s' = tmp_ids s" "cf_tmp_chunks s' = cf_tmp_chunks s"
    and "cf_tmp_address s' = cf_tmp_address s" "rdc_ok s'"
    and "world_ok fp D rep (length (tmp_ids s) + m') (length (tmp_ids s) + n') b' st'"
  shows "cfl_ok fp dat D rep opn m' n' b' st' mem' s'"
proof -
  have "collected fp dat D opn b' st' mem' c" if "c \<in> set (cf_tmp_chunks s)" for c
  proof -
    have c: "collected fp dat D opn b st mem c" using assms(1) that by (simp add: cfl_ok_def)
    have "cells mem' ! snd c = cells mem ! snd c" using assms(4) that by (auto simp: tmp_ids_def)
    with c assms(3) later_ready [OF assms(2)] show ?thesis by (auto simp: collected_def in_file_def)
  qed
  with assms(1,5-9) show ?thesis by (auto simp: cfl_ok_def)
qed

lemma cfl_progress_start:
  assumes "cfl_progress b st mem1 s b' st' mem' s' [p]" "same_chunk (cells mem ! p) (cells mem1 ! p)"
    and "\<forall>q. q \<noteq> p \<longrightarrow> cells mem1 ! q = cells mem ! q" "length (cells mem1) = length (cells mem)" "locked mem1 = locked mem"
  shows "cfl_progress b st mem s b' st' mem' s' [p]"
proof -
  note P = assms(1) [unfolded cfl_progress_def]
  have same: "same_chunk (cells mem ! q) (cells mem1 ! q)" for q
    using assms(2,3) by (cases "q = p") simp_all
  have "\<forall>q\<in>set (tmp_ids s'). same_chunk (cells mem ! q) (cells mem' ! q)"
    using P same same_chunk_trans by blast
  moreover have "\<forall>q\<in>set (tmp_ids s @ [p]) - set (tmp_ids s'). placed st' (cells mem ! q) (cells mem' ! q) \<and> q \<notin> locked mem'"
    using P same same_chunk_placed by blast
  moreover have "\<forall>q. q \<notin> set (tmp_ids s @ [p]) \<longrightarrow> cells mem' ! q = cells mem ! q \<and> (q \<in> locked mem' \<longleftrightarrow> q \<in> locked mem)"
    using P assms(3,5) by simp
  ultimately show ?thesis unfolding cfl_progress_def using P assms(4) by simp
qed

lemma has_strcpy: "has st (strcpy_to x a) h d = has st a h d"
  by (simp add: has_def held_def on_disk_def)

lemma settle_progress:
  assumes "later b st b' st'" "placed st' (cells mem ! p) fc" "p \<notin> set (tmp_ids s)" "p \<notin> locked mem" "p < length (cells mem)"
    and "tmp_ids s' = tmp_ids s" "cells mem' = (cells mem)[p := fc]" "locked mem' = locked mem"
  shows "cfl_progress b st mem s b' st' mem' s' [p]"
  using assms by (auto simp: cfl_progress_def nth_list_update)

lemma cfl_chunk_spec:
  assumes ok: "cfl_ok fp dat D rep opn (Suc m) (Suc n) b st mem s" and p: "p \<notin> set (tmp_ids s)" "p \<notin> locked mem"
    and f: "in_file fp dat D opn mem (path, [p])" and a: "length (fc_address (cells mem ! p)) = 64"
  shows "\<exists>b' st' mem' s'. cfl_chunk False lwm reuse opn path (opn path) p b st mem s = Some (opn path, b', st', mem', s', True) \<and>
    cfl_ok fp dat D rep opn m n b' st' mem' s' \<and> cfl_progress b st mem s b' st' mem' s' [p]"
proof -
  let ?fc = "cells mem ! p"
  let ?s = "s\<lparr>cf_dataset := cf_dataset s + word_of_int (chunklen ?fc)\<rparr>"
  have fit: "p < length (cells mem)" "chunk_fits fp (dat path) (fc_offset ?fc) ?fc" "opn path = readable (dat path)"
    "\<forall>i k. pread (dat path) i k \<in> D" using f by (auto simp: in_file_def)
  have h: "length (chunk_hash ?fc) = 20" using fit(2) unfolding chunk_fits_def by blast
  have w: "world_ok fp D rep (Suc (length (tmp_ids s) + m)) (Suc (length (tmp_ids s) + n)) b st" using ok by (simp add: cfl_ok_def)
  have w0: "world_ok fp D rep (length (tmp_ids s) + m) (length (tmp_ids s) + n) b st" using w world_less [of fp D rep 1] by simp
  have r: "rdc_ok s" using ok by (simp add: cfl_ok_def)
  have l: "htable_lookup (b_fingers b) (chunk_hash ?fc) = entries b (chunk_hash ?fc)"
    using bin_lookup [OF _ h] w by (auto simp: world_ok_def bin_room_def)
  have keep: "(cells mem)[p := x] ! q = cells mem ! q" if "q \<in> set (tmp_ids s)" for q x
    using that p(1) by (metis nth_list_update_neq)
  have fin: "cfl_ok fp dat D rep opn m n b' st' mem' (s'\<lparr>cf_below := c\<rparr>) = cfl_ok fp dat D rep opn m n b' st' mem' s'"
    "cfl_progress b st mem s b' st' mem' (s'\<lparr>cf_below := c\<rparr>) [p] = cfl_progress b st mem s b' st' mem' s' [p]" for b' st' mem' s' c
    by (simp_all add: cfl_ok_def cfl_progress_def tmp_ids_def)
  show ?thesis
  proof (cases "entries b (chunk_hash ?fc)")
    case None
    let ?fcn = "?fc\<lparr>fc_is_new := NEW_CHUNK\<rparr>"
    have fit0: "chunk_fits fp (dat path) (fc_offset ?fcn) ?fcn" using fit(2) by simp
    obtain a st1 where W: "write_chunk_to_cloud False (readable (dat path)) (fc_offset ?fcn) ?fcn st =
        Some (readable (dat path), ?fcn\<lparr>fc_address := a\<rparr>, st1, True)"
      "world_ok fp D rep (Suc (length (tmp_ids s) + m)) (length (tmp_ids s) + n) b st1" "later b st b st1"
      "placed st1 ?fcn (?fcn\<lparr>fc_address := a\<rparr>)" "length a = 64"
      using write_world [OF fit0 fit(4) w] by blast
    let ?b = "b\<lparr>b_fingers := htable_insert (chunk_hash ?fc) a (b_fingers b)\<rparr>"
    have E: "world_ok fp D rep (length (tmp_ids s) + m) (length (tmp_ids s) + n) ?b st1" "later b st1 ?b st1"
      using world_enter [OF W(2) W(4) _ W(5), of ?b] h None by simp_all
    have lt: "later b st ?b st1" using later_trans [OF W(3) E(2)] .
    have ao: "address_ok a" using W(4) by (simp add: placed_def)
    let ?mem = "mem\<lparr>cells := (cells mem)[p := ?fcn\<lparr>fc_address := a\<rparr>]\<rparr>"
    have run: "cfl_chunk False lwm reuse opn path (opn path) p b st mem s = Some (opn path, ?b, st1, ?mem,
        (rdc_add a ?s)\<lparr>cf_below := lwm (unat (cf_dataset ?s) div DEFAULT_CONTAINER_SIZE + 1) (cf_total (rdc_add a ?s))\<rparr>, True)"
      using W(1) l None fit(1,3) by (simp add: cfl_chunk_def typical_dedup_def Let_def)
    have pl: "placed st1 ?fc (?fcn\<lparr>fc_address := a\<rparr>)" using W(4) by (simp add: placed_def)
    have "cfl_progress b st mem s ?b st1 ?mem (rdc_add a ?s) [p]"
      by (rule settle_progress [OF lt pl p fit(1)]) (simp_all add: tmp_ids_def)
    moreover have "cfl_ok fp dat D rep opn m n ?b st1 ?mem (rdc_add a ?s)"
      using E(1) r ao by (intro cfl_ok_frame [OF ok lt]) (simp_all add: keep tmp_ids_update rdc_ok_add)
    ultimately show ?thesis using run fin by metis
  next
    case (Some a)
    have ao: "address_ok a" "\<exists>d. has st a (chunk_hash ?fc) d" using w Some by (auto simp: world_ok_def entries_sound_def)
    let ?a = "strcpy_to (fc_address ?fc) a"
    let ?fc1 = "?fc\<lparr>fc_is_new := DEDUP_CHUNK, fc_address := ?a\<rparr>"
    let ?mem = "mem\<lparr>cells := (cells mem)[p := ?fc1]\<rparr>"
    have a1: "address_ok ?a" using ao(1) a by (simp add: address_ok_def)
    have pl: "placed st ?fc ?fc1" "placed st ?fc1 ?fc1" using a1 ao(2) by (simp_all add: placed_def has_strcpy)
    have okm: "cfl_ok fp dat D rep opn m n b st ?mem s'" if "rdc_ok s'" "cf_tmp_chunks s' = cf_tmp_chunks s" "cf_tmp_address s' = cf_tmp_address s" "tmp_ids s' = tmp_ids s" for s'
      using w0 that by (intro cfl_ok_frame [OF ok later_refl]) (simp_all add: keep tmp_ids_update)
    show ?thesis
    proof (cases "cf_below s")
      case False
      have run: "cfl_chunk False lwm reuse opn path (opn path) p b st mem s = Some (opn path, b, st, ?mem,
          (rdc_add ?a ?s)\<lparr>cf_below := lwm (unat (cf_dataset ?s) div DEFAULT_CONTAINER_SIZE + 1) (cf_total (rdc_add ?a ?s))\<rparr>, True)"
        using l Some False fit(1) by (simp add: cfl_chunk_def typical_dedup_def Let_def)
      have "cfl_progress b st mem s b st ?mem (rdc_add ?a ?s) [p]"
        by (rule settle_progress [OF later_refl pl(1) p fit(1)]) (simp_all add: tmp_ids_def)
      moreover have "cfl_ok fp dat D rep opn m n b st ?mem (rdc_add ?a ?s)"
        using r a1 by (intro okm) (simp_all add: rdc_ok_add tmp_ids_update)
      ultimately show ?thesis using run fin by metis
    next
      case True
      have "cfl_ok fp dat D rep opn (Suc m) (Suc n) b st ?mem ?s"
        using w r by (intro cfl_ok_frame [OF ok later_refl]) (simp_all add: keep tmp_ids_update)
      from flush_progress [OF this, of ?a reuse] obtain b1 st1 mem1 s1 where
        F: "(if cf_tmp_chunks ?s \<noteq> [] \<and> \<not> strcmp_eq ?a (cf_tmp_address ?s)
            then (if reuse (cf_tmp_length ?s)
                  then map_option (\<lambda>(b, st, mem, s, ok). (b, st, mem, if ok then s\<lparr>cf_tmp_length := 0\<rparr> else s, ok))
                         (store_tmp True False opn (cf_tmp_chunks ?s) b st ?mem ?s)
                  else let (mem, s) = release_tmp ?mem (rdc_add (cf_tmp_address ?s) ?s)
                       in Some (b, st, mem, s\<lparr>cf_tmp_length := 0\<rparr>, True))
            else Some (b, st, ?mem, ?s, True)) = Some (b1, st1, mem1, s1, True)"
        "cfl_ok fp dat D rep opn (Suc m) (Suc n) b1 st1 mem1 s1" "cfl_progress b st ?mem ?s b1 st1 mem1 s1 []" by blast
      have ids: "tmp_ids ?s = tmp_ids s" by (simp add: tmp_ids_def)
      have c1: "cells mem1 ! p = ?fc1" "p \<notin> set (tmp_ids s1)" "length (cells mem1) = length (cells mem)" "later b st b1 st1"
        using F(3) p(1) fit(1) by (auto simp: cfl_progress_def ids)
      let ?mem2 = "mem1\<lparr>locked := insert p (locked mem1)\<rparr>"
      let ?s2 = "s1\<lparr>cf_tmp_address := ?a, cf_tmp_chunks := cf_tmp_chunks s1 @ [(path, p)], cf_tmp_length := cf_tmp_length s1 + chunklen ?fc1\<rparr>"
      have run: "cfl_chunk False lwm reuse opn path (opn path) p b st mem s = Some (opn path, b1, st1, ?mem2,
          ?s2\<lparr>cf_below := lwm (unat (cf_dataset ?s2) div DEFAULT_CONTAINER_SIZE + 1) (cf_total ?s2)\<rparr>, True)"
        using l Some True fit(1) F(1) c1(1) by (simp add: cfl_chunk_def selective_dedup_def Let_def)
      have i2: "tmp_ids ?s2 = tmp_ids s1 @ [p]" by (simp add: tmp_ids_def)
      have "cfl_progress b1 st1 mem1 s1 b1 st1 ?mem2 ?s2 [p]"
        unfolding cfl_progress_def i2 by (auto simp: later_refl)
      with F(3) have "cfl_progress b st ?mem ?s b1 st1 ?mem2 ?s2 ([] @ [p])"
        by (rule cfl_progress_trans) (simp add: ids p(1))
      then have "cfl_progress b st ?mem s b1 st1 ?mem2 ?s2 [p]"
        unfolding cfl_progress_def ids append_Nil by blast
      then have "cfl_progress b st mem s b1 st1 ?mem2 ?s2 [p]"
        by (rule cfl_progress_start) (use fit(1) in \<open>auto simp: same_chunk_def\<close>)
      moreover have "collected fp dat D opn b1 st1 ?mem2 (path, p)"
      proof -
        have "ready b st ?fc1" using pl(2) Some by (simp add: ready_def)
        then have "ready b1 st1 ?fc1" by (rule later_ready [OF c1(4)])
        moreover have "chunk_fits fp (dat path) (fc_offset ?fc1) ?fc1"
          using same_chunk_fits [OF same_chunk_placed' [OF pl(1)] fit(2)] by simp
        ultimately show ?thesis using fit c1 by (simp add: collected_def in_file_def)
      qed
      moreover have "\<forall>c\<in>set (cf_tmp_chunks s1). collected fp dat D opn b1 st1 ?mem2 c"
        using F(2) by (auto simp: cfl_ok_def collected_def in_file_def)
      ultimately have "cfl_ok fp dat D rep opn m n b1 st1 ?mem2 ?s2"
        using F(2) c1(2) a1 unfolding cfl_ok_def i2 by auto
      then show ?thesis using run fin \<open>cfl_progress b st mem s b1 st1 ?mem2 ?s2 [p]\<close> by metis
    qed
  qed
qed

lemma cfl_loop_spec:
  assumes "cfl_ok fp dat D rep opn (length ps + m) (length ps + n) b st mem s" "distinct ps"
    and "set ps \<inter> set (tmp_ids s) = {}" "set ps \<inter> locked mem = {}" "in_file fp dat D opn mem (path, ps)"
    and "\<forall>p\<in>set ps. length (fc_address (cells mem ! p)) = 64"
  shows "\<exists>b' st' mem' s'. cfl_loop False lwm reuse opn path (opn path) ps b st mem s = Some (b', st', mem', s', True) \<and>
    cfl_ok fp dat D rep opn m n b' st' mem' s' \<and> cfl_progress b st mem s b' st' mem' s' ps"
  using assms
proof (induction ps arbitrary: b st mem s)
  case Nil
  then show ?case by (simp add: cfl_progress_refl)
next
  case (Cons p ps)
  have ok: "cfl_ok fp dat D rep opn (Suc (length ps + m)) (Suc (length ps + n)) b st mem s" using Cons.prems(1) by simp
  have p: "p \<notin> set (tmp_ids s)" "p \<notin> locked mem" "in_file fp dat D opn mem (path, [p])" "length (fc_address (cells mem ! p)) = 64"
    using Cons.prems(3-6) by (auto simp: in_file_def)
  from cfl_chunk_spec [OF ok p, of lwm reuse] obtain b1 st1 mem1 s1 where
    C: "cfl_chunk False lwm reuse opn path (opn path) p b st mem s = Some (opn path, b1, st1, mem1, s1, True)"
    "cfl_ok fp dat D rep opn (length ps + m) (length ps + n) b1 st1 mem1 s1" "cfl_progress b st mem s b1 st1 mem1 s1 [p]" by blast
  have n: "q \<notin> set (tmp_ids s @ [p])" if "q \<in> set ps" for q using that Cons.prems(2,3) by auto
  have same: "cells mem1 ! q = cells mem ! q" "q \<in> locked mem1 \<longleftrightarrow> q \<in> locked mem" if "q \<in> set ps" for q
    using n [OF that] C(3) unfolding cfl_progress_def by blast+
  have "set ps \<inter> set (tmp_ids s1) = {}" using n C(3) unfolding cfl_progress_def by blast
  moreover have "set ps \<inter> locked mem1 = {}" using same(2) Cons.prems(4) by auto
  moreover have "in_file fp dat D opn mem1 (path, ps)"
    using Cons.prems(5) same(1) C(3) by (simp add: in_file_def cfl_progress_def)
  moreover have "\<forall>p\<in>set ps. length (fc_address (cells mem1 ! p)) = 64" using Cons.prems(6) same(1) by simp
  ultimately obtain b' st' mem' s' where
    IH: "cfl_loop False lwm reuse opn path (opn path) ps b1 st1 mem1 s1 = Some (b', st', mem', s', True)"
    "cfl_ok fp dat D rep opn m n b' st' mem' s'" "cfl_progress b1 st1 mem1 s1 b' st' mem' s' ps"
    using Cons.IH [OF C(2)] Cons.prems(2) by auto
  have "set ps \<inter> set (tmp_ids s @ [p]) = {}" using n by blast
  from cfl_progress_trans [OF C(3) IH(3) this] C(1) IH(1,2) show ?case by auto
qed

section \<open>Properties\<close>

text \<open>C26: a file passes through the CFL stage, whatever the two thresholds decide: every chunk of it, and
  every chunk collected before, is afterwards still collected (a duplicate with a good address,
  in the bin), or has a good address and is unlocked; \<open>total_container_num\<close> is the number of
  containers in \<open>RDC\<close>; nothing stored is lost and no other chunk is touched.\<close>

theorem cfl_file_placed:
  assumes "cfl_ok fp dat D rep opn (length ps + m) (length ps + n) b st mem s" "distinct ps" "ps \<noteq> []"
    and "set ps \<inter> set (tmp_ids s) = {}" "set ps \<inter> locked mem = {}" "in_file fp dat D opn mem (file_path fi, ps)"
    and "\<forall>p\<in>set ps. length (fc_address (cells mem ! p)) = 64" "chunknum fi = int (length ps)"
  shows "\<exists>b' st' mem' s'. cfl_process False lwm reuse opn fi ps b ex st mem s = Some (put_bin b' ex, st', mem', s', True) \<and>
    cfl_ok fp dat D rep opn m n b' st' mem' s' \<and> cfl_progress b st mem s b' st' mem' s' ps \<and>
    cf_total s' = int (htable_size (cf_rdc s'))"
proof -
  from cfl_loop_spec [OF assms(1,2,4-7), of lwm reuse] obtain b' st' mem' s' where
    L: "cfl_loop False lwm reuse opn (file_path fi) (opn (file_path fi)) ps b st mem s = Some (b', st', mem', s', True)"
    "cfl_ok fp dat D rep opn m n b' st' mem' s'" "cfl_progress b st mem s b' st' mem' s' ps" by blast
  have "cfl_process False lwm reuse opn fi ps b ex st mem s = Some (put_bin b' ex, st', mem', s', True)"
    using L(1) assms(3,8) by (simp add: cfl_process_def)
  moreover have "cf_total s' = int (htable_size (cf_rdc s'))" using L(2) by (simp add: cfl_ok_def rdc_ok_def)
  ultimately show ?thesis using L(2,3) by blast
qed

definition demo_cfl :: cfl where
  "demo_cfl = \<lparr>cf_rdc = htable_of_pwr 64 3, cf_below = True, cf_tmp_address = [], cf_tmp_chunks = [],
     cf_tmp_length = 12345, cf_total = 0, cf_dataset = 0\<rparr>"

lemma demo_cfl_file: "in_file demo_fp (\<lambda>_. [1, 2, 3]) UNIV (\<lambda>_. readable [1, 2, 3]) demo_mem (path, [0])"
  using demo_mem_fits by (simp add: in_file_def)

lemma cfl_file_placed_witness:
  "\<exists>ex b ex' st' mem' s'. cfl_process False (\<lambda>_ _. True) (\<lambda>l. l < 1000) (\<lambda>_. readable [1, 2, 3]) (file_new\<lparr>chunknum := 1\<rparr>) [0]
      b ex demo_store demo_mem demo_cfl = Some (ex', st', mem', s', True) \<and>
    (0 \<notin> set (tmp_ids s') \<longrightarrow> placed st' (cells demo_mem ! 0) (cells mem' ! 0))"
proof -
  obtain ex :: exbin and b where w: "world_ok demo_fp UNIV (memset0 20) 5 5 b demo_store" using demo_world_loaded by blast
  have ok: "cfl_ok demo_fp (\<lambda>_. [1, 2, 3]) UNIV (memset0 20) (\<lambda>_. readable [1, 2, 3]) (length [0 :: nat] + 4) (length [0 :: nat] + 4)
      b demo_store demo_mem demo_cfl"
    using w by (simp add: cfl_ok_def demo_cfl_def tmp_ids_def rdc_ok_def)
  have r: "set [0] \<inter> set (tmp_ids demo_cfl) = {}" "set [0] \<inter> locked demo_mem = {}" "distinct [0 :: nat]" "[0 :: nat] \<noteq> []"
    "\<forall>p\<in>set [0]. length (fc_address (cells demo_mem ! p)) = 64" "chunknum (file_new\<lparr>chunknum := 1\<rparr>) = int (length [0 :: nat])"
    by (simp_all add: demo_cfl_def tmp_ids_def demo_mem_def new_chunk_def fingerchunk_new_def)
  from cfl_file_placed [OF ok r(3,4,1,2) demo_cfl_file r(5,6), of "\<lambda>_ _. True" "\<lambda>l. l < 1000" ex]
  obtain b' st' mem' s' where P: "cfl_process False (\<lambda>_ _. True) (\<lambda>l. l < 1000) (\<lambda>_. readable [1, 2, 3]) (file_new\<lparr>chunknum := 1\<rparr>) [0]
      b ex demo_store demo_mem demo_cfl = Some (put_bin b' ex, st', mem', s', True)"
    "cfl_progress b demo_store demo_mem demo_cfl b' st' mem' s' [0]" by blast
  have "0 \<in> set (tmp_ids demo_cfl @ [0])" by simp
  then have "0 \<notin> set (tmp_ids s') \<longrightarrow> placed st' (cells demo_mem ! 0) (cells mem' ! 0)"
    using P(2) unfolding cfl_progress_def by blast
  with P(1) show ?thesis by blast
qed

text \<open>At the end of the stream no chunk stays collected: each has a good address and is unlocked,
  whether the last container is used enough or its chunks are stored again.\<close>

lemma cfl_end_placed:
  assumes "cfl_ok fp dat D rep opn m n b st mem s" "chunknum fi = STREAM_END" "rep_finger fi = rep"
    and "htable_lookup (bin_cache ex) rep = Some b"
  shows "\<exists>ex' st' mem' s'. cfl_process False lwm reuse opn fi [] b0 ex st mem s = Some (ex', st', mem', s', True) \<and>
    tmp_ids s' = [] \<and> (\<forall>p\<in>set (tmp_ids s). placed st' (cells mem ! p) (cells mem' ! p) \<and> p \<notin> locked mem') \<and>
    (\<forall>a h d. has st a h d \<longrightarrow> has st' a h d)"
proof (cases "cf_tmp_chunks s = []")
  case True
  then show ?thesis using assms(2) by (simp add: cfl_process_def tmp_ids_def)
next
  case False
  have L: "LoadBin ex fi = Some (ex, b)" using assms(3,4) by (simp add: LoadBin_def)
  show ?thesis
  proof (cases "reuse (cf_tmp_length s)")
    case True
    obtain b' st' mem' s' where S: "store_tmp False False opn (cf_tmp_chunks s) b st mem s = Some (b', st', mem', s', True)"
      "cf_tmp_chunks s' = []" "cfl_progress b st mem s b' st' mem' s' []"
      using store_tmp_progress [OF assms(1), of False] by blast
    then have "tmp_ids s' = []" by (simp add: tmp_ids_def)
    moreover have "cfl_process False lwm reuse opn fi [] b0 ex st mem s = Some (put_bin b' ex, st', mem', s', True)"
      using S(1) L True False assms(2) by (simp add: cfl_process_def)
    ultimately show ?thesis using S(3) by (auto simp: cfl_progress_def later_def)
  next
    case nt: False
    have "rdc_ok s" using assms(1) by (simp add: cfl_ok_def)
    from release_tmp_progress [OF assms(1) refl this] obtain mem' s' where
      S: "release_tmp mem s = (mem', s')" "cf_tmp_chunks s' = []" "cfl_progress b st mem s b st mem' s' []" by blast
    then have "tmp_ids s' = []" by (simp add: tmp_ids_def)
    moreover have "cfl_process False lwm reuse opn fi [] b0 ex st mem s = Some (ex, st, mem', s', True)"
      using S(1) L nt False assms(2) by (simp add: cfl_process_def)
    ultimately show ?thesis using S(3) by (auto simp: cfl_progress_def later_def)
  qed
qed

end
