(* ===== verification/Sha1.thy ===== *)
theory Sha1
  imports Prelude
begin

unbundle bit_operations_syntax

text \<open>
  The file fingerprint: SHA-1 (client/lib/sha1.c), a context that takes the message in pieces of
  any size. The theorems compare it with the definition of the hash: the message is padded to
  blocks of 64 bytes and the block function is folded over them.
\<close>

section \<open>The code\<close>

record sha1_context =
  Intermediate_Hash :: "32 word list"
  Length_Low :: "32 word"
  Length_High :: "32 word"
  Message_Block_Index :: nat
  Message_Block :: "byte list"
  Computed :: bool
  Corrupted :: int

abbreviation (input) shaSuccess :: int where "shaSuccess \<equiv> 0"
abbreviation (input) shaStateError :: int where "shaStateError \<equiv> 3"

definition SHA1CircularShift :: "nat \<Rightarrow> 32 word \<Rightarrow> 32 word" where
  "SHA1CircularShift bits w = push_bit bits w OR drop_bit (32 - bits) w"

definition sha1_H0 :: "32 word list" where
  "sha1_H0 = [0x67452301, 0xEFCDAB89, 0x98BADCFE, 0x10325476, 0xC3D2E1F0]"

definition SHA1Init :: "sha1_context \<Rightarrow> sha1_context" where
  "SHA1Init c = c\<lparr>Length_Low := 0, Length_High := 0, Message_Block_Index := 0, Intermediate_Hash := sha1_H0,
     Computed := False, Corrupted := 0\<rparr>"

definition sha1_K :: "32 word list" where
  "sha1_K = [0x5A827999, 0x6ED9EBA1, 0x8F1BBCDC, 0xCA62C1D6]"

text \<open>The 80 words of a block: 16 big-endian words, then each from four earlier ones.\<close>

definition first_words :: "byte list \<Rightarrow> 32 word list" where
  "first_words blk = map (\<lambda>t. push_bit 24 (ucast (blk ! (t * 4))) OR push_bit 16 (ucast (blk ! (t * 4 + 1))) OR
     push_bit 8 (ucast (blk ! (t * 4 + 2))) OR ucast (blk ! (t * 4 + 3))) [0..<16]"

definition schedule :: "byte list \<Rightarrow> 32 word list" where
  "schedule blk = foldl (\<lambda>W t. W @ [SHA1CircularShift 1 (W ! (t - 3) XOR W ! (t - 8) XOR W ! (t - 14) XOR W ! (t - 16))])
     (first_words blk) [16..<80]"

type_synonym sha1_regs = "32 word \<times> 32 word \<times> 32 word \<times> 32 word \<times> 32 word"

text \<open>One round of a loop: \<open>f\<close> and \<open>k\<close> are its function and constant.\<close>

fun sha1_round :: "(32 word \<Rightarrow> 32 word \<Rightarrow> 32 word \<Rightarrow> 32 word) \<Rightarrow> 32 word \<Rightarrow> sha1_regs \<Rightarrow> 32 word \<Rightarrow> sha1_regs" where
  "sha1_round f k (A, B, C, D, E) w =
     (let temp = SHA1CircularShift 5 A + f B C D + E + w + k in (temp, A, SHA1CircularShift 30 B, C, D))"

definition sha1_rounds :: "32 word list \<Rightarrow> sha1_regs \<Rightarrow> sha1_regs" where
  "sha1_rounds W r =
     (let r = foldl (sha1_round (\<lambda>B C D. (B AND C) OR (NOT B AND D)) (sha1_K ! 0)) r (take 20 W);
          r = foldl (sha1_round (\<lambda>B C D. B XOR C XOR D) (sha1_K ! 1)) r (take 20 (drop 20 W));
          r = foldl (sha1_round (\<lambda>B C D. (B AND C) OR (B AND D) OR (C AND D)) (sha1_K ! 2)) r (take 20 (drop 40 W))
      in foldl (sha1_round (\<lambda>B C D. B XOR C XOR D) (sha1_K ! 3)) r (take 20 (drop 60 W)))"

definition process_block :: "32 word list \<Rightarrow> byte list \<Rightarrow> 32 word list" where
  "process_block H blk =
     (let (A, B, C, D, E) = sha1_rounds (schedule blk) (H ! 0, H ! 1, H ! 2, H ! 3, H ! 4)
      in [H ! 0 + A, H ! 1 + B, H ! 2 + C, H ! 3 + D, H ! 4 + E])"

definition SHA1ProcessMessageBlock :: "sha1_context \<Rightarrow> sha1_context" where
  "SHA1ProcessMessageBlock c =
     c\<lparr>Intermediate_Hash := process_block (Intermediate_Hash c) (Message_Block c), Message_Block_Index := 0\<rparr>"

definition put_block :: "byte \<Rightarrow> sha1_context \<Rightarrow> sha1_context" where
  "put_block x c = c\<lparr>Message_Block := (Message_Block c)[Message_Block_Index c := x],
     Message_Block_Index := Message_Block_Index c + 1\<rparr>"

definition sha1_byte :: "sha1_context \<Rightarrow> byte \<Rightarrow> sha1_context" where
  "sha1_byte c x =
     (let c = put_block x c; c = c\<lparr>Length_Low := Length_Low c + 8\<rparr>;
          c = (if Length_Low c = 0
               then let c = c\<lparr>Length_High := Length_High c + 1\<rparr>
                    in if Length_High c = 0 then c\<lparr>Corrupted := 1\<rparr> else c
               else c)
      in if Message_Block_Index c = 64 then SHA1ProcessMessageBlock c else c)"

fun sha1_bytes :: "sha1_context \<Rightarrow> byte list \<Rightarrow> sha1_context" where
  "sha1_bytes c [] = c"
| "sha1_bytes c (x # xs) = (if Corrupted c \<noteq> 0 then c else sha1_bytes (sha1_byte c x) xs)"

definition SHA1Update :: "sha1_context \<Rightarrow> byte list \<Rightarrow> sha1_context \<times> int" where
  "SHA1Update c d =
     (if d = [] then (c, shaSuccess)
      else if Computed c then (c\<lparr>Corrupted := shaStateError\<rparr>, shaStateError)
      else if Corrupted c \<noteq> 0 then (c, Corrupted c)
      else (sha1_bytes c d, shaSuccess))"

text \<open>\<open>while (Message_Block_Index < n) Message_Block[Message_Block_Index++] = 0\<close>\<close>

fun zero_fill :: "nat \<Rightarrow> sha1_context \<Rightarrow> sha1_context" where
  "zero_fill 0 c = c"
| "zero_fill (Suc k) c = zero_fill k (put_block 0 c)"

definition length_bytes :: "32 word \<Rightarrow> 32 word \<Rightarrow> byte list" where
  "length_bytes high low = map (\<lambda>k. ucast (drop_bit k high)) [24, 16, 8, 0] @ map (\<lambda>k. ucast (drop_bit k low)) [24, 16, 8, 0]"

definition SHA1PadMessage :: "sha1_context \<Rightarrow> sha1_context" where
  "SHA1PadMessage c =
     (let c = (if Message_Block_Index c > 55
               then let c = put_block 0x80 c; c = zero_fill (64 - Message_Block_Index c) c;
                        c = SHA1ProcessMessageBlock c
                    in zero_fill (56 - Message_Block_Index c) c
               else let c = put_block 0x80 c in zero_fill (56 - Message_Block_Index c) c);
          c = c\<lparr>Message_Block := take 56 (Message_Block c) @ length_bytes (Length_High c) (Length_Low c)\<rparr>
      in SHA1ProcessMessageBlock c)"

definition digest_bytes :: "32 word list \<Rightarrow> byte list" where
  "digest_bytes H = map (\<lambda>i. ucast (drop_bit (8 * (3 - i mod 4)) (H ! (i div 4)))) [0..<20]"

definition SHA1Final :: "sha1_context \<Rightarrow> sha1_context \<times> byte list option \<times> int" where
  "SHA1Final c =
     (if Corrupted c \<noteq> 0 then (c, None, Corrupted c)
      else let c = (if Computed c then c
                    else (SHA1PadMessage c)\<lparr>Message_Block := replicate 64 0, Length_Low := 0, Length_High := 0, Computed := True\<rparr>)
           in (c, Some (digest_bytes (Intermediate_Hash c)), shaSuccess))"

text \<open>The context starts uninitialised. The result of \<open>SHA1Final\<close> is not looked at.\<close>

definition SHA1Buf :: "sha1_context \<Rightarrow> byte list \<Rightarrow> byte list option" where
  "SHA1Buf junk buf = fst (snd (SHA1Final (fst (SHA1Update (SHA1Init junk) buf))))"

text \<open>
  The results of \<open>read\<close> one after the other, \<open>None\<close> for an error. It is kept in an unsigned
  variable, so -1 passes the test \<open>> 0\<close> and \<open>SHA1Update\<close> runs 4 gigabytes past the buffer: the
  outcome is \<open>None\<close> then.
\<close>

fun sha1_reads :: "sha1_context \<Rightarrow> byte list option list \<Rightarrow> sha1_context option" where
  "sha1_reads c [] = Some c"
| "sha1_reads c (None # rs) = None"
| "sha1_reads c (Some d # rs) = (if d = [] then Some c else sha1_reads (fst (SHA1Update c d)) rs)"

definition SHA1File :: "sha1_context \<Rightarrow> byte list option list option \<Rightarrow> (byte list option \<times> int) option" where
  "SHA1File junk file =
     (case file of
        None \<Rightarrow> Some (None, shaStateError)
      | Some rs \<Rightarrow> map_option (\<lambda>c. (fst (snd (SHA1Final c)), shaSuccess)) (sha1_reads (SHA1Init junk) rs))"

section \<open>The hash of a message\<close>

fun sha1_blocks :: "byte list \<Rightarrow> byte list list" where
  "sha1_blocks m = (if length m < 64 then [] else take 64 m # sha1_blocks (drop 64 m))"

declare sha1_blocks.simps [simp del]

definition be_bytes :: "nat \<Rightarrow> nat \<Rightarrow> byte list" where
  "be_bytes k n = map (\<lambda>i. word_of_nat (n div 256 ^ (k - 1 - i))) [0..<k]"

definition sha1_pad :: "byte list \<Rightarrow> byte list" where
  "sha1_pad m = m @ 0x80 # replicate (if length m mod 64 \<le> 55 then 55 - length m mod 64 else 119 - length m mod 64) 0 @
     be_bytes 8 (8 * length m)"

definition sha1_hash :: "byte list \<Rightarrow> byte list" where
  "sha1_hash m = digest_bytes (foldl process_block sha1_H0 (sha1_blocks (sha1_pad m)))"

definition tail_block :: "byte list \<Rightarrow> byte list" where
  "tail_block m = drop (64 * (length m div 64)) m"

lemma length_tail_block: "length (tail_block m) = length m mod 64"
  by (simp add: tail_block_def minus_mult_div_eq_mod)

lemma sha1_blocks_short: "length m < 64 \<Longrightarrow> sha1_blocks m = []"
  by (simp add: sha1_blocks.simps)

lemma sha1_blocks_64: "length m = 64 \<Longrightarrow> sha1_blocks (m @ r) = m # sha1_blocks r"
  by (subst sha1_blocks.simps) simp

lemma tail_block_short: "length m < 64 \<Longrightarrow> tail_block m = m"
  by (simp add: tail_block_def)

lemma tail_block_step: "64 \<le> length m \<Longrightarrow> tail_block m = tail_block (drop 64 m)"
proof -
  assume m: "64 \<le> length m"
  then have "length m div 64 = Suc ((length m - 64) div 64)" by (simp add: le_div_geq)
  then show ?thesis by (simp add: tail_block_def add.commute)
qed

lemma sha1_blocks_append: "sha1_blocks (m @ r) = sha1_blocks m @ sha1_blocks (tail_block m @ r)"
proof (induction m rule: sha1_blocks.induct)
  case (1 m)
  show ?case
  proof (cases "length m < 64")
    case True
    then show ?thesis by (simp add: sha1_blocks_short tail_block_short)
  next
    case False
    then have "sha1_blocks (m @ r) = take 64 m # sha1_blocks (drop 64 m @ r)" "sha1_blocks m = take 64 m # sha1_blocks (drop 64 m)"
      by (subst sha1_blocks.simps, simp)+
    with 1 False show ?thesis by (simp add: tail_block_step)
  qed
qed

lemma tail_block_snoc: "tail_block (m @ [x]) = (if length m mod 64 = 63 then [] else tail_block m @ [x])"
proof (cases "length m mod 64 = 63")
  case True
  then have "length (tail_block (m @ [x])) = 0" by (simp add: length_tail_block mod_Suc)
  then show ?thesis using True by simp
next
  case False
  then have "Suc (length m) div 64 = length m div 64" by (simp add: div_Suc mod_Suc)
  then show ?thesis using False by (simp add: tail_block_def)
qed

section \<open>A context that has taken a message\<close>

definition absorbed :: "byte list \<Rightarrow> sha1_context \<Rightarrow> bool" where
  "absorbed m c \<longleftrightarrow> \<not> Computed c \<and> Corrupted c = 0 \<and> length (Message_Block c) = 64 \<and>
     Message_Block_Index c = length m mod 64 \<and> take (length m mod 64) (Message_Block c) = tail_block m \<and>
     Intermediate_Hash c = foldl process_block sha1_H0 (sha1_blocks m) \<and>
     unat (Length_High c) * 2 ^ 32 + unat (Length_Low c) = 8 * length m"

lemma absorbed_init: "length (Message_Block junk) = 64 \<Longrightarrow> absorbed [] (SHA1Init junk)"
  by (simp add: absorbed_def SHA1Init_def tail_block_def sha1_blocks_short)

text \<open>The 64-bit length in two words.\<close>

lemma length_carry:
  fixes high low :: "32 word"
  assumes "unat high * 2 ^ 32 + unat low = 8 * n" "8 * Suc n < 2 ^ 64"
  shows "low + 8 = 0 \<Longrightarrow> high + 1 \<noteq> 0 \<and> unat (high + 1) * 2 ^ 32 = 8 * Suc n"
    and "low + 8 \<noteq> 0 \<Longrightarrow> unat high * 2 ^ 32 + unat (low + 8) = 8 * Suc n"
proof -
  have h: "unat (low + 8) = (unat low + 8) mod 2 ^ 32" "unat (high + 1) = (unat high + 1) mod 2 ^ 32"
    by (simp_all add: unat_word_ariths)
  have l: "unat low < 2 ^ 32" "unat high < 2 ^ 32" using unsigned_less [of low, where 'a = nat] unsigned_less [of high, where 'a = nat] by simp_all
  have low8: "unat low \<le> 2 ^ 32 - 8"
  proof -
    have "8 dvd unat high * 2 ^ 32 + unat low" "8 dvd unat high * 2 ^ 32" using assms(1) by simp_all
    then have "8 dvd unat low" using dvd_add_right_iff by blast
    then obtain q where "unat low = 8 * q" by blast
    with l(1) show ?thesis by simp
  qed
  show "unat high * 2 ^ 32 + unat (low + 8) = 8 * Suc n" if "low + 8 \<noteq> 0"
  proof -
    have "unat (low + 8) \<noteq> 0" using that by (simp add: unat_eq_0)
    then have "unat low \<noteq> 2 ^ 32 - 8" using h(1) by auto
    then have "unat (low + 8) = unat low + 8" using low8 h(1) by simp
    with assms(1) show ?thesis by simp
  qed
  show "high + 1 \<noteq> 0 \<and> unat (high + 1) * 2 ^ 32 = 8 * Suc n" if "low + 8 = 0"
  proof -
    have "unat (low + 8) = 0" using that by simp
    then have e: "unat low = 2 ^ 32 - 8" using h(1) low8 l(1) by (cases "unat low = 2 ^ 32 - 8") auto
    then have n: "(unat high + 1) * 2 ^ 32 = 8 * Suc n" using assms(1) by simp
    then have "unat high + 1 < 2 ^ 32" using assms(2) by simp
    then have "unat (high + 1) = unat high + 1" using h(2) by simp
    with n show ?thesis by (metis Suc_eq_plus1 nat.distinct(1) unat_0)
  qed
qed

lemma sha1_byte_absorbed:
  assumes a: "absorbed m c" and m: "8 * Suc (length m) < 2 ^ 64"
  shows "absorbed (m @ [x]) (sha1_byte c x)"
proof -
  let ?n = "length m mod 64"
  have i: "Message_Block_Index c = ?n" "?n < 64" "length (Message_Block c) = 64" "take ?n (Message_Block c) = tail_block m"
    "\<not> Computed c" "Corrupted c = 0" "Intermediate_Hash c = foldl process_block sha1_H0 (sha1_blocks m)"
    using a by (auto simp: absorbed_def)
  let ?B = "(Message_Block c)[?n := x]"
  have tb: "take (Suc ?n) ?B = tail_block m @ [x]" using i(2-4) by (simp add: take_Suc_conv_app_nth)
  have len: "(if Length_Low c + 8 = 0 then unat (Length_High c + 1) * 2 ^ 32 else unat (Length_High c) * 2 ^ 32 + unat (Length_Low c + 8)) =
      8 * Suc (length m)" "Length_Low c + 8 = 0 \<longrightarrow> Length_High c + 1 \<noteq> 0"
    using length_carry [of "Length_High c" "Length_Low c" "length m"] a m by (auto simp: absorbed_def)
  show ?thesis
  proof (cases "?n = 63")
    case True
    then have b: "?B = tail_block m @ [x]" "length (tail_block m @ [x]) = 64" using tb i(3) by (simp_all add: length_tail_block)
    have "sha1_blocks (m @ [x]) = sha1_blocks m @ [tail_block m @ [x]]"
      using sha1_blocks_append [of m "[x]"] sha1_blocks_64 [OF b(2), of "[]"] by (simp add: sha1_blocks_short)
    moreover have "Suc (length m) mod 64 = 0" using True by (simp add: mod_Suc)
    ultimately show ?thesis
      using True i len b(1) by (auto simp: length_tail_block absorbed_def sha1_byte_def put_block_def Let_def SHA1ProcessMessageBlock_def tail_block_snoc)
  next
    case False
    then have "length (tail_block m @ [x]) < 64" using i(2) by (simp add: length_tail_block)
    then have "sha1_blocks (m @ [x]) = sha1_blocks m"
      using sha1_blocks_append [of m "[x]"] by (simp add: sha1_blocks_short)
    moreover have "Suc (length m) mod 64 = Suc ?n" using False i(2) by (simp add: mod_Suc)
    ultimately show ?thesis
      using False i len tb by (auto simp: absorbed_def sha1_byte_def put_block_def Let_def tail_block_snoc)
  qed
qed

lemma sha1_bytes_absorbed: "absorbed m c \<Longrightarrow> 8 * length (m @ d) < 2 ^ 64 \<Longrightarrow> absorbed (m @ d) (sha1_bytes c d)"
proof (induction d arbitrary: m c)
  case (Cons x d)
  have "absorbed (m @ [x]) (sha1_byte c x)" using Cons.prems by (intro sha1_byte_absorbed) auto
  from Cons.IH [OF this] Cons.prems show ?case by (simp add: absorbed_def)
qed simp

lemma SHA1Update_absorbed: "absorbed m c \<Longrightarrow> 8 * length (m @ d) < 2 ^ 64 \<Longrightarrow> absorbed (m @ d) (fst (SHA1Update c d))"
  using sha1_bytes_absorbed [of m c d] by (auto simp: SHA1Update_def absorbed_def)

lemma zero_fill_spec:
  "Message_Block_Index c + k \<le> length (Message_Block c) \<Longrightarrow>
   zero_fill k c = c\<lparr>Message_Block := take (Message_Block_Index c) (Message_Block c) @ replicate k 0 @
     drop (Message_Block_Index c + k) (Message_Block c), Message_Block_Index := Message_Block_Index c + k\<rparr>"
proof (induction k arbitrary: c)
  case (Suc k)
  then show ?case
    by (simp add: put_block_def take_Suc_conv_app_nth replicate_append_same)
qed simp

lemma shift_low:
  assumes "k \<le> 24"
  shows "(h * 2 ^ 32 + l) div 2 ^ k mod 256 = l div 2 ^ k mod (256 :: nat)"
proof -
  have "(2 :: nat) ^ 32 = 2 ^ k * (2 ^ (24 - k) * 2 ^ 8)" unfolding power_add [symmetric] using assms by simp
  then have "(h * 2 ^ 32 + l) div 2 ^ k = ((h * 2 ^ (24 - k) * 2 ^ 8) * 2 ^ k + l) div 2 ^ k" by (simp only: ac_simps)
  also have "\<dots> = h * 2 ^ (24 - k) * 2 ^ 8 + l div 2 ^ k" by simp
  finally show ?thesis by simp
qed

lemma unat_byte: "unat (ucast (drop_bit k w) :: byte) = unat (w :: 32 word) div 2 ^ k mod 256"
  using unsigned_less [of w, where 'a = nat] by (simp add: unsigned_ucast_eq unsigned_drop_bit_eq take_bit_eq_mod drop_bit_eq_div [where 'a = nat])

lemma byte_of_nat_low:
  fixes low :: "32 word"
  shows "k \<le> 24 \<Longrightarrow> word_of_nat ((h * 2 ^ 32 + unat low) div 2 ^ k) = (ucast (drop_bit k low) :: byte)"
  using shift_low [of k h "unat low"]
  by (intro word_unat_eq_iff [THEN iffD2]) (simp only: unat_byte unsigned_of_nat take_bit_eq_mod len_num1 len_bit0 mult_1_right, simp)

lemma byte_of_nat_high:
  fixes low high :: "32 word"
  shows "word_of_nat ((unat high * 2 ^ 32 + unat low) div 2 ^ (32 + k)) = (ucast (drop_bit k high) :: byte)"
proof -
  have "unat low < 2 ^ 32" using unsigned_less [of low, where 'a = nat] by simp
  then have "(unat high * 2 ^ 32 + unat low) div 2 ^ (32 + k) = unat high div 2 ^ k"
    unfolding power_add div_mult2_eq by simp
  then show ?thesis
    by (intro word_unat_eq_iff [THEN iffD2]) (simp only: unat_byte unsigned_of_nat take_bit_eq_mod len_num1 len_bit0 mult_1_right, simp)
qed

lemma be_bytes_8:
  assumes "unat high * 2 ^ 32 + unat low = n"
  shows "be_bytes 8 n = length_bytes high low"
proof -
  have L: "word_of_nat (n div 2 ^ k) = (ucast (drop_bit k low) :: byte)" if "k \<le> 24" for k
    using byte_of_nat_low [OF that, of "unat high" low] unfolding assms .
  have H: "word_of_nat (n div 2 ^ (32 + k)) = (ucast (drop_bit k high) :: byte)" for k
    using byte_of_nat_high [of high low k] unfolding assms .
  have e: "be_bytes 8 n = map (\<lambda>k. word_of_nat (n div 2 ^ (32 + k))) [24, 16, 8, 0] @ map (\<lambda>k. word_of_nat (n div 2 ^ k)) [24, 16, 8, 0]"
    by (simp add: be_bytes_def upt_rec)
  have "map (\<lambda>k. word_of_nat (n div 2 ^ k)) [24, 16, 8, 0] = map (\<lambda>k. ucast (drop_bit k low) :: byte) [24, 16, 8, 0]"
    by (rule map_cong [OF refl], rule L) auto
  then show ?thesis unfolding e length_bytes_def H by (simp only:)
qed

lemma length_length_bytes [simp]: "length (length_bytes high low) = 8"
  by (simp add: length_bytes_def)

lemma put_zeros:
  assumes "length (Message_Block c) = 64" "Message_Block_Index c = n" "take n (Message_Block c) = r" "n < 64" "k \<le> 63 - n"
  shows "take (Suc n + k) (Message_Block (zero_fill k (put_block x c))) = r @ x # replicate k 0"
    "Message_Block_Index (zero_fill k (put_block x c)) = Suc n + k"
    "length (Message_Block (zero_fill k (put_block x c))) = 64"
    "Intermediate_Hash (zero_fill k (put_block x c)) = Intermediate_Hash c"
    "Length_High (zero_fill k (put_block x c)) = Length_High c" "Length_Low (zero_fill k (put_block x c)) = Length_Low c"
proof -
  have z: "zero_fill k (put_block x c) = (put_block x c)\<lparr>Message_Block := take (Suc n) ((Message_Block c)[n := x]) @ replicate k 0 @
      drop (Suc n + k) ((Message_Block c)[n := x]), Message_Block_Index := Suc n + k\<rparr>"
    using assms by (subst zero_fill_spec) (simp_all add: put_block_def)
  have "take (Suc n) ((Message_Block c)[n := x]) = r @ [x]" using assms by (simp add: take_Suc_conv_app_nth)
  moreover have "length r = n" using assms by auto
  ultimately show "take (Suc n + k) (Message_Block (zero_fill k (put_block x c))) = r @ x # replicate k 0"
    "Message_Block_Index (zero_fill k (put_block x c)) = Suc n + k" "length (Message_Block (zero_fill k (put_block x c))) = 64"
    "Intermediate_Hash (zero_fill k (put_block x c)) = Intermediate_Hash c"
    "Length_High (zero_fill k (put_block x c)) = Length_High c" "Length_Low (zero_fill k (put_block x c)) = Length_Low c"
    using assms unfolding z by (simp_all add: put_block_def)
qed

lemma process_block_fields [simp]:
  "Message_Block_Index (SHA1ProcessMessageBlock c) = 0" "Message_Block (SHA1ProcessMessageBlock c) = Message_Block c"
  "Length_High (SHA1ProcessMessageBlock c) = Length_High c" "Length_Low (SHA1ProcessMessageBlock c) = Length_Low c"
  "Intermediate_Hash (SHA1ProcessMessageBlock c) = process_block (Intermediate_Hash c) (Message_Block c)"
  by (simp_all add: SHA1ProcessMessageBlock_def)

lemma put_block_index [simp]: "Message_Block_Index (put_block x c) = Suc (Message_Block_Index c)"
  by (simp add: put_block_def)

definition sha1_finish :: "sha1_context \<Rightarrow> sha1_context" where
  "sha1_finish c = SHA1ProcessMessageBlock
     (c\<lparr>Message_Block := take 56 (Message_Block c) @ length_bytes (Length_High c) (Length_Low c)\<rparr>)"

lemma SHA1PadMessage_cases:
  "Message_Block_Index c \<le> 55 \<Longrightarrow>
     SHA1PadMessage c = sha1_finish (zero_fill (55 - Message_Block_Index c) (put_block 0x80 c))"
  "55 < Message_Block_Index c \<Longrightarrow>
     SHA1PadMessage c = sha1_finish (zero_fill 56 (SHA1ProcessMessageBlock (zero_fill (63 - Message_Block_Index c) (put_block 0x80 c))))"
  by (simp_all add: SHA1PadMessage_def sha1_finish_def Let_def)

lemma sha1_finish_hash:
  "Intermediate_Hash (sha1_finish c) =
     process_block (Intermediate_Hash c) (take 56 (Message_Block c) @ length_bytes (Length_High c) (Length_Low c))"
  by (simp add: sha1_finish_def)

lemma SHA1PadMessage_spec:
  assumes a: "absorbed m c"
  shows "Intermediate_Hash (SHA1PadMessage c) = foldl process_block sha1_H0 (sha1_blocks (sha1_pad m))"
proof -
  let ?n = "length m mod 64" and ?r = "tail_block m" and ?L = "length_bytes (Length_High c) (Length_Low c)"
  have i: "length (Message_Block c) = 64" "Message_Block_Index c = ?n" "take ?n (Message_Block c) = ?r" "?n < 64"
    "Intermediate_Hash c = foldl process_block sha1_H0 (sha1_blocks m)" "be_bytes 8 (8 * length m) = ?L" "length ?r = ?n"
    using a be_bytes_8 [of "Length_High c" "Length_Low c" "8 * length m"] by (auto simp: absorbed_def length_tail_block)
  show ?thesis
  proof (cases "?n \<le> 55")
    case True
    let ?c = "zero_fill (55 - ?n) (put_block 0x80 c)"
    note Z = put_zeros [OF i(1-4), of "55 - ?n" "0x80"]
    have k: "55 - ?n \<le> 63 - ?n" "Suc ?n + (55 - ?n) = 56" using True by simp_all
    let ?B = "(?r @ 0x80 # replicate (55 - ?n) 0) @ ?L"
    have B: "length ?B = 64" using True i(7) by simp
    have "sha1_blocks (sha1_pad m) = sha1_blocks m @ [?B]"
      using True i(6) sha1_blocks_append [of m] sha1_blocks_64 [OF B, of "[]"] by (simp add: sha1_pad_def sha1_blocks_short)
    moreover have "SHA1PadMessage c = sha1_finish ?c" using SHA1PadMessage_cases(1) [of c] True i(2) by simp
    ultimately show ?thesis using Z [OF k(1)] k(2) i(5) by (simp add: sha1_finish_hash)
  next
    case False
    let ?c1 = "zero_fill (63 - ?n) (put_block 0x80 c)"
    note Z = put_zeros [OF i(1-4), of "63 - ?n" "0x80"]
    have k: "63 - ?n \<le> 63 - ?n" "Suc ?n + (63 - ?n) = 64" using i(4) by simp_all
    let ?B1 = "?r @ 0x80 # replicate (63 - ?n) 0" and ?B2 = "replicate 56 0 @ ?L"
    have B: "length ?B1 = 64" "length ?B2 = 64" using i(4,7) by simp_all
    have m1: "Message_Block ?c1 = ?B1" using Z(1,3) [OF k(1)] k(2) by simp
    let ?c2 = "SHA1ProcessMessageBlock ?c1"
    have c2: "Message_Block_Index ?c2 = 0" "Message_Block ?c2 = ?B1" "Intermediate_Hash ?c2 = process_block (Intermediate_Hash c) ?B1"
      using m1 Z(4) [OF k(1)] by simp_all
    have z2: "zero_fill 56 ?c2 = ?c2\<lparr>Message_Block := replicate 56 0 @ drop 56 ?B1, Message_Block_Index := 56\<rparr>"
      using c2 B(1) by (subst zero_fill_spec) simp_all
    have r: "replicate (119 - ?n) 0 = replicate (63 - ?n) 0 @ replicate 56 (0 :: byte)"
      using i(4) by (simp flip: replicate_add)
    have "sha1_blocks (sha1_pad m) = sha1_blocks m @ sha1_blocks (?B1 @ ?B2 @ [])"
      using False i(6) sha1_blocks_append [of m] r by (simp add: sha1_pad_def)
    also have "sha1_blocks (?B1 @ ?B2 @ []) = [?B1, ?B2]"
      unfolding sha1_blocks_64 [OF B(1)] sha1_blocks_64 [OF B(2)] by (simp add: sha1_blocks_short)
    finally have "sha1_blocks (sha1_pad m) = sha1_blocks m @ [?B1, ?B2]" .
    moreover have "SHA1PadMessage c = sha1_finish (zero_fill 56 ?c2)" using SHA1PadMessage_cases(2) [of c] False i(2) by simp
    moreover have "Intermediate_Hash (zero_fill 56 ?c2) = Intermediate_Hash ?c2" "take 56 (Message_Block (zero_fill 56 ?c2)) = replicate 56 0"
      "Length_High (zero_fill 56 ?c2) = Length_High c" "Length_Low (zero_fill 56 ?c2) = Length_Low c"
      unfolding z2 using Z(5,6) [OF k(1)] by simp_all
    ultimately show ?thesis using c2(3) i(5) by (simp add: sha1_finish_hash)
  qed
qed

lemma SHA1Final_absorbed: "absorbed m c \<Longrightarrow> fst (snd (SHA1Final c)) = Some (sha1_hash m)"
  using SHA1PadMessage_spec [of m c] by (simp add: SHA1Final_def absorbed_def sha1_hash_def Let_def)

lemma sha1_reads_absorbed:
  "absorbed m c \<Longrightarrow> \<forall>d\<in>set ds. d \<noteq> [] \<Longrightarrow> 8 * length (m @ concat ds) < 2 ^ 64 \<Longrightarrow>
   \<exists>c'. sha1_reads c (map Some ds) = Some c' \<and> absorbed (m @ concat ds) c'"
proof (induction ds arbitrary: m c)
  case (Cons d ds)
  have "absorbed (m @ d) (fst (SHA1Update c d))" using Cons.prems by (intro SHA1Update_absorbed) auto
  from Cons.IH [OF this] Cons.prems show ?case by simp
qed simp

text \<open>C28: \<open>SHA1Buf\<close> computes the hash of its buffer: the bytes taken one by one, the two length words and
  the padding in place give the blocks of the padded message. The context may start with any
  contents; the message may have up to \<open>2 ^ 61 - 1\<close> bytes.\<close>

theorem sha1_buf_correct:
  assumes "length (Message_Block junk) = 64" "8 * length m < 2 ^ 64"
  shows "SHA1Buf junk m = Some (sha1_hash m)"
  using SHA1Final_absorbed [OF SHA1Update_absorbed [OF absorbed_init [OF assms(1)], of m]] assms(2)
  by (simp add: SHA1Buf_def)

definition junk_context :: sha1_context where
  "junk_context = \<lparr>Intermediate_Hash = [1, 2, 3, 4, 5], Length_Low = 7, Length_High = 9, Message_Block_Index = 3,
     Message_Block = replicate 64 255, Computed = True, Corrupted = 2\<rparr>"

lemma sha1_buf_correct_witness: "SHA1Buf junk_context [97, 98, 99] = Some (sha1_hash [97, 98, 99])"
  by (rule sha1_buf_correct) (simp_all add: junk_context_def)

text \<open>The fingerprint of a file does not depend on how \<open>read\<close> cuts it up: for any sequence of
  non-empty reads up to the end of the file it is the hash of all bytes read.\<close>

lemma sha1_file_pieces:
  assumes "length (Message_Block junk) = 64" "\<forall>d\<in>set ds. d \<noteq> []" "8 * length (concat ds) < 2 ^ 64"
  shows "SHA1File junk (Some (map Some ds)) = Some (Some (sha1_hash (concat ds)), shaSuccess)"
  using sha1_reads_absorbed [OF absorbed_init [OF assms(1)] assms(2)] assms(3) SHA1Final_absorbed
  by (auto simp: SHA1File_def)

text \<open>A read error is taken for 4 gigabytes of data: the unsigned \<open>bufLength\<close> makes -1 pass the test,
  and \<open>SHA1Update\<close> runs past the end of its buffer.\<close>

lemma sha1_file_read_error:
  "\<forall>d\<in>set ds. d \<noteq> [] \<Longrightarrow> SHA1File junk (Some (map Some ds @ None # rs)) = None"
proof -
  assume d: "\<forall>d\<in>set ds. d \<noteq> []"
  have "sha1_reads c (map Some ds @ None # rs) = None" for c
    using d by (induction ds arbitrary: c) auto
  then show ?thesis by (simp add: SHA1File_def)
qed

end
