(* ===== verification/Bnet.thy ===== *)
theory Bnet
  imports Prelude
begin

text \<open>
  Messages over a stream socket (client/lib/bnet.c; the server has the same file). A message is its
  length in network order and its bytes; a length that is not positive is a signal. What a single
  \<open>read\<close> or \<open>write\<close> does is a schedule, so the theorems hold for any fragmentation: it moves \<open>k\<close>
  bytes (no more than asked for and, for a read, than have arrived; 0 at the end of the stream), is
  interrupted, or fails. A schedule that is used up means that the call blocks for ever: \<open>None\<close>.
  Connecting, accepting and the socket options are left to the system.
\<close>

datatype io = Moved nat | Interrupted | Broken

text \<open>The bytes that are moved, and what is left of the streams; \<open>False\<close> for ERROR.\<close>

fun readn :: "io list \<Rightarrow> nat \<Rightarrow> byte list \<Rightarrow> byte list \<Rightarrow> (bool \<times> byte list \<times> byte list \<times> io list) option" where
  "readn s 0 inp got = Some (True, got, inp, s)"
| "readn [] (Suc n) inp got = None"
| "readn (Interrupted # s) (Suc n) inp got = readn s (Suc n) inp got"
| "readn (Broken # s) (Suc n) inp got = Some (False, got, inp, s)"
| "readn (Moved k # s) (Suc n) inp got =
     (if k = 0 then Some (True, got, inp, s) else readn s (Suc n - k) (drop k inp) (got @ take k inp))"

fun writen :: "io list \<Rightarrow> byte list \<Rightarrow> byte list \<Rightarrow> (bool \<times> byte list \<times> io list) option" where
  "writen s [] out = Some (True, out, s)"
| "writen [] (x # xs) out = None"
| "writen (Interrupted # s) (x # xs) out = writen s (x # xs) out"
| "writen (Broken # s) (x # xs) out = Some (False, out, s)"
| "writen (Moved k # s) (x # xs) out =
     (if k = 0 then Some (False, out, s) else writen s (drop k (x # xs)) (out @ take k (x # xs)))"

definition htonl :: "int \<Rightarrow> byte list" where
  "htonl n = rev (put_int 4 n)"

definition ntohl :: "byte list \<Rightarrow> int" where
  "ntohl b = get_int 4 (rev b)"

text \<open>The return value, the bytes on the wire and the rest of the schedule.\<close>

definition bnet_send :: "io list \<Rightarrow> byte list \<Rightarrow> byte list \<Rightarrow> (int \<times> byte list \<times> io list) option" where
  "bnet_send s msg out =
     (case writen s (htonl (int (length msg))) out of
        None \<Rightarrow> None
      | Some (ok, out, s) \<Rightarrow>
          if \<not> ok then Some (ERROR, out, s)
          else map_option (\<lambda>(ok, out, s). (if ok then int (length msg) else ERROR, out, s)) (writen s msg out))"

definition bnet_signal :: "io list \<Rightarrow> int \<Rightarrow> byte list \<Rightarrow> (int \<times> byte list \<times> io list) option" where
  "bnet_signal s sig out = map_option (\<lambda>(ok, out, s). (if ok then 0 else ERROR, out, s)) (writen s (htonl sig) out)"

text \<open>
  The return value, \<open>*len\<close> if it was set, the bytes stored at \<open>msg\<close> (a NUL follows them), the rest of
  the stream and of the schedule.
\<close>

definition bnet_recv :: "io list \<Rightarrow> byte list \<Rightarrow> (int \<times> int option \<times> byte list \<times> byte list \<times> io list) option" where
  "bnet_recv s inp =
     (case readn s 4 inp [] of
        None \<Rightarrow> None
      | Some (ok, h, inp, s) \<Rightarrow>
          if \<not> ok \<or> length h \<noteq> 4 then Some (ERROR, None, [], inp, s)
          else let len = ntohl h in
            if len \<le> 0 then Some (len, Some len, [], inp, s)
            else map_option (\<lambda>(ok, d, inp, s).
                if ok then (int (length d), Some len, d, inp, s) else (ERROR, Some len, d, inp, s))
              (readn s (nat len) inp []))"

section \<open>Fragmentation does not matter\<close>

text \<open>\<open>moves s n s'\<close>: the schedule \<open>s\<close> moves exactly \<open>n\<close> bytes without a failure and leaves \<open>s'\<close>.\<close>

inductive moves :: "io list \<Rightarrow> nat \<Rightarrow> io list \<Rightarrow> bool" where
  all_moved: "moves s 0 s"
| interrupted: "moves s (Suc n) s' \<Longrightarrow> moves (Interrupted # s) (Suc n) s'"
| moved: "0 < k \<Longrightarrow> k \<le> n \<Longrightarrow> moves s (n - k) s' \<Longrightarrow> moves (Moved k # s) n s'"

lemma moved_all: "0 < k \<Longrightarrow> moves (Moved k # s) k s"
  by (rule moved) (simp_all add: all_moved)

lemma moved_step: "moves s n s' \<Longrightarrow> 0 < k \<Longrightarrow> moves (Moved k # s) (n + k) s'"
  by (rule moved) simp_all

lemma readn_moves: "moves s n s' \<Longrightarrow> n \<le> length inp \<Longrightarrow> readn s n inp got = Some (True, got @ take n inp, drop n inp, s')"
proof (induction s n s' arbitrary: inp got rule: moves.induct)
  case (moved k n s s')
  then obtain m where n: "n = Suc m" by (cases n) auto
  have "take k inp @ take (n - k) (drop k inp) = take n inp" using moved.hyps(2) by (metis le_add_diff_inverse take_add)
  moreover have "drop (n - k) (drop k inp) = drop n inp" using moved.hyps(2) by simp
  ultimately show ?case using moved n by simp
qed simp_all

lemma writen_moves: "moves s (length d) s' \<Longrightarrow> writen s d out = Some (True, out @ d, s')"
proof (induction s "length d" s' arbitrary: d out rule: moves.induct)
  case (interrupted s n s')
  then show ?case by (cases d) auto
next
  case (moved k s s')
  then obtain x xs where d: "d = x # xs" by (cases d) auto
  have "writen s (drop k d) (out @ take k d) = Some (True, (out @ take k d) @ drop k d, s')" using moved by simp
  with d moved.hyps(1) show ?case by simp
qed simp

text \<open>What was written is always a prefix of the message, whatever happens.\<close>

lemma writen_prefix: "writen s d out = Some (ok, out', s') \<Longrightarrow> \<exists>k. out' = out @ take k d \<and> (ok \<longrightarrow> out' = out @ d)"
proof (induction s d out rule: writen.induct)
  case (5 k s x xs out)
  show ?case
  proof (cases "k = 0")
    case True
    with 5 show ?thesis by (auto intro: exI [of _ 0])
  next
    case False
    then obtain j where "out' = (out @ take k (x # xs)) @ take j (drop k (x # xs))" "ok \<longrightarrow> out' = (out @ take k (x # xs)) @ drop k (x # xs)"
      using 5 by auto
    moreover have "take k (x # xs) @ take j (drop k (x # xs)) = take (k + j) (x # xs)" by (simp add: take_add)
    ultimately show ?thesis by (metis append.assoc append_take_drop_id)
  qed
qed (auto intro: exI [of _ 0])

lemma length_htonl [simp]: "length (htonl n) = 4"
  by (simp add: htonl_def)

lemma ntohl_htonl: "fits 4 n \<Longrightarrow> ntohl (htonl n) = n"
  by (simp add: ntohl_def htonl_def)

section \<open>Streams of messages\<close>

datatype packet = Data "byte list" | Signal int

text \<open>Sending a list of messages and signals; what the other side hears is the list of results.\<close>

fun send_packet :: "io list \<Rightarrow> packet \<Rightarrow> byte list \<Rightarrow> (int \<times> byte list \<times> io list) option" where
  "send_packet s (Data d) out = bnet_send s d out"
| "send_packet s (Signal n) out = bnet_signal s n out"

fun packet_ok :: "packet \<Rightarrow> bool" where
  "packet_ok (Data d) \<longleftrightarrow> d \<noteq> [] \<and> length d < 2147483648"
| "packet_ok (Signal n) \<longleftrightarrow> n \<le> 0 \<and> - 2147483648 \<le> n"

fun heard :: "packet \<Rightarrow> int \<times> int option \<times> byte list" where
  "heard (Data d) = (int (length d), Some (int (length d)), d)"
| "heard (Signal n) = (n, Some n, [])"

fun wire :: "packet \<Rightarrow> byte list" where
  "wire (Data d) = htonl (int (length d)) @ d"
| "wire (Signal n) = htonl n"

text \<open>A schedule that moves the header and then the body.\<close>

definition packet_moves :: "io list \<Rightarrow> packet \<Rightarrow> io list \<Rightarrow> bool" where
  "packet_moves s p s' \<longleftrightarrow> (\<exists>s1. moves s 4 s1 \<and> moves s1 (length (wire p) - 4) s')"

lemma send_packet_wire:
  assumes "packet_moves s p s'"
  shows "\<exists>r. send_packet s p out = Some (r, out @ wire p, s') \<and> r \<noteq> ERROR"
proof -
  obtain s1 where s1: "moves s 4 s1" "moves s1 (length (wire p) - 4) s'" using assms by (auto simp: packet_moves_def)
  have h: "writen s (htonl n) out = Some (True, out @ htonl n, s1)" for n out
    using s1(1) writen_moves [of s "htonl n"] by simp
  show ?thesis
  proof (cases p)
    case (Data d)
    then have "writen s1 d (out @ htonl (int (length d))) = Some (True, (out @ htonl (int (length d))) @ d, s')"
      using s1(2) writen_moves [of s1 d] by simp
    with h Data show ?thesis by (simp add: bnet_send_def)
  next
    case (Signal n)
    then have "s' = s1" using s1(2) by (auto elim: moves.cases)
    with h Signal show ?thesis by (simp add: bnet_signal_def)
  qed
qed

lemma recv_wire:
  assumes "packet_ok p" "packet_moves s p s'"
  shows "\<exists>r l d. heard p = (r, l, d) \<and> bnet_recv s (wire p @ rest) = Some (r, l, d, rest, s')"
proof -
  obtain s1 where s1: "moves s 4 s1" "moves s1 (length (wire p) - 4) s'" using assms by (auto simp: packet_moves_def)
  have h: "readn s 4 (htonl n @ r) [] = Some (True, htonl n, r, s1)" for n r
    using readn_moves [OF s1(1), of "htonl n @ r" "[]"] by simp
  show ?thesis
  proof (cases p)
    case (Data d)
    then have "readn s1 (length d) (d @ rest) [] = Some (True, d, rest, s')"
      using s1(2) readn_moves [of s1 "length d" s' "d @ rest" "[]"] by simp
    with h Data assms(1) show ?thesis by (simp add: bnet_recv_def ntohl_htonl)
  next
    case (Signal n)
    then have "s' = s1" using s1(2) by (auto elim: moves.cases)
    with h Signal assms(1) show ?thesis by (simp add: bnet_recv_def ntohl_htonl)
  qed
qed

section \<open>What a receiver sees\<close>

text \<open>
  The return value, \<open>len\<close> and the buffer after \<open>bnet_recv\<close>. The bytes of a buffer that was cleared
  are followed by zeros, of any other by a zero and by what was there before.
\<close>

definition net_recv :: "packet list \<Rightarrow> byte list \<Rightarrow> int \<Rightarrow> int \<times> int \<times> byte list \<times> packet list" where
  "net_recv ps buf len =
     (case ps of
        [] \<Rightarrow> (ERROR, len, buf, [])
      | p # ps \<Rightarrow>
          (case heard p of (r, l, d) \<Rightarrow>
             (r, (case l of None \<Rightarrow> len | Some l \<Rightarrow> l), (if d = [] then buf else d), ps)))"

lemma net_recv_simps [simp]:
  "net_recv [] buf len = (ERROR, len, buf, [])"
  "net_recv (Data d # ps) buf len = (int (length d), int (length d), (if d = [] then buf else d), ps)"
  "net_recv (Signal n # ps) buf len = (n, n, buf, ps)"
  by (simp_all add: net_recv_def)

lemma net_recv_shorter: "net_recv ps buf len = (r, l, d, ps') \<Longrightarrow> length ps' \<le> length ps \<and> (ps \<noteq> [] \<longrightarrow> length ps' < length ps)"
  by (auto simp: net_recv_def split: list.splits prod.splits)

section \<open>Sequences of packets\<close>

fun send_all :: "io list \<Rightarrow> packet list \<Rightarrow> byte list \<Rightarrow> (byte list \<times> io list) option" where
  "send_all s [] out = Some (out, s)"
| "send_all s (p # ps) out =
     (case send_packet s p out of None \<Rightarrow> None | Some (r, out, s) \<Rightarrow> if r = ERROR then None else send_all s ps out)"

fun recv_all :: "io list \<Rightarrow> nat \<Rightarrow> byte list \<Rightarrow> ((int \<times> int option \<times> byte list) list \<times> byte list) option" where
  "recv_all s 0 inp = Some ([], inp)"
| "recv_all s (Suc n) inp =
     (case bnet_recv s inp of
        None \<Rightarrow> None
      | Some (r, l, d, inp, s) \<Rightarrow> map_option (\<lambda>(hs, inp). ((r, l, d) # hs, inp)) (recv_all s n inp))"

fun all_move :: "io list \<Rightarrow> packet list \<Rightarrow> bool" where
  "all_move s [] \<longleftrightarrow> True"
| "all_move s (p # ps) \<longleftrightarrow> (\<exists>s'. packet_moves s p s' \<and> all_move s' ps)"

lemma send_all_wire: "all_move s ps \<Longrightarrow> \<exists>s'. send_all s ps out = Some (out @ concat (map wire ps), s')"
proof (induction ps arbitrary: s out)
  case (Cons p ps)
  then obtain s1 where s1: "packet_moves s p s1" "all_move s1 ps" by auto
  obtain r where "send_packet s p out = Some (r, out @ wire p, s1)" "r \<noteq> ERROR" using send_packet_wire [OF s1(1)] by blast
  with Cons.IH [OF s1(2), of "out @ wire p"] show ?case by auto
qed simp

lemma recv_all_wire: "all_move s ps \<Longrightarrow> list_all packet_ok ps \<Longrightarrow>
   recv_all s (length ps) (concat (map wire ps) @ rest) = Some (map heard ps, rest)"
proof (induction ps arbitrary: s)
  case (Cons p ps)
  then obtain s1 where s1: "packet_moves s p s1" "all_move s1 ps" by auto
  have "packet_ok p" using Cons.prems(2) by simp
  from recv_wire [OF this s1(1), of "concat (map wire ps) @ rest"] obtain r l d where
    "heard p = (r, l, d)" "bnet_recv s (wire p @ concat (map wire ps) @ rest) = Some (r, l, d, concat (map wire ps) @ rest, s1)" by blast
  with Cons.IH [OF s1(2)] Cons.prems(2) show ?case by simp
qed simp

text \<open>C29: the stream carries messages and signals: however the writes and the reads are fragmented and
  interrupted, a sequence of non-empty messages and signals that was sent without an error is
  received message by message, in order, with the right return values and lengths.\<close>

theorem bnet_roundtrip:
  assumes "send_all s ps [] = Some (out, s')" "all_move s ps" "all_move t ps" "list_all packet_ok ps"
  shows "recv_all t (length ps) (out @ rest) = Some (map heard ps, rest)"
proof -
  have "out = concat (map wire ps)" using send_all_wire [OF assms(2), of "[]"] assms(1) by auto
  then show ?thesis using recv_all_wire [OF assms(3,4)] by simp
qed

lemma bnet_roundtrip_witness:
  "\<exists>out s'. send_all [Moved 3, Interrupted, Moved 1, Moved 2, Moved 4] [Data [104, 105], Signal (-6)] [] = Some (out, s') \<and>
     recv_all [Moved 4, Moved 1, Interrupted, Moved 1, Moved 2, Moved 2] 2 out = Some ([(2, Some 2, [104, 105]), (-6, Some (-6), [])], [])"
proof -
  let ?ps = "[Data [104, 105], Signal (-6)]"
  have i: "moves (Interrupted # Moved 1 # s) 1 s" for s using interrupted [of "Moved 1 # s" 0 s] moved_all [of 1 s] by simp
  have m: "moves (Moved 3 # Interrupted # Moved 1 # s) 4 s" "moves (Moved 2 # s) 2 s" "moves (Moved 4 # s) 4 s"
    "moves (Moved 1 # Interrupted # Moved 1 # s) 2 s" "moves (Moved 2 # Moved 2 # s) 4 s" for s
    using moved_step [OF i, of 3 s] moved_step [OF i, of 1 s] moved_all [of 2 s] moved_all [of 4 s]
      moved_step [OF moved_all [of 2 s], of 2] by (simp_all add: numeral_eq_Suc)
  have s: "all_move [Moved 3, Interrupted, Moved 1, Moved 2, Moved 4] ?ps"
    "all_move [Moved 4, Moved 1, Interrupted, Moved 1, Moved 2, Moved 2] ?ps"
    using m all_moved by (auto simp: packet_moves_def) blast+
  obtain out s' where o: "send_all [Moved 3, Interrupted, Moved 1, Moved 2, Moved 4] ?ps [] = Some (out, s')"
    using send_all_wire [OF s(1)] by blast
  have "list_all packet_ok ?ps" "length ?ps = 2" "map heard ?ps = [(2, Some 2, [104, 105]), (-6, Some (-6), [])]" by simp_all
  then have "recv_all [Moved 4, Moved 1, Interrupted, Moved 1, Moved 2, Moved 2] 2 (out @ []) =
      Some ([(2, Some 2, [104, 105]), (-6, Some (-6), [])], [])"
    using bnet_roundtrip [OF o s, of "[]"] by (simp only:)
  with o show ?thesis unfolding append_Nil2 by blast
qed

text \<open>A connection that breaks off inside a message is not an error: the call returns the number of
  bytes that came, while \<open>*len\<close> is the length that was announced.\<close>

lemma bnet_recv_truncated:
  assumes "moves s 4 s1" "moves s1 (length d) (Moved 0 # s2)" "length d < n" "n < 2147483648"
  shows "bnet_recv s (htonl (int n) @ d) = Some (int (length d), Some (int n), d, [], s2)"
proof -
  have h: "readn s 4 (htonl (int n) @ d) [] = Some (True, htonl (int n), d, s1)"
    using readn_moves [OF assms(1), of "htonl (int n) @ d" "[]"] by simp
  have b: "readn s1 m d got = Some (True, got @ d, [], s2)" if "length d < m" "moves s1 (length d) (Moved 0 # s2)" for m d got s1
    using that(2,1)
  proof (induction s1 "length d" "Moved 0 # s2" arbitrary: d m got rule: moves.induct)
    case all_moved
    then show ?case by (cases m) auto
  next
    case (interrupted s n)
    then show ?case by (cases m) auto
  next
    case (moved k s)
    then obtain m' where m: "m = Suc m'" by (cases m) auto
    have "readn s (m - k) (drop k d) (got @ take k d) = Some (True, (got @ take k d) @ drop k d, [], s2)"
      using moved by (intro moved.hyps(4)) auto
    with m moved.hyps(1) show ?case by simp
  qed
  have "readn s1 n d [] = Some (True, d, [], s2)" using b [OF assms(3,2)] by simp
  with h assms(3,4) show ?thesis by (simp add: bnet_recv_def ntohl_htonl)
qed

end
