(* ===== verification/SHtable.thy ===== *)
theory SHtable
  imports Htable
begin

text \<open>
  The server's hash table (server/lib/htable.c, htable.h). It hashes a key by its first four bytes,
  remembers the hash in every item, leaves the hash and the bucket of the last lookup in the table
  (\<open>htable_add\<close> uses them without looking again), and refuses a key that it already holds. An item
  is what C reaches through its embedded \<open>hlink\<close>: the hash, the key and the value. As in the
  client's table the counters are \<open>nat\<close>.
\<close>

unbundle bit_operations_syntax

type_synonym 'v hitem = "32 word \<times> byte list \<times> 'v"

record 'v stable =
  st_table :: "'v hitem list list"
  st_keylen :: nat
  st_num :: nat
  st_max :: nat
  st_grows :: nat
  st_replaced :: nat
  st_buckets :: nat
  st_hash :: "32 word"
  st_index :: nat
  st_mask :: "32 word"
  st_rshift :: "32 word"
  st_walkptr :: "'v hitem list"
  st_walk_index :: nat

section \<open>Operations\<close>

text \<open>\<open>tbl->hash = *(uint32_t *)key; tbl->index = tbl->hash & tbl->mask;\<close>\<close>

definition key_hash :: "byte list \<Rightarrow> 32 word" where
  "key_hash key = word_of_nat (le_val (take 4 key))"

definition st_hash_index :: "'v stable \<Rightarrow> byte list \<Rightarrow> 'v stable" where
  "st_hash_index t key = t\<lparr>st_hash := key_hash key, st_index := unat (key_hash key AND st_mask t)\<rparr>"

text \<open>\<open>pwr_loop\<close> is the same loop as in the client's \<open>init\<close>.\<close>

definition stable_of_pwr :: "nat \<Rightarrow> nat \<Rightarrow> 'v stable" where
  "stable_of_pwr keylen pwr = \<lparr>
     st_table = replicate (2 ^ pwr) [],
     st_keylen = keylen,
     st_num = 0,
     st_max = 2 ^ pwr * 4,
     st_grows = 0,
     st_replaced = 0,
     st_buckets = 2 ^ pwr,
     st_hash = 0,
     st_index = 0,
     st_mask = NOT (push_bit pwr (NOT 0)),
     st_rshift = 30 - word_of_nat pwr,
     st_walkptr = [],
     st_walk_index = 0\<rparr>"

definition st_init :: "nat \<Rightarrow> int \<Rightarrow> 'v stable option" where
  "st_init keylen tsize = map_option (stable_of_pwr keylen) (pwr_loop (tsize div 4) 0)"

definition st_size :: "'v stable \<Rightarrow> nat" where
  "st_size t = st_num t"

fun st_find :: "nat \<Rightarrow> 32 word \<Rightarrow> byte list \<Rightarrow> 'v hitem list \<Rightarrow> 'v option" where
  "st_find n h key [] = None"
| "st_find n h key ((hh, k, v) # c) = (if h = hh \<and> key_eq n key k then Some v else st_find n h key c)"

definition st_lookup :: "'v stable \<Rightarrow> byte list \<Rightarrow> 'v stable \<times> 'v option" where
  "st_lookup t key =
     (let t = st_hash_index t key
      in (t, st_find (st_keylen t) (st_hash t) key (st_table t ! st_index t)))"

text \<open>The item goes to the front of the bucket that the table remembers.\<close>

definition st_link :: "byte list \<Rightarrow> 'v \<Rightarrow> 'v stable \<Rightarrow> 'v stable" where
  "st_link key v t =
     t\<lparr>st_table := (st_table t)[st_index t := (st_hash t, key, v) # st_table t ! st_index t],
       st_num := Suc (st_num t)\<rparr>"

text \<open>
  \<open>grow_table\<close> inserts every item into a table of twice the size; an item whose key is already
  there is dropped. These insertions never grow the new table again: lemma \<open>st_grow_never_nests\<close>.
  The temporary fields of the new table are set by the insertions before anybody reads them.
\<close>

definition st_big :: "'v stable \<Rightarrow> 'v stable" where
  "st_big t = \<lparr>
     st_table = replicate (st_buckets t * 2) [],
     st_keylen = st_keylen t,
     st_num = 0,
     st_max = st_buckets t * 2 * 4,
     st_grows = st_grows t,
     st_replaced = 0,
     st_buckets = st_buckets t * 2,
     st_hash = st_hash t,
     st_index = st_index t,
     st_mask = push_bit 1 (st_mask t) OR 1,
     st_rshift = st_rshift t - 1,
     st_walkptr = [],
     st_walk_index = 0\<rparr>"

definition st_place :: "'v stable \<Rightarrow> byte list \<times> 'v \<Rightarrow> 'v stable" where
  "st_place big kv =
     (case st_lookup big (fst kv) of
        (big, Some _) \<Rightarrow> big
      | (big, None) \<Rightarrow> st_link (fst kv) (snd kv) big)"

definition st_items :: "'v stable \<Rightarrow> (byte list \<times> 'v) list" where
  "st_items t = map snd (concat (st_table t))"

definition st_grow :: "'v stable \<Rightarrow> 'v stable" where
  "st_grow t =
     (let t = t\<lparr>st_grows := Suc (st_grows t)\<rparr>;
          big = foldl st_place (st_big t) (st_items t)
      in big\<lparr>st_replaced := st_replaced big + st_replaced t\<rparr>)"

text \<open>\<open>None\<close> is the key \<open>NULL\<close>.\<close>

definition st_add :: "'v stable \<Rightarrow> byte list option \<Rightarrow> 'v \<Rightarrow> 'v stable \<times> int" where
  "st_add t key v =
     (case key of
        None \<Rightarrow> (t, 0)
      | Some key \<Rightarrow>
          let t = st_link key v t
          in (if st_num t \<ge> st_max t then st_grow t else t, 1))"

definition st_insert :: "'v stable \<Rightarrow> byte list option \<Rightarrow> 'v \<Rightarrow> 'v stable \<times> int" where
  "st_insert t key v =
     (case key of
        None \<Rightarrow> (t, 0)
      | Some k \<Rightarrow>
          (case st_lookup t k of
             (t, Some _) \<Rightarrow> (t, 0)
           | (t, None) \<Rightarrow>
               let t = st_link k v t
               in (if st_num t \<ge> st_max t then st_grow t else t, 1)))"

fun st_unlink :: "nat \<Rightarrow> 32 word \<Rightarrow> byte list \<Rightarrow> 'v hitem list \<Rightarrow> 'v hitem list" where
  "st_unlink n h key [] = []"
| "st_unlink n h key ((hh, k, v) # c) =
     (if h = hh \<and> key_eq n key k then c else (hh, k, v) # st_unlink n h key c)"

definition st_remove :: "'v stable \<Rightarrow> byte list \<Rightarrow> 'v stable \<times> int" where
  "st_remove t key =
     (case st_lookup t key of
        (t, None) \<Rightarrow> (t, FAILURE)
      | (t, Some _) \<Rightarrow>
          (t\<lparr>st_table := (st_table t)[st_index t :=
                st_unlink (st_keylen t) (st_hash t) key (st_table t ! st_index t)],
             st_num := st_num t - 1\<rparr>, SUCCESS))"

text \<open>\<open>while (!walkptr && walk_index < buckets) walkptr = table[walk_index++];\<close>\<close>

function st_skip :: "'v stable \<Rightarrow> 'v stable" where
  "st_skip t =
     (if st_walkptr t = [] \<and> st_walk_index t < st_buckets t
      then st_skip (t\<lparr>st_walkptr := st_table t ! st_walk_index t, st_walk_index := Suc (st_walk_index t)\<rparr>)
      else t)"
  by pat_completeness auto
termination
  by (relation "measure (\<lambda>t. st_buckets t - st_walk_index t)") auto

declare st_skip.simps [simp del]

definition st_first :: "'v stable \<Rightarrow> 'v stable" where
  "st_first t = st_skip (t\<lparr>st_walkptr := st_table t ! 0, st_walk_index := 1\<rparr>)"

definition st_next :: "'v stable \<Rightarrow> 'v stable" where
  "st_next t = st_skip (if st_walkptr t = [] then t else t\<lparr>st_walkptr := tl (st_walkptr t)\<rparr>)"

text \<open>
  \<open>foreach_htable\<close> with its body \<open>f\<close>. The walk ends when \<open>walkptr\<close> is NULL; every call of
  \<open>htable_get_next\<close> moves on in the chains, which is the measure of the recursion.
\<close>

definition st_rest :: "'v stable \<Rightarrow> 'v hitem list" where
  "st_rest t = st_walkptr t @ concat (drop (st_walk_index t) (st_table t))"

fun st_foreach :: "nat \<Rightarrow> (byte list \<times> 'v \<Rightarrow> 's \<Rightarrow> 's) \<Rightarrow> 'v stable \<Rightarrow> 's \<Rightarrow> ('v stable \<times> 's) option" where
  "st_foreach 0 f t s = None"
| "st_foreach (Suc n) f t s =
     (case st_walkptr t of
        [] \<Rightarrow> Some (t, s)
      | (h, kv) # _ \<Rightarrow> st_foreach n f (st_next t) (f kv s))"

text \<open>
  \<open>cut_table\<close> (its only call is commented out) frees what follows the third item of a chain:
  the C variable \<open>count\<close> is the number of items passed in this chain.
\<close>

fun cut_chain :: "nat \<Rightarrow> 'v hitem list \<Rightarrow> 'v hitem list" where
  "cut_chain n (x # y # c) = (if Suc n \<le> 2 then x # cut_chain (Suc n) (y # c) else [x])"
| "cut_chain n c = c"

definition cut_table :: "'v stable \<Rightarrow> 'v stable" where
  "cut_table t =
     t\<lparr>st_table := map (cut_chain 0) (st_table t),
       st_num := st_num t - sum_list (map (\<lambda>c. length c - length (cut_chain 0 c)) (st_table t)),
       st_walkptr := [], st_walk_index := st_buckets t\<rparr>"

section \<open>The invariant\<close>

text \<open>Every item hangs in the bucket of its key with its hash, and no key occurs twice.\<close>

definition st_bucket :: "'v stable \<Rightarrow> byte list \<Rightarrow> nat" where
  "st_bucket t key = unat (key_hash key AND st_mask t)"

definition st_inv :: "nat \<Rightarrow> 'v stable \<Rightarrow> bool" where
  "st_inv n t \<longleftrightarrow>
     st_keylen t = n \<and> 0 < st_buckets t \<and> unat (st_mask t) < st_buckets t \<and>
     length (st_table t) = st_buckets t \<and> st_max t = st_buckets t * 4 \<and>
     st_num t = length (st_items t) \<and> distinct (map fst (st_items t)) \<and>
     (\<forall>i < st_buckets t. \<forall>it \<in> set (st_table t ! i).
        fst it = key_hash (fst (snd it)) \<and> length (fst (snd it)) = n \<and> st_bucket t (fst (snd it)) = i)"

lemma st_bucket_bound:
  assumes "unat (st_mask t) < st_buckets t"
  shows "st_bucket t k < st_buckets t"
proof -
  have "key_hash k AND st_mask t \<le> st_mask t" by (metis word_and_le1)
  then show ?thesis using assms by (simp add: st_bucket_def word_le_nat_alt)
qed

lemma st_bucket_in: "st_inv n t \<Longrightarrow> st_bucket t k < length (st_table t)"
  by (simp add: st_inv_def st_bucket_bound)

lemma st_hash_index_fields [simp]:
  "st_table (st_hash_index t k) = st_table t" "st_keylen (st_hash_index t k) = st_keylen t"
  "st_num (st_hash_index t k) = st_num t" "st_max (st_hash_index t k) = st_max t"
  "st_buckets (st_hash_index t k) = st_buckets t" "st_mask (st_hash_index t k) = st_mask t"
  "st_items (st_hash_index t k) = st_items t" "st_bucket (st_hash_index t k) = st_bucket t"
  "st_index (st_hash_index t k) = st_bucket t k" "st_hash (st_hash_index t k) = key_hash k"
  by (simp_all add: st_hash_index_def st_items_def st_bucket_def fun_eq_iff)

lemma st_inv_hash_index [simp]: "st_inv n (st_hash_index t k) = st_inv n t"
  by (simp add: st_inv_def)

lemma in_st_items:
  "kv \<in> set (st_items t) \<longleftrightarrow> (\<exists>i < length (st_table t). \<exists>it \<in> set (st_table t ! i). snd it = kv)"
proof -
  have "kv \<in> set (st_items t) \<longleftrightarrow> (\<exists>c \<in> set (st_table t). kv \<in> snd ` set c)"
    by (simp add: st_items_def image_UN)
  also have "\<dots> \<longleftrightarrow> (\<exists>i < length (st_table t). kv \<in> snd ` set (st_table t ! i))"
    by (metis in_set_conv_nth)
  finally show ?thesis by (simp add: image_iff eq_commute)
qed

lemma st_items_bucket:
  assumes "st_inv n t"
  shows "kv \<in> set (st_items t) \<longleftrightarrow> kv \<in> snd ` set (st_table t ! st_bucket t (fst kv))"
proof
  assume "kv \<in> set (st_items t)"
  then obtain i it where "i < length (st_table t)" "it \<in> set (st_table t ! i)" "snd it = kv"
    by (auto simp: in_st_items)
  moreover from this assms have "st_bucket t (fst kv) = i" by (auto simp: st_inv_def)
  ultimately show "kv \<in> snd ` set (st_table t ! st_bucket t (fst kv))" by blast
next
  assume "kv \<in> snd ` set (st_table t ! st_bucket t (fst kv))"
  with st_bucket_in [OF assms] show "kv \<in> set (st_items t)" by (auto simp: in_st_items)
qed

lemma st_items_length: "st_inv n t \<Longrightarrow> kv \<in> set (st_items t) \<Longrightarrow> length (fst kv) = n"
  by (auto simp: in_st_items st_inv_def)

lemma st_find_map_of:
  "\<forall>it\<in>set c. fst it = key_hash (fst (snd it)) \<and> length (fst (snd it)) = n \<Longrightarrow> length key = n \<Longrightarrow>
   st_find n (key_hash key) key c = map_of (map snd c) key"
  by (induction c) (auto simp: key_eq_def)

lemma st_lookup_eq:
  assumes inv: "st_inv n t" and len: "length key = n"
  shows "st_lookup t key = (st_hash_index t key, map_of (st_items t) key)"
proof -
  let ?c = "st_table t ! st_bucket t key"
  have c: "\<forall>it\<in>set ?c. fst it = key_hash (fst (snd it)) \<and> length (fst (snd it)) = n"
    using inv st_bucket_in [OF inv, of key] by (auto simp: st_inv_def)
  have b: "(key, v) \<in> set (st_items t) \<longleftrightarrow> (key, v) \<in> set (map snd ?c)" for v
    using st_items_bucket [OF inv, of "(key, v)"] by simp
  have d: "distinct (map fst (st_items t))" using inv by (simp add: st_inv_def)
  have "map_of (map snd ?c) key = map_of (st_items t) key"
  proof (cases "map_of (map snd ?c) key")
    case None
    have "map_of (st_items t) key \<noteq> Some v" for v
    proof
      assume "map_of (st_items t) key = Some v"
      then have "(key, v) \<in> set (st_items t)" by (rule map_of_SomeD)
      then have "(key, v) \<in> set (map snd ?c)" by (simp only: b)
      then have "key \<in> fst ` set (map snd ?c)" by (rule rev_image_eqI) simp
      with None show False by (simp only: map_of_eq_None_iff) blast
    qed
    with None show ?thesis by (metis not_Some_eq)
  next
    case (Some v)
    then have "(key, v) \<in> set (map snd ?c)" by (rule map_of_SomeD)
    then have "(key, v) \<in> set (st_items t)" by (simp only: b)
    with d Some show ?thesis by simp
  qed
  moreover have "st_keylen t = n" using inv by (simp add: st_inv_def)
  ultimately show ?thesis
    by (simp only: st_lookup_def Let_def st_hash_index_fields st_find_map_of [OF c len])
qed

section \<open>Insertion and growth\<close>

definition st_put :: "byte list \<Rightarrow> 'v \<Rightarrow> 'v stable \<Rightarrow> 'v stable" where
  "st_put key v t = st_link key v (st_hash_index t key)"

lemma st_put_fields [simp]:
  "st_buckets (st_put k v t) = st_buckets t" "st_mask (st_put k v t) = st_mask t"
  "st_keylen (st_put k v t) = st_keylen t" "st_max (st_put k v t) = st_max t"
  "st_num (st_put k v t) = Suc (st_num t)" "st_bucket (st_put k v t) = st_bucket t"
  "st_table (st_put k v t) =
     (st_table t)[st_bucket t k := (key_hash k, k, v) # st_table t ! st_bucket t k]"
  by (simp_all add: st_put_def st_link_def st_bucket_def fun_eq_iff)

lemma mset_st_put:
  assumes "st_inv n t"
  shows "mset (st_items (st_put k v t)) = add_mset (k, v) (mset (st_items t))"
proof -
  have "mset (concat (st_table (st_put k v t))) = add_mset (key_hash k, k, v) (mset (concat (st_table t)))"
    using mset_concat_update [OF st_bucket_in [OF assms, of k]] by simp
  then show ?thesis by (simp add: st_items_def)
qed

lemma distinct_mset_keys:
  "mset xs = add_mset (k, v) (mset ys) \<Longrightarrow> distinct (map fst xs) \<longleftrightarrow> k \<notin> fst ` set ys \<and> distinct (map fst ys)"
proof -
  assume "mset xs = add_mset (k, v) (mset ys)"
  then have "mset (map fst xs) = mset (map fst ((k, v) # ys))" by (metis mset.simps(2) mset_map)
  then have "distinct (map fst xs) = distinct (map fst ((k, v) # ys))" by (rule mset_eq_imp_distinct_iff)
  then show ?thesis by simp
qed

lemma st_inv_put [inv_intros]:
  assumes inv: "st_inv n t" and len: "length k = n" and new: "k \<notin> fst ` set (st_items t)"
  shows "st_inv n (st_put k v t)"
proof -
  note m = mset_st_put [OF inv, of k v]
  have "length (st_items (st_put k v t)) = Suc (length (st_items t))"
    using m by (metis size_mset size_add_mset)
  moreover have "distinct (map fst (st_items (st_put k v t)))"
    using distinct_mset_keys [OF m] new inv by (simp add: st_inv_def)
  moreover have "fst it = key_hash (fst (snd it)) \<and> length (fst (snd it)) = n \<and> st_bucket t (fst (snd it)) = i"
    if "i < st_buckets t" "it \<in> set (st_table (st_put k v t) ! i)" for i it
    using that inv len by (cases "i = st_bucket t k") (auto simp: st_inv_def)
  ultimately show ?thesis using inv by (simp add: st_inv_def)
qed

lemma st_place_eq:
  assumes "st_inv n t" "length (fst kv) = n" "fst kv \<notin> fst ` set (st_items t)"
  shows "st_place t kv = st_put (fst kv) (snd kv) t"
proof -
  have "map_of (st_items t) (fst kv) = None" using assms(3) by (simp add: map_of_eq_None_iff)
  with st_lookup_eq [OF assms(1,2)] show ?thesis by (simp add: st_place_def st_put_def)
qed

lemma foldl_st_place:
  assumes "st_inv n t" "\<forall>kv\<in>set xs. length (fst kv) = n" "distinct (map fst xs)"
    "fst ` set xs \<inter> fst ` set (st_items t) = {}"
  shows "st_inv n (foldl st_place t xs) \<and> mset (st_items (foldl st_place t xs)) = mset (xs @ st_items t)
    \<and> st_max (foldl st_place t xs) = st_max t \<and> st_num (foldl st_place t xs) = length xs + st_num t"
  using assms
proof (induction xs arbitrary: t)
  case (Cons kv xs)
  have k: "length (fst kv) = n" "fst kv \<notin> fst ` set (st_items t)" using Cons.prems by auto
  note p = st_place_eq [OF Cons.prems(1) k]
  let ?t = "st_put (fst kv) (snd kv) t"
  have "set (st_items ?t) = insert kv (set (st_items t))"
    using mset_st_put [OF Cons.prems(1), of "fst kv" "snd kv"] by (metis prod.collapse set_mset_add_mset_insert set_mset_mset)
  with Cons.prems have "fst ` set xs \<inter> fst ` set (st_items ?t) = {}" by auto
  with Cons.IH [OF st_inv_put [OF Cons.prems(1) k]] Cons.prems p mset_st_put [OF Cons.prems(1), of "fst kv" "snd kv"]
  show ?case by simp
qed simp

lemma st_inv_big: "st_inv n t \<Longrightarrow> st_inv n (st_big t)"
  using unat_big_mask [of "st_mask t" "st_buckets t"]
  by (simp add: st_inv_def st_big_def st_items_def)

lemma st_big_fields [simp]:
  "st_items (st_big t) = []" "st_max (st_big t) = 8 * st_buckets t" "st_num (st_big t) = 0"
  by (simp_all add: st_big_def st_items_def)

lemma st_counters [simp]:
  "st_inv n (t\<lparr>st_grows := g\<rparr>) = st_inv n t" "st_inv n (t\<lparr>st_replaced := r\<rparr>) = st_inv n t"
  "st_items (t\<lparr>st_grows := g\<rparr>) = st_items t" "st_items (t\<lparr>st_replaced := r\<rparr>) = st_items t"
  by (simp_all add: st_inv_def st_items_def st_bucket_def)

lemma st_inv_max: "st_inv n t \<Longrightarrow> st_max t = 4 * st_buckets t"
  and st_inv_num: "st_inv n t \<Longrightarrow> st_num t = length (st_items t)"
  and st_inv_buckets: "st_inv n t \<Longrightarrow> 0 < st_buckets t"
  and st_inv_distinct: "st_inv n t \<Longrightarrow> distinct (map fst (st_items t))"
  by (simp_all add: st_inv_def)

lemma st_grow_spec:
  assumes "st_inv n t"
  shows "st_inv n (st_grow t) \<and> mset (st_items (st_grow t)) = mset (st_items t) \<and>
    st_num (st_grow t) = st_num t \<and> st_max (st_grow t) = 2 * st_max t"
proof -
  let ?u = "t\<lparr>st_grows := Suc (st_grows t)\<rparr>"
  have u: "st_inv n ?u" using assms by simp
  have "\<forall>kv\<in>set (st_items t). length (fst kv) = n" using st_items_length [OF assms] by blast
  from foldl_st_place [OF st_inv_big [OF u] this st_inv_distinct [OF assms]] assms
  show ?thesis by (simp add: st_grow_def Let_def st_inv_num st_inv_max)
qed

text \<open>The insertions into the new table stay below its limit.\<close>

lemma st_grow_never_nests:
  assumes "st_inv n t" "st_num t = st_max t" "m \<le> length (st_items t)"
  shows "st_num (foldl st_place (st_big t) (take m (st_items t)))
       < st_max (foldl st_place (st_big t) (take m (st_items t)))"
proof -
  have "\<forall>kv\<in>set (take m (st_items t)). length (fst kv) = n"
    using st_items_length [OF assms(1)] by (meson in_set_takeD)
  moreover have "distinct (map fst (take m (st_items t)))"
    using st_inv_distinct [OF assms(1)] by (simp add: take_map [symmetric])
  ultimately show ?thesis
    using foldl_st_place [OF st_inv_big [OF assms(1)], of "take m (st_items t)"] assms st_inv_buckets [OF assms(1)]
    by (simp add: st_inv_max st_inv_num)
qed

definition st_room :: "'v stable \<Rightarrow> 'v stable" where
  "st_room t = (if st_num t \<ge> st_max t then st_grow t else t)"

lemma st_room_spec:
  "st_inv n t \<Longrightarrow> st_inv n (st_room t) \<and> mset (st_items (st_room t)) = mset (st_items t)"
  using st_grow_spec [of n t] by (simp add: st_room_def)

lemma st_add_eq: "st_add (st_hash_index t k) (Some k) v = (st_room (st_put k v t), 1)"
  by (simp add: st_add_def st_put_def st_room_def Let_def)

lemma st_insert_eq:
  assumes "st_inv n t" "length k = n"
  shows "st_insert t (Some k) v =
    (if k \<in> fst ` set (st_items t) then (st_hash_index t k, 0) else (st_room (st_put k v t), 1))"
proof (cases "map_of (st_items t) k")
  case None
  then have "k \<notin> fst ` set (st_items t)" by (simp add: map_of_eq_None_iff)
  with None st_lookup_eq [OF assms] show ?thesis
    by (simp add: st_insert_def st_put_def st_room_def Let_def)
next
  case (Some x)
  then have "k \<in> fst ` set (st_items t)" by (metis map_of_eq_None_iff option.distinct(1))
  with Some st_lookup_eq [OF assms] show ?thesis by (simp add: st_insert_def)
qed

lemma st_insert_spec:
  assumes "st_inv n t" "length k = n"
  shows "st_inv n (fst (st_insert t (Some k) v)) \<and>
    (k \<notin> fst ` set (st_items t) \<longrightarrow>
       mset (st_items (fst (st_insert t (Some k) v))) = mset ((k, v) # st_items t))"
proof (cases "k \<in> fst ` set (st_items t)")
  case True
  with assms show ?thesis by (simp add: st_insert_eq)
next
  case False
  with st_room_spec [OF st_inv_put [OF assms False]] mset_st_put [OF assms(1)] assms
  show ?thesis by (simp add: st_insert_eq)
qed

section \<open>Removal\<close>

lemma st_unlink_filter:
  "\<forall>it\<in>set c. fst it = key_hash (fst (snd it)) \<and> length (fst (snd it)) = n \<Longrightarrow> length key = n \<Longrightarrow>
   distinct (map fst (map snd c)) \<Longrightarrow>
   st_unlink n (key_hash key) key c = filter (\<lambda>it. fst (snd it) \<noteq> key) c"
proof (induction c)
  case (Cons it c)
  obtain h k v where it: "it = (h, k, v)" by (cases it)
  have "filter (\<lambda>it. fst (snd it) \<noteq> k) c = c" if "k \<notin> (\<lambda>it. fst (snd it)) ` set c"
    using that by (auto simp: filter_id_conv)
  with Cons it show ?case by (auto simp: key_eq_def)
qed simp

lemma st_remove_spec:
  assumes inv: "st_inv n t" and len: "length key = n"
  shows "st_items (fst (st_remove t key)) = filter (\<lambda>kv. fst kv \<noteq> key) (st_items t) \<and>
    st_inv n (fst (st_remove t key))"
proof (cases "map_of (st_items t) key")
  case None
  then have "key \<notin> fst ` set (st_items t)" by (simp add: map_of_eq_None_iff)
  then have "filter (\<lambda>kv. fst kv \<noteq> key) (st_items t) = st_items t" by (auto simp: filter_id_conv)
  with None st_lookup_eq [OF assms] inv show ?thesis by (simp add: st_remove_def)
next
  case (Some v)
  let ?i = "st_bucket t key" and ?P = "\<lambda>it :: 'a hitem. fst (snd it) \<noteq> key"
  let ?tbl = "(st_table t)[?i := filter ?P (st_table t ! ?i)]"
  have i: "?i < length (st_table t)" using inv by (rule st_bucket_in)
  have its: "\<forall>it\<in>set (st_table t ! j). fst it = key_hash (fst (snd it)) \<and> length (fst (snd it)) = n \<and>
      st_bucket t (fst (snd it)) = j" if "j < length (st_table t)" for j
    using inv that by (simp add: st_inv_def)
  have "distinct (map fst (concat (map (map snd) (st_table t))))"
    using st_inv_distinct [OF inv] by (simp add: st_items_def map_concat)
  from distinct_chain [OF _ this, of ?i] i have "distinct (map fst (map snd (st_table t ! ?i)))" by simp
  then have un: "st_unlink n (key_hash key) key (st_table t ! ?i) = filter ?P (st_table t ! ?i)"
    using its [OF i] len by (intro st_unlink_filter) auto
  have "filter ?P (st_table t ! j) = st_table t ! j" if "j < length (st_table t)" "j \<noteq> ?i" for j
    using its [OF that(1)] that(2) by (auto simp: filter_id_conv)
  then have cc: "concat ?tbl = filter ?P (concat (st_table t))"
    by (rule concat_update_filter [OF i])
  have kn: "st_keylen t = n" using inv by (simp add: st_inv_def)
  have r: "fst (st_remove t key) =
      (st_hash_index t key)\<lparr>st_table := ?tbl, st_num := st_num t - 1\<rparr>" (is "_ = ?t")
    using Some kn un st_lookup_eq [OF assms] by (simp add: st_remove_def)
  have items: "st_items ?t = filter (\<lambda>kv. fst kv \<noteq> key) (st_items t)"
    using cc by (simp add: st_items_def filter_map comp_def)
  have "length (filter (\<lambda>kv. fst kv \<noteq> key) xs) = length xs - 1" if "distinct (map fst xs)" "key \<in> fst ` set xs"
    for xs :: "(byte list \<times> 'a) list"
    using that
  proof (induction xs)
    case (Cons x xs)
    show ?case
    proof (cases "fst x = key")
      case True
      have "\<forall>kv\<in>set xs. fst kv \<noteq> fst x"
        using Cons.prems(1) by (metis distinct.simps(2) imageI list.simps(9) list.set_map)
      with True show ?thesis by simp
    next
      case False
      with Cons have "length (filter (\<lambda>kv. fst kv \<noteq> key) xs) = length xs - 1" "xs \<noteq> []" by auto
      with False show ?thesis by (cases xs) auto
    qed
  qed simp
  from this [OF st_inv_distinct [OF inv]] Some
  have "length (st_items ?t) = st_num t - 1"
    unfolding items by (simp add: st_inv_num [OF inv] rev_image_eqI [OF map_of_SomeD])
  moreover have "distinct (map fst (st_items ?t))"
    using st_inv_distinct [OF inv] unfolding items by (simp add: distinct_map_filter)
  moreover have "fst it = key_hash (fst (snd it)) \<and> length (fst (snd it)) = n \<and> st_bucket t (fst (snd it)) = j"
    if "j < length (st_table t)" "it \<in> set (?tbl ! j)" for j it
    using its [OF that(1)] that by (cases "j = ?i") auto
  ultimately have "st_inv n ?t"
    using inv by (simp add: st_inv_def st_bucket_def)
  with items show ?thesis by (simp only: r simp_thms)
qed

section \<open>The walk\<close>

lemma st_skip_spec:
  "length (st_table t) = st_buckets t \<Longrightarrow>
   (\<exists>p i. st_skip t = t\<lparr>st_walkptr := p, st_walk_index := i\<rparr>) \<and> st_rest (st_skip t) = st_rest t \<and>
   (st_walkptr (st_skip t) = [] \<longrightarrow> st_rest t = [])"
proof (induction t rule: st_skip.induct)
  case (1 t)
  show ?case
  proof (cases "st_walkptr t = [] \<and> st_walk_index t < st_buckets t")
    case True
    let ?u = "t\<lparr>st_walkptr := st_table t ! st_walk_index t, st_walk_index := Suc (st_walk_index t)\<rparr>"
    have u: "st_skip t = st_skip ?u" using True by (subst st_skip.simps) simp
    have "drop (st_walk_index t) (st_table t)
        = st_table t ! st_walk_index t # drop (Suc (st_walk_index t)) (st_table t)"
      using True 1 by (simp add: Cons_nth_drop_Suc)
    then have r: "st_rest ?u = st_rest t" using True by (simp add: st_rest_def)
    have "length (st_table ?u) = st_buckets ?u" using "1.prems" by simp
    from "1.IH" [OF True this] obtain p i where
      "st_skip ?u = ?u\<lparr>st_walkptr := p, st_walk_index := i\<rparr>" "st_rest (st_skip ?u) = st_rest ?u"
      "st_walkptr (st_skip ?u) = [] \<longrightarrow> st_rest ?u = []" by blast
    with u r show ?thesis by auto
  next
    case False
    then have s: "st_skip t = t" by (subst st_skip.simps) auto
    have "\<exists>p i. t = t\<lparr>st_walkptr := p, st_walk_index := i\<rparr>"
      by (intro exI [of _ "st_walkptr t"] exI [of _ "st_walk_index t"]) simp
    moreover have "st_walkptr t = [] \<longrightarrow> st_rest t = []" using False "1.prems" by (auto simp: st_rest_def)
    ultimately show ?thesis unfolding s by blast
  qed
qed

lemma st_foreach_rest:
  assumes "length (st_table t) = st_buckets t" "st_walkptr t = [] \<longrightarrow> st_rest t = []"
    "length (st_rest t) < n"
  shows "\<exists>p i. st_foreach n f t s =
    Some (t\<lparr>st_walkptr := p, st_walk_index := i\<rparr>, fold f (map snd (st_rest t)) s)"
  using assms
proof (induction n arbitrary: t s)
  case (Suc n)
  show ?case
  proof (cases "st_walkptr t")
    case Nil
    with Suc.prems have "st_foreach (Suc n) f t s = Some (t, s)" "st_rest t = []" by simp_all
    then show ?thesis by (intro exI [of _ "st_walkptr t"] exI [of _ "st_walk_index t"]) simp
  next
    case (Cons it c)
    obtain h kv where it: "it = (h, kv)" by (cases it)
    let ?u = "t\<lparr>st_walkptr := c\<rparr>"
    have rest: "st_rest t = it # st_rest ?u" using Cons by (simp add: st_rest_def)
    have nx: "st_next t = st_skip ?u" using Cons by (simp add: st_next_def)
    obtain p i where sk: "st_skip ?u = ?u\<lparr>st_walkptr := p, st_walk_index := i\<rparr>"
      "st_rest (st_skip ?u) = st_rest ?u" "st_walkptr (st_skip ?u) = [] \<longrightarrow> st_rest ?u = []"
      using st_skip_spec [of ?u] Suc.prems(1) by auto
    have "\<exists>p' i'. st_foreach n f (st_skip ?u) (f kv s) = Some ((st_skip ?u)\<lparr>st_walkptr := p', st_walk_index := i'\<rparr>,
        fold f (map snd (st_rest (st_skip ?u))) (f kv s))"
      by (rule Suc.IH) (use Suc.prems sk rest in auto)
    with Cons it rest nx sk(1,2) show ?thesis by auto
  qed
qed simp

text \<open>\<open>foreach_htable\<close> runs its body on every item once, in the order of the buckets.\<close>

lemma st_foreach_items:
  assumes "st_inv n t"
  shows "\<exists>p i. st_foreach (Suc (st_num t)) f (st_first t) s =
    Some (t\<lparr>st_walkptr := p, st_walk_index := i\<rparr>, fold f (st_items t) s)"
proof -
  let ?u = "t\<lparr>st_walkptr := st_table t ! 0, st_walk_index := 1\<rparr>"
  have len: "length (st_table ?u) = st_buckets ?u" using assms by (simp add: st_inv_def)
  have "st_table t \<noteq> []" using assms by (auto simp: st_inv_def)
  then have rest: "map snd (st_rest ?u) = st_items t" by (cases "st_table t") (auto simp: st_rest_def st_items_def)
  obtain p i where sk: "st_skip ?u = ?u\<lparr>st_walkptr := p, st_walk_index := i\<rparr>"
    "st_rest (st_skip ?u) = st_rest ?u" "st_walkptr (st_skip ?u) = [] \<longrightarrow> st_rest ?u = []"
    using st_skip_spec [OF len] by auto
  have "length (st_rest ?u) < Suc (st_num t)" using rest st_inv_num [OF assms] by (metis length_map lessI)
  with sk len have "\<exists>p' i'. st_foreach (Suc (st_num t)) f (st_skip ?u) s =
      Some ((st_skip ?u)\<lparr>st_walkptr := p', st_walk_index := i'\<rparr>, fold f (map snd (st_rest (st_skip ?u))) s)"
    by (intro st_foreach_rest) auto
  with sk(1,2) rest show ?thesis by (auto simp: st_first_def)
qed

lemma st_inv_walk [simp]:
  "st_inv n (t\<lparr>st_walkptr := p, st_walk_index := i\<rparr>) = st_inv n t"
  "st_items (t\<lparr>st_walkptr := p, st_walk_index := i\<rparr>) = st_items t"
  by (simp_all add: st_inv_def st_items_def st_bucket_def)

lemma cut_chain_take: "cut_chain n c = take (if n \<le> 2 then 3 - n else 1) c"
proof (induction n c rule: cut_chain.induct)
  case (1 n x y c)
  have "3 - n = Suc (3 - Suc n)" if "Suc n \<le> 2" using that by arith
  with 1 show ?case by (cases "n = 2") auto
qed (auto simp: take_Cons')

section \<open>The table implements the dictionary interface\<close>

interpretation sht: dict_remove "st_inv n" "\<lambda>k. length k = n" "\<lambda>t k. snd (st_lookup t k)"
  "\<lambda>k v t. fst (st_insert t (Some k) v)" st_items st_size "\<lambda>k t. fst (st_remove t k)"
  for n :: nat
proof unfold_locales
  fix t :: "'a stable" and k :: "byte list" and v :: 'a and kv
  show "st_inv n t \<Longrightarrow> length k = n \<Longrightarrow> st_inv n (fst (st_insert t (Some k) v))"
    by (simp add: st_insert_spec)
  show "st_inv n t \<Longrightarrow> length k = n \<Longrightarrow> snd (st_lookup t k) = map_of (st_items t) k"
    by (simp add: st_lookup_eq)
  show "st_inv n t \<Longrightarrow> length k = n \<Longrightarrow> (snd (st_lookup t k) = None) = (k \<notin> fst ` set (st_items t))"
    by (simp add: st_lookup_eq map_of_eq_None_iff)
  show "st_inv n t \<Longrightarrow> length k = n \<Longrightarrow> snd (st_lookup t k) = None \<Longrightarrow>
      mset (st_items (fst (st_insert t (Some k) v))) = mset ((k, v) # st_items t)"
    using st_insert_spec [of n t k v] by (simp add: st_lookup_eq map_of_eq_None_iff)
  show "st_inv n t \<Longrightarrow> kv \<in> set (st_items t) \<Longrightarrow> length (fst kv) = n"
    by (rule st_items_length)
  show "st_inv n t \<Longrightarrow> st_size t = length (st_items t)"
    by (simp add: st_size_def st_inv_num)
  show "st_inv n t \<Longrightarrow> length k = n \<Longrightarrow> st_inv n (fst (st_remove t k))"
    by (simp add: st_remove_spec)
  show "st_inv n t \<Longrightarrow> length k = n \<Longrightarrow>
      st_items (fst (st_remove t k)) = filter (\<lambda>kv. fst kv \<noteq> k) (st_items t)"
    by (simp add: st_remove_spec)
qed

lemma st_clean: "sht.clean n t \<longleftrightarrow> st_inv n t"
  by (auto simp: sht.clean_def st_inv_def)

lemma st_of_pwr: "st_inv n (stable_of_pwr n p)" "st_items (stable_of_pwr n p) = []"
  using unat_mask_new [of p] by (simp_all add: st_inv_def stable_of_pwr_def st_items_def)

lemma st_fresh:
  assumes "0 \<le> tsize"
  shows "\<exists>t. st_init n tsize = Some t \<and> st_inv n t \<and> st_items t = []"
proof -
  have "0 \<le> tsize div 4" using assms by simp
  then obtain p where "pwr_loop (tsize div 4) 0 = Some p" using pwr_loop_total by blast
  then have "st_init n tsize = Some (stable_of_pwr n p)" by (simp add: st_init_def)
  with st_of_pwr show ?thesis by blast
qed

end
