(* ===== verification/ServerIndex.thy ===== *)
theory ServerIndex
  imports SHtable
begin

text \<open>
  The server's global index (server/src/index.c): the fingerprint of a file and the offset of its
  recipe in the recipe volume. It lives in a hash table, is read from \<open>global_index\<close> when the
  server starts and written back when it ends. The mutex is taken and released inside every
  operation, so each of them is one step. \<open>sp\<close> is the global \<open>store_path\<close>.
\<close>

definition global_index :: "byte list \<Rightarrow> byte list" where
  "global_index sp = sp @ asc ''global_index''"

definition enc_item :: "byte list \<times> int \<Rightarrow> byte list" where
  "enc_item ko = fst ko @ put_int 8 (snd ko)"

definition dec_item :: "byte list \<Rightarrow> byte list \<times> int" where
  "dec_item p = (take 20 p, get_int 8 (drop 20 p))"

text \<open>What is missing at the end of a file that is too short counts as zeros.\<close>

definition index_open :: "byte list \<Rightarrow> disk \<Rightarrow> int stable \<Rightarrow> disk \<times> int stable \<times> bool" where
  "index_open sp dk t =
     (case open_creat dk (global_index sp) of
        None \<Rightarrow> (dk, t, False)
      | Some dk \<Rightarrow>
          let f = file_bytes dk (global_index sp);
              n = (if 4 \<le> length f then nat (get_int 4 f) else 0);
              items = dec_many dec_item 28 n (drop 4 f @ replicate (28 * n) 0)
          in (dk, foldl (\<lambda>t (k, v). fst (st_insert t (Some k) v)) t items, True))"

definition HASH_TBALE_SIZE :: int where "HASH_TBALE_SIZE = 16777215"

definition index_init :: "byte list \<Rightarrow> disk \<Rightarrow> (disk \<times> int stable \<times> bool) option" where
  "index_init sp dk = map_option (index_open sp dk) (st_init FINGER_LENGTH HASH_TBALE_SIZE)"

text \<open>
  The file must exist (\<open>O_RDWR\<close> only) and is not truncated; the items follow the count in the order
  of the walk. The return value is \<open>false\<close> in either case.
\<close>

definition index_close :: "byte list \<Rightarrow> disk \<Rightarrow> int stable \<Rightarrow> (disk \<times> int stable \<times> bool) option" where
  "index_close sp dk t =
     (if denied dk (global_index sp) \<or> files dk (global_index sp) = None then Some (dk, t, False)
      else map_option
        (\<lambda>(t', d). (disk_pwrite dk (global_index sp) 0 (put_int 4 (int (st_num t)) @ d), t', False))
        (st_foreach (Suc (st_num t)) (\<lambda>kv d. d @ enc_item kv) (st_first t) []))"

definition index_insert :: "int stable \<Rightarrow> fingerprint \<Rightarrow> int \<Rightarrow> int stable \<times> bool" where
  "index_insert t hash offset =
     (case st_lookup t hash of
        (t, None) \<Rightarrow> (fst (st_add t (Some hash) offset), True)
      | (t, Some _) \<Rightarrow> (t, True))"

definition index_lookup :: "int stable \<Rightarrow> fingerprint \<Rightarrow> int stable \<times> int option" where
  "index_lookup t key = st_lookup t key"

section \<open>The index as a map\<close>

definition index_map :: "int stable \<Rightarrow> fingerprint \<Rightarrow> int option" where
  "index_map t = map_of (st_items t)"

lemma index_lookup_eq:
  "st_inv 20 t \<Longrightarrow> length k = 20 \<Longrightarrow> index_lookup t k = (st_hash_index t k, index_map t k)"
  by (simp add: index_lookup_def index_map_def st_lookup_eq)

lemma index_map_hash_index [simp]: "index_map (st_hash_index t k) = index_map t"
  by (simp add: index_map_def)

text \<open>The offset of the first insertion stays.\<close>

lemma index_insert_spec:
  assumes "st_inv 20 t" "length h = 20"
  shows "st_inv 20 (fst (index_insert t h off)) \<and>
    index_map (fst (index_insert t h off)) =
      (if index_map t h = None then (index_map t)(h \<mapsto> off) else index_map t)"
proof (cases "map_of (st_items t) h")
  case (Some v)
  with assms st_lookup_eq [OF assms] show ?thesis by (simp add: index_insert_def index_map_def)
next
  case None
  then have new: "h \<notin> fst ` set (st_items t)" by (simp add: map_of_eq_None_iff)
  let ?t = "st_room (st_put h off t)"
  have e: "index_insert t h off = (?t, True)"
    using None st_lookup_eq [OF assms] by (simp add: index_insert_def st_add_eq)
  note R = st_room_spec [OF st_inv_put [OF assms new, of off]]
  have m: "mset (st_items ?t) = mset ((h, off) # st_items t)"
    using R mset_st_put [OF assms(1), of h off] by simp
  then have "set (st_items ?t) = set ((h, off) # st_items t)" by (rule mset_eq_setD)
  moreover have "distinct (map fst (st_items ?t))" using R st_inv_distinct by blast
  moreover have "distinct (map fst ((h, off) # st_items t))" using new st_inv_distinct [OF assms(1)] by simp
  ultimately have "map_of (st_items ?t) = map_of ((h, off) # st_items t)" by (intro map_of_distinct_set)
  with e None R show ?thesis by (simp add: index_map_def)
qed

section \<open>The index across runs of the server\<close>

interpretation item: fixed_codec enc_item dec_item 28 "\<lambda>ko. length (fst ko) = 20 \<and> fits 8 (snd ko)"
  by unfold_locales (auto simp: enc_item_def dec_item_def)

lemma fold_append: "fold (\<lambda>x d. d @ f x) xs d = d @ concat (map f xs)"
  by (induction xs arbitrary: d) auto

lemma index_close_eq:
  assumes "st_inv 20 t" "\<not> denied dk (global_index sp)" "files dk (global_index sp) = Some f"
  shows "\<exists>t'. index_close sp dk t = Some (disk_pwrite dk (global_index sp) 0
      (put_int 4 (int (st_num t)) @ concat (map enc_item (st_items t))), t', False)"
proof -
  obtain p i where "st_foreach (Suc (st_num t)) (\<lambda>kv d. d @ enc_item kv) (st_first t) [] =
      Some (t\<lparr>st_walkptr := p, st_walk_index := i\<rparr>, fold (\<lambda>kv d. d @ enc_item kv) (st_items t) [])"
    using st_foreach_items [OF assms(1), of "\<lambda>kv d. d @ enc_item kv" "[]"] by blast
  with assms show ?thesis by (simp add: index_close_def fold_append)
qed

lemma index_open_saved:
  assumes "\<not> denied dk (global_index sp)"
    "files dk (global_index sp) = Some (put_int 4 (int (length xs)) @ concat (map enc_item xs) @ r)"
    "\<forall>ko\<in>set xs. length (fst ko) = 20 \<and> fits 8 (snd ko)" "length xs < 2 ^ 31"
  shows "index_open sp dk t = (dk, foldl (\<lambda>t (k, v). fst (st_insert t (Some k) v)) t xs, True)"
proof -
  let ?f = "put_int 4 (int (length xs)) @ concat (map enc_item xs) @ r"
  have "fits 4 (int (length xs))" using assms(4) by simp
  then have n: "get_int 4 ?f = int (length xs)" by (rule get_put_int)
  have "dec_many dec_item 28 (length xs) (concat (map enc_item xs) @ r @ replicate (28 * length xs) 0) = xs"
    by (rule item.dec_enc_many) (use assms(3) in auto)
  with n assms(1,2) show ?thesis
    by (simp add: index_open_def open_creat_exists file_bytes_def)
qed

lemma index_reload:
  assumes inv: "st_inv 20 t" and disk: "\<not> denied dk (global_index sp)" "files dk (global_index sp) = Some f"
    and fit: "\<forall>ko\<in>set (st_items t). fits 8 (snd ko)" "st_num t < 2 ^ 31"
  shows "\<exists>dk' t' u. index_close sp dk t = Some (dk', t', False) \<and>
    index_init sp dk' = Some (dk', u, True) \<and> st_inv 20 u \<and> (\<forall>k. length k = 20 \<longrightarrow> index_map u k = index_map t k) \<and>
    denied dk' = denied dk \<and> (\<forall>p. p \<noteq> global_index sp \<longrightarrow> files dk' p = files dk p)"
proof -
  let ?d = "put_int 4 (int (st_num t)) @ concat (map enc_item (st_items t))"
  let ?dk = "disk_pwrite dk (global_index sp) 0 ?d"
  let ?load = "foldl (\<lambda>t (k, v). fst (st_insert t (Some k) v))"
  obtain t' where c: "index_close sp dk t = Some (?dk, t', False)"
    using index_close_eq [OF inv disk] by blast
  have "files ?dk (global_index sp) = Some (?d @ drop (length ?d) f)"
    using disk(2) by (simp add: disk_pwrite_def pwrite_def)
  moreover have ok: "\<forall>ko\<in>set (st_items t). length (fst ko) = 20 \<and> fits 8 (snd ko)"
    using fit(1) st_items_length [OF inv] by auto
  ultimately have o: "index_open sp ?dk e = (?dk, ?load e (st_items t), True)" for e
    using disk(1) fit(2) st_inv_num [OF inv]
    by (intro index_open_saved) (auto simp: disk_pwrite_def)
  obtain e :: "int stable" where e: "st_init 20 HASH_TBALE_SIZE = Some e" "st_inv 20 e" "st_items e = []"
    using st_fresh [of HASH_TBALE_SIZE 20] by (auto simp: HASH_TBALE_SIZE_def)
  have "st_inv 20 (?load e (st_items t))"
    using sht.load_clean [of 20 e "st_items t"] e st_inv_distinct [OF inv] ok
    by (simp add: st_clean st_lookup_eq)
  moreover have "index_map (?load e (st_items t)) k = index_map t k" if "length k = 20" for k
    using sht.reload_lookup [of 20 t e k] e inv that calculation
    by (simp add: st_clean index_map_def st_lookup_eq)
  ultimately show ?thesis
    using c o e(1) by (intro exI [of _ ?dk] exI [of _ t'] exI [of _ "?load e (st_items t)"])
      (simp add: index_init_def disk_pwrite_def)
qed

end
