(* ===== verification/ServerRecipe.thy ===== *)
theory ServerRecipe
  imports Prelude
begin

text \<open>
  The server's recipes (server/src/recipe.c, recipe.h): a file is the list of its chunks, each a
  fingerprint and the address of the container it is in, and all recipes are appended to one volume.
  The mutex of the volume is modelled, because the error paths return without releasing it: an
  operation that would wait for it for ever is \<open>None\<close>. \<open>sp\<close> is the global \<open>store_path\<close>.
\<close>

definition recipe_magic :: int where "recipe_magic = 0xa1b2c3d4 - 2 ^ 32"
definition recipe_volume_head_size :: int where "recipe_volume_head_size = 16"

record recipe =
  rp_chunknum :: int
  rp_filename :: "byte list"
  rp_file_hash :: fingerprint
  rp_is_new :: int
  rp_chunks :: "(fingerprint \<times> chunkaddress) list"

record recipe_volume =
  rv_file_num :: int
  rv_volume_length :: int
  rv_locked :: bool

definition recipe_new :: recipe where
  "recipe_new = \<lparr>rp_chunknum = 0, rp_filename = memset0 256, rp_file_hash = memset0 20, rp_is_new = -1,
     rp_chunks = []\<rparr>"

definition recipe_append_fingerchunk :: "recipe \<Rightarrow> fingerprint \<times> chunkaddress \<Rightarrow> recipe" where
  "recipe_append_fingerchunk rp fc = rp\<lparr>rp_chunks := rp_chunks rp @ [fc], rp_chunknum := rp_chunknum rp + 1\<rparr>"

definition recipe_path :: "byte list \<Rightarrow> byte list" where
  "recipe_path sp = sp @ asc ''recipe''"

definition recipe_header :: "recipe_volume \<Rightarrow> byte list" where
  "recipe_header rv = put_int 4 recipe_magic @ put_int 4 (rv_file_num rv) @ put_int 8 (rv_volume_length rv)"

definition recipe_volume_init :: "byte list \<Rightarrow> disk \<Rightarrow> disk \<times> recipe_volume \<times> bool" where
  "recipe_volume_init sp dk =
     (let rv = \<lparr>rv_file_num = 0, rv_volume_length = recipe_volume_head_size, rv_locked = False\<rparr> in
      case open_creat dk (recipe_path sp) of
        None \<Rightarrow> (dk, rv, False)
      | Some dk \<Rightarrow>
          let f = file_bytes dk (recipe_path sp) in
          if 4 \<le> length f \<and> get_int 4 f = recipe_magic
          then (dk, rv\<lparr>rv_file_num := read_int 4 0 (drop 4 f),
                       rv_volume_length := read_int 8 recipe_volume_head_size (drop 8 f)\<rparr>, True)
          else (disk_pwrite dk (recipe_path sp) 0 (recipe_header rv), rv, True))"

definition recipe_volume_flush :: "byte list \<Rightarrow> disk \<Rightarrow> recipe_volume \<Rightarrow> (disk \<times> recipe_volume \<times> bool) option" where
  "recipe_volume_flush sp dk rv =
     (if rv_locked rv then None
      else case open_creat dk (recipe_path sp) of
        None \<Rightarrow> Some (dk, rv\<lparr>rv_locked := True\<rparr>, False)
      | Some dk \<Rightarrow> Some (disk_pwrite dk (recipe_path sp) 0 (recipe_header rv), rv, True))"

definition enc_chunk :: "fingerprint \<times> chunkaddress \<Rightarrow> byte list" where
  "enc_chunk fc = fst fc @ snd fc"

definition dec_chunk :: "byte list \<Rightarrow> fingerprint \<times> chunkaddress" where
  "dec_chunk p = (take 20 p, take 64 (drop 20 p))"

text \<open>
  The offset is an \<open>int64_t\<close> of the index. What is missing at the end of a file that is too short
  counts as zeros.
\<close>

definition read_recipe_from_vol ::
    "byte list \<Rightarrow> disk \<Rightarrow> recipe_volume \<Rightarrow> int \<Rightarrow> recipe \<Rightarrow> (disk \<times> recipe_volume \<times> recipe \<times> bool) option" where
  "read_recipe_from_vol sp dk rv offset rp =
     (if rv_locked rv then None
      else case open_creat dk (recipe_path sp) of
        None \<Rightarrow> Some (dk, rv\<lparr>rv_locked := True\<rparr>, rp, False)
      | Some dk \<Rightarrow>
          let f = drop (nat offset) (file_bytes dk (recipe_path sp));
              n = (if 4 \<le> length f then nat (get_int 4 f) else 0);
              fcs = dec_many dec_chunk 84 n (drop 4 f @ replicate (84 * n) 0)
          in Some (dk, rv, foldl recipe_append_fingerchunk rp fcs, True))"

text \<open>
  Four bytes of \<open>chunknum\<close> are written and eight are counted. The offset is only set when the
  volume could be opened (without \<open>O_CREAT\<close>).
\<close>

definition write_recipe_to_vol ::
    "byte list \<Rightarrow> disk \<Rightarrow> recipe_volume \<Rightarrow> recipe \<Rightarrow> (disk \<times> recipe_volume \<times> int option \<times> bool) option" where
  "write_recipe_to_vol sp dk rv rp =
     (if rv_locked rv then None
      else if denied dk (recipe_path sp) \<or> files dk (recipe_path sp) = None
      then Some (dk, rv\<lparr>rv_locked := True\<rparr>, None, False)
      else let offset = rv_volume_length rv;
               dk = disk_pwrite dk (recipe_path sp) (nat offset)
                      (put_int 4 (rp_chunknum rp) @ concat (map enc_chunk (rp_chunks rp)));
               rv = rv\<lparr>rv_volume_length := rv_volume_length rv + (8 + rp_chunknum rp * 84),
                       rv_file_num := rv_file_num rv + 1\<rparr>
           in Some (dk, rv, Some offset, True))"

section \<open>The volume holds its recipes\<close>

interpretation chunk: fixed_codec enc_chunk dec_chunk 84 "\<lambda>fc. length (fst fc) = 20 \<and> length (snd fc) = 64"
  by unfold_locales (auto simp: enc_chunk_def dec_chunk_def)

definition chunks_ok :: "(fingerprint \<times> chunkaddress) list \<Rightarrow> bool" where
  "chunks_ok fcs \<longleftrightarrow> (\<forall>fc\<in>set fcs. length (fst fc) = 20 \<and> length (snd fc) = 64) \<and> length fcs < 2 ^ 31"

definition recipe_bytes :: "(fingerprint \<times> chunkaddress) list \<Rightarrow> byte list" where
  "recipe_bytes fcs = put_int 4 (int (length fcs)) @ concat (map enc_chunk fcs)"

text \<open>The recipe \<open>fcs\<close> is at \<open>off\<close>, inside the part of the volume that is in use.\<close>

definition recipe_at :: "byte list \<Rightarrow> disk \<Rightarrow> recipe_volume \<Rightarrow> int \<Rightarrow> (fingerprint \<times> chunkaddress) list \<Rightarrow> bool" where
  "recipe_at sp dk rv off fcs \<longleftrightarrow> 16 \<le> off \<and> chunks_ok fcs \<and>
     off + int (length (recipe_bytes fcs)) \<le> rv_volume_length rv \<and>
     pread (file_bytes dk (recipe_path sp)) (nat off) (length (recipe_bytes fcs)) = recipe_bytes fcs"

definition volume_ready :: "byte list \<Rightarrow> disk \<Rightarrow> recipe_volume \<Rightarrow> bool" where
  "volume_ready sp dk rv \<longleftrightarrow> \<not> rv_locked rv \<and> \<not> denied dk (recipe_path sp) \<and>
     (\<exists>f. files dk (recipe_path sp) = Some f) \<and> 16 \<le> rv_volume_length rv"

lemma length_recipe_bytes: "chunks_ok fcs \<Longrightarrow> length (recipe_bytes fcs) = 4 + 84 * length fcs"
  by (simp add: recipe_bytes_def chunks_ok_def chunk.enc_many_length)

lemma recipe_header_length [simp]: "length (recipe_header rv) = 16"
  by (simp add: recipe_header_def)

lemma foldl_recipe_append:
  "foldl recipe_append_fingerchunk rp fcs =
     rp\<lparr>rp_chunks := rp_chunks rp @ fcs, rp_chunknum := rp_chunknum rp + int (length fcs)\<rparr>"
  by (induction fcs arbitrary: rp) (auto simp: recipe_append_fingerchunk_def)

lemma read_recipe_spec:
  assumes "volume_ready sp dk rv" "recipe_at sp dk rv off fcs"
  shows "read_recipe_from_vol sp dk rv off rp =
    Some (dk, rv, foldl recipe_append_fingerchunk rp fcs, True)"
proof -
  obtain f where f: "files dk (recipe_path sp) = Some f" "\<not> denied dk (recipe_path sp)" "\<not> rv_locked rv"
    using assms(1) by (auto simp: volume_ready_def)
  have ok: "chunks_ok fcs" "take (length (recipe_bytes fcs)) (drop (nat off) f) = recipe_bytes fcs"
    using assms(2) f(1) by (auto simp: recipe_at_def pread_def file_bytes_def)
  then obtain r where r: "drop (nat off) f = recipe_bytes fcs @ r" by (metis append_take_drop_id)
  have "fits 4 (int (length fcs))" using ok(1) by (simp add: chunks_ok_def)
  then have n: "get_int 4 (recipe_bytes fcs @ r) = int (length fcs)" unfolding recipe_bytes_def append_assoc by (rule get_put_int)
  have d: "dec_many dec_chunk 84 (length fcs) (concat (map enc_chunk fcs) @ r @ replicate (84 * length fcs) 0) = fcs"
    using ok(1) by (intro chunk.dec_enc_many) (simp add: chunks_ok_def)
  have "drop 4 (recipe_bytes fcs @ r) = concat (map enc_chunk fcs) @ r" by (simp add: recipe_bytes_def)
  moreover have "4 \<le> length (recipe_bytes fcs @ r)" using length_recipe_bytes [OF ok(1)] by simp
  ultimately show ?thesis
    using f r n d by (simp add: read_recipe_from_vol_def open_creat_exists file_bytes_def Let_def)
qed

lemma write_recipe_spec:
  assumes V: "volume_ready sp dk rv"
    and rp: "rp_chunknum rp = int (length (rp_chunks rp))" "chunks_ok (rp_chunks rp)"
  shows "\<exists>dk' rv'. write_recipe_to_vol sp dk rv rp = Some (dk', rv', Some (rv_volume_length rv), True) \<and>
    volume_ready sp dk' rv' \<and> recipe_at sp dk' rv' (rv_volume_length rv) (rp_chunks rp) \<and>
    (\<forall>off fcs. recipe_at sp dk rv off fcs \<longrightarrow> recipe_at sp dk' rv' off fcs) \<and>
    denied dk' = denied dk \<and> (\<forall>p. p \<noteq> recipe_path sp \<longrightarrow> files dk' p = files dk p)"
proof -
  obtain f where f: "files dk (recipe_path sp) = Some f" "\<not> denied dk (recipe_path sp)" "\<not> rv_locked rv"
    "16 \<le> rv_volume_length rv"
    using V by (auto simp: volume_ready_def)
  let ?d = "recipe_bytes (rp_chunks rp)"
  let ?dk = "disk_pwrite dk (recipe_path sp) (nat (rv_volume_length rv)) ?d"
  let ?rv = "rv\<lparr>rv_volume_length := rv_volume_length rv + (8 + rp_chunknum rp * 84), rv_file_num := rv_file_num rv + 1\<rparr>"
  have w: "write_recipe_to_vol sp dk rv rp = Some (?dk, ?rv, Some (rv_volume_length rv), True)"
    using f rp(1) by (simp add: write_recipe_to_vol_def Let_def recipe_bytes_def)
  have b: "file_bytes ?dk (recipe_path sp) = pwrite f (nat (rv_volume_length rv)) ?d"
    using f(1) by (simp add: disk_pwrite_def file_bytes_def)
  have new: "recipe_at sp ?dk ?rv (rv_volume_length rv) (rp_chunks rp)"
    using f(4) rp length_recipe_bytes [OF rp(2)] by (simp add: recipe_at_def b)
  have old: "recipe_at sp ?dk ?rv off fcs" if "recipe_at sp dk rv off fcs" for off fcs
  proof -
    let ?n = "length (recipe_bytes fcs)"
    have r: "16 \<le> off" "chunks_ok fcs" "off + int ?n \<le> rv_volume_length rv" "pread f (nat off) ?n = recipe_bytes fcs"
      using that f(1) by (auto simp: recipe_at_def file_bytes_def)
    have "0 < ?n" using length_recipe_bytes [OF r(2)] by simp
    moreover have "?n = min ?n (length f - nat off)" using r(4) by (metis length_drop length_take pread_def min.commute)
    ultimately have "nat off + ?n \<le> length f" by (metis le_diff_conv2 add.commute min.absorb_iff1 nat_le_linear diff_is_0_eq' min.cobounded2 less_le_not_le)
    then have "pread (pwrite f (nat (rv_volume_length rv)) ?d) (nat off) ?n = pread f (nat off) ?n"
      using r(1,3) by (intro pread_pwrite_before) auto
    with r rp show ?thesis by (simp add: recipe_at_def b)
  qed
  have "volume_ready sp ?dk ?rv" using f rp(1) by (simp add: volume_ready_def disk_pwrite_def)
  with w new old show ?thesis
    by (intro exI [of _ ?dk] exI [of _ ?rv]) (auto simp: disk_pwrite_def)
qed

text \<open>Ending and starting the server leaves every recipe where it is.\<close>

lemma recipe_volume_reload:
  assumes V: "volume_ready sp dk rv" and "rv_volume_length rv < 2 ^ 63"
  shows "\<exists>dk' rv'. recipe_volume_flush sp dk rv = Some (dk', rv, True) \<and>
    denied dk' = denied dk \<and> (\<forall>p. p \<noteq> recipe_path sp \<longrightarrow> files dk' p = files dk p) \<and>
    (\<forall>dk2. files dk2 (recipe_path sp) = files dk' (recipe_path sp) \<and> denied dk2 = denied dk \<longrightarrow>
      recipe_volume_init sp dk2 = (dk2, rv', True) \<and> volume_ready sp dk2 rv' \<and>
      (\<forall>off fcs. recipe_at sp dk rv off fcs \<longrightarrow> recipe_at sp dk2 rv' off fcs))"
proof -
  obtain f where f: "files dk (recipe_path sp) = Some f" "\<not> denied dk (recipe_path sp)" "\<not> rv_locked rv"
    "16 \<le> rv_volume_length rv"
    using V by (auto simp: volume_ready_def)
  let ?dk = "disk_pwrite dk (recipe_path sp) 0 (recipe_header rv)"
  let ?f = "recipe_header rv @ drop 16 f"
  let ?rv = "\<lparr>rv_file_num = get_int 4 (put_int 4 (rv_file_num rv)), rv_volume_length = rv_volume_length rv, rv_locked = False\<rparr>"
  have fl: "recipe_volume_flush sp dk rv = Some (?dk, rv, True)"
    using f by (simp add: recipe_volume_flush_def open_creat_exists)
  have g: "get_int 4 ?f = recipe_magic" "read_int 4 0 (drop 4 ?f) = get_int 4 (put_int 4 (rv_file_num rv))"
    "read_int 8 recipe_volume_head_size (drop 8 ?f) = rv_volume_length rv"
    using f(4) assms(2) by (simp_all add: recipe_header_def recipe_magic_def read_int_full) (simp add: get_int_def)
  have "recipe_volume_init sp dk2 = (dk2, ?rv, True) \<and> volume_ready sp dk2 ?rv \<and>
      (\<forall>off fcs. recipe_at sp dk rv off fcs \<longrightarrow> recipe_at sp dk2 ?rv off fcs)"
    if "files dk2 (recipe_path sp) = files ?dk (recipe_path sp)" "denied dk2 = denied dk" for dk2
  proof -
    have b: "files dk2 (recipe_path sp) = Some ?f" using f(1) that(1) by (simp add: disk_pwrite_def pwrite_def)
    have "recipe_volume_init sp dk2 = (dk2, ?rv, True)"
      using b f(2) that(2) g by (simp add: recipe_volume_init_def open_creat_exists file_bytes_def Let_def)
    moreover have "recipe_at sp dk2 ?rv off fcs" if "recipe_at sp dk rv off fcs" for off fcs
      using that b f(1) by (auto simp: recipe_at_def file_bytes_def pread_def)
    moreover have "volume_ready sp dk2 ?rv" using b f that(2) by (simp add: volume_ready_def)
    ultimately show ?thesis by blast
  qed
  with fl show ?thesis by (intro exI [of _ ?dk] exI [of _ ?rv]) (simp add: disk_pwrite_def)
qed

text \<open>The first start, on a disk without a volume.\<close>

lemma recipe_volume_fresh:
  assumes "\<not> denied dk (recipe_path sp)" "files dk (recipe_path sp) = None"
  shows "\<exists>dk' rv. recipe_volume_init sp dk = (dk', rv, True) \<and> volume_ready sp dk' rv \<and>
    denied dk' = denied dk \<and> (\<forall>p. p \<noteq> recipe_path sp \<longrightarrow> files dk' p = files dk p)"
  using assms
  by (simp add: recipe_volume_init_def open_creat_def file_bytes_def Let_def disk_pwrite_def volume_ready_def
      recipe_volume_head_size_def)

text \<open>
  A volume that cannot be opened is never unlocked again, so every later operation on it waits for
  ever.
\<close>

lemma recipe_lock_leaks:
  assumes "denied dk (recipe_path sp)" "\<not> rv_locked rv"
  shows "\<exists>rv'. write_recipe_to_vol sp dk rv rp = Some (dk, rv', None, False) \<and>
    write_recipe_to_vol sp dk2 rv' rp2 = None \<and> read_recipe_from_vol sp dk2 rv' off rp2 = None \<and>
    recipe_volume_flush sp dk2 rv' = None"
  using assms
  by (simp add: write_recipe_to_vol_def read_recipe_from_vol_def recipe_volume_flush_def)

end
