(* ===== verification/Scan.thy ===== *)
theory Scan
  imports Prelude
begin

text \<open>
  What the program uses of \<open>sscanf\<close> and \<open>sprintf\<close> on the text commands of its protocol: literal text
  (a blank in a format skips any white space), \<open>%d\<close> and \<open>%s\<close>. A number that does not fit an \<open>int\<close> is
  undefined behaviour of \<open>sscanf\<close>; here it stays the number that was written.
\<close>

definition is_space :: "byte \<Rightarrow> bool" where
  "is_space c \<longleftrightarrow> c = 32 \<or> (9 \<le> c \<and> c \<le> 13)"

definition is_digit :: "byte \<Rightarrow> bool" where
  "is_digit c \<longleftrightarrow> 48 \<le> c \<and> c \<le> 57"

fun scan_sign :: "byte list \<Rightarrow> bool \<times> byte list" where
  "scan_sign [] = (False, [])"
| "scan_sign (c # s) = (if c = 45 then (True, s) else if c = 43 then (False, s) else (False, c # s))"

definition scan_int :: "byte list \<Rightarrow> (int \<times> byte list) option" where
  "scan_int s =
     (let (neg, s) = scan_sign (dropWhile is_space s);
          ds = takeWhile is_digit s;
          n = int (dec_value ds)
      in if ds = [] then None else Some (if neg then - n else n, dropWhile is_digit s))"

fun scan_lit :: "byte list \<Rightarrow> byte list \<Rightarrow> byte list option" where
  "scan_lit [] s = Some s"
| "scan_lit (f # fs) s =
     (if is_space f then scan_lit fs (dropWhile is_space s)
      else case s of [] \<Rightarrow> None | c # s \<Rightarrow> if c = f then scan_lit fs s else None)"

definition scan_str :: "byte list \<Rightarrow> (byte list \<times> byte list) option" where
  "scan_str s =
     (let s = dropWhile is_space s; w = takeWhile (\<lambda>c. \<not> is_space c) s
      in if w = [] then None else Some (w, dropWhile (\<lambda>c. \<not> is_space c) s))"

definition show_int :: "int \<Rightarrow> byte list" where
  "show_int i = (if i < 0 then 45 # dec_digits (nat (- i)) else dec_digits (nat i))"

section \<open>Reading back what was printed\<close>

lemma digit_spec: "d < 10 \<Longrightarrow> is_digit (word_of_nat (48 + d))"
proof -
  assume "d < 10"
  then have "unat (word_of_nat (48 + d) :: byte) = 48 + d" by (intro unat_digit) simp
  with \<open>d < 10\<close> show ?thesis by (simp add: is_digit_def word_le_nat_alt)
qed

lemma digit_not_space: "is_digit c \<Longrightarrow> \<not> is_space c \<and> c \<noteq> 45 \<and> c \<noteq> 43"
  by (auto simp: is_digit_def is_space_def word_le_nat_alt)

lemma dec_digits_digits: "c \<in> set (dec_digits n) \<Longrightarrow> is_digit c"
proof (induction n rule: dec_digits.induct)
  case (1 n)
  have "is_digit (word_of_nat (48 + n mod 10))" by (rule digit_spec) simp
  with 1 show ?case by (subst (asm) (2) dec_digits.simps) (auto split: if_splits)
qed

lemma dec_digits_nonempty: "dec_digits n \<noteq> []"
  by (subst dec_digits.simps) simp

lemma scan_int_digits:
  assumes "r = [] \<or> \<not> is_digit (hd r)"
  shows "scan_int (dec_digits n @ r) = Some (int n, r)"
proof -
  obtain c ds where d: "dec_digits n = c # ds" using dec_digits_nonempty by (cases "dec_digits n") auto
  have "is_digit c" using d dec_digits_digits [of c n] by simp
  then have c: "\<not> is_space c" "c \<noteq> 45" "c \<noteq> 43" using digit_not_space by auto
  have "takeWhile is_digit (dec_digits n @ r) = dec_digits n @ takeWhile is_digit r"
    using dec_digits_digits by (intro takeWhile_append2) auto
  moreover have "takeWhile is_digit r = []" using assms by (cases r) auto
  moreover have "dropWhile is_digit (dec_digits n @ r) = dropWhile is_digit r"
    using dec_digits_digits by (intro dropWhile_append2) auto
  moreover have "dropWhile is_digit r = r" using assms by (cases r) auto
  moreover have "scan_sign (dropWhile is_space (dec_digits n @ r)) = (False, dec_digits n @ r)"
    using d c by simp
  ultimately show ?thesis using dec_digits_nonempty by (simp add: scan_int_def)
qed

lemma scan_int_show:
  assumes "r = [] \<or> \<not> is_digit (hd r)"
  shows "scan_int (show_int i @ r) = Some (i, r)"
proof (cases "i < 0")
  case True
  let ?ds = "dec_digits (nat (- i))"
  obtain c ds where d: "?ds = c # ds" using dec_digits_nonempty by (cases ?ds) auto
  then have "is_digit c" using dec_digits_digits [of c "nat (- i)"] by simp
  then have c: "\<not> is_space c" "c \<noteq> 45" "c \<noteq> 43" using digit_not_space by auto
  from scan_int_digits [OF assms, of "nat (- i)"] c d
  have t: "takeWhile is_digit (?ds @ r) \<noteq> []" "int (dec_value (takeWhile is_digit (?ds @ r))) = - i" "dropWhile is_digit (?ds @ r) = r"
    using True by (auto simp: scan_int_def Let_def split: if_splits)
  have "scan_sign (dropWhile is_space (45 # ?ds @ r)) = (True, ?ds @ r)" by (simp add: is_space_def)
  with t True show ?thesis by (simp add: scan_int_def show_int_def Let_def)
qed (use scan_int_digits [OF assms, of "nat i"] in \<open>simp add: show_int_def\<close>)

lemma scan_str_word:
  assumes "w \<noteq> []" "\<forall>c\<in>set w. \<not> is_space c" "r = [] \<or> is_space (hd r)"
  shows "scan_str (w @ r) = Some (w, r)"
proof -
  have "dropWhile is_space (w @ r) = w @ r" using assms by (cases w) auto
  moreover have "takeWhile (\<lambda>c. \<not> is_space c) (w @ r) = w"
    using assms takeWhile_append2 [of w "\<lambda>c. \<not> is_space c" r] by (cases r) auto
  moreover have "dropWhile (\<lambda>c. \<not> is_space c) (w @ r) = r"
    using assms dropWhile_append2 [of w "\<lambda>c. \<not> is_space c" r] by (cases r) auto
  ultimately show ?thesis using assms(1) by (simp add: scan_str_def)
qed

lemma scan_lit_same: "\<forall>c\<in>set f. \<not> is_space c \<Longrightarrow> scan_lit f (f @ s) = Some s"
  by (induction f) auto

end
