(* ===== verification/ServerDedup.thy ===== *)
theory ServerDedup
  imports ServerIndex ServerRecipe Scan Bnet
begin

text \<open>
  The server's side of a backup and of a restore (server/src/backup.c, restore.c and the handlers
  \<open>new_backup\<close> and \<open>restore\<close> of dedupHandle.c, with the record insertions of database/db.c). What a
  client sent and has not been received yet is a list of packets, and so is what the server has sent:
  the theorems of Bnet say why. An empty list is a connection that the client has closed. The result
  of a \<open>bnet_send\<close> is only compared with \<open>false\<close>, which it never is, so sending always goes on.
  \<open>None\<close>: the handler does not come back, because it waits for a lock that nobody holds any more,
  follows a NULL or freed recipe, or copies a fingerprint or a path over the end of its buffer.
\<close>

section \<open>The database\<close>

text \<open>
  MySQL is a parameter: every insertion takes the database to a new state and returns the new id, or
  fails; \<open>my_job_files\<close> are the rows of the query for the files of a job. \<open>se_junk\<close> is what \<open>malloc\<close> leaves in a new \<open>IndexItem\<close>, \<open>se_time\<close> the time as it is printed.
\<close>

record 'db server_env =
  se_path :: "byte list"
  se_time :: "byte list"
  se_junk :: int
  my_object :: "'db \<Rightarrow> byte list \<Rightarrow> int \<Rightarrow> byte list \<Rightarrow> 'db \<times> int option"
  my_job :: "'db \<Rightarrow> int \<Rightarrow> int \<Rightarrow> 'db \<times> int option"
  my_file :: "'db \<Rightarrow> int \<Rightarrow> byte list \<Rightarrow> fingerprint \<Rightarrow> 'db \<times> int option"
  my_version :: "'db \<Rightarrow> int \<Rightarrow> int \<Rightarrow> byte list \<Rightarrow> 'db \<times> bool"
  my_job_files :: "'db \<Rightarrow> int \<Rightarrow> (fingerprint \<times> byte list) list option"

text \<open>The \<open>ASSERT\<close>s return \<open>false\<close>. The id of a record that could not be inserted is 0.\<close>

definition insert_record_into_object ::
    "'db server_env \<Rightarrow> 'db \<Rightarrow> int \<Rightarrow> byte list \<Rightarrow> byte list \<Rightarrow> 'db \<times> int \<times> bool" where
  "insert_record_into_object e db user name fileset =
     (if user = 0 then (db, 0, False)
      else case my_object e db name user fileset of (db, None) \<Rightarrow> (db, 0, False) | (db, Some i) \<Rightarrow> (db, i, True))"

definition insert_record_into_job :: "'db server_env \<Rightarrow> 'db \<Rightarrow> int \<Rightarrow> int \<Rightarrow> 'db \<times> int \<times> bool" where
  "insert_record_into_job e db user object =
     (if user = 0 \<or> object = 0 then (db, 0, False)
      else case my_job e db user object of (db, None) \<Rightarrow> (db, 0, False) | (db, Some i) \<Rightarrow> (db, i, True))"

definition insert_record_into_file ::
    "'db server_env \<Rightarrow> 'db \<Rightarrow> int \<Rightarrow> byte list \<Rightarrow> fingerprint \<Rightarrow> 'db \<times> int \<times> bool" where
  "insert_record_into_file e db job path hash =
     (if job = 0 then (db, 0, False)
      else case my_file e db job path hash of (db, None) \<Rightarrow> (db, 0, False) | (db, Some i) \<Rightarrow> (db, i, True))"

definition insert_record_into_versionfile ::
    "'db server_env \<Rightarrow> 'db \<Rightarrow> int \<Rightarrow> int \<Rightarrow> byte list \<Rightarrow> 'db \<times> bool" where
  "insert_record_into_versionfile e db file job path =
     (if file = 0 \<or> job = 0 then (db, False) else my_version e db file job path)"

section \<open>The session\<close>

record 'db session =
  ss_disk :: disk
  ss_rv :: recipe_volume
  ss_index :: "int stable"
  ss_db :: 'db
  ss_in :: "packet list"
  ss_out :: "packet list"
  ss_buf :: "byte list"
  ss_len :: int
  ss_rp :: "recipe option"
  ss_chunknum :: int
  ss_result :: bool
  ss_job_id :: int
  ss_file_count :: int

definition send :: "byte list \<Rightarrow> 'db session \<Rightarrow> 'db session" where
  "send msg s = s\<lparr>ss_out := ss_out s @ [Data msg]\<rparr>"

text \<open>
  \<open>file_dedup_mark\<close>: the two characters are sent as a C string, so the character \<open>NEW_FILE\<close>, which is
  0, is not sent.
\<close>

definition file_dedup_mark :: "'db server_env \<Rightarrow> 'db session \<Rightarrow> recipe \<Rightarrow> ('db session \<times> recipe) option" where
  "file_dedup_mark e s rp =
     (case index_lookup (ss_index s) (rp_file_hash rp) of
        (t, None) \<Rightarrow> Some (send (cstr [1, 0, 0]) (s\<lparr>ss_index := t\<rparr>), rp\<lparr>rp_is_new := NEW_FILE\<rparr>)
      | (t, Some off) \<Rightarrow>
          (case read_recipe_from_vol (se_path e) (ss_disk s) (ss_rv s) off (rp\<lparr>rp_is_new := DEDUP_FILE\<rparr>) of
             None \<Rightarrow> None
           | Some (dk, rv, rp, ok) \<Rightarrow>
               let s = s\<lparr>ss_index := t, ss_disk := dk, ss_rv := rv\<rparr>
               in Some (if ok then send (cstr [1, 1, 0]) s else s, rp)))"

definition send_chunk_info :: "'db session \<Rightarrow> recipe \<Rightarrow> 'db session" where
  "send_chunk_info s rp =
     foldl (\<lambda>s fc. send (enc_chunk fc) s) (send (put_int 8 (rp_chunknum rp)) s) (rp_chunks rp)"

text \<open>\<open>recv_deplicate_chunk\<close>: only a signal 0 ends the loop early; after any other failure the cleared
  buffer is taken for a chunk.\<close>

fun srv_recv_chunks :: "nat \<Rightarrow> packet list \<Rightarrow> recipe \<Rightarrow> packet list \<times> recipe" where
  "srv_recv_chunks 0 ps rp = (ps, rp)"
| "srv_recv_chunks (Suc n) ps rp =
     (case net_recv ps [] 0 of (r, len, d, ps) \<Rightarrow>
        if r = 0 then (ps, rp)
        else srv_recv_chunks n ps (recipe_append_fingerchunk rp (dec_chunk (d @ replicate 84 0))))"

text \<open>\<open>sscanf(buf, "UPDATEATTR chunknum=%d filepath=%s", ...)\<close>: what was converted.\<close>

definition scan_update :: "byte list \<Rightarrow> int option \<times> byte list option" where
  "scan_update s =
     (case scan_lit (asc ''UPDATEATTR chunknum='') s of
        None \<Rightarrow> (None, None)
      | Some s \<Rightarrow>
          (case scan_int s of
             None \<Rightarrow> (None, None)
           | Some (n, s) \<Rightarrow>
               (case scan_lit (asc '' filepath='') s of
                  None \<Rightarrow> (Some n, None)
                | Some s \<Rightarrow> (Some n, map_option fst (scan_str s)))))"

definition updateattr_ok :: "byte list" where "updateattr_ok = asc ''5001 update attr ok''"
definition updateattr_fail :: "byte list" where "updateattr_fail = asc ''5002 update attr fail''"
definition backup_ok :: "byte list" where "backup_ok = asc ''4001 backup ok''"
definition backup_fail :: "byte list" where "backup_fail = asc ''4002 backup fail''"

text \<open>The case \<open>FILE_HASH\<close>: the fingerprint of a file; the answer says whether the server knows it.\<close>

definition backup_hash :: "'db server_env \<Rightarrow> 'db session \<Rightarrow> 'db session option" where
  "backup_hash e s =
     (case net_recv (ss_in s) [] (ss_len s) of (r, len, d, ps) \<Rightarrow>
        if len < 0 \<or> 20 < len then None
        else
          let rp = recipe_new\<lparr>rp_file_hash := memcpy_at (rp_file_hash recipe_new) 0 (take (nat len) (d @ replicate 20 0))\<rparr>;
              s = s\<lparr>ss_in := ps, ss_len := len, ss_buf := d, ss_file_count := ss_file_count s + 1\<rparr>
          in case file_dedup_mark e s rp of
               None \<Rightarrow> None
             | Some (s, rp) \<Rightarrow>
                 Some ((if rp_is_new rp = DEDUP_FILE then send_chunk_info s rp else s)\<lparr>ss_rp := Some rp\<rparr>))"

text \<open>
  The case \<open>FILE_RECIPE\<close>, first the chunks of a new file: they are received, written to the volume
  and entered into the index, whether writing them has worked or not.
\<close>

definition backup_store :: "'db server_env \<Rightarrow> 'db session \<Rightarrow> recipe \<Rightarrow> ('db session \<times> recipe) option" where
  "backup_store e s rp =
     (case srv_recv_chunks (nat (ss_chunknum s)) (ss_in s) rp of (ps, rp) \<Rightarrow>
        case write_recipe_to_vol (se_path e) (ss_disk s) (ss_rv s) rp of
          None \<Rightarrow> None
        | Some (dk, rv, off, ok) \<Rightarrow>
            Some (s\<lparr>ss_in := ps, ss_disk := dk, ss_rv := rv, ss_result := ss_result s \<and> ok,
                    ss_index := fst (index_insert (ss_index s) (rp_file_hash rp)
                      (case off of None \<Rightarrow> se_junk e | Some off \<Rightarrow> off))\<rparr>, rp))"

text \<open>Then the records of the file, and the answer. \<open>result\<close> is never set to \<open>true\<close> again.\<close>

definition backup_record :: "'db server_env \<Rightarrow> 'db session \<Rightarrow> recipe \<Rightarrow> 'db session" where
  "backup_record e s rp =
     (case insert_record_into_file e (ss_db s) (ss_job_id s) (cstr (rp_filename rp)) (rp_file_hash rp) of
        (db, fid, ok1) \<Rightarrow>
          case insert_record_into_versionfile e db fid (ss_job_id s) (cstr (rp_filename rp)) of
            (db, ok2) \<Rightarrow>
              let result = (ss_result s \<and> ok1 \<and> ok2);
                  buf = (if result then updateattr_ok else updateattr_fail)
              in send buf (s\<lparr>ss_db := db, ss_result := result, ss_buf := buf\<rparr>))"

definition backup_recipe :: "'db server_env \<Rightarrow> 'db session \<Rightarrow> 'db session option" where
  "backup_recipe e s =
     (case net_recv (ss_in s) [] (ss_len s) of (r, len, d, ps) \<Rightarrow>
        case ss_rp s of
          None \<Rightarrow> None
        | Some rp \<Rightarrow>
            (case scan_update (cstr d) of (n, path) \<Rightarrow>
               if path \<noteq> None \<and> 256 \<le> length (the path) then None
               else let rp = (case path of None \<Rightarrow> rp | Some path \<Rightarrow> rp\<lparr>rp_filename := strcpy_to (rp_filename rp) path\<rparr>);
                   s = s\<lparr>ss_in := ps, ss_len := len, ss_buf := d,
                         ss_chunknum := (case n of None \<Rightarrow> ss_chunknum s | Some n \<Rightarrow> n),
                         ss_result := ss_result s \<and> path \<noteq> None\<rparr>
               in if rp_is_new rp = NEW_FILE
                  then map_option (\<lambda>(s, rp). (backup_record e s rp)\<lparr>ss_rp := None\<rparr>) (backup_store e s rp)
                  else Some ((backup_record e s rp)\<lparr>ss_rp := None\<rparr>)))"

text \<open>One round of the loop of \<open>new_backup\<close>.\<close>

datatype 'db round = Again "'db session" | Over "'db session" | Failed "'db session" | Stuck

definition backup_round :: "'db server_env \<Rightarrow> 'db session \<Rightarrow> 'db round" where
  "backup_round e s =
     (case net_recv (ss_in s) (ss_buf s) (ss_len s) of (r, len, buf, ps) \<Rightarrow>
        let s = s\<lparr>ss_in := ps, ss_len := len, ss_buf := buf\<rparr>;
            go = (\<lambda>x. case x of None \<Rightarrow> Stuck | Some s \<Rightarrow> Again s)
        in if r = ERROR \<or> len = STREAM_END then Over s
           else case scan_int (cstr buf) of
                  None \<Rightarrow> Failed s
                | Some (t, _) \<Rightarrow>
                    if t = 1 then go (backup_hash e s)
                    else if t = 2 then go (backup_recipe e s)
                    else Again s)"

lemma srv_recv_chunks_shorter: "length (fst (srv_recv_chunks n ps rp)) \<le> length ps"
proof (induction n arbitrary: ps rp)
  case (Suc n)
  obtain r l d qs where q: "net_recv ps [] 0 = (r, l, d, qs)" by (metis prod_cases4)
  show ?case
  proof (cases "r = 0")
    case True
    with q net_recv_shorter [OF q] show ?thesis by simp
  next
    case False
    let ?rp = "recipe_append_fingerchunk rp (dec_chunk (d @ replicate 84 0))"
    have "srv_recv_chunks (Suc n) ps rp = srv_recv_chunks n qs ?rp" using q False by simp
    with Suc.IH [of qs ?rp] net_recv_shorter [OF q] show ?thesis by simp
  qed
qed simp

lemma send_fields [simp]:
  "ss_in (send m s) = ss_in s" "ss_out (send m s) = ss_out s @ [Data m]" "ss_disk (send m s) = ss_disk s"
  "ss_rv (send m s) = ss_rv s" "ss_index (send m s) = ss_index s" "ss_rp (send m s) = ss_rp s"
  "ss_job_id (send m s) = ss_job_id s" "ss_result (send m s) = ss_result s" "ss_db (send m s) = ss_db s"
  "ss_chunknum (send m s) = ss_chunknum s" "ss_buf (send m s) = ss_buf s" "ss_len (send m s) = ss_len s"
  by (simp_all add: send_def)

lemma send_chunk_info_eq:
  "send_chunk_info s rp = s\<lparr>ss_out := ss_out s @ map Data (put_int 8 (rp_chunknum rp) # map enc_chunk (rp_chunks rp))\<rparr>"
proof -
  have "foldl (\<lambda>s fc. send (enc_chunk fc) s) s fcs = s\<lparr>ss_out := ss_out s @ map (Data \<circ> enc_chunk) fcs\<rparr>"
    for s :: "'a session" and fcs
    by (induction fcs arbitrary: s) (auto simp: send_def)
  then show ?thesis by (simp add: send_chunk_info_def) (simp add: send_def comp_def)
qed

lemma file_dedup_mark_in: "file_dedup_mark e s rp = Some (s', rp') \<Longrightarrow> ss_in s' = ss_in s"
  by (auto simp: file_dedup_mark_def Let_def split: prod.splits option.splits if_splits)

lemma backup_hash_in:
  assumes "backup_hash e s = Some s'"
  shows "length (ss_in s') \<le> length (ss_in s)"
proof -
  obtain r l d ps where q: "net_recv (ss_in s) [] (ss_len s) = (r, l, d, ps)" by (metis prod_cases4)
  with assms net_recv_shorter [OF q] show ?thesis
    by (auto simp: backup_hash_def Let_def send_chunk_info_eq dest!: file_dedup_mark_in split: if_splits option.splits)
qed

lemma backup_record_in [simp]: "ss_in (backup_record e s rp) = ss_in s"
  by (simp add: backup_record_def Let_def split: prod.splits)

lemma backup_store_in: "backup_store e s rp = Some (s', rp') \<Longrightarrow> length (ss_in s') \<le> length (ss_in s)"
  using srv_recv_chunks_shorter [of "nat (ss_chunknum s)" "ss_in s" rp]
  by (auto simp: backup_store_def split: prod.splits option.splits)

lemma backup_recipe_in:
  assumes "backup_recipe e s = Some s'"
  shows "length (ss_in s') \<le> length (ss_in s)"
proof -
  obtain r l d ps where q: "net_recv (ss_in s) [] (ss_len s) = (r, l, d, ps)" by (metis prod_cases4)
  with assms net_recv_shorter [OF q] show ?thesis
    by (auto simp: backup_recipe_def Let_def dest!: backup_store_in split: if_splits option.splits prod.splits)
qed

lemma backup_round_shorter:
  assumes "backup_round e s = Again s'"
  shows "length (ss_in s') < length (ss_in s)"
proof -
  obtain r l d ps where q: "net_recv (ss_in s) (ss_buf s) (ss_len s) = (r, l, d, ps)" by (metis prod_cases4)
  have "ss_in s \<noteq> []" using assms by (auto simp: backup_round_def)
  with q net_recv_shorter [OF q] have "length ps < length (ss_in s)" by simp
  with assms q show ?thesis
    by (auto simp: backup_round_def Let_def dest!: backup_hash_in backup_recipe_in split: if_splits option.splits)
qed

text \<open>The loop ends with the inbox at the latest: every round receives something.\<close>

function backup_loop :: "'db server_env \<Rightarrow> 'db session \<Rightarrow> (int \<times> 'db session) option" where
  "backup_loop e s =
     (case backup_round e s of
        Again s \<Rightarrow> backup_loop e s
      | Over s \<Rightarrow> Some (0, send backup_ok s)
      | Failed s \<Rightarrow> Some (-1, send backup_fail s)
      | Stuck \<Rightarrow> None)"
  by pat_completeness auto
termination
  by (relation "measure (\<lambda>(e, s). length (ss_in s))") (auto dest: backup_round_shorter)

declare backup_loop.simps [simp del]

text \<open>
  \<open>new_backup\<close>: \<open>BACK fileset=%s\<close>, the records of the object and of the job, and the loop. The return
  value is \<open>DEDUPHANDLETRUE\<close> (0), \<open>DEDUPHANDLEFAIL\<close> (-1), or \<open>false\<close> (0) for a bad command, to which
  nothing is answered.
\<close>

definition new_backup ::
    "'db server_env \<Rightarrow> int \<Rightarrow> byte list \<Rightarrow> byte list \<Rightarrow> 'db session \<Rightarrow> (int \<times> 'db session) option" where
  "new_backup e user username msg s =
     (case scan_lit (asc ''BACK fileset='') (cstr msg) of
        None \<Rightarrow> Some (0, s)
      | Some m \<Rightarrow>
          (case scan_str m of
             None \<Rightarrow> Some (0, s)
           | Some (path, _) \<Rightarrow>
               (case insert_record_into_object e (ss_db s) user (asc ''f'' @ cstr username @ se_time e) path of
                  (db, oid, ok1) \<Rightarrow>
                    (case insert_record_into_job e db user oid of
                       (db, jid, ok2) \<Rightarrow>
                         backup_loop e (s\<lparr>ss_db := db, ss_job_id := jid, ss_result := ok1 \<and> ok2,
                           ss_file_count := 0, ss_rp := None, ss_buf := []\<rparr>)))))"

section \<open>Restoring\<close>

definition get_file_info :: "'db server_env \<Rightarrow> 'db session \<Rightarrow> recipe \<Rightarrow> ('db session \<times> recipe \<times> int) option" where
  "get_file_info e s rp =
     (case index_lookup (ss_index s) (rp_file_hash rp) of
        (t, None) \<Rightarrow> Some (s\<lparr>ss_index := t\<rparr>, rp, FAILURE)
      | (t, Some off) \<Rightarrow>
          (case read_recipe_from_vol (se_path e) (ss_disk s) (ss_rv s) off rp of
             None \<Rightarrow> None
           | Some (dk, rv, rp, ok) \<Rightarrow>
               Some (s\<lparr>ss_index := t, ss_disk := dk, ss_rv := rv\<rparr>, rp, if ok then SUCCESS else FAILURE)))"

text \<open>\<open>db_get_job_files\<close>: one buffer for every row, with the length of what follows; no rows is a failure.\<close>

definition job_file_buf :: "fingerprint \<times> byte list \<Rightarrow> byte list" where
  "job_file_buf hp = put_int 4 (int (20 + length (cstr (snd hp)))) @ take 20 (fst hp) @ cstr (snd hp)"

definition db_get_job_files :: "'db server_env \<Rightarrow> 'db \<Rightarrow> int \<Rightarrow> byte list list option" where
  "db_get_job_files e db job =
     (case my_job_files e db job of
        None \<Rightarrow> None
      | Some rows \<Rightarrow> if rows = [] then None else Some (map job_file_buf rows))"

definition send_job_info :: "'db session \<Rightarrow> byte list list \<Rightarrow> 'db session" where
  "send_job_info s fs =
     send (concat (map (\<lambda>f. take (4 + nat (get_int 4 f)) f) fs)) (send (put_int 4 (int (length fs))) s)"

fun send_recipes :: "'db server_env \<Rightarrow> 'db session \<Rightarrow> byte list list \<Rightarrow> 'db session option" where
  "send_recipes e s [] = Some s"
| "send_recipes e s (f # fs) =
     (case get_file_info e s (recipe_new\<lparr>rp_file_hash := take 20 (drop 4 f)\<rparr>) of
        None \<Rightarrow> None
      | Some (s, rp, err) \<Rightarrow> send_recipes e (send_chunk_info s rp) fs)"

definition restore :: "'db server_env \<Rightarrow> byte list \<Rightarrow> 'db session \<Rightarrow> (int \<times> 'db session) option" where
  "restore e msg s =
     (case scan_lit (asc ''REST jobid='') (cstr msg) of
        None \<Rightarrow> Some (FAILURE, s)
      | Some m \<Rightarrow>
          (case scan_int m of
             None \<Rightarrow> Some (FAILURE, s)
           | Some (job, _) \<Rightarrow>
               (case db_get_job_files e (ss_db s) job of
                  None \<Rightarrow> Some (FAILURE, s)
                | Some fs \<Rightarrow> map_option (Pair SUCCESS) (send_recipes e (send_job_info s fs) fs))))"

end
