(* ===== verification/ClientExchange.thy ===== *)
theory ClientExchange
  imports Dedup Sha1 Scan Bnet
begin

text \<open>
  The client's side of a backup and of a restore (client/src/filededup.c, update_file_recipe of
  chunkdedup.c, the receiving half of restore.c). A function takes the packets that the server will
  have sent and returns what is left of them, and the packets that it sends. \<open>bnet_send\<close> is only
  compared with \<open>false\<close>, which it never returns.
\<close>

section \<open>Asking for a file\<close>

text \<open>\<open>is_new_file\<close>: the answer is read from a cleared buffer.\<close>

definition is_new_file :: "fileinfo \<Rightarrow> packet list \<Rightarrow> fileinfo \<times> int \<times> packet list \<times> packet list" where
  "is_new_file fi ps =
     (let sent = [Data (show_int 1), Data (file_hash fi)] in
      case net_recv ps [] 0 of (r, len, d, ps) \<Rightarrow>
        let buf = d @ [0, 0] in
        if r = 0 \<or> buf ! 0 = 0 then (fi, FAILURE, ps, sent)
        else (fi\<lparr>fi_is_new := (if buf ! 1 = 0 then NEW_FILE else DEDUP_FILE)\<rparr>, SUCCESS, ps, sent))"

fun cl_recv_chunks :: "nat \<Rightarrow> packet list \<Rightarrow> fileinfo \<Rightarrow> fileinfo \<times> int \<times> packet list" where
  "cl_recv_chunks 0 ps fi = (fi, SUCCESS, ps)"
| "cl_recv_chunks (Suc n) ps fi =
     (case net_recv ps [] 0 of (r, len, d, ps) \<Rightarrow>
        if r = 0 then (fi, FAILURE, ps)
        else
          let p = d @ replicate 84 0;
              fc = fingerchunk_new\<lparr>chunk_hash := take 20 p, fc_address := take 64 (drop 20 p)\<rparr>
          in cl_recv_chunks n ps (file_append_fingerchunk fi fc))"

text \<open>
  \<open>recv_deplicate_chunk\<close> receives the number of chunks straight into an \<open>int\<close>; without at least four
  bytes it has not been set (\<open>None\<close>), and of more bytes the first four are the number.
\<close>

definition recv_deplicate_chunk :: "fileinfo \<Rightarrow> packet list \<Rightarrow> (fileinfo \<times> int \<times> packet list) option" where
  "recv_deplicate_chunk fi ps =
     (case net_recv ps [] 0 of (r, len, d, ps) \<Rightarrow>
        if r = 0 then Some (fi, FAILURE, ps)
        else if length d < 4 then None
        else Some (cl_recv_chunks (nat (get_int 4 d)) ps fi))"

section \<open>Sending the recipe\<close>

definition update_msg :: "int \<Rightarrow> byte list \<Rightarrow> byte list" where
  "update_msg n path = asc ''UPDATEATTR chunknum='' @ show_int n @ asc '' filepath='' @ cstr path"

definition attr_ok :: "byte list" where "attr_ok = asc ''5001 update attr ok''"

text \<open>\<open>strncmp(msg, s, strlen(s)) == 0\<close> for a cleared buffer \<open>msg\<close>.\<close>

definition starts_with :: "byte list \<Rightarrow> byte list \<Rightarrow> bool" where
  "starts_with d s \<longleftrightarrow> take (length s) (d @ replicate (length s) 0) = s"

definition update_file_recipe :: "fileinfo \<Rightarrow> packet list \<Rightarrow> bool \<times> packet list \<times> packet list" where
  "update_file_recipe fi ps =
     (let sent = [Data (show_int 2), Data (update_msg (chunknum fi) (file_path fi))] @
            (if fi_is_new fi = NEW_FILE then map (\<lambda>fc. Data (chunk_hash fc @ fc_address fc)) (fchunks fi) else [])
      in case net_recv ps [] 0 of (r, len, d, ps) \<Rightarrow> (r \<noteq> 0 \<and> starts_with d attr_ok, ps, sent))"

section \<open>A file, from beginning to end\<close>

text \<open>
  \<open>file_dudup\<close> with the bytes of the file as they are read for its hash (\<open>reads\<close>) and for its chunks
  (\<open>file\<close>). The result is the new state of the client, what it has sent, what it has not received
  yet, and \<open>FILEDEDUPSUCCESS\<close> (0) or \<open>FILEDEDUPERROR\<close> (-1). The counters of the job are left out.
\<close>

definition file_dudup ::
  "(byte list \<Rightarrow> fingerprint) \<Rightarrow> (fileinfo \<Rightarrow> bin \<Rightarrow> store \<Rightarrow> (fileinfo \<times> bin \<times> store \<times> bool) option)
    \<Rightarrow> sha1_context \<Rightarrow> byte list option list option \<Rightarrow> fdesc option \<Rightarrow> byte list
    \<Rightarrow> rabin \<Rightarrow> exbin \<Rightarrow> store \<Rightarrow> packet list
    \<Rightarrow> (rabin \<times> exbin \<times> store \<times> packet list \<times> packet list \<times> int) option" where
  "file_dudup fp mark junk reads file path rst ex st ps =
     (case SHA1File junk reads of
        None \<Rightarrow> None
      | Some (h, err) \<Rightarrow>
          if err \<noteq> shaSuccess then Some (rst, ex, st, ps, [], -1)
          else
            let fi = file_new\<lparr>file_path := memcpy_at (file_path file_new) 0 path,
                              file_hash := (case h of None \<Rightarrow> file_hash file_new | Some h \<Rightarrow> h)\<rparr>;
                (fi, err, ps, sent1) = is_new_file fi ps;
                finish = (\<lambda>(rst, fi, ex, st, ps).
                  case update_file_recipe fi ps of
                    (ok, ps, sent2) \<Rightarrow> (rst, ex, st, ps, sent1 @ sent2, if ok then 0 else -1))
            in if err = FAILURE then Some (rst, ex, st, ps, sent1, -1)
               else if fi_is_new fi = NEW_FILE then
                 (case chunk_dedup fp mark file rst fi ex st of
                    None \<Rightarrow> None
                  | Some (rst, fi, ex, st, err) \<Rightarrow>
                      Some (if err \<noteq> 0 then (rst, ex, st, ps, sent1, -1) else finish (rst, fi, ex, st, ps)))
               else
                 (case recv_deplicate_chunk fi ps of
                    None \<Rightarrow> None
                  | Some (fi, err, ps) \<Rightarrow>
                      Some (if err = FAILURE then (rst, ex, st, ps, sent1, -1) else finish (rst, fi, ex, st, ps))))"

section \<open>The list of files of a job\<close>

text \<open>
  \<open>recv_file_list\<close>: for every file its length, its fingerprint and its path. The list is a \<open>DList\<close> to
  whose front \<open>dlist_insert\<close> adds. \<open>None\<close>: a record reaches behind what was received.
\<close>

fun parse_files :: "nat \<Rightarrow> byte list \<Rightarrow> fileinfo list \<Rightarrow> fileinfo list option" where
  "parse_files 0 p fs = Some fs"
| "parse_files (Suc n) p fs =
     (let len = get_int 4 p; m = nat (len - 20); r = drop 24 p in
      if length p < 24 \<or> len < 20 \<or> length r < m then None
      else parse_files n (drop m r)
        (file_new\<lparr>file_hash := take 20 (drop 4 p), file_path := memcpy_at (file_path file_new) 0 (take m r)\<rparr> # fs))"

definition recv_file_list :: "packet list \<Rightarrow> (fileinfo list \<times> int \<times> packet list) option" where
  "recv_file_list ps =
     (case net_recv ps [] 0 of (r, len, d, ps) \<Rightarrow>
        if r \<le> 0 then Some ([], FAILURE, ps)
        else
          case net_recv ps [] 0 of (r2, len2, d2, ps) \<Rightarrow>
            if r2 \<le> 0 then Some ([], FAILURE, ps)
            else map_option (\<lambda>fs. (fs, SUCCESS, ps)) (parse_files (nat (get_int 4 (d @ replicate 4 0))) d2 []))"

text \<open>\<open>get_job_info\<close>, without the signal of a failure that its caller receives as NULL.\<close>

definition get_job_info :: "int \<Rightarrow> packet list \<Rightarrow> packet list \<times> (fileinfo list \<times> int \<times> packet list) option" where
  "get_job_info job ps = ([Data (asc ''REST jobid='' @ show_int job)], recv_file_list ps)"

text \<open>
  \<open>get_files\<close> takes the files from the tail of the list, receives the recipe of each (the result is
  not looked at) and hands it to the thread that restores; the end is a file of size -1.
\<close>

fun recv_recipes :: "fileinfo list \<Rightarrow> packet list \<Rightarrow> (fileinfo list \<times> packet list) option" where
  "recv_recipes [] ps = Some ([], ps)"
| "recv_recipes (fi # fs) ps =
     (case recv_deplicate_chunk fi ps of
        None \<Rightarrow> None
      | Some (fi, err, ps) \<Rightarrow> map_option (\<lambda>(fs, ps). (fi # fs, ps)) (recv_recipes fs ps))"

definition get_files :: "fileinfo list \<Rightarrow> packet list \<Rightarrow> (fileinfo list \<times> packet list) option" where
  "get_files filelist ps =
     map_option (\<lambda>(fs, ps). (fs @ [file_new\<lparr>file_size := -1\<rparr>], ps)) (recv_recipes (rev filelist) ps)"

end
