(* ===== verification/ServerSession.thy ===== *)
theory ServerSession
  imports ServerDedup ClientExchange
begin

text \<open>
  The server seen from outside: a catalogue that maps the fingerprint of a file to the chunks it was
  first backed up with. The messages of \<open>new_backup\<close> and \<open>restore\<close> are exactly those that the catalogue
  prescribes, the hash table, the recipe volume and the database notwithstanding.
\<close>

type_synonym chunks = "(fingerprint \<times> chunkaddress) list"
type_synonym catalogue = "fingerprint \<Rightarrow> chunks option"
type_synonym upload = "fingerprint \<times> byte list \<times> chunks"

section \<open>The catalogue\<close>

fun enter :: "catalogue \<Rightarrow> upload \<Rightarrow> catalogue" where
  "enter cat (h, path, fcs) = (case cat h of None \<Rightarrow> cat(h \<mapsto> fcs) | Some _ \<Rightarrow> cat)"

text \<open>What a client sends for a file and what it must be answered.\<close>

fun request :: "catalogue \<Rightarrow> upload \<Rightarrow> packet list" where
  "request cat (h, path, fcs) =
     [Data (show_int 1), Data h, Data (show_int 2),
      Data (update_msg (int (length (case cat h of None \<Rightarrow> fcs | Some g \<Rightarrow> g))) path)]
     @ (case cat h of None \<Rightarrow> map (\<lambda>fc. Data (enc_chunk fc)) fcs | Some _ \<Rightarrow> [])"

definition recipe_packets :: "chunks \<Rightarrow> packet list" where
  "recipe_packets fcs = map Data (put_int 8 (int (length fcs)) # map enc_chunk fcs)"

definition hash_reply :: "catalogue \<Rightarrow> fingerprint \<Rightarrow> packet list" where
  "hash_reply cat h = (case cat h of None \<Rightarrow> [Data [1]] | Some g \<Rightarrow> Data [1, 1] # recipe_packets g)"

fun reply :: "catalogue \<Rightarrow> upload \<Rightarrow> packet list" where
  "reply cat (h, path, fcs) = hash_reply cat h @ [Data updateattr_ok]"

fun requests :: "catalogue \<Rightarrow> upload list \<Rightarrow> packet list" where
  "requests cat [] = []"
| "requests cat (u # us) = request cat u @ requests (enter cat u) us"

fun replies :: "catalogue \<Rightarrow> upload list \<Rightarrow> packet list" where
  "replies cat [] = []"
| "replies cat (u # us) = reply cat u @ replies (enter cat u) us"

text \<open>A path that \<open>sscanf\<close> reads back: no white space, and short enough for its buffer.\<close>

definition path_ok :: "byte list \<Rightarrow> bool" where
  "path_ok p \<longleftrightarrow> p \<noteq> [] \<and> length p < 256 \<and> (\<forall>c\<in>set p. c \<noteq> 0 \<and> \<not> is_space c)"

fun upload_ok :: "upload \<Rightarrow> bool" where
  "upload_ok (h, path, fcs) \<longleftrightarrow> length h = 20 \<and> path_ok path \<and> chunks_ok fcs"

section \<open>The server holds a catalogue\<close>

definition server_ok :: "'db server_env \<Rightarrow> 'db session \<Rightarrow> catalogue \<Rightarrow> bool" where
  "server_ok e s cat \<longleftrightarrow>
     volume_ready (se_path e) (ss_disk s) (ss_rv s) \<and> st_inv 20 (ss_index s) \<and>
     (\<forall>h. length h = 20 \<longrightarrow>
        (case index_map (ss_index s) h of
           None \<Rightarrow> cat h = None
         | Some off \<Rightarrow> \<exists>fcs. cat h = Some fcs \<and> recipe_at (se_path e) (ss_disk s) (ss_rv s) off fcs))"

text \<open>MySQL accepts every record and gives it an id.\<close>

definition db_works :: "'db server_env \<Rightarrow> bool" where
  "db_works e \<longleftrightarrow>
     (\<forall>db n u f. \<exists>db' i. my_object e db n u f = (db', Some i) \<and> i \<noteq> 0) \<and>
     (\<forall>db u oid. \<exists>db' i. my_job e db u oid = (db', Some i) \<and> i \<noteq> 0) \<and>
     (\<forall>db job p h. \<exists>db' i. my_file e db job p h = (db', Some i) \<and> i \<noteq> 0) \<and>
     (\<forall>db f job p. \<exists>db'. my_version e db f job p = (db', True))"

section \<open>Commands on the wire\<close>

lemma scan_type: "scan_int (cstr (show_int (int n))) = Some (int n, [])"
proof -
  have "cstr (dec_digits n) = dec_digits n" using dec_digits_nonzero [of n] by simp
  then show ?thesis using scan_int_digits [of "[]" n] by (simp add: show_int_def)
qed

lemma cstr_append: "0 \<notin> set a \<Longrightarrow> cstr (a @ b) = a @ cstr b"
  unfolding cstr_def by (subst takeWhile_append2) auto

lemma asc_nonzero: "0 \<notin> set (asc ''UPDATEATTR chunknum='')" "0 \<notin> set (asc '' filepath='')"
  by (simp_all add: asc_def)

lemma scan_lit_split:
  "\<forall>c\<in>set f. \<not> is_space c \<Longrightarrow> scan_lit (f @ g) (f @ s) = scan_lit g s"
  by (induction f) auto

lemma scan_blank:
  assumes "\<not> is_space c"
  shows "scan_lit (32 # fs) (32 # c # s) = scan_lit fs (c # s)"
proof -
  have "is_space 32" by (simp add: is_space_def)
  with assms show ?thesis by simp
qed

lemma scan_update_msg:
  assumes "path_ok p"
  shows "scan_update (cstr (update_msg (int n) p)) = (Some (int n), Some p)"
proof -
  have p: "cstr p = p" "p \<noteq> []" "\<forall>c\<in>set p. \<not> is_space c" using assms by (auto simp: path_ok_def)
  let ?t = "asc '' filepath='' @ p"
  have c: "cstr (update_msg (int n) p) = asc ''UPDATEATTR chunknum='' @ dec_digits n @ ?t"
    using p(1) dec_digits_nonzero [of n] asc_nonzero by (simp add: update_msg_def show_int_def cstr_append)
  have a: "asc ''UPDATEATTR chunknum='' = asc ''UPDATEATTR'' @ 32 # asc ''chunknum=''"
    "asc '' filepath='' = 32 # asc ''filepath=''"
    by (simp_all add: asc_def)
  have l: "\<forall>c\<in>set (asc ''UPDATEATTR''). \<not> is_space c" "\<forall>c\<in>set (asc ''chunknum=''). \<not> is_space c"
    "\<forall>c\<in>set (asc ''filepath=''). \<not> is_space c"
    by (simp_all add: asc_def is_space_def)
  have h: "asc ''chunknum='' = 99 # asc ''hunknum=''" "asc ''filepath='' = 102 # asc ''ilepath=''" by (simp_all add: asc_def)
  have sp: "\<not> is_space 99" "\<not> is_space 102" by (simp_all add: is_space_def)
  have b: "scan_lit (32 # asc ''chunknum='') (32 # asc ''chunknum='' @ s) = Some s"
    "scan_lit (32 # asc ''filepath='') (32 # asc ''filepath='' @ s) = Some s" for s
    using scan_lit_same [OF l(2), of s] scan_lit_same [OF l(3), of s]
    unfolding h append_Cons scan_blank [OF sp(1)] scan_blank [OF sp(2)] .
  have s1: "scan_lit (asc ''UPDATEATTR chunknum='') (asc ''UPDATEATTR chunknum='' @ s) = Some s" for s
    using scan_lit_split [OF l(1)] b(1) unfolding a by simp
  have s2: "scan_lit (asc '' filepath='') (asc '' filepath='' @ s) = Some s" for s
    using b(2) unfolding a by simp
  have "\<not> is_digit 32" by (simp add: is_digit_def)
  then have "?t = [] \<or> \<not> is_digit (hd ?t)" by (simp add: a)
  from scan_int_digits [OF this] have i: "scan_int (dec_digits n @ ?t) = Some (int n, ?t)" .
  have "scan_str p = Some (p, [])" using scan_str_word [of p "[]"] p by simp
  with s1 s2 i show ?thesis unfolding scan_update_def c by simp
qed

section \<open>The steps keep the catalogue\<close>

lemma server_okD:
  assumes "server_ok e s cat" "length h = 20"
  shows "index_lookup (ss_index s) h = (st_hash_index (ss_index s) h, index_map (ss_index s) h)"
    and "cat h = None \<Longrightarrow> index_map (ss_index s) h = None"
    and "cat h = Some fcs \<Longrightarrow> \<exists>off. index_map (ss_index s) h = Some off \<and>
      recipe_at (se_path e) (ss_disk s) (ss_rv s) off fcs"
proof -
  show "index_lookup (ss_index s) h = (st_hash_index (ss_index s) h, index_map (ss_index s) h)"
    using assms by (simp add: server_ok_def index_lookup_eq)
  have "case index_map (ss_index s) h of None \<Rightarrow> cat h = None
     | Some off \<Rightarrow> \<exists>fcs. cat h = Some fcs \<and> recipe_at (se_path e) (ss_disk s) (ss_rv s) off fcs"
    using assms by (simp add: server_ok_def)
  then show "cat h = None \<Longrightarrow> index_map (ss_index s) h = None"
    "cat h = Some fcs \<Longrightarrow> \<exists>off. index_map (ss_index s) h = Some off \<and>
      recipe_at (se_path e) (ss_disk s) (ss_rv s) off fcs"
    by (auto split: option.splits)
qed

text \<open>Only the disk, the volume and what the index answers matter.\<close>

lemma server_ok_cong:
  assumes "server_ok e s cat" "ss_disk s' = ss_disk s" "ss_rv s' = ss_rv s"
    "st_inv 20 (ss_index s')" "index_map (ss_index s') = index_map (ss_index s)"
  shows "server_ok e s' cat"
  using assms(1,4) unfolding server_ok_def assms(2,3,5) by blast

lemma server_ok_inv: "server_ok e s cat \<Longrightarrow> st_inv 20 (ss_index s)"
  by (simp add: server_ok_def)

text \<open>\<open>tagged cat h rp\<close>: what \<open>new_backup\<close> remembers of a file between its two messages.\<close>

definition tagged :: "catalogue \<Rightarrow> fingerprint \<Rightarrow> recipe \<Rightarrow> bool" where
  "tagged cat h rp \<longleftrightarrow> rp_file_hash rp = h \<and> rp_filename rp = memset0 256 \<and>
     (case cat h of
        None \<Rightarrow> rp_is_new rp = NEW_FILE \<and> rp_chunks rp = [] \<and> rp_chunknum rp = 0
      | Some g \<Rightarrow> rp_is_new rp = DEDUP_FILE)"

lemma mark_and_send:
  assumes ok: "server_ok e s cat" and h: "length h = 20"
    and rp: "rp = recipe_new\<lparr>rp_file_hash := h\<rparr>"
  shows "\<exists>s1 rp1. file_dedup_mark e s rp = Some (s1, rp1) \<and> tagged cat h rp1 \<and>
    (let s2 = (if rp_is_new rp1 = DEDUP_FILE then send_chunk_info s1 rp1 else s1) in
      s2 = s\<lparr>ss_index := st_hash_index (ss_index s) h, ss_out := ss_out s @ hash_reply cat h\<rparr>)"
proof (cases "cat h")
  case None
  from server_okD(2) [OF ok h None] have "index_map (ss_index s) h = None" .
  with server_okD(1) [OF ok h] None rp show ?thesis
    by (simp add: file_dedup_mark_def tagged_def hash_reply_def Let_def recipe_new_def cstr_def) (simp add: send_def)
next
  case (Some g)
  from server_okD(3) [OF ok h Some] obtain off where o: "index_map (ss_index s) h = Some off"
    "recipe_at (se_path e) (ss_disk s) (ss_rv s) off g" by blast
  have V: "volume_ready (se_path e) (ss_disk s) (ss_rv s)" using ok by (simp add: server_ok_def)
  note R = read_recipe_spec [OF V o(2), of "rp\<lparr>rp_is_new := DEDUP_FILE\<rparr>"]
  have [simp]: "s\<lparr>ss_index := i, ss_disk := ss_disk s, ss_rv := ss_rv s\<rparr> = s\<lparr>ss_index := i\<rparr>" for i by simp
  have "cstr [1, 1, 0] = [1, 1]" by (simp add: cstr_def)
  with server_okD(1) [OF ok h] o(1) R Some rp show ?thesis
    by (simp add: file_dedup_mark_def tagged_def hash_reply_def Let_def recipe_new_def foldl_recipe_append send_chunk_info_eq)
      (simp add: send_def recipe_packets_def)
qed

lemma memcpy_whole: "length h = length b \<Longrightarrow> memcpy_at b 0 h = h"
  by (simp add: memcpy_at_def)

lemma backup_hash_spec:
  assumes ok: "server_ok e s cat" and h: "length h = 20" and inp: "ss_in s = Data h # ps"
  shows "\<exists>s' rp. backup_hash e s = Some s' \<and> server_ok e s' cat \<and> ss_in s' = ps \<and>
    ss_out s' = ss_out s @ hash_reply cat h \<and> ss_rp s' = Some rp \<and> tagged cat h rp \<and>
    ss_result s' = ss_result s \<and> ss_job_id s' = ss_job_id s \<and> ss_db s' = ss_db s"
proof -
  have hne: "h \<noteq> []" using h by auto
  define s0 where "s0 = s\<lparr>ss_in := ps, ss_len := 20, ss_buf := h, ss_file_count := ss_file_count s + 1\<rparr>"
  let ?rp = "recipe_new\<lparr>rp_file_hash := h\<rparr>"
  have ok0: "server_ok e s0 cat"
    using ok server_ok_inv [OF ok] by (intro server_ok_cong [OF ok]) (simp_all add: s0_def)
  obtain s1 rp1 where m: "file_dedup_mark e s0 ?rp = Some (s1, rp1)" "tagged cat h rp1"
    "(if rp_is_new rp1 = DEDUP_FILE then send_chunk_info s1 rp1 else s1) =
      s0\<lparr>ss_index := st_hash_index (ss_index s0) h, ss_out := ss_out s0 @ hash_reply cat h\<rparr>"
    using mark_and_send [OF ok0 h refl] unfolding Let_def by blast
  have f: "rp_file_hash recipe_new = memset0 20" by (simp add: recipe_new_def)
  have e: "backup_hash e s = Some ((if rp_is_new rp1 = DEDUP_FILE then send_chunk_info s1 rp1 else s1)\<lparr>ss_rp := Some rp1\<rparr>)"
    using inp h hne m(1) by (simp add: backup_hash_def f memcpy_whole s0_def Let_def)
  let ?s = "s0\<lparr>ss_index := st_hash_index (ss_index s0) h, ss_out := ss_out s0 @ hash_reply cat h, ss_rp := Some rp1\<rparr>"
  have "backup_hash e s = Some ?s" unfolding e m(3) by simp
  moreover have "server_ok e ?s cat"
    using server_ok_inv [OF ok0] by (intro server_ok_cong [OF ok0]) simp_all
  ultimately show ?thesis using m(2) by (intro exI [of _ ?s] exI [of _ rp1]) (simp add: s0_def)
qed

lemma srv_recv_chunks_spec:
  "\<forall>fc\<in>set fcs. length (fst fc) = 20 \<and> length (snd fc) = 64 \<Longrightarrow>
   srv_recv_chunks (length fcs) (map (\<lambda>fc. Data (enc_chunk fc)) fcs @ ps) rp =
     (ps, foldl recipe_append_fingerchunk rp fcs)"
proof (induction fcs arbitrary: rp)
  case (Cons fc fcs)
  have l: "length (enc_chunk fc) = 84" "enc_chunk fc \<noteq> []" using Cons.prems by (auto simp: enc_chunk_def)
  have "dec_chunk (enc_chunk fc @ replicate 84 0) = fc" using Cons.prems by (intro chunk.dec_enc) simp
  with l Cons show ?case by simp
qed simp

lemma backup_store_spec:
  assumes ok: "server_ok e s cat" and new: "cat h = None" and h: "length h = 20" and fcs: "chunks_ok fcs"
    and rp: "rp_file_hash rp = h" "rp_chunks rp = []" "rp_chunknum rp = 0"
    and inp: "ss_in s = map (\<lambda>fc. Data (enc_chunk fc)) fcs @ ps" "ss_chunknum s = int (length fcs)"
  shows "\<exists>s' rp'. backup_store e s rp = Some (s', rp') \<and> server_ok e s' (cat(h \<mapsto> fcs)) \<and> ss_in s' = ps \<and>
    ss_out s' = ss_out s \<and> ss_result s' = ss_result s \<and> ss_job_id s' = ss_job_id s \<and> ss_db s' = ss_db s"
proof -
  let ?rp = "foldl recipe_append_fingerchunk rp fcs"
  have r: "srv_recv_chunks (nat (ss_chunknum s)) (ss_in s) rp = (ps, ?rp)"
    using srv_recv_chunks_spec [of fcs ps rp] fcs inp by (simp add: chunks_ok_def)
  have rp': "rp_chunknum ?rp = int (length (rp_chunks ?rp))" "rp_chunks ?rp = fcs" "rp_file_hash ?rp = h"
    using rp by (simp_all add: foldl_recipe_append)
  have V: "volume_ready (se_path e) (ss_disk s) (ss_rv s)" using ok by (simp add: server_ok_def)
  let ?off = "rv_volume_length (ss_rv s)"
  obtain dk rv where W: "write_recipe_to_vol (se_path e) (ss_disk s) (ss_rv s) ?rp = Some (dk, rv, Some ?off, True)"
    "volume_ready (se_path e) dk rv" "recipe_at (se_path e) dk rv ?off fcs"
    "\<And>off fcs. recipe_at (se_path e) (ss_disk s) (ss_rv s) off fcs \<Longrightarrow> recipe_at (se_path e) dk rv off fcs"
    using write_recipe_spec [OF V rp'(1)] fcs unfolding rp'(2) by metis
  note I = index_insert_spec [OF server_ok_inv [OF ok] h, of ?off]
  have no: "index_map (ss_index s) h = None" using server_okD(2) [OF ok h new] .
  let ?s = "s\<lparr>ss_in := ps, ss_disk := dk, ss_rv := rv, ss_index := fst (index_insert (ss_index s) h ?off)\<rparr>"
  have b: "backup_store e s rp = Some (?s, ?rp)"
    using r W(1) rp'(3) by (simp add: backup_store_def)
  have "server_ok e ?s (cat(h \<mapsto> fcs))"
    unfolding server_ok_def
  proof (intro conjI allI impI)
    fix k :: fingerprint assume k: "length k = 20"
    have "case index_map (ss_index s) k of None \<Rightarrow> cat k = None
      | Some off \<Rightarrow> \<exists>fcs. cat k = Some fcs \<and> recipe_at (se_path e) (ss_disk s) (ss_rv s) off fcs"
      using ok k by (simp add: server_ok_def)
    with W(3,4) I no show "case index_map (ss_index ?s) k of None \<Rightarrow> (cat(h \<mapsto> fcs)) k = None
      | Some off \<Rightarrow> \<exists>fcs'. (cat(h \<mapsto> fcs)) k = Some fcs' \<and> recipe_at (se_path e) (ss_disk ?s) (ss_rv ?s) off fcs'"
      by (auto split: option.splits)
  qed (use W(2) I in simp_all)
  with b show ?thesis by (intro exI [of _ ?s] exI [of _ ?rp]) simp
qed

lemma backup_record_spec:
  assumes "db_works e" "ss_result s" "ss_job_id s \<noteq> 0"
  shows "\<exists>db. backup_record e s rp = (send updateattr_ok (s\<lparr>ss_db := db, ss_result := True, ss_buf := updateattr_ok\<rparr>))"
proof -
  obtain db1 i where f: "my_file e (ss_db s) (ss_job_id s) (cstr (rp_filename rp)) (rp_file_hash rp) = (db1, Some i)" "i \<noteq> 0"
    using assms(1) unfolding db_works_def by blast
  obtain db2 where "my_version e db1 i (ss_job_id s) (cstr (rp_filename rp)) = (db2, True)"
    using assms(1) unfolding db_works_def by blast
  with f assms show ?thesis
    by (intro exI [of _ db2])
      (simp add: backup_record_def insert_record_into_file_def insert_record_into_versionfile_def)
qed

lemma backup_recipe_spec:
  assumes ok: "server_ok e s cat" and u: "upload_ok (h, path, fcs)" and db: "db_works e" "ss_result s" "ss_job_id s \<noteq> 0"
    and rp: "ss_rp s = Some rp" "tagged cat h rp"
    and inp: "ss_in s = Data (update_msg (int (length (case cat h of None \<Rightarrow> fcs | Some g \<Rightarrow> g))) path) #
      (case cat h of None \<Rightarrow> map (\<lambda>fc. Data (enc_chunk fc)) fcs | Some _ \<Rightarrow> []) @ ps"
  shows "\<exists>s'. backup_recipe e s = Some s' \<and> server_ok e s' (enter cat (h, path, fcs)) \<and> ss_in s' = ps \<and>
    ss_out s' = ss_out s @ [Data updateattr_ok] \<and> ss_result s' \<and> ss_job_id s' = ss_job_id s"
proof -
  let ?n = "length (case cat h of None \<Rightarrow> fcs | Some g \<Rightarrow> g)"
  let ?m = "update_msg (int ?n) path"
  let ?qs = "(case cat h of None \<Rightarrow> map (\<lambda>fc. Data (enc_chunk fc)) fcs | Some _ \<Rightarrow> []) @ ps"
  have p: "path_ok path" "length path < 256" using u by (simp_all add: path_ok_def)
  have mne: "?m \<noteq> []" by (simp add: update_msg_def asc_def)
  define rp1 where "rp1 = rp\<lparr>rp_filename := strcpy_to (rp_filename rp) path\<rparr>"
  define s1 where "s1 = s\<lparr>ss_in := ?qs, ss_len := int (length ?m), ss_buf := ?m, ss_chunknum := int ?n, ss_result := True\<rparr>"
  have ok1: "server_ok e s1 cat"
    using server_ok_inv [OF ok] by (intro server_ok_cong [OF ok]) (simp_all add: s1_def)
  have e: "backup_recipe e s = (if rp_is_new rp1 = NEW_FILE
      then map_option (\<lambda>(s, rp). (backup_record e s rp)\<lparr>ss_rp := None\<rparr>) (backup_store e s1 rp1)
      else Some ((backup_record e s1 rp1)\<lparr>ss_rp := None\<rparr>))"
    using inp rp(1) p(2) mne scan_update_msg [OF p(1), of ?n] db(2)
    by (simp add: backup_recipe_def rp1_def s1_def Let_def)
  show ?thesis
  proof (cases "cat h")
    case None
    have t: "rp_is_new rp1 = NEW_FILE" "rp_file_hash rp1 = h" "rp_chunks rp1 = []" "rp_chunknum rp1 = 0"
      using rp(2) None by (simp_all add: tagged_def rp1_def)
    have i: "ss_in s1 = map (\<lambda>fc. Data (enc_chunk fc)) fcs @ ps" "ss_chunknum s1 = int (length fcs)"
      using None by (simp_all add: s1_def)
    obtain s2 rp2 where S: "backup_store e s1 rp1 = Some (s2, rp2)" "server_ok e s2 (cat(h \<mapsto> fcs))" "ss_in s2 = ps"
      "ss_out s2 = ss_out s1" "ss_result s2 = ss_result s1" "ss_job_id s2 = ss_job_id s1"
      using backup_store_spec [OF ok1 None _ _ t(2-4) i] u by auto
    have "ss_result s2" "ss_job_id s2 \<noteq> 0" using S(5,6) db by (simp_all add: s1_def)
    then obtain db' where R: "backup_record e s2 rp2 = send updateattr_ok (s2\<lparr>ss_db := db', ss_result := True, ss_buf := updateattr_ok\<rparr>)"
      using backup_record_spec [OF db(1)] by blast
    let ?s = "(send updateattr_ok (s2\<lparr>ss_db := db', ss_result := True, ss_buf := updateattr_ok\<rparr>))\<lparr>ss_rp := None\<rparr>"
    have "backup_recipe e s = Some ?s" using e t(1) S(1) R by simp
    moreover have "server_ok e ?s (cat(h \<mapsto> fcs))"
      using server_ok_inv [OF S(2)] by (intro server_ok_cong [OF S(2)]) simp_all
    ultimately show ?thesis using None S db by (intro exI [of _ ?s]) (simp add: s1_def)
  next
    case (Some g)
    have t: "rp_is_new rp1 = DEDUP_FILE" using rp(2) Some by (simp add: tagged_def rp1_def)
    have "ss_result s1" "ss_job_id s1 \<noteq> 0" using db by (simp_all add: s1_def)
    then obtain db' where R: "backup_record e s1 rp1 = send updateattr_ok (s1\<lparr>ss_db := db', ss_result := True, ss_buf := updateattr_ok\<rparr>)"
      using backup_record_spec [OF db(1)] by blast
    let ?s = "(send updateattr_ok (s1\<lparr>ss_db := db', ss_result := True, ss_buf := updateattr_ok\<rparr>))\<lparr>ss_rp := None\<rparr>"
    have "backup_recipe e s = Some ?s" using e t R by simp
    moreover have "server_ok e ?s cat"
      using server_ok_inv [OF ok1] by (intro server_ok_cong [OF ok1]) simp_all
    ultimately show ?thesis using Some db by (intro exI [of _ ?s]) (simp add: s1_def)
  qed
qed

section \<open>A whole backup\<close>

lemma backup_round_type:
  assumes "ss_in s = Data (show_int (int n)) # ps"
  shows "backup_round e s =
    (let s = s\<lparr>ss_in := ps, ss_len := int (length (show_int (int n))), ss_buf := show_int (int n)\<rparr>;
         go = (\<lambda>x. case x of None \<Rightarrow> Stuck | Some s \<Rightarrow> Again s)
     in if n = 1 then go (backup_hash e s) else if n = 2 then go (backup_recipe e s) else Again s)"
proof -
  have "show_int (int n) \<noteq> []" by (simp add: show_int_def dec_digits_nonempty)
  with assms scan_type [of n] show ?thesis by (simp add: backup_round_def Let_def)
qed

lemma upload_rounds:
  assumes ok: "server_ok e s cat" and u: "upload_ok u" and db: "db_works e" "ss_result s" "ss_job_id s \<noteq> 0"
    and inp: "ss_in s = request cat u @ ps"
  shows "\<exists>s'. backup_loop e s = backup_loop e s' \<and> server_ok e s' (enter cat u) \<and> ss_in s' = ps \<and>
    ss_out s' = ss_out s @ reply cat u \<and> ss_result s' \<and> ss_job_id s' = ss_job_id s"
proof -
  obtain h path fcs where uu: "u = (h, path, fcs)" by (cases u)
  have h: "length h = 20" using u uu by simp
  let ?qs = "Data (update_msg (int (length (case cat h of None \<Rightarrow> fcs | Some g \<Rightarrow> g))) path) #
      (case cat h of None \<Rightarrow> map (\<lambda>fc. Data (enc_chunk fc)) fcs | Some _ \<Rightarrow> []) @ ps"
  have i: "ss_in s = Data (show_int (int 1)) # Data h # Data (show_int (int 2)) # ?qs"
    using inp by (simp add: uu)
  define s1 where "s1 = s\<lparr>ss_in := Data h # Data (show_int (int 2)) # ?qs,
      ss_len := int (length (show_int (int 1))), ss_buf := show_int (int 1)\<rparr>"
  have ok1: "server_ok e s1 cat"
    using server_ok_inv [OF ok] by (intro server_ok_cong [OF ok]) (simp_all add: s1_def)
  have i1: "ss_in s1 = Data h # Data (show_int (int 2)) # ?qs" by (simp add: s1_def)
  obtain s2 rp where H: "backup_hash e s1 = Some s2" "server_ok e s2 cat" "ss_in s2 = Data (show_int (int 2)) # ?qs"
    "ss_out s2 = ss_out s1 @ hash_reply cat h" "ss_rp s2 = Some rp" "tagged cat h rp"
    "ss_result s2 = ss_result s1" "ss_job_id s2 = ss_job_id s1"
    using backup_hash_spec [OF ok1 h i1] by blast
  have L1: "backup_loop e s = backup_loop e s2"
    using backup_round_type [OF i] H(1) by (subst backup_loop.simps) (simp add: s1_def)
  define s3 where "s3 = s2\<lparr>ss_in := ?qs, ss_len := int (length (show_int (int 2))), ss_buf := show_int (int 2)\<rparr>"
  have ok3: "server_ok e s3 cat"
    using server_ok_inv [OF H(2)] by (intro server_ok_cong [OF H(2)]) (simp_all add: s3_def)
  have u3: "upload_ok (h, path, fcs)" using u unfolding uu .
  have f3: "ss_result s3" "ss_job_id s3 \<noteq> 0" "ss_rp s3 = Some rp" "ss_in s3 = ?qs"
    using H(5,7,8) db by (simp_all add: s3_def s1_def)
  obtain s4 where R: "backup_recipe e s3 = Some s4" "server_ok e s4 (enter cat (h, path, fcs))" "ss_in s4 = ps"
    "ss_out s4 = ss_out s3 @ [Data updateattr_ok]" "ss_result s4" "ss_job_id s4 = ss_job_id s3"
    using backup_recipe_spec [OF ok3 u3 db(1) f3(1,2,3) H(6) f3(4)] by blast
  have L2: "backup_loop e s2 = backup_loop e s4"
    using backup_round_type [OF H(3)] R(1) by (subst backup_loop.simps) (simp add: s3_def)
  show ?thesis
    using L1 L2 R H(4,8) by (intro exI [of _ s4]) (simp add: uu s1_def s3_def)
qed

lemma backup_loop_spec:
  assumes "server_ok e s cat" "\<forall>u\<in>set us. upload_ok u" "db_works e" "ss_result s" "ss_job_id s \<noteq> 0"
    and "ss_in s = requests cat us @ Signal STREAM_END # ps"
  shows "\<exists>s'. backup_loop e s = Some (0, s') \<and> server_ok e s' (foldl enter cat us) \<and> ss_in s' = ps \<and>
    ss_out s' = ss_out s @ replies cat us @ [Data backup_ok]"
  using assms
proof (induction us arbitrary: s cat)
  case Nil
  then have r: "backup_round e s = Over (s\<lparr>ss_in := ps, ss_len := STREAM_END\<rparr>)"
    by (simp add: backup_round_def Let_def)
  let ?s = "send backup_ok (s\<lparr>ss_in := ps, ss_len := STREAM_END\<rparr>)"
  have "server_ok e ?s cat"
    using server_ok_inv [OF Nil.prems(1)] by (intro server_ok_cong [OF Nil.prems(1)]) simp_all
  moreover have "backup_loop e s = Some (0, ?s)" using r by (subst backup_loop.simps) simp
  ultimately show ?case by (intro exI [of _ ?s]) simp
next
  case (Cons u us)
  have u: "upload_ok u" "\<forall>u\<in>set us. upload_ok u" using Cons.prems(2) by auto
  have i: "ss_in s = request cat u @ (requests (enter cat u) us @ Signal STREAM_END # ps)" using Cons.prems(6) by simp
  obtain s1 where S: "backup_loop e s = backup_loop e s1" "server_ok e s1 (enter cat u)"
    "ss_in s1 = requests (enter cat u) us @ Signal STREAM_END # ps" "ss_out s1 = ss_out s @ reply cat u"
    "ss_result s1" "ss_job_id s1 = ss_job_id s"
    using upload_rounds [OF Cons.prems(1) u(1) Cons.prems(3-5) i] by blast
  have "ss_job_id s1 \<noteq> 0" using S(6) Cons.prems(5) by simp
  from Cons.IH [OF S(2) u(2) Cons.prems(3) S(5) this S(3)] S(1,4) show ?case by auto
qed

section \<open>Starting and stopping the server\<close>

lemma server_paths: "global_index sp \<noteq> recipe_path sp"
  by (simp add: global_index_def recipe_path_def asc_def)

text \<open>C5: the catalogue survives the server: what \<open>main\<close> writes when the server ends
  (\<open>recipe_volume_flush\<close>, \<open>index_close\<close>) and reads when it starts again (\<open>index_init\<close>,
  \<open>recipe_volume_init\<close>) is an index and a volume that hold the same recipe for every fingerprint.\<close>

theorem server_restart:
  assumes ok: "server_ok e s cat" and "se_path e = sp"
    and idx: "\<not> denied (ss_disk s) (global_index sp)" "files (ss_disk s) (global_index sp) = Some f"
    and room: "rv_volume_length (ss_rv s) < 2 ^ 63" "st_num (ss_index s) < 2 ^ 31"
  shows "\<exists>dk1 rv dk2 t dk3 u dk4 rv'. recipe_volume_flush sp (ss_disk s) (ss_rv s) = Some (dk1, rv, True) \<and>
    index_close sp dk1 (ss_index s) = Some (dk2, t, False) \<and>
    index_init sp dk2 = Some (dk3, u, True) \<and> recipe_volume_init sp dk3 = (dk4, rv', True) \<and>
    server_ok e (s\<lparr>ss_disk := dk4, ss_rv := rv', ss_index := u\<rparr>) cat"
proof -
  have V: "volume_ready sp (ss_disk s) (ss_rv s)" and inv: "st_inv 20 (ss_index s)"
    using ok assms(2) by (simp_all add: server_ok_def)
  have cat: "case index_map (ss_index s) h of None \<Rightarrow> cat h = None
     | Some off \<Rightarrow> \<exists>fcs. cat h = Some fcs \<and> recipe_at sp (ss_disk s) (ss_rv s) off fcs" if "length h = 20" for h
    using ok that unfolding server_ok_def assms(2) by blast
  obtain dk1 rv1 where F: "recipe_volume_flush sp (ss_disk s) (ss_rv s) = Some (dk1, ss_rv s, True)"
    "denied dk1 = denied (ss_disk s)" "\<forall>p. p \<noteq> recipe_path sp \<longrightarrow> files dk1 p = files (ss_disk s) p"
    "\<And>dk2. files dk2 (recipe_path sp) = files dk1 (recipe_path sp) \<Longrightarrow> denied dk2 = denied (ss_disk s) \<Longrightarrow>
      recipe_volume_init sp dk2 = (dk2, rv1, True) \<and> volume_ready sp dk2 rv1 \<and>
      (\<forall>off fcs. recipe_at sp (ss_disk s) (ss_rv s) off fcs \<longrightarrow> recipe_at sp dk2 rv1 off fcs)"
    using recipe_volume_reload [OF V room(1)] by metis
  have i1: "\<not> denied dk1 (global_index sp)" "files dk1 (global_index sp) = Some f"
    using idx F(2,3) server_paths by simp_all
  have fit: "\<forall>ko\<in>set (st_items (ss_index s)). fits 8 (snd ko)"
  proof
    fix ko assume k: "ko \<in> set (st_items (ss_index s))"
    then have "index_map (ss_index s) (fst ko) = Some (snd ko)"
      using st_inv_distinct [OF inv] by (simp add: index_map_def)
    with cat [OF st_items_length [OF inv k]] obtain fcs where "recipe_at sp (ss_disk s) (ss_rv s) (snd ko) fcs" by auto
    with room(1) show "fits 8 (snd ko)" by (auto simp: recipe_at_def)
  qed
  obtain dk2 t u where I: "index_close sp dk1 (ss_index s) = Some (dk2, t, False)" "index_init sp dk2 = Some (dk2, u, True)"
    "st_inv 20 u" "\<forall>k. length k = 20 \<longrightarrow> index_map u k = index_map (ss_index s) k"
    "denied dk2 = denied dk1" "\<forall>p. p \<noteq> global_index sp \<longrightarrow> files dk2 p = files dk1 p"
    using index_reload [OF inv i1 fit room(2)] by blast
  have "files dk2 (recipe_path sp) = files dk1 (recipe_path sp)" using I(6) server_paths by metis
  then have R: "recipe_volume_init sp dk2 = (dk2, rv1, True)" "volume_ready sp dk2 rv1"
    "\<And>off fcs. recipe_at sp (ss_disk s) (ss_rv s) off fcs \<Longrightarrow> recipe_at sp dk2 rv1 off fcs"
    using F(4) [of dk2] I(5) F(2) by auto
  have "server_ok e (s\<lparr>ss_disk := dk2, ss_rv := rv1, ss_index := u\<rparr>) cat"
    unfolding server_ok_def assms(2)
  proof (intro conjI allI impI)
    fix h :: fingerprint assume h: "length h = 20"
    from cat [OF h] R(3) I(4) h
    show "case index_map (ss_index (s\<lparr>ss_disk := dk2, ss_rv := rv1, ss_index := u\<rparr>)) h of None \<Rightarrow> cat h = None
      | Some off \<Rightarrow> \<exists>fcs. cat h = Some fcs \<and>
          recipe_at sp (ss_disk (s\<lparr>ss_disk := dk2, ss_rv := rv1, ss_index := u\<rparr>))
            (ss_rv (s\<lparr>ss_disk := dk2, ss_rv := rv1, ss_index := u\<rparr>)) off fcs"
      by (auto split: option.splits)
  qed (use R(2) I(3) in simp_all)
  with F(1) I(1,2) R(1) show ?thesis by blast
qed

section \<open>The backup command\<close>

lemma scan_backup:
  assumes "path_ok p"
  shows "\<exists>m. scan_lit (asc ''BACK fileset='') (cstr (asc ''BACK fileset='' @ p)) = Some m \<and> scan_str m = Some (p, [])"
proof -
  have p: "cstr p = p" "p \<noteq> []" "\<forall>c\<in>set p. \<not> is_space c" using assms by (auto simp: path_ok_def)
  have "0 \<notin> set (asc ''BACK fileset='')" by (simp add: asc_def)
  then have c: "cstr (asc ''BACK fileset='' @ p) = asc ''BACK fileset='' @ p" using p(1) by (simp add: cstr_append)
  have a: "asc ''BACK fileset='' = asc ''BACK'' @ 32 # 102 # asc ''ileset=''" by (simp add: asc_def)
  have l: "\<forall>c\<in>set (asc ''BACK''). \<not> is_space c" "\<not> is_space 102" "\<forall>c\<in>set (102 # asc ''ileset=''). \<not> is_space c"
    by (simp_all add: asc_def is_space_def)
  have "scan_lit (asc ''BACK fileset='') (asc ''BACK fileset='' @ p) = scan_lit (102 # asc ''ileset='') ((102 # asc ''ileset='') @ p)"
    unfolding a using scan_lit_split [OF l(1)] scan_blank [OF l(2)] by simp
  also have "\<dots> = Some p" by (rule scan_lit_same [OF l(3)])
  finally show ?thesis using scan_str_word [of p "[]"] p c by simp
qed

lemma new_backup_spec:
  assumes ok: "server_ok e s cat" and us: "\<forall>u\<in>set us. upload_ok u" and db: "db_works e" "user \<noteq> 0"
    and p: "path_ok p" and inp: "ss_in s = requests cat us @ Signal STREAM_END # ps"
  shows "\<exists>s'. new_backup e user name (asc ''BACK fileset='' @ p) s = Some (0, s') \<and> server_ok e s' (foldl enter cat us) \<and>
    ss_in s' = ps \<and> ss_out s' = ss_out s @ replies cat us @ [Data backup_ok]"
proof -
  obtain m where m: "scan_lit (asc ''BACK fileset='') (cstr (asc ''BACK fileset='' @ p)) = Some m" "scan_str m = Some (p, [])"
    using scan_backup [OF p] by blast
  obtain db1 i where o: "my_object e (ss_db s) (asc ''f'' @ cstr name @ se_time e) user p = (db1, Some i)" "i \<noteq> 0"
    using db(1) unfolding db_works_def by blast
  obtain db2 j where j: "my_job e db1 user i = (db2, Some j)" "j \<noteq> 0"
    using db(1) unfolding db_works_def by blast
  let ?s = "s\<lparr>ss_db := db2, ss_job_id := j, ss_result := True, ss_file_count := 0, ss_rp := None, ss_buf := []\<rparr>"
  have e: "new_backup e user name (asc ''BACK fileset='' @ p) s = backup_loop e ?s"
    using m o j db(2) by (simp add: new_backup_def insert_record_into_object_def insert_record_into_job_def)
  have "server_ok e ?s cat" using server_ok_inv [OF ok] by (intro server_ok_cong [OF ok]) simp_all
  then have "\<exists>s'. backup_loop e ?s = Some (0, s') \<and> server_ok e s' (foldl enter cat us) \<and> ss_in s' = ps \<and>
    ss_out s' = ss_out ?s @ replies cat us @ [Data backup_ok]"
    by (rule backup_loop_spec [OF _ us db(1)]) (use inp j(2) in simp_all)
  with e show ?thesis by simp
qed


section \<open>Restoring a job\<close>

lemma take_le_bytes: "m \<le> n \<Longrightarrow> take m (le_bytes n x) = le_bytes m x"
proof (induction n arbitrary: m x)
  case (Suc n)
  then show ?case by (cases m) auto
qed simp

lemma low_int:
  assumes "n < 2 ^ 31"
  shows "get_int 4 (put_int 8 (int n)) = int n"
proof -
  have n: "int n < 2147483648" using assms by simp
  have "put_int 8 (int n) = le_bytes 8 n" "put_int 4 (int n) = le_bytes 4 n"
    using n by (simp_all add: put_int_def)
  then have "take 4 (put_int 8 (int n)) = put_int 4 (int n)" by (simp add: take_le_bytes)
  then have "get_int 4 (put_int 8 (int n)) = get_int 4 (put_int 4 (int n))" by (simp add: get_int_def)
  then show ?thesis using n by simp
qed

lemma cl_recv_chunks_spec:
  "\<forall>fc\<in>set fcs. length (fst fc) = 20 \<and> length (snd fc) = 64 \<Longrightarrow>
   \<exists>fi'. cl_recv_chunks (length fcs) (map (\<lambda>fc. Data (enc_chunk fc)) fcs @ ps) fi = (fi', SUCCESS, ps) \<and>
     map (\<lambda>fc. (chunk_hash fc, fc_address fc)) (fchunks fi') = map (\<lambda>fc. (chunk_hash fc, fc_address fc)) (fchunks fi) @ fcs \<and>
     file_hash fi' = file_hash fi \<and> file_path fi' = file_path fi \<and> fi_is_new fi' = fi_is_new fi \<and>
     file_size fi' = file_size fi \<and> chunknum fi' = chunknum fi + int (length fcs)"
proof (induction fcs arbitrary: fi)
  case (Cons fc fcs)
  have l: "length (enc_chunk fc) = 84" "enc_chunk fc \<noteq> []" using Cons.prems by (auto simp: enc_chunk_def)
  let ?fc = "fingerchunk_new\<lparr>chunk_hash := fst fc, fc_address := snd fc\<rparr>"
  have t: "take 20 (enc_chunk fc) = fst fc" "drop 20 (enc_chunk fc) = snd fc" "take 64 (snd fc) = snd fc"
    using Cons.prems by (simp_all add: enc_chunk_def)
  have "\<exists>fi'. cl_recv_chunks (length fcs) (map (\<lambda>fc. Data (enc_chunk fc)) fcs @ ps) (file_append_fingerchunk fi ?fc) = (fi', SUCCESS, ps) \<and>
     map (\<lambda>fc. (chunk_hash fc, fc_address fc)) (fchunks fi') =
       map (\<lambda>fc. (chunk_hash fc, fc_address fc)) (fchunks (file_append_fingerchunk fi ?fc)) @ fcs \<and>
     file_hash fi' = file_hash (file_append_fingerchunk fi ?fc) \<and> file_path fi' = file_path (file_append_fingerchunk fi ?fc) \<and>
     fi_is_new fi' = fi_is_new (file_append_fingerchunk fi ?fc) \<and> file_size fi' = file_size (file_append_fingerchunk fi ?fc) \<and>
     chunknum fi' = chunknum (file_append_fingerchunk fi ?fc) + int (length fcs)"
    by (rule Cons.IH) (use Cons.prems in simp)
  with l t show ?case by (simp add: Let_def add_chunks_def add.assoc)
qed simp

lemma recv_recipe_packets:
  assumes "chunks_ok fcs" "fchunks fi = []"
  shows "\<exists>fi'. recv_deplicate_chunk fi (recipe_packets fcs @ ps) = Some (fi', SUCCESS, ps) \<and>
    map (\<lambda>fc. (chunk_hash fc, fc_address fc)) (fchunks fi') = fcs \<and> file_hash fi' = file_hash fi \<and> file_path fi' = file_path fi \<and>
    fi_is_new fi' = fi_is_new fi \<and> file_size fi' = file_size fi \<and> chunknum fi' = chunknum fi + int (length fcs)"
proof -
  have "put_int 8 (int (length fcs)) \<noteq> []" by (metis length_0_conv length_put_int zero_neq_numeral)
  moreover have "get_int 4 (put_int 8 (int (length fcs))) = int (length fcs)"
    using assms(1) by (intro low_int) (simp add: chunks_ok_def)
  ultimately show ?thesis
    using cl_recv_chunks_spec [of fcs ps fi] assms
    by (simp add: recv_deplicate_chunk_def recipe_packets_def chunks_ok_def comp_def)
qed

text \<open>The recipes of a list of files, as the server sends them and as the client receives them.\<close>

lemma get_file_info_spec:
  assumes ok: "server_ok e s cat" and h: "length h = 20" "cat h = Some fcs"
  shows "\<exists>rp. get_file_info e s (recipe_new\<lparr>rp_file_hash := h\<rparr>) =
      Some (s\<lparr>ss_index := st_hash_index (ss_index s) h\<rparr>, rp, SUCCESS) \<and>
    rp_chunks rp = fcs \<and> rp_chunknum rp = int (length fcs)"
proof -
  from server_okD(3) [OF ok h] obtain off where o: "index_map (ss_index s) h = Some off"
    "recipe_at (se_path e) (ss_disk s) (ss_rv s) off fcs" by blast
  have V: "volume_ready (se_path e) (ss_disk s) (ss_rv s)" using ok by (simp add: server_ok_def)
  have "s\<lparr>ss_index := i, ss_disk := ss_disk s, ss_rv := ss_rv s\<rparr> = s\<lparr>ss_index := i\<rparr>" for i by simp
  with server_okD(1) [OF ok h(1)] o read_recipe_spec [OF V o(2)] show ?thesis
    by (simp add: get_file_info_def foldl_recipe_append recipe_new_def)
qed

lemma send_recipes_spec:
  assumes "server_ok e s cat" "\<forall>hp\<in>set rows. length (fst hp) = 20 \<and> cat (fst hp) \<noteq> None"
  shows "\<exists>s'. send_recipes e s (map job_file_buf rows) = Some s' \<and> server_ok e s' cat \<and>
    ss_out s' = ss_out s @ concat (map (\<lambda>hp. recipe_packets (the (cat (fst hp)))) rows)"
  using assms
proof (induction rows arbitrary: s)
  case (Cons hp rows)
  obtain h p where hp: "hp = (h, p)" by (cases hp)
  obtain fcs where c: "cat h = Some fcs" and h: "length h = 20" using Cons.prems(2) hp by auto
  have d: "take 20 (drop 4 (job_file_buf hp)) = h" using h hp by (simp add: job_file_buf_def)
  obtain rp where G: "get_file_info e s (recipe_new\<lparr>rp_file_hash := h\<rparr>) =
      Some (s\<lparr>ss_index := st_hash_index (ss_index s) h\<rparr>, rp, SUCCESS)" "rp_chunks rp = fcs" "rp_chunknum rp = int (length fcs)"
    using get_file_info_spec [OF Cons.prems(1) h c] by blast
  let ?s = "send_chunk_info (s\<lparr>ss_index := st_hash_index (ss_index s) h\<rparr>) rp"
  have ok: "server_ok e ?s cat"
    using server_ok_inv [OF Cons.prems(1)] by (intro server_ok_cong [OF Cons.prems(1)]) (simp_all add: send_chunk_info_eq)
  have out: "ss_out ?s = ss_out s @ recipe_packets fcs" using G(2,3) by (simp add: send_chunk_info_eq recipe_packets_def)
  from Cons.IH [OF ok] Cons.prems(2) G(1) d c out hp show ?case by simp
qed simp

lemma job_file_buf_eq:
  assumes "length h = 20" "path_ok p"
  shows "job_file_buf (h, p) = put_int 4 (int (20 + length p)) @ h @ p"
    and "get_int 4 (job_file_buf (h, p) @ r) = int (20 + length p)"
proof -
  have "cstr p = p" using assms(2) by (auto simp: path_ok_def)
  then show e: "job_file_buf (h, p) = put_int 4 (int (20 + length p)) @ h @ p" using assms(1) by (simp add: job_file_buf_def)
  have "fits 4 (int (20 + length p))" using assms(2) by (simp add: path_ok_def)
  then show "get_int 4 (job_file_buf (h, p) @ r) = int (20 + length p)" unfolding e append_assoc by (rule get_put_int)
qed

definition listed :: "fingerprint \<times> byte list \<Rightarrow> fileinfo" where
  "listed hp = file_new\<lparr>file_hash := fst hp, file_path := memcpy_at (file_path file_new) 0 (snd hp)\<rparr>"

lemma parse_files_spec:
  "\<forall>hp\<in>set rows. length (fst hp) = 20 \<and> path_ok (snd hp) \<Longrightarrow>
   parse_files (length rows) (concat (map job_file_buf rows) @ r) fs = Some (rev (map listed rows) @ fs)"
proof (induction rows arbitrary: fs)
  case (Cons hp rows)
  obtain h p where hp: "hp = (h, p)" by (cases hp)
  have hl: "length h = 20" "path_ok p" using Cons.prems hp by auto
  let ?r = "concat (map job_file_buf rows) @ r"
  note e = job_file_buf_eq [OF hl]
  have g: "get_int 4 (job_file_buf (h, p) @ ?r) = int (20 + length p)" by (rule e(2))
  have d: "drop 24 (job_file_buf (h, p) @ ?r) = p @ ?r" "take 20 (drop 4 (job_file_buf (h, p) @ ?r)) = h"
    "length (job_file_buf (h, p)) = 24 + length p"
    using hl(1) by (simp_all add: e(1))
  have "parse_files (Suc (length rows)) (job_file_buf (h, p) @ ?r) fs = parse_files (length rows) ?r (listed (h, p) # fs)"
    using g d by (simp add: Let_def listed_def)
  with Cons hp show ?case by simp
qed simp

text \<open>The path of a listed file is the path that was backed up.\<close>

lemma listed_path:
  assumes "path_ok p"
  shows "cstr (file_path (listed (h, p))) = p"
proof -
  have p: "0 \<notin> set p" "length p < 256" using assms by (auto simp: path_ok_def)
  obtain k where k: "256 - length p = Suc k" using p(2) by (cases "256 - length p") auto
  have "file_path (listed (h, p)) = p @ 0 # replicate k 0"
    using p k by (simp add: listed_def memcpy_at_def file_new_def memset0_def)
  with p(1) show ?thesis by simp
qed

lemma recv_recipes_spec:
  assumes "\<forall>hp\<in>set rows. chunks_ok (rec hp)"
  shows "\<exists>fis. recv_recipes (map listed rows) (concat (map (\<lambda>hp. recipe_packets (rec hp)) rows) @ ps) = Some (fis, ps) \<and>
    list_all2 (\<lambda>hp fi. file_hash fi = fst hp \<and> file_path fi = file_path (listed hp) \<and> file_size fi = 0 \<and>
      map (\<lambda>fc. (chunk_hash fc, fc_address fc)) (fchunks fi) = rec hp) rows fis"
  using assms
proof (induction rows)
  case (Cons hp rows)
  let ?ps = "concat (map (\<lambda>hp. recipe_packets (rec hp)) rows) @ ps"
  have "fchunks (listed hp) = []" "file_hash (listed hp) = fst hp" "file_size (listed hp) = 0" by (simp_all add: listed_def file_new_def)
  with recv_recipe_packets [of "rec hp" "listed hp" ?ps] Cons show ?case by fastforce
qed simp

lemma scan_restore: "\<exists>m. scan_lit (asc ''REST jobid='') (cstr (asc ''REST jobid='' @ show_int (int job))) = Some m \<and>
   scan_int m = Some (int job, [])"
proof -
  have "0 \<notin> set (asc ''REST jobid='')" by (simp add: asc_def)
  then have c: "cstr (asc ''REST jobid='' @ show_int (int job)) = asc ''REST jobid='' @ show_int (int job)"
    using dec_digits_nonzero [of job] by (simp add: cstr_append show_int_def)
  have a: "asc ''REST jobid='' = asc ''REST'' @ 32 # 106 # asc ''obid=''" by (simp add: asc_def)
  have l: "\<forall>c\<in>set (asc ''REST''). \<not> is_space c" "\<not> is_space 106" "\<forall>c\<in>set (106 # asc ''obid=''). \<not> is_space c"
    by (simp_all add: asc_def is_space_def)
  have "scan_lit (asc ''REST jobid='') (asc ''REST jobid='' @ show_int (int job)) =
      scan_lit (106 # asc ''obid='') ((106 # asc ''obid='') @ show_int (int job))"
    unfolding a using scan_lit_split [OF l(1)] scan_blank [OF l(2)] by simp
  also have "\<dots> = Some (show_int (int job))" by (rule scan_lit_same [OF l(3)])
  finally show ?thesis using c scan_int_digits [of "[]" job] by (simp add: show_int_def)
qed

lemma restore_spec:
  assumes ok: "server_ok e s cat" and rows: "my_job_files e (ss_db s) (int job) = Some rows" "rows \<noteq> []" "length rows < 2 ^ 31"
    and files: "\<forall>hp\<in>set rows. length (fst hp) = 20 \<and> path_ok (snd hp) \<and> (\<exists>fcs. cat (fst hp) = Some fcs \<and> chunks_ok fcs)"
  shows "\<exists>s' ps fl qs fis. restore e (asc ''REST jobid='' @ show_int (int job)) s = Some (SUCCESS, s') \<and>
    server_ok e s' cat \<and> ss_out s' = ss_out s @ ps \<and>
    recv_file_list (ps @ rest) = Some (fl, SUCCESS, qs) \<and>
    get_files fl qs = Some (fis @ [file_new\<lparr>file_size := -1\<rparr>], rest) \<and>
    list_all2 (\<lambda>hp fi. file_hash fi = fst hp \<and> cstr (file_path fi) = snd hp \<and> file_size fi = 0 \<and>
      Some (map (\<lambda>fc. (chunk_hash fc, fc_address fc)) (fchunks fi)) = cat (fst hp)) rows fis"
proof -
  let ?info = "concat (map job_file_buf rows)"
  let ?rec = "\<lambda>hp. the (cat (fst hp))"
  let ?ps = "concat (map (\<lambda>hp. recipe_packets (?rec hp)) rows)"
  obtain m where m: "scan_lit (asc ''REST jobid='') (cstr (asc ''REST jobid='' @ show_int (int job))) = Some m"
    "scan_int m = Some (int job, [])" using scan_restore by blast
  have whole: "take (4 + nat (get_int 4 f)) f = f" if f: "f \<in> set (map job_file_buf rows)" for f
  proof -
    obtain h p where hp: "(h, p) \<in> set rows" "f = job_file_buf (h, p)" using f by auto
    then have "length h = 20" "path_ok p" using files by force+
    from job_file_buf_eq [OF this] this(1) hp(2) show ?thesis using job_file_buf_eq(2) [OF \<open>length h = 20\<close> \<open>path_ok p\<close>, of "[]"] by simp
  qed
  then have "concat (map (\<lambda>f. take (4 + nat (get_int 4 f)) f) (map job_file_buf rows)) = ?info"
    by (metis (no_types, lifting) map_idI)
  then have info: "send_job_info s (map job_file_buf rows) =
      s\<lparr>ss_out := ss_out s @ [Data (put_int 4 (int (length rows))), Data ?info]\<rparr>" (is "_ = ?s")
    by (simp add: send_job_info_def) (simp add: send_def)
  have ok1: "server_ok e ?s cat" using server_ok_inv [OF ok] by (intro server_ok_cong [OF ok]) simp_all
  have "\<forall>hp\<in>set rows. length (fst hp) = 20 \<and> cat (fst hp) \<noteq> None" using files by force
  from send_recipes_spec [OF ok1 this] obtain s' where S: "send_recipes e ?s (map job_file_buf rows) = Some s'"
    "server_ok e s' cat" "ss_out s' = ss_out ?s @ ?ps" by blast
  have R: "restore e (asc ''REST jobid='' @ show_int (int job)) s = Some (SUCCESS, s')"
    using m rows(1,2) info S(1) by (simp add: restore_def db_get_job_files_def)
  have ne: "put_int 4 (int (length rows)) \<noteq> []" by (metis length_0_conv length_put_int zero_neq_numeral)
  have bne: "job_file_buf hp \<noteq> []" for hp by (simp add: job_file_buf_def) (metis length_0_conv length_put_int zero_neq_numeral)
  have ine: "?info \<noteq> []" using bne rows(2) by (cases rows) auto
  have "fits 4 (int (length rows))" using rows(3) by simp
  then have n: "get_int 4 (put_int 4 (int (length rows)) @ replicate 4 0) = int (length rows)" by (rule get_put_int)
  have "parse_files (length rows) ?info [] = Some (rev (map listed rows))"
    using parse_files_spec [of rows "[]" "[]"] files by force
  then have L: "recv_file_list (Data (put_int 4 (int (length rows))) # Data ?info # ?ps @ rest) =
      Some (rev (map listed rows), SUCCESS, ?ps @ rest)"
    using ne ine n rows(2) by (simp add: recv_file_list_def del: concat_eq_Nil_conv)
  obtain fis where F: "recv_recipes (map listed rows) (?ps @ rest) = Some (fis, rest)"
    "list_all2 (\<lambda>hp fi. file_hash fi = fst hp \<and> file_path fi = file_path (listed hp) \<and> file_size fi = 0 \<and>
      map (\<lambda>fc. (chunk_hash fc, fc_address fc)) (fchunks fi) = ?rec hp) rows fis"
    using recv_recipes_spec [of rows ?rec rest] files by force
  have "list_all2 (\<lambda>hp fi. file_hash fi = fst hp \<and> cstr (file_path fi) = snd hp \<and> file_size fi = 0 \<and>
      Some (map (\<lambda>fc. (chunk_hash fc, fc_address fc)) (fchunks fi)) = cat (fst hp)) rows fis"
    using F(2)
  proof (rule list.rel_mono_strong)
    fix hp fi assume hp: "hp \<in> set rows" and fi: "file_hash fi = fst hp \<and> file_path fi = file_path (listed hp) \<and> file_size fi = 0 \<and>
      map (\<lambda>fc. (chunk_hash fc, fc_address fc)) (fchunks fi) = ?rec hp"
    have "cstr (file_path (listed hp)) = snd hp" using files hp listed_path [of "snd hp" "fst hp"] by simp
    with files hp fi show "file_hash fi = fst hp \<and> cstr (file_path fi) = snd hp \<and> file_size fi = 0 \<and>
      Some (map (\<lambda>fc. (chunk_hash fc, fc_address fc)) (fchunks fi)) = cat (fst hp)" by force
  qed
  moreover have "get_files (rev (map listed rows)) (?ps @ rest) = Some (fis @ [file_new\<lparr>file_size := -1\<rparr>], rest)"
    using F(1) by (simp add: get_files_def)
  ultimately show ?thesis
    using R S(2,3) L by (intro exI [of _ s'] exI [of _ "Data (put_int 4 (int (length rows))) # Data ?info # ?ps"]
        exI [of _ "rev (map listed rows)"] exI [of _ "?ps @ rest"] exI [of _ fis]) simp
qed


section \<open>A server\<close>

definition demo_env :: "unit server_env" where
  "demo_env = \<lparr>se_path = [], se_time = [], se_junk = 0, my_object = \<lambda>db _ _ _. (db, Some 1),
     my_job = \<lambda>db _ _. (db, Some 1), my_file = \<lambda>db _ _ _. (db, Some 1), my_version = \<lambda>db _ _ _. (db, True),
     my_job_files = \<lambda>db _. Some [(memset0 20, [97])]\<rparr>"

definition demo_volume :: recipe_volume where
  "demo_volume = \<lparr>rv_file_num = 0, rv_volume_length = 16, rv_locked = False\<rparr>"

definition demo_server :: "packet list \<Rightarrow> unit session" where
  "demo_server ps = \<lparr>
     ss_disk = empty_disk\<lparr>files := [recipe_path [] \<mapsto> recipe_header demo_volume, global_index [] \<mapsto> put_int 4 0]\<rparr>,
     ss_rv = demo_volume, ss_index = stable_of_pwr 20 2, ss_db = (), ss_in = ps, ss_out = [], ss_buf = [], ss_len = 0,
     ss_rp = None, ss_chunknum = 0, ss_result = True, ss_job_id = 0, ss_file_count = 0\<rparr>"

definition demo_chunks :: chunks where "demo_chunks = [(memset0 20, memset0 64)]"

lemma demo_server_ok: "server_ok demo_env (demo_server ps) (\<lambda>_. None)" "db_works demo_env" "chunks_ok demo_chunks" "path_ok [97]"
proof -
  have "recipe_path [] \<noteq> global_index []" using server_paths [of "[]"] by simp
  then show "server_ok demo_env (demo_server ps) (\<lambda>_. None)"
    by (simp add: server_ok_def volume_ready_def demo_env_def demo_server_def demo_volume_def empty_disk_def index_map_def st_of_pwr)
  show "db_works demo_env" by (simp add: db_works_def demo_env_def)
  show "chunks_ok demo_chunks" by (simp add: chunks_ok_def demo_chunks_def)
  show "path_ok [97]" by (simp add: path_ok_def is_space_def)
qed


text \<open>A server that holds a file: the one after that backup.\<close>

lemma demo_backed_up:
  "\<exists>s. server_ok demo_env s ((\<lambda>_. None)(memset0 20 \<mapsto> demo_chunks))"
proof -
  let ?us = "[(memset0 20, [97], demo_chunks)]"
  let ?s = "demo_server (requests (\<lambda>_. None) ?us @ Signal STREAM_END # [])"
  have "\<forall>u\<in>set ?us. upload_ok u" using demo_server_ok(3,4) by simp
  moreover have "ss_in ?s = requests (\<lambda>_. None) ?us @ Signal STREAM_END # []" by (simp add: demo_server_def)
  ultimately have "\<exists>s'. new_backup demo_env 11 [] (asc ''BACK fileset='' @ [97]) ?s = Some (0, s') \<and>
      server_ok demo_env s' (foldl enter (\<lambda>_. None) ?us) \<and> ss_in s' = [] \<and>
      ss_out s' = ss_out ?s @ replies (\<lambda>_. None) ?us @ [Data backup_ok]"
    by (intro new_backup_spec [OF demo_server_ok(1) _ demo_server_ok(2) _ demo_server_ok(4)]) simp_all
  then show ?thesis by auto
qed


lemma server_restart_witness:
  "\<exists>dk1 rv dk2 t dk3 u dk4 rv'. recipe_volume_flush [] (ss_disk (demo_server [])) demo_volume = Some (dk1, rv, True) \<and>
    index_close [] dk1 (stable_of_pwr 20 2) = Some (dk2, t, False) \<and>
    index_init [] dk2 = Some (dk3, u, True) \<and> recipe_volume_init [] dk3 = (dk4, rv', True) \<and>
    server_ok demo_env ((demo_server [])\<lparr>ss_disk := dk4, ss_rv := rv', ss_index := u\<rparr>) (\<lambda>_. None)"
proof -
  have "se_path demo_env = []" by (simp add: demo_env_def)
  moreover have "\<not> denied (ss_disk (demo_server [])) (global_index [])"
    "files (ss_disk (demo_server [])) (global_index []) = Some (put_int 4 0)"
    by (simp_all add: demo_server_def empty_disk_def)
  moreover have "rv_volume_length (ss_rv (demo_server [])) < 2 ^ 63" "st_num (ss_index (demo_server [])) < 2 ^ 31"
    by (simp_all add: demo_server_def demo_volume_def stable_of_pwr_def)
  ultimately have "\<exists>dk1 rv dk2 t dk3 u dk4 rv'. recipe_volume_flush [] (ss_disk (demo_server [])) (ss_rv (demo_server [])) = Some (dk1, rv, True) \<and>
    index_close [] dk1 (ss_index (demo_server [])) = Some (dk2, t, False) \<and>
    index_init [] dk2 = Some (dk3, u, True) \<and> recipe_volume_init [] dk3 = (dk4, rv', True) \<and>
    server_ok demo_env ((demo_server [])\<lparr>ss_disk := dk4, ss_rv := rv', ss_index := u\<rparr>) (\<lambda>_. None)"
    by (rule server_restart [OF demo_server_ok(1)])
  then show ?thesis by (simp add: demo_server_def)
qed

end
