(* ===== verification/ClientRestore.thy ===== *)
theory ClientRestore
  imports ClientExchange
begin

text \<open>
  The thread of the client that writes restored files (\<open>construct_file\<close> of client/src/restore.c). The
  chunks of a file are restored one after the other and written from the beginning of the target;
  \<open>target\<close> is the disk restored to. The directories that \<open>create_file\<close> makes are left to the system: a
  path whose file cannot be created is denied. With rewriting (\<open>rewrite\<close>) the addresses of the recipe
  are replaced by those of the bin first. Every error ends the thread (\<open>False\<close>), and \<open>get_files\<close>,
  which only waits for its end, reports success.
\<close>

text \<open>What has been written when the loop ends; \<open>free(chunk->data)\<close> follows every write.\<close>

fun write_chunks ::
  "bool \<Rightarrow> (disk \<Rightarrow> byte list \<Rightarrow> byte list \<Rightarrow> disk \<times> bool) \<Rightarrow> restore \<Rightarrow> chunk \<Rightarrow> fingerchunk list \<Rightarrow> byte list
    \<Rightarrow> (restore \<times> chunk \<times> byte list \<times> bool) option" where
  "write_chunks cloud fetch rs ck [] out = Some (rs, ck, out, True)"
| "write_chunks cloud fetch rs ck (fc # fcs) out =
     (case restore_chunk cloud fetch rs
             (ck\<lparr>ck_hash := take 20 (chunk_hash fc), ck_address := memcpy_at (memset0 64) 0 (take 64 (fc_address fc))\<rparr>) of
        None \<Rightarrow> None
      | Some (rs, ck, err) \<Rightarrow>
          if err = FAILURE then Some (rs, ck, out, False)
          else write_chunks cloud fetch rs ck fcs
                 (out @ take (nat (ck_length ck)) (case ck_data ck of None \<Rightarrow> [] | Some d \<Rightarrow> d)))"

fun readdress :: "bin \<Rightarrow> fingerchunk list \<Rightarrow> fingerchunk list option" where
  "readdress b [] = Some []"
| "readdress b (fc # fcs) =
     (case htable_lookup (b_fingers b) (chunk_hash fc) of
        None \<Rightarrow> None
      | Some a \<Rightarrow> map_option (Cons (fc\<lparr>fc_address := take 64 a\<rparr>)) (readdress b fcs))"

record restorer =
  rt_index :: exbin
  rt_cache :: restore
  rt_chunk :: chunk
  rt_target :: disk

definition rewritten_file :: "bool \<Rightarrow> exbin \<Rightarrow> fileinfo \<Rightarrow> (exbin \<times> fileinfo option) option" where
  "rewritten_file rewrite ex fi =
     (if \<not> rewrite then Some (ex, Some fi)
      else let fi = calculate_rep_finger fi in
        map_option (\<lambda>(ex, b). (ex, map_option (\<lambda>fcs. fi\<lparr>fchunks := fcs\<rparr>) (readdress b (fchunks fi)))) (LoadBin ex fi))"

text \<open>\<open>restore_path\<close> followed by the path of the file; the file is not truncated.\<close>

definition full_path :: "byte list \<Rightarrow> fileinfo \<Rightarrow> byte list" where
  "full_path base fi = cstr base @ cstr (file_path fi)"

definition construct_one ::
  "bool \<Rightarrow> bool \<Rightarrow> (disk \<Rightarrow> byte list \<Rightarrow> byte list \<Rightarrow> disk \<times> bool) \<Rightarrow> byte list \<Rightarrow> restorer \<Rightarrow> fileinfo
    \<Rightarrow> (restorer \<times> bool) option" where
  "construct_one rewrite cloud fetch base r fi =
     (case rewritten_file rewrite (rt_index r) fi of
        None \<Rightarrow> None
      | Some (ex, None) \<Rightarrow> Some (r\<lparr>rt_index := ex\<rparr>, False)
      | Some (ex, Some fi) \<Rightarrow>
          let r = r\<lparr>rt_index := ex\<rparr>; path = full_path base fi in
          case open_creat (rt_target r) path of
            None \<Rightarrow> Some (r, False)
          | Some target \<Rightarrow>
              map_option (\<lambda>(rs, ck, out, ok).
                  (r\<lparr>rt_cache := rs, rt_chunk := ck, rt_target := disk_pwrite target path 0 out\<rparr>, ok))
                (write_chunks cloud fetch (rt_cache r) (rt_chunk r) (fchunks fi) []))"

text \<open>The loop ends at the file of size -1; without one the thread waits for ever.\<close>

fun construct_files ::
  "bool \<Rightarrow> bool \<Rightarrow> (disk \<Rightarrow> byte list \<Rightarrow> byte list \<Rightarrow> disk \<times> bool) \<Rightarrow> byte list \<Rightarrow> restorer \<Rightarrow> fileinfo list
    \<Rightarrow> restorer option" where
  "construct_files rewrite cloud fetch base r [] = None"
| "construct_files rewrite cloud fetch base r (fi # fis) =
     (if file_size fi = -1 then Some r
      else case construct_one rewrite cloud fetch base r fi of
             None \<Rightarrow> None
           | Some (r, ok) \<Rightarrow> if ok then construct_files rewrite cloud fetch base r fis else Some r)"

section \<open>Placed chunks are written back\<close>

text \<open>With the containers on \<open>dk\<close>, whatever the cache holds, the chunk \<open>fc\<close> is restored as \<open>d\<close>.\<close>

definition restores ::
  "bool \<Rightarrow> (disk \<Rightarrow> byte list \<Rightarrow> byte list \<Rightarrow> disk \<times> bool) \<Rightarrow> disk \<Rightarrow> fingerchunk \<Rightarrow> byte list \<Rightarrow> bool" where
  "restores cloud fetch dk fc d \<longleftrightarrow> length (fc_address fc) = 64 \<and> length (chunk_hash fc) = 20 \<and>
     (\<forall>rs ck. cache_ok rs \<and> rs_disk rs = dk \<longrightarrow>
       (\<exists>rs' ck'. restore_chunk cloud fetch rs (ck\<lparr>ck_hash := chunk_hash fc, ck_address := fc_address fc\<rparr>) = Some (rs', ck', SUCCESS) \<and>
         ck_data ck' = Some d \<and> ck_length ck' = int (length d) \<and> cache_ok rs' \<and> rs_disk rs' = dk))"

lemma restoresD:
  "restores cloud fetch dk fc d \<Longrightarrow> cache_ok rs \<Longrightarrow> rs_disk rs = dk \<Longrightarrow>
    \<exists>rs' ck'. restore_chunk cloud fetch rs (ck\<lparr>ck_hash := chunk_hash fc, ck_address := fc_address fc\<rparr>) = Some (rs', ck', SUCCESS) \<and>
      ck_data ck' = Some d \<and> ck_length ck' = int (length d) \<and> cache_ok rs' \<and> rs_disk rs' = dk"
  unfolding restores_def by blast

lemma restores_cong:
  "chunk_hash fc' = chunk_hash fc \<Longrightarrow> fc_address fc' = fc_address fc \<Longrightarrow>
    restores cloud fetch dk fc' d = restores cloud fetch dk fc d"
  by (simp add: restores_def)

lemma write_chunks_data:
  assumes "list_all2 (restores cloud fetch dk) fcs ds" "cache_ok rs" "rs_disk rs = dk"
  shows "\<exists>rs' ck'. write_chunks cloud fetch rs ck fcs out = Some (rs', ck', out @ concat ds, True) \<and>
    cache_ok rs' \<and> rs_disk rs' = dk"
  using assms
proof (induction fcs arbitrary: ds rs ck out)
  case (Cons fc fcs)
  obtain d ds' where ds: "ds = d # ds'" "restores cloud fetch dk fc d" "list_all2 (restores cloud fetch dk) fcs ds'"
    using Cons.prems(1) by (auto simp: list_all2_Cons1)
  then have l: "memcpy_at (memset0 64) 0 (take 64 (fc_address fc)) = fc_address fc" "take 20 (chunk_hash fc) = chunk_hash fc"
    by (simp_all add: restores_def memcpy_at_def)
  obtain rs1 ck1 where R: "restore_chunk cloud fetch rs (ck\<lparr>ck_hash := chunk_hash fc, ck_address := fc_address fc\<rparr>) = Some (rs1, ck1, SUCCESS)"
    "ck_data ck1 = Some d" "ck_length ck1 = int (length d)" "cache_ok rs1" "rs_disk rs1 = dk"
    using restoresD [OF ds(2) Cons.prems(2,3), of ck] by blast
  from Cons.IH [OF ds(3) R(4,5), of ck1 "out @ d"] R(1-3) l ds(1) show ?case by simp
qed simp

end
