(* ===== verification/System.thy ===== *)
theory System
  imports ServerSession ClientRestore
begin

text \<open>
  Client and server together: the client's side of the dialogue about a file is the request that the
  catalogue of the server calls for, and a file that was backed up is restored with its bytes.
\<close>

section \<open>The client speaks the protocol\<close>

lemma updateattr_ok_prefix: "starts_with updateattr_ok attr_ok" "updateattr_ok \<noteq> []"
  by (simp_all add: starts_with_def updateattr_ok_def attr_ok_def) (simp add: asc_def)

lemma update_msg_cong: "cstr a = cstr b \<Longrightarrow> update_msg n a = update_msg n b"
  by (simp add: update_msg_def)

definition start_file :: "fingerprint \<Rightarrow> byte list \<Rightarrow> fileinfo" where
  "start_file h p = file_new\<lparr>file_path := memcpy_at (file_path file_new) 0 p, file_hash := h\<rparr>"

lemma start_file_path:
  assumes "path_ok p"
  shows "cstr (file_path (start_file h p)) = cstr p"
proof -
  have "file_path (start_file h p) = file_path (listed (h, p))" by (simp add: start_file_def listed_def)
  moreover have "cstr p = p" using assms by (auto simp: path_ok_def)
  ultimately show ?thesis using listed_path [OF assms] by simp
qed

lemma update_file_recipe_ok:
  "update_file_recipe fi (Data updateattr_ok # ps) = (True, ps,
     [Data (show_int 2), Data (update_msg (chunknum fi) (file_path fi))] @
       (if fi_is_new fi = NEW_FILE then map (\<lambda>fc. Data (chunk_hash fc @ fc_address fc)) (fchunks fi) else []))"
  using updateattr_ok_prefix by (simp add: update_file_recipe_def)

lemma is_new_file_new:
  "is_new_file fi (Data [1] # ps) = (fi\<lparr>fi_is_new := NEW_FILE\<rparr>, SUCCESS, ps, [Data (show_int 1), Data (file_hash fi)])"
  by (simp add: is_new_file_def)

lemma is_new_file_known:
  "is_new_file fi (Data [1, 1] # ps) = (fi\<lparr>fi_is_new := DEDUP_FILE\<rparr>, SUCCESS, ps, [Data (show_int 1), Data (file_hash fi)])"
  by (simp add: is_new_file_def)

text \<open>A file that the server has: nothing is read again and nothing is stored.\<close>

lemma known_file_dialogue:
  assumes sha: "SHA1File junk reads = Some (Some h, shaSuccess)" and p: "path_ok p"
    and cat: "cat h = Some g" "chunks_ok g"
  shows "file_dudup fp mark junk reads file p rst ex st (reply cat (h, p, fcs) @ ps) =
    Some (rst, ex, st, ps, request cat (h, p, fcs), 0)"
proof -
  let ?fi = "(start_file h p)\<lparr>fi_is_new := DEDUP_FILE\<rparr>"
  have f: "fchunks ?fi = []" "chunknum ?fi = 0" by (simp_all add: start_file_def file_new_def)
  obtain fi' where R: "recv_deplicate_chunk ?fi (recipe_packets g @ Data updateattr_ok # ps) = Some (fi', SUCCESS, Data updateattr_ok # ps)"
    "file_path fi' = file_path (start_file h p)" "fi_is_new fi' = DEDUP_FILE" "chunknum fi' = int (length g)"
    using recv_recipe_packets [OF cat(2) f(1), of "Data updateattr_ok # ps"] f(2) by auto
  have m: "update_msg (chunknum fi') (file_path fi') = update_msg (int (length g)) p"
    unfolding R(2,4) by (rule update_msg_cong [OF start_file_path [OF p]])
  have h: "file_hash (start_file h p) = h" by (simp add: start_file_def)
  show ?thesis
    using sha cat(1) R m h
    by (simp add: file_dudup_def hash_reply_def is_new_file_known update_file_recipe_ok Let_def
        start_file_def [symmetric])
qed

lemma length_sha1_hash: "length (sha1_hash m) = 20"
  by (simp add: sha1_hash_def digest_bytes_def split: prod.split)

text \<open>A new file: it is chunked and stored, and the recipe that is sent leads to its chunks.\<close>

definition sent_chunks :: "fileinfo \<Rightarrow> chunks" where
  "sent_chunks fi = map (\<lambda>fc. (chunk_hash fc, fc_address fc)) (fchunks fi)"

lemma placed_chunks_ok:
  assumes "list_all2 (placed st) (chunk_list fp 0 ds) (fchunks fi)" "\<forall>d. length (fp d) = 20" "length (fchunks fi) < 25000000"
  shows "chunks_ok (sent_chunks fi)"
proof -
  have "length (chunk_hash fc) = 20 \<and> length (fc_address fc) = 64" if fc: "fc \<in> set (fchunks fi)" for fc
  proof -
    obtain i where i: "i < length (fchunks fi)" "fchunks fi ! i = fc" using fc by (auto simp: in_set_conv_nth)
    with assms(1) have "placed st (chunk_list fp 0 ds ! i) fc" "i < length ds"
      by (auto simp: list_all2_conv_all_nth)
    then show ?thesis
      using assms(2) by (auto simp: placed_def chunk_list_nth new_chunk_def dest: address_ok_length)
  qed
  with assms(3) show ?thesis by (auto simp: chunks_ok_def sent_chunks_def)
qed

lemma new_file_dialogue:
  assumes client: "client_ok fp D (length (ref_chunks data) + n) ex st" "rabin_init_flag rst \<Longrightarrow> rabin_ok rst"
    and fp: "\<forall>d. length (fp d) = 20" "\<forall>i k. pread data i k \<in> D"
    and sha: "SHA1File junk reads = Some (Some h, shaSuccess)" "length h = 20" and p: "path_ok p" and new: "cat h = None"
  shows "\<exists>rst' fi ex' st'. (\<forall>ps. file_dudup fp (mark_no_rewrite False (readable data)) junk reads (readable data) p rst ex st
      (reply cat (h, p, sent_chunks fi) @ ps) = Some (rst', ex', st', ps, request cat (h, p, sent_chunks fi), 0)) \<and>
    rabin_ok rst' \<and> client_ok fp D n ex' st' \<and> (\<forall>a h d. has st a h d \<longrightarrow> has st' a h d) \<and>
    list_all2 (placed st') (chunk_list fp 0 (ref_chunks data)) (fchunks fi) \<and> chunks_ok (sent_chunks fi)"
proof -
  let ?fi = "(start_file h p)\<lparr>fi_is_new := NEW_FILE\<rparr>"
  have f: "fchunks ?fi = []" "chunknum ?fi = 0" "fi_is_new ?fi = NEW_FILE" "length (file_hash ?fi) = 20"
    using sha(2) by (simp_all add: start_file_def file_new_def)
  obtain rst' fi' ex' st' where C: "chunk_dedup fp (mark_no_rewrite False (readable data)) (readable data) rst ?fi ex st =
      Some (rst', fi', ex', st', 0)" "client_ok fp D n ex' st'"
    "list_all2 (placed st') (chunk_list fp 0 (ref_chunks data)) (fchunks fi')" "fi_is_new fi' = NEW_FILE"
    "file_path fi' = file_path (start_file h p)" "chunknum fi' = int (length (fchunks fi'))" "length (fchunks fi') < 25000000"
    "rabin_ok rst'" "\<forall>a h d. has st a h d \<longrightarrow> has st' a h d"
    using chunk_dedup_spec [OF client f fp] by auto
  have m: "update_msg (chunknum fi') (file_path fi') = update_msg (int (length (fchunks fi'))) p"
    unfolding C(5,6) by (rule update_msg_cong [OF start_file_path [OF p]])
  have h: "file_hash (start_file h p) = h" by (simp add: start_file_def)
  have "file_dudup fp (mark_no_rewrite False (readable data)) junk reads (readable data) p rst ex st
      (reply cat (h, p, sent_chunks fi') @ ps) = Some (rst', ex', st', ps, request cat (h, p, sent_chunks fi'), 0)" for ps
    using sha(1) new C(1,4) m h
    by (simp add: file_dudup_def hash_reply_def is_new_file_new update_file_recipe_ok Let_def
        start_file_def [symmetric] sent_chunks_def enc_chunk_def comp_def)
  with C(2,3,8,9) placed_chunks_ok [OF C(3) fp(1) C(7)] show ?thesis by blast
qed

lemma restore_one_spec:
  assumes "server_ok e s cat" "my_job_files e (ss_db s) (int job) = Some [(h, p)]" "length h = 20" "path_ok p"
    and "cat h = Some fcs" "chunks_ok fcs"
  shows "\<exists>s' ps fl qs fi. restore e (asc ''REST jobid='' @ show_int (int job)) s = Some (SUCCESS, s') \<and> ss_out s' = ss_out s @ ps \<and>
    recv_file_list ps = Some (fl, SUCCESS, qs) \<and> get_files fl qs = Some ([fi, file_new\<lparr>file_size := -1\<rparr>], []) \<and>
    cstr (file_path fi) = p \<and> file_size fi = 0 \<and> map (\<lambda>fc. (chunk_hash fc, fc_address fc)) (fchunks fi) = fcs"
proof -
  have f: "\<forall>hp\<in>set [(h, p)]. length (fst hp) = 20 \<and> path_ok (snd hp) \<and> (\<exists>fcs. cat (fst hp) = Some fcs \<and> chunks_ok fcs)"
    using assms by simp
  obtain s' ps fl qs fis where R: "restore e (asc ''REST jobid='' @ show_int (int job)) s = Some (SUCCESS, s')"
    "ss_out s' = ss_out s @ ps" "recv_file_list (ps @ []) = Some (fl, SUCCESS, qs)"
    "get_files fl qs = Some (fis @ [file_new\<lparr>file_size := -1\<rparr>], [])"
    "list_all2 (\<lambda>hp fi. file_hash fi = fst hp \<and> cstr (file_path fi) = snd hp \<and> file_size fi = 0 \<and>
      Some (map (\<lambda>fc. (chunk_hash fc, fc_address fc)) (fchunks fi)) = cat (fst hp)) [(h, p)] fis"
    using restore_spec [OF assms(1,2) _ _ f, of "[]"] by auto
  obtain fi where fi: "fis = [fi]" using R(5) by (auto simp: list_all2_Cons1)
  with R assms(5) show ?thesis
    by (intro exI [of _ s'] exI [of _ ps] exI [of _ fl] exI [of _ qs] exI [of _ fi]) simp
qed

section \<open>Restoring what was backed up\<close>

lemma sent_chunks_restored:
  assumes client: "client_ok fp D n ex st" and pl: "list_all2 (placed st) (chunk_list fp 0 (ref_chunks data)) (fchunks fi)"
    and D: "\<forall>i k. pread data i k \<in> D" "inj_on fp D" and ok: "chunks_ok (sent_chunks fi)"
    and same: "map (\<lambda>fc. (chunk_hash fc, fc_address fc)) fcs = sent_chunks fi"
  shows "list_all2 (restores False fetch (st_disk (store_destory False st))) fcs (ref_chunks data)"
proof (unfold list_all2_conv_all_nth, intro conjI allI impI)
  have l: "length fcs = length (fchunks fi)" using same by (metis length_map sent_chunks_def)
  also have "\<dots> = length (ref_chunks data)" using pl by (auto dest: list_all2_lengthD)
  finally show "length fcs = length (ref_chunks data)" .
  fix i assume i: "i < length fcs"
  then have "(chunk_hash (fcs ! i), fc_address (fcs ! i)) = sent_chunks fi ! i"
    by (metis (no_types, lifting) nth_map same)
  with i l have f: "chunk_hash (fcs ! i) = chunk_hash (fchunks fi ! i)" "fc_address (fcs ! i) = fc_address (fchunks fi ! i)"
    by (simp_all add: sent_chunks_def)
  have "(chunk_hash (fchunks fi ! i), fc_address (fchunks fi ! i)) \<in> set (sent_chunks fi)"
    using i l by (simp add: sent_chunks_def)
  with ok have "length (chunk_hash (fchunks fi ! i)) = 20" "length (fc_address (fchunks fi ! i)) = 64"
    by (auto simp: chunks_ok_def)
  with restore_placed [OF client pl D, where i = i and fetch = fetch] i l
  show "restores False fetch (st_disk (store_destory False st)) (fcs ! i) (ref_chunks data ! i)"
    by (simp add: restores_cong [OF f]) (simp add: restores_def)
qed

lemma pwrite_cover: "length f \<le> length d \<Longrightarrow> pwrite f 0 d = d"
  by (simp add: pwrite_def)

lemma construct_one_file:
  assumes fcs: "list_all2 (restores False fetch dk) (fchunks fi) ds" and r: "cache_ok (rt_cache r)" "rs_disk (rt_cache r) = dk"
    and t: "\<not> denied (rt_target r) (full_path base fi)" "length (file_bytes (rt_target r) (full_path base fi)) \<le> length (concat ds)"
  shows "\<exists>r'. construct_one False False fetch base r fi = Some (r', True) \<and>
    files (rt_target r') (full_path base fi) = Some (concat ds)"
proof -
  obtain rs ck where w: "write_chunks False fetch (rt_cache r) (rt_chunk r) (fchunks fi) [] = Some (rs, ck, concat ds, True)"
    using write_chunks_data [OF fcs r, of "rt_chunk r" "[]"] by auto
  then show ?thesis
    using t by (simp add: construct_one_def rewritten_file_def Let_def open_creat_def disk_pwrite_def pwrite_cover)
qed

lemma construct_single_file:
  assumes fcs: "list_all2 (restores False fetch dk) (fchunks fi) ds" and r: "cache_ok (rt_cache r)" "rs_disk (rt_cache r) = dk"
    and t: "\<not> denied (rt_target r) (full_path base fi)" "length (file_bytes (rt_target r) (full_path base fi)) \<le> length (concat ds)"
    and fi: "file_size fi \<noteq> -1"
  shows "\<exists>r'. construct_files False False fetch base r [fi, file_new\<lparr>file_size := -1\<rparr>] = Some r' \<and>
    files (rt_target r') (full_path base fi) = Some (concat ds)"
proof -
  obtain r' where "construct_one False False fetch base r fi = Some (r', True)" "files (rt_target r') (full_path base fi) = Some (concat ds)"
    using construct_one_file [OF fcs r t] by blast
  with fi show ?thesis by simp
qed

text \<open>A file that is backed up and restored has its bytes again. The client reads, chunks and stores a new
  file while the server answers its packets, and each receives exactly what the other sent; the
  server then sends back a recipe from which the client, whatever its cache holds, writes the bytes
  of the file to its path. The target must not hold a longer file, which would keep its tail.\<close>

lemma backup_and_restore_system:
  assumes "server_ok e s cat" "db_works e" "user \<noteq> 0" "path_ok fileset" "path_ok p"
    and "client_ok fp D (length (ref_chunks data) + n) ex st" "rabin_init_flag rst \<Longrightarrow> rabin_ok rst"
    and "\<forall>d. length (fp d) = 20" "\<forall>i k. pread data i k \<in> D" "inj_on fp D"
    and "length (Message_Block junk) = 64" "\<forall>d\<in>set ds. d \<noteq> []" "data = concat ds" "8 * length data < 2 ^ 64"
    and "cat (sha1_hash data) = None"
  shows "\<exists>answers sent rst' ex' st' s'.
    file_dudup fp (mark_no_rewrite False (readable data)) junk (Some (map Some ds)) (readable data) p rst ex st answers =
      Some (rst', ex', st', [], sent, 0) \<and>
    new_backup e user name (asc ''BACK fileset='' @ fileset) (s\<lparr>ss_in := sent @ [Signal STREAM_END]\<rparr>) = Some (0, s') \<and>
    ss_out s' = ss_out s @ answers @ [Data backup_ok] \<and> client_ok fp D n ex' st' \<and>
    (my_job_files e (ss_db s') (int job) = Some [(sha1_hash data, p)] \<longrightarrow>
      (\<exists>s'' ps fl qs fis. restore e (asc ''REST jobid='' @ show_int (int job)) s' = Some (SUCCESS, s'') \<and> ss_out s'' = ss_out s' @ ps \<and>
        recv_file_list ps = Some (fl, SUCCESS, qs) \<and> get_files fl qs = Some (fis, []) \<and>
        (\<forall>r. cache_ok (rt_cache r) \<and> rs_disk (rt_cache r) = st_disk (store_destory False st') \<and>
            \<not> denied (rt_target r) (cstr base @ p) \<and> length (file_bytes (rt_target r) (cstr base @ p)) \<le> length data \<longrightarrow>
          (\<exists>r'. construct_files False False fetch base r fis = Some r' \<and> files (rt_target r') (cstr base @ p) = Some data))))"
proof -
  note ok = assms(1) and db = assms(2,3) and p = assms(4,5) and client = assms(6,7) and fp = assms(8,9) and inj = assms(10)
    and junk = assms(11,12) and data = assms(13,14) and new = assms(15)
  let ?h = "sha1_hash data"
  have sha: "SHA1File junk (Some (map Some ds)) = Some (Some ?h, shaSuccess)"
    using sha1_reads_absorbed [OF absorbed_init [OF junk(1)] junk(2)] data SHA1Final_absorbed by (auto simp: SHA1File_def)
  obtain rst' fi ex' st' where C: "file_dudup fp (mark_no_rewrite False (readable data)) junk (Some (map Some ds)) (readable data) p rst ex st
      (reply cat (?h, p, sent_chunks fi) @ []) = Some (rst', ex', st', [], request cat (?h, p, sent_chunks fi), 0)"
    "client_ok fp D n ex' st'" "list_all2 (placed st') (chunk_list fp 0 (ref_chunks data)) (fchunks fi)" "chunks_ok (sent_chunks fi)"
    using new_file_dialogue [where cat = cat and h = ?h and fp = fp, OF client fp sha length_sha1_hash p(2) new] by blast
  let ?u = "(?h, p, sent_chunks fi)"
  let ?s = "s\<lparr>ss_in := request cat ?u @ [Signal STREAM_END]\<rparr>"
  have "server_ok e ?s cat" using server_ok_inv [OF ok] by (intro server_ok_cong [OF ok]) simp_all
  then obtain s' where S: "new_backup e user name (asc ''BACK fileset='' @ fileset) ?s = Some (0, s')"
    "server_ok e s' (cat(?h \<mapsto> sent_chunks fi))" "ss_out s' = ss_out s @ reply cat ?u @ [Data backup_ok]"
    using new_backup_spec [of e ?s cat "[?u]" user fileset "[]" name] db p C(4) new length_sha1_hash by auto
  have "\<exists>s'' ps fl qs fis. restore e (asc ''REST jobid='' @ show_int (int job)) s' = Some (SUCCESS, s'') \<and> ss_out s'' = ss_out s' @ ps \<and>
        recv_file_list ps = Some (fl, SUCCESS, qs) \<and> get_files fl qs = Some (fis, []) \<and>
        (\<forall>r. cache_ok (rt_cache r) \<and> rs_disk (rt_cache r) = st_disk (store_destory False st') \<and>
            \<not> denied (rt_target r) (cstr base @ p) \<and> length (file_bytes (rt_target r) (cstr base @ p)) \<le> length data \<longrightarrow>
          (\<exists>r'. construct_files False False fetch base r fis = Some r' \<and> files (rt_target r') (cstr base @ p) = Some data))"
    if row: "my_job_files e (ss_db s') (int job) = Some [(?h, p)]"
  proof -
    obtain s'' ps fl qs fi' where R: "restore e (asc ''REST jobid='' @ show_int (int job)) s' = Some (SUCCESS, s'')" "ss_out s'' = ss_out s' @ ps"
      "recv_file_list ps = Some (fl, SUCCESS, qs)" "get_files fl qs = Some ([fi', file_new\<lparr>file_size := -1\<rparr>], [])"
      "cstr (file_path fi') = p" "file_size fi' = 0" "map (\<lambda>fc. (chunk_hash fc, fc_address fc)) (fchunks fi') = sent_chunks fi"
      using restore_one_spec [OF S(2) row length_sha1_hash p(2) _ C(4)] by auto
    have path: "full_path base fi' = cstr base @ p" using R(5) by (simp add: full_path_def)
    have "list_all2 (restores False fetch (st_disk (store_destory False st'))) (fchunks fi') (ref_chunks data)"
      by (rule sent_chunks_restored [OF C(2,3) fp(2) inj C(4) R(7)])
    from construct_single_file [OF this, of _ base] R(6) path concat_ref_chunks [of data] R(1-4) show ?thesis
      by (intro exI [of _ s''] exI [of _ ps] exI [of _ fl] exI [of _ qs] exI [of _ "[fi', file_new\<lparr>file_size := -1\<rparr>]"]) simp
  qed
  with C(1,2) S(1,3) show ?thesis by (intro exI [of _ "reply cat ?u"] exI [of _ "request cat ?u"] exI [of _ rst'] exI [of _ ex'] exI [of _ st'] exI [of _ s']) simp
qed

end
