(* ===== verification/ThreadPool.thy ===== *)
theory ThreadPool
  imports Prelude "HOL-Library.Multiset"
begin

text \<open>
  The server's pool of worker threads (server/lib/threadq.c). Any number of threads call
  \<open>workq_add\<close>, \<open>workq_remove\<close> and \<open>workq_destroy\<close>, and the workers run \<open>workq_server\<close>; the model
  interleaves the steps between two operations on the mutex or the condition variable. A thread in
  \<open>pthread_cond_wait\<close> or \<open>pthread_cond_timedwait\<close> has given the mutex up, may wake up for no reason
  or, if a worker, because its time is over, and must take the mutex again before it goes on. The
  chain of entries between \<open>first\<close> and \<open>last\<close> is a list; an entry is its address and its data. The
  failures of the mutex and of the condition variable themselves are left out.
\<close>

datatype 'a wpc =
    Starting | Looping | Waiting | Woken bool | Taking bool | Running 'a bool | Back bool | Checking bool | Gone

datatype 'a cpc =
    Idle | Add_lock 'a bool | Add_in 'a bool | Waking | Unlocking
  | Remove_lock nat | Remove_in nat
  | Destroy_lock | Destroy_in | Destroy_loop | Destroy_wait | Destroy_woken

datatype tid = Worker nat | Client nat

text \<open>The last five fields are logs for the theorems: what was added, taken and run, whether only the
  end of the queue was used, and whether a thread could not be created.\<close>

record 'a pool =
  wq_queue :: "(nat \<times> 'a) list"
  wq_valid :: bool
  wq_quit :: bool
  wq_max :: int
  wq_num :: int
  wq_idle :: int
  wq_mutex :: "tid option"
  wq_workers :: "'a wpc list"
  wq_clients :: "nat \<Rightarrow> 'a cpc"
  wq_added :: "'a list"
  wq_taken :: "'a list"
  wq_run :: "'a list"
  wq_fifo :: bool
  wq_failed :: bool

definition workq_init :: "int \<Rightarrow> 'a pool" where
  "workq_init threads = \<lparr>wq_queue = [], wq_valid = True, wq_quit = False, wq_max = threads, wq_num = 0,
     wq_idle = 0, wq_mutex = None, wq_workers = [], wq_clients = \<lambda>_. Idle, wq_added = [], wq_taken = [],
     wq_run = [], wq_fifo = True, wq_failed = False\<rparr>"

definition client :: "nat \<Rightarrow> 'a cpc \<Rightarrow> 'a pool \<Rightarrow> 'a pool" where
  "client i c s = s\<lparr>wq_clients := (wq_clients s)(i := c)\<rparr>"

definition worker :: "nat \<Rightarrow> 'a wpc \<Rightarrow> 'a pool \<Rightarrow> 'a pool" where
  "worker w c s = s\<lparr>wq_workers := (wq_workers s)[w := c]\<rparr>"

text \<open>\<open>pthread_cond_broadcast(&wq->work)\<close> wakes the workers and whoever waits in \<open>workq_destroy\<close>.\<close>

definition wake_worker :: "'a wpc \<Rightarrow> 'a wpc" where
  "wake_worker p = (case p of Waiting \<Rightarrow> Woken False | _ \<Rightarrow> p)"

definition wake_client :: "'a cpc \<Rightarrow> 'a cpc" where
  "wake_client c = (case c of Destroy_wait \<Rightarrow> Destroy_woken | _ \<Rightarrow> c)"

definition wake_all :: "'a pool \<Rightarrow> 'a pool" where
  "wake_all s = s\<lparr>wq_workers := map wake_worker (wq_workers s), wq_clients := wake_client \<circ> wq_clients s\<rparr>"

definition wake_idle :: "'a pool \<Rightarrow> 'a pool" where
  "wake_idle s = (if wq_idle s > 0 then wake_all s else s)"

definition to_front :: "nat \<Rightarrow> (nat \<times> 'a) list \<Rightarrow> (nat \<times> 'a) list" where
  "to_front item q = (case dropWhile (\<lambda>e. fst e \<noteq> item) q of
     [] \<Rightarrow> q
   | e # after \<Rightarrow> e # takeWhile (\<lambda>e. fst e \<noteq> item) q @ after)"

text \<open>The callers: \<open>workq_add\<close>, \<open>workq_remove\<close> and \<open>workq_destroy\<close>.\<close>

inductive call_step :: "nat \<Rightarrow> 'a pool \<Rightarrow> 'a pool \<Rightarrow> bool" where
  add: "wq_clients s i = Idle \<Longrightarrow> wq_valid s \<Longrightarrow> call_step i s (client i (Add_lock x priority) s)"
| add_lock: "wq_clients s i = Add_lock x priority \<Longrightarrow> wq_mutex s = None \<Longrightarrow>
    call_step i s (client i (Add_in x priority) (s\<lparr>wq_mutex := Some (Client i)\<rparr>))"
| add_in: "wq_clients s i = Add_in x priority \<Longrightarrow> item \<notin> fst ` set (wq_queue s) \<Longrightarrow>
    call_step i s (client i Waking (s\<lparr>wq_queue := (if priority then (item, x) # wq_queue s else wq_queue s @ [(item, x)]),
      wq_added := wq_added s @ [x], wq_fifo := (wq_fifo s \<and> \<not> priority)\<rparr>))"
| remove: "wq_clients s i = Idle \<Longrightarrow> wq_valid s \<Longrightarrow> call_step i s (client i (Remove_lock item) s)"
| remove_lock: "wq_clients s i = Remove_lock item \<Longrightarrow> wq_mutex s = None \<Longrightarrow>
    call_step i s (client i (Remove_in item) (s\<lparr>wq_mutex := Some (Client i)\<rparr>))"
| remove_in: "wq_clients s i = Remove_in item \<Longrightarrow> item \<in> fst ` set (wq_queue s) \<Longrightarrow>
    call_step i s (client i Waking (s\<lparr>wq_queue := to_front item (wq_queue s), wq_fifo := False\<rparr>))"
| remove_missing: "wq_clients s i = Remove_in item \<Longrightarrow> item \<notin> fst ` set (wq_queue s) \<Longrightarrow>
    call_step i s (client i Idle s)"
| wake: "wq_clients s i = Waking \<Longrightarrow> wq_idle s > 0 \<Longrightarrow> call_step i s (client i Unlocking (wake_all s))"
| create: "wq_clients s i = Waking \<Longrightarrow> \<not> wq_idle s > 0 \<Longrightarrow> wq_num s < wq_max s \<Longrightarrow>
    call_step i s (client i Unlocking (s\<lparr>wq_workers := wq_workers s @ [Starting], wq_num := wq_num s + 1\<rparr>))"
| create_fails: "wq_clients s i = Waking \<Longrightarrow> \<not> wq_idle s > 0 \<Longrightarrow> wq_num s < wq_max s \<Longrightarrow>
    call_step i s (client i Unlocking (s\<lparr>wq_failed := True\<rparr>))"
| create_full: "wq_clients s i = Waking \<Longrightarrow> \<not> wq_idle s > 0 \<Longrightarrow> \<not> wq_num s < wq_max s \<Longrightarrow>
    call_step i s (client i Unlocking s)"
| unlock: "wq_clients s i = Unlocking \<Longrightarrow> call_step i s (client i Idle (s\<lparr>wq_mutex := None\<rparr>))"
| destroy: "wq_clients s i = Idle \<Longrightarrow> wq_valid s \<Longrightarrow> call_step i s (client i Destroy_lock s)"
| destroy_lock: "wq_clients s i = Destroy_lock \<Longrightarrow> wq_mutex s = None \<Longrightarrow>
    call_step i s (client i Destroy_in (s\<lparr>wq_mutex := Some (Client i)\<rparr>))"
| destroy_in: "wq_clients s i = Destroy_in \<Longrightarrow>
    call_step i s (if wq_num s > 0 then client i Destroy_loop (wake_idle (s\<lparr>wq_valid := False, wq_quit := True\<rparr>))
      else client i Unlocking (s\<lparr>wq_valid := False\<rparr>))"
| destroy_wait: "wq_clients s i = Destroy_loop \<Longrightarrow> wq_num s > 0 \<Longrightarrow>
    call_step i s (client i Destroy_wait (s\<lparr>wq_mutex := None\<rparr>))"
| destroy_over: "wq_clients s i = Destroy_loop \<Longrightarrow> \<not> wq_num s > 0 \<Longrightarrow> call_step i s (client i Unlocking s)"
| destroy_spurious: "wq_clients s i = Destroy_wait \<Longrightarrow> call_step i s (client i Destroy_woken s)"
| destroy_relock: "wq_clients s i = Destroy_woken \<Longrightarrow> wq_mutex s = None \<Longrightarrow>
    call_step i s (client i Destroy_loop (s\<lparr>wq_mutex := Some (Client i)\<rparr>))"

text \<open>The workers: \<open>workq_server\<close>. The Boolean is \<open>timedout\<close>.\<close>

inductive worker_step :: "nat \<Rightarrow> 'a pool \<Rightarrow> 'a pool \<Rightarrow> bool" where
  lock: "wq_workers s ! w = Starting \<Longrightarrow> wq_mutex s = None \<Longrightarrow>
    worker_step w s (worker w Looping (s\<lparr>wq_mutex := Some (Worker w)\<rparr>))"
| wait: "wq_workers s ! w = Looping \<Longrightarrow> wq_queue s = [] \<Longrightarrow> \<not> wq_quit s \<Longrightarrow>
    worker_step w s (worker w Waiting (s\<lparr>wq_idle := wq_idle s + 1, wq_mutex := None\<rparr>))"
| work: "wq_workers s ! w = Looping \<Longrightarrow> wq_queue s \<noteq> [] \<or> wq_quit s \<Longrightarrow> worker_step w s (worker w (Taking False) s)"
| wake_up: "wq_workers s ! w = Waiting \<Longrightarrow> worker_step w s (worker w (Woken timedout) s)"
| relock: "wq_workers s ! w = Woken timedout \<Longrightarrow> wq_mutex s = None \<Longrightarrow>
    worker_step w s (worker w (if timedout then Taking True else Looping)
      (s\<lparr>wq_idle := wq_idle s - 1, wq_mutex := Some (Worker w)\<rparr>))"
| take: "wq_workers s ! w = Taking timedout \<Longrightarrow> wq_queue s = (item, x) # q \<Longrightarrow>
    worker_step w s (worker w (Running x timedout) (s\<lparr>wq_queue := q, wq_mutex := None, wq_taken := wq_taken s @ [x]\<rparr>))"
| take_none: "wq_workers s ! w = Taking timedout \<Longrightarrow> wq_queue s = [] \<Longrightarrow> worker_step w s (worker w (Checking timedout) s)"
| engine: "wq_workers s ! w = Running x timedout \<Longrightarrow>
    worker_step w s (worker w (Back timedout) (s\<lparr>wq_run := wq_run s @ [x]\<rparr>))"
| return: "wq_workers s ! w = Back timedout \<Longrightarrow> wq_mutex s = None \<Longrightarrow>
    worker_step w s (worker w (Checking timedout) (s\<lparr>wq_mutex := Some (Worker w)\<rparr>))"
| quit: "wq_workers s ! w = Checking timedout \<Longrightarrow> wq_queue s = [] \<Longrightarrow> wq_quit s \<Longrightarrow>
    worker_step w s (worker w Gone
      ((if wq_num s - 1 = 0 then wake_all else id) (s\<lparr>wq_num := wq_num s - 1, wq_mutex := None\<rparr>)))"
| time_out: "wq_workers s ! w = Checking True \<Longrightarrow> wq_queue s = [] \<Longrightarrow> \<not> wq_quit s \<Longrightarrow>
    worker_step w s (worker w Gone (s\<lparr>wq_num := wq_num s - 1, wq_mutex := None\<rparr>))"
| again: "wq_workers s ! w = Checking timedout \<Longrightarrow> wq_queue s \<noteq> [] \<or> \<not> wq_quit s \<and> \<not> timedout \<Longrightarrow>
    worker_step w s (worker w Looping s)"

inductive pool_step :: "'a pool \<Rightarrow> 'a pool \<Rightarrow> bool" where
  of_call: "call_step i s s' \<Longrightarrow> pool_step s s'"
| of_worker: "w < length (wq_workers s) \<Longrightarrow> worker_step w s s' \<Longrightarrow> pool_step s s'"

inductive pool_reachable :: "int \<Rightarrow> 'a pool \<Rightarrow> bool" for threads :: int where
  start: "pool_reachable threads (workq_init threads)"
| step: "pool_reachable threads s \<Longrightarrow> pool_step s s' \<Longrightarrow> pool_reachable threads s'"

inductive_cases call_stepE: "call_step i s s'"
inductive_cases worker_stepE: "worker_step w s s'"

section \<open>Counting threads\<close>

definition cnt :: "('b \<Rightarrow> bool) \<Rightarrow> 'b list \<Rightarrow> int" where
  "cnt P ps = int (length (filter P ps))"

lemma cnt_simps [simp]: "cnt P [] = 0" "cnt P (ps @ qs) = cnt P ps + cnt P qs"
  "cnt P (p # ps) = (if P p then 1 else 0) + cnt P ps"
  by (simp_all add: cnt_def)

lemma cnt_nonneg [simp]: "0 \<le> cnt P ps"
  by (simp add: cnt_def)

lemma cnt_pos: "0 < cnt P ps \<longleftrightarrow> (\<exists>p\<in>set ps. P p)"
  by (induction ps) (auto simp: add_pos_nonneg)

lemma cnt_update:
  "w < length ps \<Longrightarrow> cnt P (ps[w := p]) = cnt P ps - (if P (ps ! w) then 1 else 0) + (if P p then 1 else 0)"
  by (induction ps arbitrary: w) (auto simp: nth_Cons' split: nat.splits)

lemma cnt_wake: "(\<And>b. P (Woken b) = P Waiting) \<Longrightarrow> cnt P (map wake_worker ps) = cnt P ps"
  by (induction ps) (auto simp: wake_worker_def split: wpc.splits)

definition live :: "'a wpc \<Rightarrow> bool" where "live p \<longleftrightarrow> p \<noteq> Gone"

fun resting :: "'a wpc \<Rightarrow> bool" where
  "resting Waiting = True"
| "resting (Woken b) = True"
| "resting _ = False"

text \<open>What the workers are running.\<close>

fun job :: "'a wpc \<Rightarrow> 'a multiset" where
  "job (Running x b) = {#x#}"
| "job _ = {#}"

definition jobs :: "'a wpc list \<Rightarrow> 'a multiset" where
  "jobs ps = sum_list (map job ps)"

lemma jobs_simps [simp]: "jobs [] = {#}" "jobs (ps @ qs) = jobs ps + jobs qs" "jobs (p # ps) = job p + jobs ps"
  by (simp_all add: jobs_def)

lemma jobs_update: "w < length ps \<Longrightarrow> jobs (ps[w := p]) + job (ps ! w) = jobs ps + job p"
  by (induction ps arbitrary: w) (auto simp: nth_Cons' split: nat.splits)

lemma jobs_wake [simp]: "jobs (map wake_worker ps) = jobs ps"
  by (induction ps) (auto simp: wake_worker_def split: wpc.splits)

lemma nth_wake: "w < length ps \<Longrightarrow> map wake_worker ps ! w = wake_worker (ps ! w)"
  by simp

lemma wake_worker_simps [simp]: "job (wake_worker p) = job p" "live (wake_worker p) = live p"
  "resting (wake_worker p) = resting p" "wake_worker p \<noteq> Waiting" "wake_worker p \<noteq> Gone \<longleftrightarrow> p \<noteq> Gone"
  by (auto simp: wake_worker_def live_def split: wpc.splits)

lemma mset_to_front: "mset (to_front item q) = mset q"
proof (cases "dropWhile (\<lambda>e. fst e \<noteq> item) q")
  case (Cons e after)
  have "mset q = mset (takeWhile (\<lambda>e. fst e \<noteq> item) q @ e # after)" using Cons by (metis takeWhile_dropWhile_id)
  with Cons show ?thesis by (simp add: to_front_def)
qed (simp only: to_front_def list.case)

lemma mset_snd_to_front [simp]: "mset (map snd (to_front item q)) = mset (map snd q)"
  by (simp add: mset_to_front)

lemma to_front_Nil [simp]: "to_front item q = [] \<longleftrightarrow> q = []"
  using mset_to_front [of item q] by (metis mset_zero_iff)

lemma pool_simps [simp]:
  "wq_queue (client i c s) = wq_queue s" "wq_mutex (client i c s) = wq_mutex s" "wq_workers (client i c s) = wq_workers s"
  "wq_num (client i c s) = wq_num s" "wq_idle (client i c s) = wq_idle s" "wq_max (client i c s) = wq_max s"
  "wq_quit (client i c s) = wq_quit s" "wq_clients (client i c s) = (wq_clients s)(i := c)"
  "wq_added (client i c s) = wq_added s" "wq_taken (client i c s) = wq_taken s" "wq_run (client i c s) = wq_run s"
  "wq_fifo (client i c s) = wq_fifo s" "wq_failed (client i c s) = wq_failed s"
  "wq_queue (worker w p s) = wq_queue s" "wq_mutex (worker w p s) = wq_mutex s" "wq_workers (worker w p s) = (wq_workers s)[w := p]"
  "wq_num (worker w p s) = wq_num s" "wq_idle (worker w p s) = wq_idle s" "wq_max (worker w p s) = wq_max s"
  "wq_quit (worker w p s) = wq_quit s" "wq_clients (worker w p s) = wq_clients s"
  "wq_added (worker w p s) = wq_added s" "wq_taken (worker w p s) = wq_taken s" "wq_run (worker w p s) = wq_run s"
  "wq_fifo (worker w p s) = wq_fifo s" "wq_failed (worker w p s) = wq_failed s"
  "wq_queue (wake_all s) = wq_queue s" "wq_mutex (wake_all s) = wq_mutex s" "wq_workers (wake_all s) = map wake_worker (wq_workers s)"
  "wq_num (wake_all s) = wq_num s" "wq_idle (wake_all s) = wq_idle s" "wq_max (wake_all s) = wq_max s"
  "wq_quit (wake_all s) = wq_quit s" "wq_clients (wake_all s) = wake_client \<circ> wq_clients s"
  "wq_added (wake_all s) = wq_added s" "wq_taken (wake_all s) = wq_taken s" "wq_run (wake_all s) = wq_run s"
  "wq_fifo (wake_all s) = wq_fifo s" "wq_failed (wake_all s) = wq_failed s"
  by (simp_all add: client_def worker_def wake_all_def)

section \<open>The invariant\<close>

fun wholds :: "'a wpc \<Rightarrow> bool" where
  "wholds Looping = True"
| "wholds (Taking b) = True"
| "wholds (Checking b) = True"
| "wholds _ = False"

fun cholds :: "'a cpc \<Rightarrow> bool" where
  "cholds (Add_in x b) = True"
| "cholds Waking = True"
| "cholds Unlocking = True"
| "cholds (Remove_in item) = True"
| "cholds Destroy_in = True"
| "cholds Destroy_loop = True"
| "cholds _ = False"

text \<open>A thread inside a critical section holds the mutex.\<close>

fun holds :: "tid \<Rightarrow> 'a pool \<Rightarrow> bool" where
  "holds (Worker w) s \<longleftrightarrow> w < length (wq_workers s) \<and> wholds (wq_workers s ! w)"
| "holds (Client i) s \<longleftrightarrow> cholds (wq_clients s i)"

definition mutex_inv :: "'a pool \<Rightarrow> bool" where
  "mutex_inv s \<longleftrightarrow> (\<forall>t. holds t s \<longrightarrow> wq_mutex s = Some t)"

definition count_inv :: "'a pool \<Rightarrow> bool" where
  "count_inv s \<longleftrightarrow> wq_num s = cnt live (wq_workers s) \<and> wq_idle s = cnt resting (wq_workers s) \<and> wq_num s \<le> wq_max s"

definition log_inv :: "'a pool \<Rightarrow> bool" where
  "log_inv s \<longleftrightarrow> mset (wq_taken s) = mset (wq_run s) + jobs (wq_workers s) \<and>
     mset (wq_added s) = mset (wq_taken s) + mset (map snd (wq_queue s)) \<and>
     (wq_fifo s \<longrightarrow> wq_added s = wq_taken s @ map snd (wq_queue s))"

text \<open>A worker that will look at the queue again before it waits.\<close>

definition awake :: "'a pool \<Rightarrow> bool" where
  "awake s \<longleftrightarrow> (\<exists>p\<in>set (wq_workers s). live p \<and> p \<noteq> Waiting)"

definition work_inv :: "'a pool \<Rightarrow> bool" where
  "work_inv s \<longleftrightarrow> (wq_queue s \<noteq> [] \<and> \<not> wq_failed s \<and> 0 < wq_max s \<longrightarrow> awake s \<or> (\<exists>i. wq_clients s i = Waking))"

definition quit_inv :: "'a pool \<Rightarrow> bool" where
  "quit_inv s \<longleftrightarrow> (wq_quit s \<longrightarrow> Waiting \<notin> set (wq_workers s)) \<and>
     (\<forall>i. wq_clients s i \<in> {Destroy_loop, Destroy_wait, Destroy_woken} \<longrightarrow> wq_quit s) \<and>
     (\<forall>i. wq_clients s i = Destroy_wait \<longrightarrow> 0 < wq_num s)"

lemma wholds_wake [simp]: "wholds (wake_worker p) = wholds p"
  by (cases p) (simp_all add: wake_worker_def)

lemma cholds_wake [simp]: "cholds (wake_client c) = cholds c"
  by (cases c) (simp_all add: wake_client_def)

lemma wake_idle_cases: "wake_idle s = wake_all s \<or> wake_idle s = s"
  by (simp add: wake_idle_def)

lemma mutex_inv_move:
  assumes "mutex_inv s" "\<And>t. t \<noteq> me \<Longrightarrow> holds t s' \<Longrightarrow> holds t s"
    and "wq_mutex s' = wq_mutex s \<and> (holds me s' \<longrightarrow> holds me s) \<or> wq_mutex s = None \<and> wq_mutex s' = Some me \<or>
      holds me s \<and> \<not> holds me s' \<and> wq_mutex s' = None"
  shows "mutex_inv s'"
  unfolding mutex_inv_def
proof (intro allI impI)
  fix t assume "holds t s'"
  then have "t \<noteq> me \<Longrightarrow> wq_mutex s = Some t" using assms(1,2) unfolding mutex_inv_def by blast
  moreover have "holds me s \<Longrightarrow> wq_mutex s = Some me" using assms(1) unfolding mutex_inv_def by blast
  ultimately show "wq_mutex s' = Some t" using assms(3) \<open>holds t s'\<close> by (cases "t = me") auto
qed

lemma call_others: "call_step i s s' \<Longrightarrow> t \<noteq> Client i \<Longrightarrow> holds t s' \<Longrightarrow> holds t s"
  by (cases t; erule call_step.cases)
    (auto simp: wake_idle_def nth_append split: if_splits)

lemma worker_others: "worker_step w s s' \<Longrightarrow> w < length (wq_workers s) \<Longrightarrow> t \<noteq> Worker w \<Longrightarrow> holds t s' \<Longrightarrow> holds t s"
  by (cases t; erule worker_step.cases) (auto simp: nth_list_update split: if_splits)

lemma mutex_inv_call: "call_step i s s' \<Longrightarrow> mutex_inv s \<Longrightarrow> mutex_inv s'"
proof (rule mutex_inv_move [where me = "Client i"])
  assume s: "call_step i s s'"
  show "holds t s" if "t \<noteq> Client i" "holds t s'" for t using call_others [OF s that] .
  show "wq_mutex s' = wq_mutex s \<and> (holds (Client i) s' \<longrightarrow> holds (Client i) s) \<or> wq_mutex s = None \<and> wq_mutex s' = Some (Client i) \<or>
      holds (Client i) s \<and> \<not> holds (Client i) s' \<and> wq_mutex s' = None"
    using s by (rule call_step.cases) (auto simp: wake_idle_def)
qed

lemma mutex_inv_worker: "worker_step w s s' \<Longrightarrow> w < length (wq_workers s) \<Longrightarrow> mutex_inv s \<Longrightarrow> mutex_inv s'"
proof (rule mutex_inv_move [where me = "Worker w"])
  assume s: "worker_step w s s'" and w: "w < length (wq_workers s)"
  show "holds t s" if "t \<noteq> Worker w" "holds t s'" for t using worker_others [OF s w that] .
  show "wq_mutex s' = wq_mutex s \<and> (holds (Worker w) s' \<longrightarrow> holds (Worker w) s) \<or> wq_mutex s = None \<and> wq_mutex s' = Some (Worker w) \<or>
      holds (Worker w) s \<and> \<not> holds (Worker w) s' \<and> wq_mutex s' = None"
    using s by (rule worker_step.cases) (use w in auto)
qed

lemma count_inv_call: "call_step i s s' \<Longrightarrow> count_inv s \<Longrightarrow> count_inv s'"
  by (erule call_step.cases) (auto simp: count_inv_def wake_idle_def cnt_wake live_def)

lemma count_inv_worker: "worker_step w s s' \<Longrightarrow> w < length (wq_workers s) \<Longrightarrow> count_inv s \<Longrightarrow> count_inv s'"
  by (erule worker_step.cases) (auto simp: count_inv_def cnt_update cnt_wake live_def)

lemma log_inv_call: "call_step i s s' \<Longrightarrow> log_inv s \<Longrightarrow> log_inv s'"
  by (erule call_step.cases) (auto simp: log_inv_def wake_idle_def mset_to_front)

lemma log_inv_worker: "worker_step w s s' \<Longrightarrow> w < length (wq_workers s) \<Longrightarrow> log_inv s \<Longrightarrow> log_inv s'"
  by (erule worker_step.cases)
    (use jobs_update [of w "wq_workers s"] jobs_update [of w "map wake_worker (wq_workers s)"] in \<open>auto simp: log_inv_def\<close>)

lemma wake_client_simps [simp]: "wake_client c = Waking \<longleftrightarrow> c = Waking" "wake_client c \<noteq> Destroy_wait"
  "wake_client c = Destroy_woken \<longleftrightarrow> c = Destroy_wait \<or> c = Destroy_woken" "wake_client c = Destroy_loop \<longleftrightarrow> c = Destroy_loop"
  by (cases c; simp add: wake_client_def)+

lemma cnt_zero: "\<not> 0 < cnt P ps \<Longrightarrow> p \<in> set ps \<Longrightarrow> \<not> P p"
  using cnt_pos [of P ps] by blast

lemma waiting_not_resting: "\<not> 0 < cnt resting ps \<Longrightarrow> Waiting \<notin> set ps"
  using cnt_zero [of resting ps Waiting] by auto

lemma awake_wake_all: "0 < cnt resting (wq_workers s) \<Longrightarrow> awake (wake_all s)"
  by (auto simp: awake_def cnt_pos live_def elim!: resting.elims)

lemma awake_all_busy: "0 < cnt live (wq_workers s) \<Longrightarrow> \<not> 0 < cnt resting (wq_workers s) \<Longrightarrow> awake s"
  using waiting_not_resting [of "wq_workers s"] by (auto simp: awake_def cnt_pos)

lemma awake_client [simp]: "awake (client i c s) = awake s"
  by (simp add: awake_def)

lemma awake_worker: "w < length (wq_workers s) \<Longrightarrow> live p \<Longrightarrow> p \<noteq> Waiting \<Longrightarrow> awake (worker w p s)"
  using set_update_memI [of w "wq_workers s" p] by (auto simp: awake_def)

lemma awake_idle: "awake s \<Longrightarrow> awake (wake_idle s)"
  by (auto simp: wake_idle_def awake_def live_def)

lemma work_inv_client:
  "work_inv s \<Longrightarrow> wq_clients s i \<noteq> Waking \<Longrightarrow> work_inv (client i c s)"
  unfolding work_inv_def by (auto simp del: fun_upd_apply) (metis fun_upd_other)

lemma work_inv_call:
  assumes s: "call_step i s s'" and w: "work_inv s" "count_inv s"
  shows "work_inv s'"
  using s
proof (rule call_step.cases)
  fix s0 i0
  assume a: "i = i0" "s = s0" "s' = client i0 Unlocking (wake_all s0)" "wq_idle s0 > 0"
  with w(2) awake_wake_all [of s] show ?thesis by (simp add: work_inv_def count_inv_def)
next
  fix s0 i0
  assume "i = i0" "s = s0" "s' = client i0 Unlocking s0" "\<not> wq_idle s0 > 0" "\<not> wq_num s0 < wq_max s0"
  with w(2) awake_all_busy [of s] show ?thesis by (auto simp: work_inv_def count_inv_def)
qed (use w work_inv_client [OF w(1), of i] in \<open>force simp: work_inv_def awake_def live_def wake_idle_def\<close>)+

lemma work_inv_worker:
  assumes s: "worker_step w s s'" and w: "w < length (wq_workers s)" and i: "work_inv s"
  shows "work_inv s'"
proof (cases "wq_queue s' = []")
  case False
  from s have "awake s'" if "wq_queue s' \<noteq> []"
    by (rule worker_step.cases) (use that w in \<open>auto intro!: awake_worker simp: live_def\<close>)
  with False show ?thesis by (simp add: work_inv_def)
qed (simp add: work_inv_def)

lemma waiting_update: "p \<noteq> Waiting \<Longrightarrow> Waiting \<notin> set ps \<Longrightarrow> Waiting \<notin> set (ps[w := p])"
  using set_update_subset_insert [of ps w p] by auto

lemma waiting_wake: "Waiting \<notin> set (map wake_worker ps)"
  using wake_worker_simps(4) by (metis imageE set_map)

lemma quit_inv_call: "call_step i s s' \<Longrightarrow> quit_inv s \<Longrightarrow> count_inv s \<Longrightarrow> quit_inv s'"
  by (erule call_step.cases)
    (auto simp: quit_inv_def count_inv_def wake_idle_def waiting_wake waiting_not_resting simp del: set_map)

lemma quit_inv_worker: "worker_step w s s' \<Longrightarrow> quit_inv s \<Longrightarrow> w < length (wq_workers s) \<Longrightarrow> count_inv s \<Longrightarrow> quit_inv s'"
  by (erule worker_step.cases)
    (auto simp: quit_inv_def waiting_wake waiting_update count_inv_def simp del: set_map)

definition pool_inv :: "'a pool \<Rightarrow> bool" where
  "pool_inv s \<longleftrightarrow> mutex_inv s \<and> count_inv s \<and> log_inv s \<and> work_inv s \<and> quit_inv s"

lemma pool_inv_step: "pool_step s s' \<Longrightarrow> pool_inv s \<Longrightarrow> pool_inv s'"
  unfolding pool_inv_def
  by (erule pool_step.cases)
    (blast intro: mutex_inv_call mutex_inv_worker count_inv_call count_inv_worker log_inv_call log_inv_worker
      work_inv_call work_inv_worker quit_inv_call quit_inv_worker)+

lemma pool_inv_init: "0 \<le> threads \<Longrightarrow> pool_inv (workq_init threads :: 'a pool)"
proof -
  have "\<not> holds t (workq_init threads :: 'a pool)" for t by (cases t) (simp_all add: workq_init_def)
  then have "mutex_inv (workq_init threads :: 'a pool)" by (simp add: mutex_inv_def)
  moreover assume "0 \<le> threads"
  ultimately show ?thesis
    by (simp add: pool_inv_def) (simp add: count_inv_def log_inv_def work_inv_def quit_inv_def workq_init_def)
qed

lemma pool_max: "pool_step s s' \<Longrightarrow> wq_max s' = wq_max s"
  by (auto elim!: pool_step.cases call_step.cases worker_step.cases simp: wake_idle_def)

lemma pool_reachable_inv: "pool_reachable threads s \<Longrightarrow> 0 \<le> threads \<Longrightarrow> pool_inv s \<and> wq_max s = threads"
proof (induction rule: pool_reachable.induct)
  case start
  have "wq_max (workq_init threads) = threads" by (simp add: workq_init_def)
  with start pool_inv_init show ?case by blast
next
  case (step s s')
  then show ?case using pool_inv_step pool_max by fastforce
qed

text \<open>C30: the pool is safe. In every state that callers and workers can reach, a thread inside a critical
  section holds the mutex; there are never more workers than asked for, and the counters are
  right; every entry is in the queue or has been handed to exactly one worker, in the order of
  \<open>workq_add\<close> when nothing was put in front; an entry in the queue has a worker that will look at it, or a
  caller that is about to wake or create one; and \<open>workq_destroy\<close> never waits without a worker
  that will end.\<close>

theorem thread_pool_safe:
  assumes "pool_reachable threads s" "0 \<le> threads"
  shows "(\<forall>t. holds t s \<longrightarrow> wq_mutex s = Some t) \<and>
    wq_num s = cnt live (wq_workers s) \<and> wq_idle s = cnt resting (wq_workers s) \<and> wq_num s \<le> threads \<and>
    mset (wq_added s) = mset (wq_run s) + jobs (wq_workers s) + mset (map snd (wq_queue s)) \<and>
    (wq_fifo s \<longrightarrow> wq_added s = wq_taken s @ map snd (wq_queue s)) \<and>
    (wq_queue s \<noteq> [] \<and> \<not> wq_failed s \<and> 0 < threads \<longrightarrow> awake s \<or> (\<exists>i. wq_clients s i = Waking)) \<and>
    (wq_clients s i = Destroy_wait \<longrightarrow> awake s)"
proof -
  have I: "mutex_inv s" "count_inv s" "log_inv s" "work_inv s" "quit_inv s" "wq_max s = threads"
    using pool_reachable_inv [OF assms] by (auto simp: pool_inv_def)
  have "awake s" if "wq_clients s i = Destroy_wait"
  proof -
    have "0 < cnt live (wq_workers s)" "Waiting \<notin> set (wq_workers s)" using that I(2,5) by (auto simp: quit_inv_def count_inv_def)
    then show ?thesis by (auto simp: awake_def cnt_pos)
  qed
  with I show ?thesis by (simp add: mutex_inv_def count_inv_def log_inv_def work_inv_def)
qed

lemma thread_pool_safe_witness:
  "\<exists>s. pool_reachable 2 s \<and> wq_queue s = [(1, 7 :: nat)] \<and> wq_clients s 0 = Unlocking \<and> wq_mutex s = Some (Client 0) \<and>
    wq_num s = 1 \<and> awake s"
proof -
  let ?s0 = "workq_init 2 :: nat pool"
  let ?s1 = "client 0 (Add_lock 7 False) ?s0"
  let ?s2 = "client 0 (Add_in 7 False) (?s1\<lparr>wq_mutex := Some (Client 0)\<rparr>)"
  let ?s3 = "client 0 Waking (?s2\<lparr>wq_queue := (if False then (1, 7) # wq_queue ?s2 else wq_queue ?s2 @ [(1, 7)]),
    wq_added := wq_added ?s2 @ [7], wq_fifo := (wq_fifo ?s2 \<and> \<not> False)\<rparr>)"
  let ?s4 = "client 0 Unlocking (?s3\<lparr>wq_workers := wq_workers ?s3 @ [Starting], wq_num := wq_num ?s3 + 1\<rparr>)"
  note defs = workq_init_def client_def
  have "call_step 0 ?s0 ?s1" "call_step 0 ?s1 ?s2" "call_step 0 ?s2 ?s3" "call_step 0 ?s3 ?s4"
    by (rule call_step.add call_step.add_lock call_step.add_in call_step.create; simp add: defs)+
  then have r: "pool_reachable 2 ?s4"
    by (meson pool_reachable.start pool_reachable.step pool_step.of_call)
  have f: "wq_queue ?s4 = [(1, 7)]" "wq_clients ?s4 = (\<lambda>_. Idle)(0 := Unlocking)" "\<not> wq_failed ?s4" "wq_workers ?s4 = [Starting]"
    by (simp_all add: workq_init_def fun_eq_iff)
  obtain s where s: "pool_reachable 2 (s :: nat pool)" "wq_queue s = [(1, 7)]" "wq_clients s = (\<lambda>_. Idle)(0 := Unlocking)"
    "\<not> wq_failed s" "wq_workers s = [Starting]" using r f by blast
  have T: "(\<forall>t. holds t s \<longrightarrow> wq_mutex s = Some t)" "wq_num s = cnt live (wq_workers s)" "awake s \<or> (\<exists>i. wq_clients s i = Waking)"
    using thread_pool_safe [OF s(1), of 0] s(2,4) by auto
  have "holds (Client 0) s" using s(3) by simp
  with T(1) have "wq_mutex s = Some (Client 0)" by blast
  moreover have "wq_num s = 1" using T(2) s(5) by (simp add: live_def)
  moreover have "awake s" using T(3) s(3) by (auto split: if_splits)
  ultimately show ?thesis using s by (intro exI [of _ s]) simp
qed

text \<open>\<open>workq_remove\<close> returns without giving the mutex back when the entry is not in the queue.\<close>

lemma blocked_call:
  assumes "call_step j s s'" "wq_mutex s = Some (Client i)" "\<forall>t. \<not> holds t s"
  shows "wq_mutex s' = Some (Client i) \<and> (\<forall>t. \<not> holds t s') \<and> wq_queue s' = wq_queue s \<and> wq_taken s' = wq_taken s"
proof -
  have c: "\<not> cholds (wq_clients s j)" using assms(3) [rule_format, of "Client j"] by simp
  have h: "\<not> holds t s'" if "t \<noteq> Client j" for t using call_others [OF assms(1) that] assms(3) by blast
  have "wq_mutex s' = Some (Client i)" "\<not> holds (Client j) s'" using assms(1,2) c by (auto elim!: call_step.cases)
  moreover have "wq_queue s' = wq_queue s" "wq_taken s' = wq_taken s"
    using assms(1,2) c by (auto elim!: call_step.cases simp: wake_idle_def)
  moreover have "\<not> holds t s'" for t using h \<open>\<not> holds (Client j) s'\<close> by (cases "t = Client j") auto
  ultimately show ?thesis by simp
qed

lemma blocked_worker:
  assumes "worker_step w s s'" "w < length (wq_workers s)" "wq_mutex s = Some (Client i)" "\<forall>t. \<not> holds t s"
  shows "wq_mutex s' = Some (Client i) \<and> (\<forall>t. \<not> holds t s') \<and> wq_queue s' = wq_queue s \<and> wq_taken s' = wq_taken s"
proof -
  have c: "\<not> wholds (wq_workers s ! w)" using assms(2) assms(4) [rule_format, of "Worker w"] by simp
  have h: "\<not> holds t s'" if "t \<noteq> Worker w" for t using worker_others [OF assms(1,2) that] assms(4) by blast
  have "wq_mutex s' = Some (Client i)" "\<not> holds (Worker w) s'" using assms(1-3) c by (auto elim!: worker_step.cases)
  moreover have "wq_queue s' = wq_queue s" "wq_taken s' = wq_taken s" using assms(1-3) c by (auto elim!: worker_step.cases)
  moreover have "\<not> holds t s'" for t using h \<open>\<not> holds (Worker w) s'\<close> by (cases "t = Worker w") auto
  ultimately show ?thesis by simp
qed

lemma blocked_for_ever:
  assumes "pool_step\<^sup>*\<^sup>* s s'" "wq_mutex s = Some (Client i)" "\<forall>t. \<not> holds t s"
  shows "wq_mutex s' = Some (Client i) \<and> (\<forall>t. \<not> holds t s') \<and> wq_queue s' = wq_queue s \<and> wq_taken s' = wq_taken s"
  using assms
proof (induction rule: rtranclp_induct)
  case (step s1 s2)
  then have B: "wq_mutex s1 = Some (Client i)" "\<forall>t. \<not> holds t s1" "wq_queue s1 = wq_queue s" "wq_taken s1 = wq_taken s" by blast+
  from step.hyps(2) show ?case
  proof (cases rule: pool_step.cases)
    case (of_call j)
    from blocked_call [OF this B(1,2)] B(3,4) show ?thesis by simp
  next
    case (of_worker w)
    from blocked_worker [OF this(2,1) B(1,2)] B(3,4) show ?thesis by simp
  qed
qed simp

text \<open>C31: \<open>workq_remove\<close> of an entry that a worker has already taken blocks the server: it returns with
  the mutex held, and from then on no entry is taken, whatever callers and workers do.\<close>

theorem removing_taken_entry_blocks:
  assumes "pool_reachable threads s" "0 \<le> threads" "wq_clients s i = Remove_in item" "item \<notin> fst ` set (wq_queue s)"
    and "call_step i s s1" "pool_step\<^sup>*\<^sup>* s1 s2"
  shows "wq_clients s1 i = Idle \<and> wq_mutex s2 = Some (Client i) \<and> wq_queue s2 = wq_queue s \<and> wq_taken s2 = wq_taken s"
proof -
  have I: "holds t s \<Longrightarrow> wq_mutex s = Some t" for t
    using pool_reachable_inv [OF assms(1,2)] by (auto simp: pool_inv_def mutex_inv_def)
  have m: "wq_mutex s = Some (Client i)" by (rule I) (simp add: assms(3))
  with I have m': "holds t s \<Longrightarrow> t = Client i" for t by fastforce
  have s1: "s1 = client i Idle s" using assms(5) by cases (use assms(3,4) in simp_all)
  have "\<not> holds t s1" for t
  proof (cases "t = Client i")
    case False
    then show ?thesis using m' call_others [OF assms(5) False] by blast
  qed (simp add: s1)
  then have "\<forall>t. \<not> holds t s1" by blast
  from blocked_for_ever [OF assms(6) _ this, of i] m s1 show ?thesis by simp
qed

lemma removing_taken_entry_blocks_witness:
  "\<exists>s1. pool_reachable 2 (s1 :: nat pool) \<and> wq_clients s1 0 = Idle \<and>
    (\<forall>s2. pool_step\<^sup>*\<^sup>* s1 s2 \<longrightarrow> wq_mutex s2 = Some (Client 0) \<and> wq_queue s2 = [])"
proof -
  let ?s0 = "workq_init 2 :: nat pool"
  let ?s1 = "client 0 (Remove_lock 5) ?s0"
  let ?s2 = "client 0 (Remove_in 5) (?s1\<lparr>wq_mutex := Some (Client 0)\<rparr>)"
  let ?s3 = "client 0 Idle ?s2"
  have st: "call_step 0 ?s0 ?s1" "call_step 0 ?s1 ?s2" "call_step 0 ?s2 ?s3"
    by (rule call_step.remove call_step.remove_lock call_step.remove_missing [where item = 5]; simp add: workq_init_def client_def)+
  then have r: "pool_reachable 2 ?s2" "pool_reachable 2 ?s3"
    by (meson pool_reachable.start pool_reachable.step pool_step.of_call)+
  have f: "wq_clients ?s2 0 = Remove_in 5" "wq_queue ?s2 = []" by (simp_all add: workq_init_def)
  have "wq_mutex s2 = Some (Client 0) \<and> wq_queue s2 = []" if "pool_step\<^sup>*\<^sup>* ?s3 s2" for s2
    using removing_taken_entry_blocks [OF r(1) _ f(1) _ st(3) that] f(2) by simp
  then show ?thesis using r(2) by (intro exI [of _ ?s3]) simp
qed

end
