(* ===== verification/Links.thy ===== *)
theory Links
  imports Prelude
begin

text \<open>
  Doubly linked nodes in a heap, shared by the client's \<open>DList\<close> and the server's \<open>list\<close>: address 0 is
  NULL. A segment runs from the node \<open>p\<close>, whose \<open>prev\<close> is \<open>prv\<close>, along \<open>next\<close> to \<open>e\<close>. The lemmas say
  what linking a node in and unlinking one do to a chain that is given by its list of addresses.
\<close>

record 'a node =
  nd_data :: 'a
  nd_prev :: nat
  nd_next :: nat

type_synonym 'a nodes = "nat \<Rightarrow> 'a node option"

text \<open>\<open>p->next = q\<close> and \<open>p->prev = q\<close>.\<close>

definition set_next :: "nat \<Rightarrow> nat \<Rightarrow> 'a nodes \<Rightarrow> 'a nodes" where
  "set_next p q h = h(p := map_option (nd_next_update (\<lambda>_. q)) (h p))"

definition set_prev :: "nat \<Rightarrow> nat \<Rightarrow> 'a nodes \<Rightarrow> 'a nodes" where
  "set_prev p q h = h(p := map_option (nd_prev_update (\<lambda>_. q)) (h p))"

lemma set_other [simp]: "a \<noteq> p \<Longrightarrow> set_next p q h a = h a" "a \<noteq> p \<Longrightarrow> set_prev p q h a = h a"
  by (simp_all add: set_next_def set_prev_def)

lemma set_dom [simp]: "dom (set_next p q h) = dom h" "dom (set_prev p q h) = dom h"
  by (auto simp: set_next_def set_prev_def domIff split: if_splits)

lemma set_data [simp]: "map_option nd_data (set_next p q h a) = map_option nd_data (h a)"
  "map_option nd_data (set_prev p q h a) = map_option nd_data (h a)"
  by (auto simp: set_next_def set_prev_def option.map_comp comp_def)

section \<open>Segments\<close>

fun seg :: "'a nodes \<Rightarrow> nat \<Rightarrow> nat \<Rightarrow> nat list \<Rightarrow> nat \<Rightarrow> bool" where
  "seg h prv p [] e \<longleftrightarrow> p = e"
| "seg h prv p (a # as) e \<longleftrightarrow> p = a \<and> a \<noteq> 0 \<and> (\<exists>n. h a = Some n \<and> nd_prev n = prv \<and> seg h a (nd_next n) as e)"

lemma seg_append: "seg h prv p (as @ bs) e \<longleftrightarrow> (\<exists>q. seg h prv p as q \<and> seg h (last (prv # as)) q bs e)"
  by (induction as arbitrary: prv p) auto

lemma seg_frame: "seg h prv p as e \<Longrightarrow> \<forall>a\<in>set as. h' a = h a \<Longrightarrow> seg h' prv p as e"
  by (induction as arbitrary: prv p) auto

lemma seg_dom: "seg h prv p as e \<Longrightarrow> a \<in> set as \<Longrightarrow> a \<in> dom h \<and> a \<noteq> 0"
  by (induction as arbitrary: prv p) auto

lemma seg_start: "seg h prv p as 0 \<Longrightarrow> p = (if as = [] then 0 else hd as)"
  by (cases as) auto

text \<open>The last node is pointed somewhere else.\<close>

lemma seg_set_next:
  "seg h prv p (as @ [a]) e \<Longrightarrow> a \<notin> set as \<Longrightarrow> seg (set_next a e' h) prv p (as @ [a]) e'"
proof (induction as arbitrary: prv p)
  case Nil
  then show ?case by (auto simp: set_next_def)
next
  case (Cons b as)
  then have "b \<noteq> a" by auto
  with Cons show ?case by auto
qed

lemma seg_set_prev:
  "seg h prv p (a # as) e \<Longrightarrow> a \<notin> set as \<Longrightarrow> seg (set_prev a prv' h) prv' p (a # as) e"
  by (auto simp: set_prev_def elim!: seg_frame)

section \<open>Chains\<close>

definition chain :: "'a nodes \<Rightarrow> nat \<Rightarrow> nat \<Rightarrow> nat list \<Rightarrow> bool" where
  "chain h head tail as \<longleftrightarrow> seg h 0 head as 0 \<and> distinct as \<and> tail = (if as = [] then 0 else last as)"

lemma chain_Nil [simp]: "chain h head tail [] \<longleftrightarrow> head = 0 \<and> tail = 0"
  by (auto simp: chain_def)

lemma chain_head: "chain h head tail as \<Longrightarrow> head = (if as = [] then 0 else hd as)"
  by (auto simp: chain_def dest: seg_start)

lemma chain_nodes: "chain h head tail as \<Longrightarrow> a \<in> set as \<Longrightarrow> (\<exists>n. h a = Some n) \<and> a \<noteq> 0"
  using seg_dom [of h 0 head as 0 a] by (auto simp: chain_def)

lemma chain_empty: "chain h head tail as \<Longrightarrow> head = 0 \<longleftrightarrow> as = []"
  using chain_head [of h head tail as] chain_nodes [of h head tail as "hd as"] by (cases as) auto

lemma chain_frame: "chain h head tail as \<Longrightarrow> \<forall>a\<in>set as. h' a = h a \<Longrightarrow> chain h' head tail as"
  by (auto simp: chain_def elim: seg_frame)

text \<open>A new node before the first, and after the last.\<close>

lemma chain_push_front:
  assumes c: "chain h head tail as" and a: "a \<noteq> 0" "a \<notin> set as"
  shows "chain ((set_prev head a h)(a \<mapsto> \<lparr>nd_data = x, nd_prev = 0, nd_next = head\<rparr>)) a (if head = 0 then a else tail) (a # as)"
proof (cases as)
  case Nil
  with c a show ?thesis by (simp add: chain_def)
next
  case (Cons b bs)
  with c have h: "head = b" "head \<noteq> 0" "b \<notin> set bs" using chain_head [OF c] chain_empty [OF c] by (auto simp: chain_def)
  have "seg (set_prev b a h) a b (b # bs) 0" using c Cons h by (intro seg_set_prev [of h 0]) (auto simp: chain_def)
  then have "seg ((set_prev b a h)(a \<mapsto> \<lparr>nd_data = x, nd_prev = 0, nd_next = head\<rparr>)) a b (b # bs) 0"
    by (rule seg_frame) (use a Cons in auto)
  with c a Cons h show ?thesis by (auto simp: chain_def simp del: seg.simps(2)) (auto simp: h)
qed

lemma chain_push_back:
  assumes c: "chain h head tail as" and a: "a \<noteq> 0" "a \<notin> set as"
  shows "chain ((set_next tail a h)(a \<mapsto> \<lparr>nd_data = x, nd_prev = tail, nd_next = 0\<rparr>)) (if head = 0 then a else head) a (as @ [a])"
proof (cases as rule: rev_cases)
  case Nil
  with c a show ?thesis by (simp add: chain_def)
next
  case (snoc bs b)
  with c have h: "tail = b" "head \<noteq> 0" "b \<notin> set bs" using chain_empty [OF c] by (auto simp: chain_def)
  let ?h = "(set_next b a h)(a \<mapsto> \<lparr>nd_data = x, nd_prev = tail, nd_next = 0\<rparr>)"
  have "seg (set_next b a h) 0 head (bs @ [b]) a" using c snoc h by (intro seg_set_next) (auto simp: chain_def)
  then have "seg ?h 0 head (bs @ [b]) a" by (rule seg_frame) (use a snoc in auto)
  moreover have "seg ?h b a [a] 0" using a h(1) by simp
  ultimately have "seg ?h 0 head ((bs @ [b]) @ [a]) 0" by (subst seg_append) auto
  with c a snoc h show ?thesis by (simp add: chain_def)
qed

text \<open>Unlinking a node, as \<open>listDelNode\<close> and the \<open>DList\<close> operations write it.\<close>

definition unlink :: "'a node \<Rightarrow> 'a nodes \<Rightarrow> 'a nodes" where
  "unlink n h =
     (let h = (if nd_prev n \<noteq> 0 then set_next (nd_prev n) (nd_next n) h else h)
      in if nd_next n \<noteq> 0 then set_prev (nd_next n) (nd_prev n) h else h)"

lemma unlink_data [simp]: "map_option nd_data (unlink n h a) = map_option nd_data (h a)"
  by (simp add: unlink_def Let_def)

lemma unlink_dom [simp]: "dom (unlink n h) = dom h"
  by (simp add: unlink_def Let_def)

lemma chain_split:
  assumes "chain h head tail (as @ a # bs)"
  obtains n where "h a = Some n" "nd_prev n = (if as = [] then 0 else last as)" "nd_next n = (if bs = [] then 0 else hd bs)"
    "seg h 0 head as a" "seg h a (nd_next n) bs 0"
proof -
  from assms have "seg h 0 head (as @ a # bs) 0" by (simp add: chain_def)
  then obtain q where q: "seg h 0 head as q" "seg h (last (0 # as)) q (a # bs) 0" unfolding seg_append by blast
  then obtain n where n: "h a = Some n" "nd_prev n = last (0 # as)" "seg h a (nd_next n) bs 0" by auto
  have s: "seg h 0 head as a" using q by simp
  show thesis by (rule that [OF n(1) _ seg_start [OF n(3)] s n(3)]) (simp add: n(2))
qed

lemma chain_unlink:
  assumes c: "chain h head tail (as @ a # bs)" and n: "h a = Some n"
  shows "chain (unlink n h) (if nd_prev n \<noteq> 0 then head else nd_next n) (if nd_next n \<noteq> 0 then tail else nd_prev n) (as @ bs)"
proof -
  obtain m where m: "h a = Some m" "nd_prev m = (if as = [] then 0 else last as)" "nd_next m = (if bs = [] then 0 else hd bs)"
    "seg h 0 head as a" "seg h a (nd_next m) bs 0"
    by (rule chain_split [OF c])
  have "m = n" using m(1) n by simp
  note ptr = m(2,3) [unfolded this] and s = m(4) m(5) [unfolded this]
  have d: "distinct as" "distinct bs" "set as \<inter> set bs = {}" "0 \<notin> set as" "0 \<notin> set bs"
    using c seg_dom [OF s(1), of 0] seg_dom [OF s(2), of 0] by (auto simp: chain_def)
  have p: "nd_prev n \<noteq> 0 \<longleftrightarrow> as \<noteq> []" "nd_next n \<noteq> 0 \<longleftrightarrow> bs \<noteq> []"
    using ptr d(4,5) by (metis last_in_set, metis hd_in_set)
  let ?h1 = "if as \<noteq> [] then set_next (last as) (nd_next n) h else h"
  have 1: "seg ?h1 0 (if as = [] then nd_next n else head) as (nd_next n)" and 2: "seg ?h1 a (nd_next n) bs 0"
  proof -
    show "seg ?h1 0 (if as = [] then nd_next n else head) as (nd_next n)"
      using s(1) d(1) by (cases as rule: rev_cases) (auto intro: seg_set_next)
    show "seg ?h1 a (nd_next n) bs 0"
      using d(3) by (intro seg_frame [OF s(2)]) (auto simp: disjoint_iff, metis last_in_set set_other(1))
  qed
  have u: "unlink n h = (if bs \<noteq> [] then set_prev (hd bs) (nd_prev n) ?h1 else ?h1)"
    using ptr p by (simp add: unlink_def Let_def)
  have 3: "seg (unlink n h) 0 (if as = [] then nd_next n else head) as (nd_next n)"
    unfolding u using d(3) by (intro seg_frame [OF 1]) (auto simp: disjoint_iff, (metis hd_in_set set_other(2))+)
  have 4: "seg (unlink n h) (last (0 # as)) (nd_next n) bs 0"
  proof (cases bs)
    case (Cons b bs')
    with 2 d(2) have "seg (set_prev b (nd_prev n) ?h1) (nd_prev n) (nd_next n) (b # bs') 0"
      by (intro seg_set_prev [of ?h1 a]) auto
    with Cons ptr u show ?thesis by simp
  qed (use 2 in simp)
  have "seg (unlink n h) 0 (if as = [] then nd_next n else head) (as @ bs) 0"
    unfolding seg_append using 3 4 by blast
  with c d ptr p show ?thesis by (auto simp: chain_def)
qed

lemma chain_remove:
  assumes c: "chain h head tail (as @ a # bs)" and n: "h a = Some n"
  shows "chain ((unlink n h)(a := None)) (if nd_prev n \<noteq> 0 then head else nd_next n)
    (if nd_next n \<noteq> 0 then tail else nd_prev n) (as @ bs)"
  by (rule chain_frame [OF chain_unlink [OF c n]]) (use c in \<open>auto simp: chain_def\<close>)

section \<open>Running along a chain\<close>

text \<open>The data of the nodes, and the walk that a loop over \<open>next\<close> makes.\<close>

definition node_data :: "'a nodes \<Rightarrow> nat \<Rightarrow> 'a option" where
  "node_data h a = map_option nd_data (h a)"

fun walk :: "nat \<Rightarrow> ('a node \<Rightarrow> bool) \<Rightarrow> 'a nodes \<Rightarrow> nat \<Rightarrow> nat" where
  "walk 0 found h p = 0"
| "walk (Suc k) found h p =
     (if p = 0 then 0
      else case h p of None \<Rightarrow> 0 | Some n \<Rightarrow> if found n then p else walk k found h (nd_next n))"

lemma walk_seg:
  "seg h prv p as 0 \<Longrightarrow> length as < k \<Longrightarrow>
    walk k found h p = (case dropWhile (\<lambda>a. \<not> found (the (h a))) as of [] \<Rightarrow> 0 | a # _ \<Rightarrow> a)"
proof (induction as arbitrary: prv p k)
  case Nil
  then show ?case by (cases k) auto
next
  case (Cons a as)
  then obtain k' n where k: "k = Suc k'" and n: "h a = Some n" "p = a" "a \<noteq> 0" "seg h a (nd_next n) as 0"
    by (cases k) auto
  with Cons.IH [OF n(4), of k'] Cons.prems(2) show ?case by auto
qed

lemma walk_chain:
  "chain h head tail as \<Longrightarrow> length as < k \<Longrightarrow>
    walk k found h head = (case dropWhile (\<lambda>a. \<not> found (the (h a))) as of [] \<Rightarrow> 0 | a # _ \<Rightarrow> a)"
  by (rule walk_seg) (auto simp: chain_def)

section \<open>A list of data\<close>

text \<open>The chain holds the data \<open>xs\<close>; \<open>brk\<close> is the next address \<open>malloc\<close> returns.\<close>

definition dll_rep :: "'a nodes \<Rightarrow> nat \<Rightarrow> nat \<Rightarrow> nat \<Rightarrow> 'a list \<Rightarrow> bool" where
  "dll_rep h brk head tail xs \<longleftrightarrow> (\<exists>as. chain h head tail as \<and> map (node_data h) as = map Some xs) \<and>
     h 0 = None \<and> 0 < brk \<and> (\<forall>a\<in>dom h. a < brk)"

lemma dll_rep_Nil: "0 < brk \<Longrightarrow> dll_rep (\<lambda>_. None) brk 0 0 []"
  by (auto simp: dll_rep_def intro: exI [of _ "[]"])

lemma dll_repE:
  assumes "dll_rep h brk head tail xs"
  obtains as where "chain h head tail as" "map (node_data h) as = map Some xs" "h 0 = None" "0 < brk"
    "\<forall>a\<in>dom h. a < brk" "brk \<notin> set as" "length as < brk"
proof -
  from assms obtain as where as: "chain h head tail as" "map (node_data h) as = map Some xs" "h 0 = None" "0 < brk"
    "\<forall>a\<in>dom h. a < brk" by (auto simp: dll_rep_def)
  have s: "a < brk \<and> a \<noteq> 0" if "a \<in> set as" for a using chain_nodes [OF as(1) that] as(5) by auto
  then have "set as \<subseteq> {1..<brk}" by force
  then have "card (set as) \<le> brk - 1" using card_mono [of "{1..<brk}" "set as"] by simp
  moreover have "card (set as) = length as" using as(1) by (simp add: chain_def distinct_card)
  ultimately have "length as < brk" using as(4) by simp
  with as s that show thesis by blast
qed

lemma dll_rep_fresh: "dll_rep h brk head tail xs \<Longrightarrow> h brk = None \<and> head \<noteq> brk \<and> tail \<noteq> brk"
proof (erule dll_repE)
  fix as assume "chain h head tail as" "0 < brk" "\<forall>a\<in>dom h. a < brk" "brk \<notin> set as"
  then show ?thesis using chain_head [of h head tail as] by (auto simp: chain_def split: if_splits)
qed

lemma dll_rep_head: "dll_rep h brk head tail xs \<Longrightarrow> head = 0 \<longleftrightarrow> xs = []"
  by (erule dll_repE) (auto dest: chain_empty)

lemma dll_rep_tail: "dll_rep h brk head tail xs \<Longrightarrow> head = 0 \<Longrightarrow> tail = 0"
proof (erule dll_repE)
  fix as assume "chain h head tail as" "head = 0"
  then show "tail = 0" using chain_empty [of h head tail as] by (cases as) auto
qed

lemma node_data_set [simp]: "node_data (set_next p q h) = node_data h" "node_data (set_prev p q h) = node_data h"
  "node_data (unlink n h) = node_data h"
  by (simp_all add: node_data_def fun_eq_iff)

lemma node_data_upd: "node_data (h(a \<mapsto> n)) b = (if b = a then Some (nd_data n) else node_data h b)"
  by (simp add: node_data_def)

lemma map_node_data_upd: "a \<notin> set as \<Longrightarrow> map (node_data (h(a \<mapsto> n))) as = map (node_data h) as"
  by (auto simp: node_data_upd)

lemma node_data_free: "node_data (h(a := None)) b = (if b = a then None else node_data h b)"
  by (simp add: node_data_def)

lemma dll_push_front:
  assumes "dll_rep h brk head tail xs"
  shows "dll_rep ((set_prev head brk h)(brk \<mapsto> \<lparr>nd_data = x, nd_prev = 0, nd_next = head\<rparr>)) (Suc brk) brk
    (if head = 0 then brk else tail) (x # xs)"
proof -
  obtain as where as: "chain h head tail as" "map (node_data h) as = map Some xs" "h 0 = None" "0 < brk"
    "\<forall>a\<in>dom h. a < brk" "brk \<notin> set as" using assms by (rule dll_repE)
  let ?h = "(set_prev head brk h)(brk \<mapsto> \<lparr>nd_data = x, nd_prev = 0, nd_next = head\<rparr>)"
  have "chain ?h brk (if head = 0 then brk else tail) (brk # as)" using chain_push_front [OF as(1)] as(4,6) by simp
  moreover have "map (node_data ?h) (brk # as) = map Some (x # xs)"
    using as(2,6) by (simp add: map_node_data_upd) (simp add: node_data_upd)
  moreover have "a < Suc brk" if "a \<in> dom ?h" for a using that as(5) by (auto simp: less_Suc_eq split: if_splits)
  ultimately show ?thesis using as(3,4) by (auto simp: dll_rep_def set_prev_def)
qed

lemma dll_push_back:
  assumes "dll_rep h brk head tail xs"
  shows "dll_rep ((set_next tail brk h)(brk \<mapsto> \<lparr>nd_data = x, nd_prev = tail, nd_next = 0\<rparr>)) (Suc brk)
    (if head = 0 then brk else head) brk (xs @ [x])"
proof -
  obtain as where as: "chain h head tail as" "map (node_data h) as = map Some xs" "h 0 = None" "0 < brk"
    "\<forall>a\<in>dom h. a < brk" "brk \<notin> set as" using assms by (rule dll_repE)
  let ?h = "(set_next tail brk h)(brk \<mapsto> \<lparr>nd_data = x, nd_prev = tail, nd_next = 0\<rparr>)"
  have "chain ?h (if head = 0 then brk else head) brk (as @ [brk])" using chain_push_back [OF as(1)] as(4,6) by simp
  moreover have "map (node_data ?h) (as @ [brk]) = map Some (xs @ [x])"
    using as(2,6) by (simp add: map_node_data_upd) (simp add: node_data_upd)
  moreover have "a < Suc brk" if "a \<in> dom ?h" for a using that as(5) by (auto simp: less_Suc_eq split: if_splits)
  ultimately show ?thesis using as(3,4) by (auto simp: dll_rep_def set_next_def)
qed

text \<open>Node \<open>a\<close> holds \<open>x\<close>, between \<open>us\<close> and \<open>ws\<close>.\<close>

definition dll_at :: "'a nodes \<Rightarrow> nat \<Rightarrow> nat \<Rightarrow> nat \<Rightarrow> nat \<Rightarrow> 'a list \<Rightarrow> 'a \<Rightarrow> 'a list \<Rightarrow> bool" where
  "dll_at h brk head tail a us x ws \<longleftrightarrow> (\<exists>as bs. chain h head tail (as @ a # bs) \<and> map (node_data h) as = map Some us \<and>
     node_data h a = Some x \<and> map (node_data h) bs = map Some ws) \<and> h 0 = None \<and> 0 < brk \<and> (\<forall>a\<in>dom h. a < brk)"

lemma dll_at_rep: "dll_at h brk head tail a us x ws \<Longrightarrow> dll_rep h brk head tail (us @ x # ws)"
  by (force simp: dll_at_def dll_rep_def)

text \<open>Every element of the list has its node.\<close>

lemma dll_rep_at:
  assumes "dll_rep h brk head tail (us @ x # ws)"
  obtains a where "dll_at h brk head tail a us x ws"
proof -
  obtain cs where cs: "chain h head tail cs" "map (node_data h) cs = map Some us @ Some x # map Some ws" "h 0 = None" "0 < brk"
    "\<forall>a\<in>dom h. a < brk" using assms by (rule dll_repE) simp
  then obtain as b bs where "cs = as @ b # bs" "map (node_data h) as = map Some us" "node_data h b = Some x"
    "map (node_data h) bs = map Some ws" by (auto simp: map_eq_append_conv map_eq_Cons_conv)
  with cs that [of b] show thesis by (auto simp: dll_at_def)
qed

lemma dll_at_node:
  assumes "dll_at h brk head tail a us x ws"
  obtains n where "h a = Some n" "nd_data n = x" "a \<noteq> 0" "nd_prev n \<noteq> 0 \<longleftrightarrow> us \<noteq> []" "nd_next n \<noteq> 0 \<longleftrightarrow> ws \<noteq> []"
    "a = head \<longleftrightarrow> us = []" "a = tail \<longleftrightarrow> ws = []"
proof -
  obtain as bs where s: "chain h head tail (as @ a # bs)" "map (node_data h) as = map Some us" "node_data h a = Some x"
    "map (node_data h) bs = map Some ws" using assms by (auto simp: dll_at_def)
  obtain n where n: "h a = Some n" "nd_prev n = (if as = [] then 0 else last as)" "nd_next n = (if bs = [] then 0 else hd bs)"
    by (rule chain_split [OF s(1)])
  have nz: "c \<noteq> 0" if "c \<in> set (as @ a # bs)" for c using chain_nodes [OF s(1) that] by blast
  have e: "as = [] \<longleftrightarrow> us = []" "bs = [] \<longleftrightarrow> ws = []" using s(2,4) by auto
  have d: "a \<notin> set as" "a \<notin> set bs" using s(1) by (auto simp: chain_def)
  have "head = hd (as @ [a])" using chain_head [OF s(1)] by (cases as) auto
  then have hd: "a = head \<longleftrightarrow> as = []" using d(1) by (cases as) auto
  have "tail = last (a # bs)" using s(1) by (simp add: chain_def)
  then have tl: "a = tail \<longleftrightarrow> bs = []" using d(2) by (auto split: if_splits)
  have "nd_prev n \<noteq> 0 \<longleftrightarrow> as \<noteq> []" "nd_next n \<noteq> 0 \<longleftrightarrow> bs \<noteq> []" using n(2,3) nz by auto
  then show thesis using that [OF n(1)] s(3) n(1) nz [of a] hd tl e by (simp add: node_data_def)
qed

lemma dll_unlink:
  assumes at: "dll_at h brk head tail a us x ws" and n: "h a = Some n"
  shows "dll_rep (unlink n h) brk (if nd_prev n \<noteq> 0 then head else nd_next n) (if nd_next n \<noteq> 0 then tail else nd_prev n) (us @ ws)"
    and "dll_rep ((unlink n h)(a := None)) brk (if nd_prev n \<noteq> 0 then head else nd_next n)
      (if nd_next n \<noteq> 0 then tail else nd_prev n) (us @ ws)"
proof -
  obtain as bs where s: "chain h head tail (as @ a # bs)" "map (node_data h) as = map Some us" "node_data h a = Some x"
    "map (node_data h) bs = map Some ws" and b: "h 0 = None" "0 < brk" "\<forall>a\<in>dom h. a < brk"
    using at by (auto simp: dll_at_def)
  have z: "unlink n h 0 = None" "\<forall>a\<in>dom (unlink n h). a < brk" using b unlink_dom [of n h] by (metis domIff)+
  have m: "map (node_data h) (as @ bs) = map Some (us @ ws)" using s(2,4) by simp
  show "dll_rep (unlink n h) brk (if nd_prev n \<noteq> 0 then head else nd_next n) (if nd_next n \<noteq> 0 then tail else nd_prev n) (us @ ws)"
    unfolding dll_rep_def using chain_unlink [OF s(1) n] m z b(2) by (intro conjI exI [of _ "as @ bs"]) simp_all
  have "map (node_data ((unlink n h)(a := None))) (as @ bs) = map Some (us @ ws)"
    using s(1) m by (subst m [symmetric], intro map_cong) (auto simp: node_data_free chain_def)
  then show "dll_rep ((unlink n h)(a := None)) brk (if nd_prev n \<noteq> 0 then head else nd_next n)
      (if nd_next n \<noteq> 0 then tail else nd_prev n) (us @ ws)"
    unfolding dll_rep_def using chain_remove [OF s(1) n] z b(2)
    by (intro conjI exI [of _ "as @ bs"]) auto
qed

text \<open>A walk finds the first node that it looks for.\<close>

lemma dll_walk:
  assumes "dll_rep h brk head tail xs"
  shows "walk brk (\<lambda>n. found (nd_data n)) h head = 0 \<and> (\<forall>x\<in>set xs. \<not> found x) \<or>
    (\<exists>us x ws. xs = us @ x # ws \<and> found x \<and> (\<forall>u\<in>set us. \<not> found u) \<and>
      dll_at h brk head tail (walk brk (\<lambda>n. found (nd_data n)) h head) us x ws)"
proof -
  obtain as where as: "chain h head tail as" "map (node_data h) as = map Some xs" "h 0 = None" "0 < brk"
    "\<forall>a\<in>dom h. a < brk" "length as < brk" using assms by (rule dll_repE)
  let ?P = "\<lambda>a. \<not> found (nd_data (the (h a)))"
  note W = walk_chain [OF as(1,6), of "\<lambda>n. found (nd_data n)"]
  have data: "node_data h a = Some (nd_data (the (h a)))" if "a \<in> set as" for a
    using chain_nodes [OF as(1) that] by (auto simp: node_data_def)
  have "map Some (map (\<lambda>a. nd_data (the (h a))) as) = map (node_data h) as" using data by simp
  then have xs: "xs = map (\<lambda>a. nd_data (the (h a))) as" using as(2) by (metis inj_map_eq_map inj_Some)
  show ?thesis
  proof (cases "dropWhile ?P as")
    case Nil
    then have "\<forall>a\<in>set as. ?P a" by (simp add: dropWhile_eq_Nil_conv)
    with W Nil xs show ?thesis by auto
  next
    case (Cons a bs)
    define us where "us = takeWhile ?P as"
    have split: "as = us @ a # bs" using Cons unfolding us_def by (metis takeWhile_dropWhile_id)
    have "found (nd_data (the (h a)))" using Cons by (metis (no_types, lifting) dropWhile_eq_Cons_conv)
    moreover have "\<forall>u\<in>set us. ?P u" unfolding us_def by (auto dest: set_takeWhileD)
    moreover have "dll_at h brk head tail a (map (\<lambda>a. nd_data (the (h a))) us) (nd_data (the (h a))) (map (\<lambda>a. nd_data (the (h a))) bs)"
      unfolding dll_at_def using as split data by (intro conjI exI [of _ us] exI [of _ bs]) auto
    ultimately show ?thesis using W Cons xs split
      by (intro disjI2 exI [of _ "map (\<lambda>a. nd_data (the (h a))) us"] exI conjI) auto
  qed
qed

text \<open>A node in the middle is moved to the front.\<close>

lemma dll_move_front:
  assumes at: "dll_at h brk head tail a (u # us) x ws" and n: "h a = Some n"
  shows "dll_rep ((set_prev head a (unlink n h))(a \<mapsto> \<lparr>nd_data = x, nd_prev = 0, nd_next = head\<rparr>)) brk a
    (if nd_next n \<noteq> 0 then tail else nd_prev n) (x # u # us @ ws)"
proof -
  obtain as bs where s: "chain h head tail (as @ a # bs)" "map (node_data h) as = map Some (u # us)" "node_data h a = Some x"
    "map (node_data h) bs = map Some ws" and b: "h 0 = None" "0 < brk" "\<forall>a\<in>dom h. a < brk"
    using at unfolding dll_at_def by blast
  obtain m where m: "h a = Some m" "a \<noteq> 0" "nd_prev m \<noteq> 0 \<longleftrightarrow> u # us \<noteq> []" using at by (rule dll_at_node)
  then have p: "nd_prev n \<noteq> 0" using n by auto
  let ?h = "(set_prev head a (unlink n h))(a \<mapsto> \<lparr>nd_data = x, nd_prev = 0, nd_next = head\<rparr>)"
  have c: "chain (unlink n h) head (if nd_next n \<noteq> 0 then tail else nd_prev n) (as @ bs)" using chain_unlink [OF s(1) n] p by simp
  have ne: "head \<noteq> 0" using chain_empty [OF c] s(2) by auto
  have na: "a \<notin> set (as @ bs)" using s(1) by (simp add: chain_def)
  have "chain ?h a (if nd_next n \<noteq> 0 then tail else nd_prev n) (a # as @ bs)"
    using chain_push_front [OF c m(2) na, of x] ne by simp
  moreover have "map (node_data ?h) (a # as @ bs) = map Some (x # u # us @ ws)"
    using s(2,4) na by (simp add: map_node_data_upd) (simp add: node_data_upd)
  moreover have "dom ?h = dom h" using n by auto
  then have "?h 0 = None \<and> (\<forall>a\<in>dom ?h. a < brk)" using b by (metis domIff)
  ultimately show ?thesis using b(2) by (auto simp: dll_rep_def)
qed

end
