(* ===== verification/DList.thy ===== *)
theory DList
  imports Links Queue
begin

text \<open>
  The client's doubly linked list (client/lib/dlist.c). The data are pointers, \<open>None\<close> the pointer
  NULL; \<open>same\<close> is the comparison of what two pointers lead to (\<open>memcmp\<close> of the first bytes). The
  file list of a restore is such a list, filled at the head and emptied from the tail. \<open>malloc\<close>
  does not fail, \<open>dl_brk\<close> is the next address it returns; \<open>dlist_destory\<close> only frees.
\<close>

record 'a dlist =
  dl_nodes :: "'a option nodes"
  dl_brk :: nat
  dl_head :: nat
  dl_tail :: nat
  dl_size :: int

definition generate_node :: "'a option \<Rightarrow> 'a dlist \<Rightarrow> nat \<times> 'a dlist" where
  "generate_node x l =
     (dl_brk l, l\<lparr>dl_nodes := (dl_nodes l)(dl_brk l \<mapsto> \<lparr>nd_data = x, nd_prev = 0, nd_next = 0\<rparr>), dl_brk := dl_brk l + 1\<rparr>)"

definition dlist_init :: "'a dlist" where
  "dlist_init = \<lparr>dl_nodes = \<lambda>_. None, dl_brk = 1, dl_head = 0, dl_tail = 0, dl_size = 0\<rparr>"

text \<open>A node that belongs to no list is put in front, as \<open>dlist_preappend\<close> and the moves do.\<close>

definition link_front :: "nat \<Rightarrow> 'a dlist \<Rightarrow> 'a dlist" where
  "link_front p l =
     (let l = (if dl_head l = 0 then l\<lparr>dl_tail := p\<rparr>
               else l\<lparr>dl_nodes := set_next p (dl_head l) (set_prev (dl_head l) p (dl_nodes l))\<rparr>)
      in l\<lparr>dl_head := p\<rparr>)"

definition dlist_preappend :: "'a dlist \<Rightarrow> 'a option \<Rightarrow> 'a dlist" where
  "dlist_preappend l item =
     (case generate_node item l of (p, l) \<Rightarrow> let l = link_front p l in l\<lparr>dl_size := dl_size l + 1\<rparr>)"

definition dlist_append :: "'a dlist \<Rightarrow> 'a option \<Rightarrow> 'a dlist" where
  "dlist_append l item =
     (case generate_node item l of (p, l) \<Rightarrow>
        let l = (if dl_head l = 0 then l\<lparr>dl_head := p\<rparr>
                 else l\<lparr>dl_nodes := set_prev p (dl_tail l) (set_next (dl_tail l) p (dl_nodes l))\<rparr>)
        in l\<lparr>dl_tail := p, dl_size := dl_size l + 1\<rparr>)"

definition dlist_insert :: "'a dlist \<Rightarrow> 'a option \<Rightarrow> 'a dlist" where
  "dlist_insert l item = dlist_preappend l item"

text \<open>
  The search that \<open>dlist_search\<close>, \<open>dlist_move_value\<close> and \<open>dlist_move_ptr\<close> share: the first node that is
  found is taken out of the list unless it is the head. No loop runs over more nodes than were made.
\<close>

definition take_out :: "nat \<Rightarrow> 'a option node \<Rightarrow> 'a dlist \<Rightarrow> 'a dlist" where
  "take_out p n l =
     l\<lparr>dl_nodes := unlink n (dl_nodes l), dl_head := (if nd_prev n \<noteq> 0 then dl_head l else nd_next n),
       dl_tail := (if nd_next n \<noteq> 0 then dl_tail l else nd_prev n)\<rparr>"

definition dlist_find :: "('a option \<Rightarrow> bool) \<Rightarrow> 'a dlist \<Rightarrow> nat" where
  "dlist_find found l = walk (dl_brk l) (\<lambda>n. found (nd_data n)) (dl_nodes l) (dl_head l)"

definition dlist_search :: "('a option \<Rightarrow> bool) \<Rightarrow> 'a dlist \<Rightarrow> 'a dlist \<times> int" where
  "dlist_search found l =
     (let p = dlist_find found l in
      if p = 0 then (l, 0)
      else if p = dl_head l then (l, 1)
      else case dl_nodes l p of None \<Rightarrow> (l, 0) | Some n \<Rightarrow> (take_out p n l, 1))"

text \<open>\<open>dlist_move_value\<close> with \<open>memcmp\<close> as \<open>found\<close>, and \<open>dlist_move_ptr\<close> with equality.\<close>

definition dlist_move_value :: "('a option \<Rightarrow> bool) \<Rightarrow> 'a dlist \<Rightarrow> 'a dlist \<times> int" where
  "dlist_move_value found l =
     (let p = dlist_find found l in
      if p = 0 then (l, 0)
      else if p = dl_head l then (l, 1)
      else case dl_nodes l p of None \<Rightarrow> (l, 0)
           | Some n \<Rightarrow>
               let l = take_out p n l
               in (link_front p (l\<lparr>dl_nodes := set_next p 0 (set_prev p 0 (dl_nodes l))\<rparr>), 1))"

definition dlist_move_ptr :: "'a option \<Rightarrow> 'a dlist \<Rightarrow> 'a dlist \<times> int" where
  "dlist_move_ptr item l = dlist_move_value ((=) item) l"

definition dlist_delete_tail :: "'a dlist \<Rightarrow> 'a dlist \<times> 'a option" where
  "dlist_delete_tail l =
     (if dl_head l = 0 then (l, None)
      else case dl_nodes l (dl_tail l) of
             None \<Rightarrow> (l, None)
           | Some n \<Rightarrow>
               (if nd_prev n \<noteq> 0
                then (l\<lparr>dl_nodes := (set_next (nd_prev n) 0 (dl_nodes l))(dl_tail l := None), dl_tail := nd_prev n,
                        dl_size := dl_size l - 1\<rparr>, nd_data n)
                else (l\<lparr>dl_nodes := (dl_nodes l)(dl_tail l := None), dl_head := 0, dl_tail := 0,
                        dl_size := dl_size l - 1\<rparr>, nd_data n)))"

definition dlist_size :: "'a dlist \<Rightarrow> int" where
  "dlist_size l = dl_size l"

section \<open>The list it stands for\<close>

definition dlist_rep :: "'a dlist \<Rightarrow> 'a option list \<Rightarrow> bool" where
  "dlist_rep l xs \<longleftrightarrow> dll_rep (dl_nodes l) (dl_brk l) (dl_head l) (dl_tail l) xs"

definition dlist_ok :: "'a dlist \<Rightarrow> 'a option list \<Rightarrow> bool" where
  "dlist_ok l xs \<longleftrightarrow> dlist_rep l xs \<and> dl_size l = int (length xs)"

lemma dlist_ok_init: "dlist_ok dlist_init []"
  by (simp add: dlist_ok_def dlist_rep_def dlist_init_def dll_rep_Nil)

lemma dlist_preappend_ok:
  assumes "dlist_ok l xs"
  shows "dlist_ok (dlist_preappend l x) (x # xs)"
proof -
  have r: "dll_rep (dl_nodes l) (dl_brk l) (dl_head l) (dl_tail l) xs" using assms by (simp add: dlist_ok_def dlist_rep_def)
  note f = dll_rep_fresh [OF r]
  have n: "dl_nodes l 0 = None" using r by (simp add: dll_rep_def)
  have "dlist_preappend l x = l\<lparr>dl_nodes := (set_prev (dl_head l) (dl_brk l) (dl_nodes l))(dl_brk l \<mapsto> \<lparr>nd_data = x, nd_prev = 0, nd_next = dl_head l\<rparr>),
      dl_brk := Suc (dl_brk l), dl_head := dl_brk l, dl_tail := (if dl_head l = 0 then dl_brk l else dl_tail l), dl_size := dl_size l + 1\<rparr>"
    using f n by (cases "dl_head l = 0")
      (auto simp: dlist_preappend_def generate_node_def link_front_def Let_def set_prev_def set_next_def fun_eq_iff)
  with dll_push_front [OF r, of x] assms show ?thesis by (simp add: dlist_ok_def dlist_rep_def)
qed

lemma dlist_append_ok:
  assumes "dlist_ok l xs"
  shows "dlist_ok (dlist_append l x) (xs @ [x])"
proof -
  have r: "dll_rep (dl_nodes l) (dl_brk l) (dl_head l) (dl_tail l) xs" using assms by (simp add: dlist_ok_def dlist_rep_def)
  note f = dll_rep_fresh [OF r]
  have n: "dl_nodes l 0 = None" "dl_head l = 0 \<Longrightarrow> dl_tail l = 0" using r dll_rep_tail [OF r] by (simp_all add: dll_rep_def)
  have "dlist_append l x = l\<lparr>dl_nodes := (set_next (dl_tail l) (dl_brk l) (dl_nodes l))(dl_brk l \<mapsto> \<lparr>nd_data = x, nd_prev = dl_tail l, nd_next = 0\<rparr>),
      dl_brk := Suc (dl_brk l), dl_head := (if dl_head l = 0 then dl_brk l else dl_head l), dl_tail := dl_brk l, dl_size := dl_size l + 1\<rparr>"
    using f n by (cases "dl_head l = 0")
      (auto simp: dlist_append_def generate_node_def Let_def set_prev_def set_next_def fun_eq_iff)
  with dll_push_back [OF r, of x] assms show ?thesis by (simp add: dlist_ok_def dlist_rep_def)
qed

lemma dlist_delete_tail_Nil: "dlist_ok l [] \<Longrightarrow> dlist_delete_tail l = (l, None)"
  using dll_rep_head [of "dl_nodes l"] by (fastforce simp: dlist_ok_def dlist_rep_def dlist_delete_tail_def)

lemma dlist_delete_tail_ok:
  assumes "dlist_ok l (xs @ [x])"
  shows "dlist_ok (fst (dlist_delete_tail l)) xs \<and> snd (dlist_delete_tail l) = x"
proof -
  have r: "dll_rep (dl_nodes l) (dl_brk l) (dl_head l) (dl_tail l) (xs @ x # [])" using assms by (simp add: dlist_ok_def dlist_rep_def)
  obtain a where at: "dll_at (dl_nodes l) (dl_brk l) (dl_head l) (dl_tail l) a xs x []" using r by (rule dll_rep_at)
  obtain n where n: "dl_nodes l a = Some n" "nd_data n = x" "a \<noteq> 0" "nd_prev n \<noteq> 0 \<longleftrightarrow> xs \<noteq> []" "\<not> nd_next n \<noteq> 0"
    "a = dl_head l \<longleftrightarrow> xs = []" "a = dl_tail l" using at by (rule dll_at_node) auto
  have h: "dl_head l \<noteq> 0" using dll_rep_head [OF r] by simp
  have d: "dl_size l = int (length xs) + 1" using assms by (simp add: dlist_ok_def)
  note U = dll_unlink(2) [OF at n(1)]
  show ?thesis
  proof (cases "nd_prev n = 0")
    case True
    with U n have "dll_rep ((dl_nodes l)(a := None)) (dl_brk l) 0 0 xs" by (simp add: unlink_def Let_def)
    with True n h d show ?thesis by (simp add: dlist_delete_tail_def dlist_ok_def dlist_rep_def)
  next
    case False
    with U n have "dll_rep ((set_next (nd_prev n) 0 (dl_nodes l))(a := None)) (dl_brk l) (dl_head l) (nd_prev n) xs"
      by (simp add: unlink_def Let_def)
    with False n h d show ?thesis by (simp add: dlist_delete_tail_def dlist_ok_def dlist_rep_def)
  qed
qed

text \<open>Filled at the head and emptied from the tail the list is a queue, oldest element last.\<close>

interpretation dl: fifo "\<lambda>l xs. dlist_ok l (rev xs)" dlist_insert dlist_delete_tail
proof unfold_locales
  fix l :: "'a dlist" and xs x
  show "dlist_ok l (rev xs) \<Longrightarrow> dlist_ok (dlist_insert l x) (rev (xs @ [x]))"
    using dlist_preappend_ok [of l "rev xs" x] by (simp add: dlist_insert_def)
  show "dlist_ok l (rev (x # xs)) \<Longrightarrow> dlist_ok (fst (dlist_delete_tail l)) (rev xs) \<and> snd (dlist_delete_tail l) = x"
    using dlist_delete_tail_ok [of l "rev xs" x] by simp
  show "dlist_ok l (rev []) \<Longrightarrow> dlist_delete_tail l = (l, None)" using dlist_delete_tail_Nil by simp
qed

fun dlist_run :: "'a dlist \<Rightarrow> 'a option queue_op list \<Rightarrow> 'a dlist \<times> 'a option list" where
  "dlist_run l [] = (l, [])"
| "dlist_run l (Push x # ops) = dlist_run (dlist_insert l x) ops"
| "dlist_run l (Pop # ops) = (let (l, r) = dlist_delete_tail l; (l, rs) = dlist_run l ops in (l, r # rs))"

lemma dlist_run_eq: "dlist_run l ops = dl.run l ops"
proof (induction ops arbitrary: l)
  case (Cons c ops)
  then show ?case by (cases c) (simp_all add: split_beta)
qed simp

lemma dlist_find_spec:
  assumes "dlist_rep l xs"
  shows "dlist_find found l = 0 \<and> (\<forall>x\<in>set xs. \<not> found x) \<or>
    (\<exists>us x ws. xs = us @ x # ws \<and> found x \<and> (\<forall>u\<in>set us. \<not> found u) \<and>
      dll_at (dl_nodes l) (dl_brk l) (dl_head l) (dl_tail l) (dlist_find found l) us x ws)"
  using dll_walk [of "dl_nodes l" "dl_brk l" "dl_head l" "dl_tail l" xs found] assms
  by (simp add: dlist_rep_def dlist_find_def)

text \<open>The first match, when it is not the first element.\<close>

lemma dlist_find_later:
  assumes r: "dlist_rep l (u # us @ x # ws)" and f: "found x" "\<forall>y\<in>set (u # us). \<not> found y"
  obtains n where "dll_at (dl_nodes l) (dl_brk l) (dl_head l) (dl_tail l) (dlist_find found l) (u # us) x ws"
    "dl_nodes l (dlist_find found l) = Some n" "dlist_find found l \<noteq> 0" "dlist_find found l \<noteq> dl_head l" "nd_prev n \<noteq> 0"
proof -
  obtain us' x' ws' where e: "u # us @ x # ws = us' @ x' # ws'" "found x'" "\<forall>y\<in>set us'. \<not> found y"
    and at: "dll_at (dl_nodes l) (dl_brk l) (dl_head l) (dl_tail l) (dlist_find found l) us' x' ws'"
    using dlist_find_spec [OF r, of found] f(1) by auto
  have "us' = takeWhile (\<lambda>y. \<not> found y) (us' @ x' # ws')" using e(2,3) by (subst takeWhile_append2) auto
  also have "\<dots> = takeWhile (\<lambda>y. \<not> found y) ((u # us) @ x # ws)" using e(1) by simp
  also have "\<dots> = u # us" using f by (subst takeWhile_append2) auto
  finally have "us' = u # us" "x' = x" "ws' = ws" using e(1) by auto
  with at have at: "dll_at (dl_nodes l) (dl_brk l) (dl_head l) (dl_tail l) (dlist_find found l) (u # us) x ws" by simp
  obtain n where "dl_nodes l (dlist_find found l) = Some n" "dlist_find found l \<noteq> 0" "nd_prev n \<noteq> 0 \<longleftrightarrow> u # us \<noteq> []"
    "dlist_find found l = dl_head l \<longleftrightarrow> u # us = []" using at by (rule dll_at_node)
  with at that show thesis by blast
qed

text \<open>The moves keep the list and its size: the first match goes to the front.\<close>

lemma dlist_move_value_ok:
  assumes "dlist_ok l (u # us @ x # ws)" "found x" "\<forall>y\<in>set (u # us). \<not> found y"
  shows "\<exists>l'. dlist_move_value found l = (l', 1) \<and> dlist_ok l' (x # u # us @ ws)"
proof -
  have r: "dlist_rep l (u # us @ x # ws)" using assms(1) by (simp add: dlist_ok_def)
  let ?p = "dlist_find found l"
  obtain n where n: "dll_at (dl_nodes l) (dl_brk l) (dl_head l) (dl_tail l) ?p (u # us) x ws" "dl_nodes l ?p = Some n" "?p \<noteq> 0"
    "?p \<noteq> dl_head l" "nd_prev n \<noteq> 0" using r assms(2,3) by (rule dlist_find_later)
  have h: "dl_head l \<noteq> 0" using dll_rep_head [of "dl_nodes l"] r by (fastforce simp: dlist_rep_def)
  have x: "map_option nd_data (dl_nodes l ?p) = Some x" using n(1) by (auto simp: dll_at_def node_data_def)
  obtain m where m: "unlink n (dl_nodes l) ?p = Some m" "nd_data m = x"
    using unlink_data [of n "dl_nodes l" ?p] x by (cases "unlink n (dl_nodes l) ?p") auto
  have "dlist_move_value found l = (l\<lparr>dl_nodes := (set_prev (dl_head l) ?p (unlink n (dl_nodes l)))(?p \<mapsto> \<lparr>nd_data = x, nd_prev = 0, nd_next = dl_head l\<rparr>),
      dl_head := ?p, dl_tail := (if nd_next n \<noteq> 0 then dl_tail l else nd_prev n)\<rparr>, 1)"
    using n h m by (simp add: dlist_move_value_def take_out_def link_front_def Let_def)
      (simp add: set_next_def set_prev_def fun_eq_iff)
  with dll_move_front [OF n(1,2)] assms(1) show ?thesis by (simp add: dlist_ok_def dlist_rep_def)
qed

text \<open>\<open>dlist_search\<close>, which should only look, takes the element that it finds out of the list unless
  it is the first, and does not count it out: the first element that matches is gone, and the size is one too large.\<close>

lemma dlist_search_removes:
  assumes "dlist_ok l (u # us @ x # ws)" "found x" "\<forall>y\<in>set (u # us). \<not> found y"
  shows "\<exists>l'. dlist_search found l = (l', 1) \<and> dlist_rep l' (u # us @ ws) \<and> dlist_size l' = int (length (u # us @ ws)) + 1"
proof -
  have r: "dlist_rep l (u # us @ x # ws)" using assms(1) by (simp add: dlist_ok_def)
  let ?p = "dlist_find found l"
  obtain n where n: "dll_at (dl_nodes l) (dl_brk l) (dl_head l) (dl_tail l) ?p (u # us) x ws" "dl_nodes l ?p = Some n" "?p \<noteq> 0"
    "?p \<noteq> dl_head l" "nd_prev n \<noteq> 0" using r assms(2,3) by (rule dlist_find_later)
  have "dlist_search found l = (take_out ?p n l, 1)" using n by (simp add: dlist_search_def Let_def)
  moreover have "dlist_rep (take_out ?p n l) (u # us @ ws)"
    using dll_unlink(1) [OF n(1,2)] n(5) by (simp add: dlist_rep_def take_out_def)
  moreover have "dlist_size (take_out ?p n l) = int (length (u # us @ ws)) + 1"
    using assms(1) by (simp add: dlist_size_def take_out_def dlist_ok_def)
  ultimately show ?thesis by blast
qed

end
