(* ===== verification/AdList.thy ===== *)
theory AdList
  imports Links
begin

text \<open>
  The server's doubly linked list (server/lib/adlist.c), in which it keeps its clients. The values are
  pointers. A list without a \<open>match\<close> method compares pointers; \<open>dup\<close> may fail. \<open>malloc\<close> does not
  fail, and what \<open>listRelease\<close> and \<open>listReleaseIterator\<close> free is left out. \<open>len\<close> is an unsigned int,
  here a number: the list has fewer than \<open>2 ^ 32\<close> nodes. Where the code would follow a node that is
  not there, the list stays as it is.
\<close>

record 'v adlist =
  al_nodes :: "'v nodes"
  al_brk :: nat
  al_head :: nat
  al_tail :: nat
  al_len :: nat

definition listCreate :: "'v adlist" where
  "listCreate = \<lparr>al_nodes = \<lambda>_. None, al_brk = 1, al_head = 0, al_tail = 0, al_len = 0\<rparr>"

definition listAddNodeHead :: "'v adlist \<Rightarrow> 'v \<Rightarrow> 'v adlist" where
  "listAddNodeHead l value =
     (let node = al_brk l; h = al_nodes l in
      if al_len l = 0
      then l\<lparr>al_nodes := h(node \<mapsto> \<lparr>nd_data = value, nd_prev = 0, nd_next = 0\<rparr>), al_brk := node + 1,
             al_head := node, al_tail := node, al_len := al_len l + 1\<rparr>
      else l\<lparr>al_nodes := set_prev (al_head l) node (h(node \<mapsto> \<lparr>nd_data = value, nd_prev = 0, nd_next = al_head l\<rparr>)),
             al_brk := node + 1, al_head := node, al_len := al_len l + 1\<rparr>)"

definition listAddNodeTail :: "'v adlist \<Rightarrow> 'v \<Rightarrow> 'v adlist" where
  "listAddNodeTail l value =
     (let node = al_brk l; h = al_nodes l in
      if al_len l = 0
      then l\<lparr>al_nodes := h(node \<mapsto> \<lparr>nd_data = value, nd_prev = 0, nd_next = 0\<rparr>), al_brk := node + 1,
             al_head := node, al_tail := node, al_len := al_len l + 1\<rparr>
      else l\<lparr>al_nodes := set_next (al_tail l) node (h(node \<mapsto> \<lparr>nd_data = value, nd_prev = al_tail l, nd_next = 0\<rparr>)),
             al_brk := node + 1, al_tail := node, al_len := al_len l + 1\<rparr>)"

text \<open>The new node between \<open>p\<close> and \<open>q\<close>, either of which may be NULL.\<close>

definition link_between :: "nat \<Rightarrow> nat \<Rightarrow> nat \<Rightarrow> 'v nodes \<Rightarrow> 'v nodes" where
  "link_between p node q h =
     (let h = (if p \<noteq> 0 then set_next p node h else h) in if q \<noteq> 0 then set_prev q node h else h)"

definition listInsertNode :: "'v adlist \<Rightarrow> nat \<Rightarrow> 'v \<Rightarrow> bool \<Rightarrow> 'v adlist" where
  "listInsertNode l old_node value after =
     (case al_nodes l old_node of
        None \<Rightarrow> l
      | Some old \<Rightarrow>
          let node = al_brk l;
              p = (if after then old_node else nd_prev old);
              q = (if after then nd_next old else old_node)
          in l\<lparr>al_nodes := link_between p node q ((al_nodes l)(node \<mapsto> \<lparr>nd_data = value, nd_prev = p, nd_next = q\<rparr>)),
               al_brk := node + 1,
               al_head := (if \<not> after \<and> al_head l = old_node then node else al_head l),
               al_tail := (if after \<and> al_tail l = old_node then node else al_tail l),
               al_len := al_len l + 1\<rparr>)"

definition listDelNode :: "'v adlist \<Rightarrow> nat \<Rightarrow> 'v adlist" where
  "listDelNode l node =
     (case al_nodes l node of
        None \<Rightarrow> l
      | Some n \<Rightarrow>
          l\<lparr>al_nodes := (unlink n (al_nodes l))(node := None),
            al_head := (if nd_prev n \<noteq> 0 then al_head l else nd_next n),
            al_tail := (if nd_next n \<noteq> 0 then al_tail l else nd_prev n), al_len := al_len l - 1\<rparr>)"

section \<open>Iterators\<close>

datatype al_direction = AL_START_HEAD | AL_START_TAIL

record al_iter =
  li_next :: nat
  li_direction :: al_direction

definition listGetIterator :: "'v adlist \<Rightarrow> al_direction \<Rightarrow> al_iter" where
  "listGetIterator l direction =
     \<lparr>li_next = (if direction = AL_START_HEAD then al_head l else al_tail l), li_direction = direction\<rparr>"

definition listRewind :: "'v adlist \<Rightarrow> al_iter \<Rightarrow> al_iter" where
  "listRewind l li = li\<lparr>li_next := al_head l, li_direction := AL_START_HEAD\<rparr>"

definition listRewindTail :: "'v adlist \<Rightarrow> al_iter \<Rightarrow> al_iter" where
  "listRewindTail l li = li\<lparr>li_next := al_tail l, li_direction := AL_START_TAIL\<rparr>"

definition listNext :: "'v nodes \<Rightarrow> al_iter \<Rightarrow> al_iter \<times> nat" where
  "listNext h iter =
     (case h (li_next iter) of
        None \<Rightarrow> (iter, li_next iter)
      | Some current \<Rightarrow>
          (iter\<lparr>li_next := (if li_direction iter = AL_START_HEAD then nd_next current else nd_prev current)\<rparr>, li_next iter))"

text \<open>The loops over an iterator take at most as many steps as nodes were made.\<close>

fun search_loop :: "nat \<Rightarrow> ('v \<Rightarrow> bool) \<Rightarrow> 'v nodes \<Rightarrow> al_iter \<Rightarrow> nat" where
  "search_loop 0 found h iter = 0"
| "search_loop (Suc k) found h iter =
     (case listNext h iter of (iter, p) \<Rightarrow>
        if p = 0 then 0
        else case h p of None \<Rightarrow> 0 | Some n \<Rightarrow> if found (nd_data n) then p else search_loop k found h iter)"

definition listSearchKey :: "('v \<Rightarrow> 'k \<Rightarrow> bool) \<Rightarrow> 'v adlist \<Rightarrow> 'k \<Rightarrow> nat" where
  "listSearchKey match l key = search_loop (al_brk l) (\<lambda>v. match v key) (al_nodes l) (listGetIterator l AL_START_HEAD)"

fun dup_loop :: "nat \<Rightarrow> ('v \<Rightarrow> 'v option) \<Rightarrow> 'v nodes \<Rightarrow> al_iter \<Rightarrow> 'v adlist \<Rightarrow> 'v adlist option" where
  "dup_loop 0 dup h iter copy = Some copy"
| "dup_loop (Suc k) dup h iter copy =
     (case listNext h iter of (iter, p) \<Rightarrow>
        if p = 0 then Some copy
        else case h p of
               None \<Rightarrow> Some copy
             | Some n \<Rightarrow>
                 (case dup (nd_data n) of
                    None \<Rightarrow> None
                  | Some value \<Rightarrow> dup_loop k dup h iter (listAddNodeTail copy value)))"

text \<open>Without a \<open>dup\<close> method \<open>dup\<close> is \<open>Some\<close>.\<close>

definition listDup :: "('v \<Rightarrow> 'v option) \<Rightarrow> 'v adlist \<Rightarrow> 'v adlist option" where
  "listDup dup orig = dup_loop (al_brk orig) dup (al_nodes orig) (listGetIterator orig AL_START_HEAD) listCreate"

fun index_loop :: "nat \<Rightarrow> al_direction \<Rightarrow> 'v nodes \<Rightarrow> nat \<Rightarrow> nat" where
  "index_loop 0 direction h p = p"
| "index_loop (Suc k) direction h p =
     (case h p of
        None \<Rightarrow> p
      | Some n \<Rightarrow> index_loop k direction h (if direction = AL_START_HEAD then nd_next n else nd_prev n))"

definition listIndex :: "'v adlist \<Rightarrow> int \<Rightarrow> nat" where
  "listIndex l index =
     (if index < 0 then index_loop (nat (- index - 1)) AL_START_TAIL (al_nodes l) (al_tail l)
      else index_loop (nat index) AL_START_HEAD (al_nodes l) (al_head l))"

section \<open>The list it stands for\<close>

definition adlist_rep :: "'v adlist \<Rightarrow> 'v list \<Rightarrow> bool" where
  "adlist_rep l xs \<longleftrightarrow> dll_rep (al_nodes l) (al_brk l) (al_head l) (al_tail l) xs \<and> al_len l = length xs"

lemma listCreate_rep: "adlist_rep listCreate []"
  by (simp add: adlist_rep_def listCreate_def dll_rep_Nil)

lemma set_prev_upd: "p \<noteq> a \<Longrightarrow> set_prev p q (h(a \<mapsto> n)) = (set_prev p q h)(a \<mapsto> n)"
  "p \<noteq> a \<Longrightarrow> set_next p q (h(a \<mapsto> n)) = (set_next p q h)(a \<mapsto> n)"
  by (auto simp: set_prev_def set_next_def fun_eq_iff)

lemma set_null: "h 0 = None \<Longrightarrow> set_prev 0 q h = h" "h 0 = None \<Longrightarrow> set_next 0 q h = h"
  by (auto simp: set_prev_def set_next_def fun_eq_iff)

lemma listAddNodeHead_rep:
  assumes "adlist_rep l xs"
  shows "adlist_rep (listAddNodeHead l x) (x # xs)"
proof -
  have r: "dll_rep (al_nodes l) (al_brk l) (al_head l) (al_tail l) xs" "al_len l = length xs" "al_nodes l 0 = None"
    using assms by (auto simp: adlist_rep_def dll_rep_def)
  note f = dll_rep_fresh [OF r(1)] and e = dll_rep_head [OF r(1)]
  have "listAddNodeHead l x = l\<lparr>al_nodes := (set_prev (al_head l) (al_brk l) (al_nodes l))(al_brk l \<mapsto> \<lparr>nd_data = x, nd_prev = 0, nd_next = al_head l\<rparr>),
      al_brk := Suc (al_brk l), al_head := al_brk l, al_tail := (if al_head l = 0 then al_brk l else al_tail l), al_len := al_len l + 1\<rparr>"
    using f e r(2,3) by (auto simp: listAddNodeHead_def Let_def set_prev_upd set_null)
  with dll_push_front [OF r(1), of x] r(2) show ?thesis by (simp add: adlist_rep_def)
qed

lemma listAddNodeTail_rep:
  assumes "adlist_rep l xs"
  shows "adlist_rep (listAddNodeTail l x) (xs @ [x])"
proof -
  have r: "dll_rep (al_nodes l) (al_brk l) (al_head l) (al_tail l) xs" "al_len l = length xs" "al_nodes l 0 = None"
    using assms by (auto simp: adlist_rep_def dll_rep_def)
  note f = dll_rep_fresh [OF r(1)] and e = dll_rep_head [OF r(1)] and t = dll_rep_tail [OF r(1)]
  have "listAddNodeTail l x = l\<lparr>al_nodes := (set_next (al_tail l) (al_brk l) (al_nodes l))(al_brk l \<mapsto> \<lparr>nd_data = x, nd_prev = al_tail l, nd_next = 0\<rparr>),
      al_brk := Suc (al_brk l), al_head := (if al_head l = 0 then al_brk l else al_head l), al_tail := al_brk l, al_len := al_len l + 1\<rparr>"
    using f e t r(2,3) by (auto simp: listAddNodeTail_def Let_def set_prev_upd set_null)
  with dll_push_back [OF r(1), of x] r(2) show ?thesis by (simp add: adlist_rep_def)
qed

definition adlist_at :: "'v adlist \<Rightarrow> nat \<Rightarrow> 'v list \<Rightarrow> 'v \<Rightarrow> 'v list \<Rightarrow> bool" where
  "adlist_at l p us x ws \<longleftrightarrow> dll_at (al_nodes l) (al_brk l) (al_head l) (al_tail l) p us x ws \<and>
     al_len l = length (us @ x # ws)"

lemma listDelNode_rep:
  assumes "adlist_at l p us x ws"
  shows "adlist_rep (listDelNode l p) (us @ ws)"
proof -
  have at: "dll_at (al_nodes l) (al_brk l) (al_head l) (al_tail l) p us x ws" and len: "al_len l = length us + length ws + 1"
    using assms by (simp_all add: adlist_at_def)
  obtain n where n: "al_nodes l p = Some n" using at by (rule dll_at_node)
  from dll_unlink(2) [OF at n] n len show ?thesis by (simp add: listDelNode_def adlist_rep_def)
qed

lemma search_loop_walk:
  "h 0 = None \<Longrightarrow> search_loop k found h \<lparr>li_next = p, li_direction = AL_START_HEAD\<rparr> = walk k (\<lambda>n. found (nd_data n)) h p"
  by (induction k arbitrary: p) (auto simp: listNext_def split: option.splits)

lemma listSearchKey_spec:
  assumes "adlist_rep l xs"
  shows "listSearchKey match l key = 0 \<and> (\<forall>x\<in>set xs. \<not> match x key) \<or>
    (\<exists>us x ws. xs = us @ x # ws \<and> match x key \<and> (\<forall>u\<in>set us. \<not> match u key) \<and> adlist_at l (listSearchKey match l key) us x ws)"
proof -
  have r: "dll_rep (al_nodes l) (al_brk l) (al_head l) (al_tail l) xs" "al_len l = length xs" "al_nodes l 0 = None"
    using assms by (auto simp: adlist_rep_def dll_rep_def)
  have e: "listSearchKey match l key = walk (al_brk l) (\<lambda>n. match (nd_data n) key) (al_nodes l) (al_head l)"
    using r(3) by (simp add: listSearchKey_def listGetIterator_def search_loop_walk)
  from dll_walk [OF r(1), of "\<lambda>v. match v key", folded e] show ?thesis
  proof (elim disjE exE conjE)
    fix us x ws assume "xs = us @ x # ws" "match x key" "\<forall>u\<in>set us. \<not> match u key"
      "dll_at (al_nodes l) (al_brk l) (al_head l) (al_tail l) (listSearchKey match l key) us x ws"
    moreover from this r(2) have "adlist_at l (listSearchKey match l key) us x ws" by (simp add: adlist_at_def)
    ultimately show ?thesis by blast
  qed simp
qed

lemma listSearchKey_none: "adlist_rep l xs \<Longrightarrow> listSearchKey match l key = 0 \<longleftrightarrow> (\<forall>x\<in>set xs. \<not> match x key)"
  using listSearchKey_spec [of l xs match key] by (auto simp: adlist_at_def elim!: dll_at_node)

lemma dup_loop_seg:
  "seg h prv p as 0 \<Longrightarrow> length as < k \<Longrightarrow> h 0 = None \<Longrightarrow> map (node_data h) as = map Some xs \<Longrightarrow> adlist_rep copy ys \<Longrightarrow>
    case dup_loop k dup h \<lparr>li_next = p, li_direction = AL_START_HEAD\<rparr> copy of
      None \<Rightarrow> \<exists>x\<in>set xs. dup x = None
    | Some c \<Rightarrow> \<exists>zs. map dup xs = map Some zs \<and> adlist_rep c (ys @ zs)"
proof (induction as arbitrary: prv p k xs copy ys)
  case Nil
  then show ?case by (cases k) (auto simp: listNext_def split: option.splits)
next
  case (Cons a as)
  obtain k' where k': "k = Suc k'" "length as < k'" using Cons.prems(2) by (cases k) auto
  obtain n where n: "p = a" "a \<noteq> 0" "h a = Some n" "seg h a (nd_next n) as 0" using Cons.prems(1) by auto
  obtain x xs' where x: "xs = x # xs'" "node_data h a = Some x" "map (node_data h) as = map Some xs'"
    using Cons.prems(4) by (cases xs) auto
  have d: "nd_data n = x" using x(2) n(3) by (simp add: node_data_def)
  have step: "dup_loop k dup h \<lparr>li_next = p, li_direction = AL_START_HEAD\<rparr> copy =
      (case dup x of None \<Rightarrow> None
       | Some y \<Rightarrow> dup_loop k' dup h \<lparr>li_next = nd_next n, li_direction = AL_START_HEAD\<rparr> (listAddNodeTail copy y))"
    using k' n d by (simp add: listNext_def)
  show ?case
  proof (cases "dup x")
    case None
    with step x(1) show ?thesis by simp
  next
    case (Some y)
    have "adlist_rep (listAddNodeTail copy y) (ys @ [y])" by (rule listAddNodeTail_rep) fact
    note IH = Cons.IH [OF n(4) k'(2) Cons.prems(3) x(3) this]
    show ?thesis
    proof (cases "dup_loop k' dup h \<lparr>li_next = nd_next n, li_direction = AL_START_HEAD\<rparr> (listAddNodeTail copy y)")
      case None
      with IH step Some x(1) show ?thesis by simp
    next
      case (Some c)
      with IH obtain zs where "map dup xs' = map Some zs" "adlist_rep c ((ys @ [y]) @ zs)" by auto
      with Some step \<open>dup x = Some y\<close> x(1) show ?thesis by (auto intro!: exI [of _ "y # zs"])
    qed
  qed
qed

text \<open>\<open>listDup\<close> copies every element, or fails when \<open>dup\<close> does.\<close>

lemma listDup_spec:
  assumes "adlist_rep l xs"
  shows "case listDup dup l of None \<Rightarrow> \<exists>x\<in>set xs. dup x = None
    | Some c \<Rightarrow> \<exists>zs. map dup xs = map Some zs \<and> adlist_rep c zs"
proof -
  obtain as where as: "chain (al_nodes l) (al_head l) (al_tail l) as" "map (node_data (al_nodes l)) as = map Some xs" "al_nodes l 0 = None"
    "length as < al_brk l" using assms unfolding adlist_rep_def by (auto elim: dll_repE)
  then have "seg (al_nodes l) 0 (al_head l) as 0" by (simp add: chain_def)
  from dup_loop_seg [OF this as(4,3,2) listCreate_rep, of dup, unfolded append_Nil] show ?thesis
    by (simp add: listDup_def listGetIterator_def)
qed

end
