(* ===== verification/Accounts.thy ===== *)
theory Accounts
  imports AdList ServerSession
begin

text \<open>
  The server's clients and the commands about users and jobs (server/src/client.c, the handlers
  \<open>register_user\<close>, \<open>user_login\<close>, \<open>logout\<close>, \<open>delete_job\<close> and \<open>list_job\<close> of server/src/dedupHandle.c with
  the queries they run, and \<open>handle_client_request\<close> of server/server.c, which serves one connection). A
  handler runs without another in between. \<open>None\<close>: the server reads freed memory or writes over the
  end of a buffer, or, as in ServerDedup, the handler never comes back.
\<close>

section \<open>Queries\<close>

text \<open>
  MySQL runs the text of a query: the new database and the rows of the result, or a failure
  (\<open>q_run\<close>). \<open>q_left\<close> is what \<open>mysql_store_result\<close> returns after a query that has failed, \<open>None\<close> for NULL,
  which \<open>mysql_num_rows\<close> must not be given; \<open>q_up\<close>: the connection to MySQL can be opened. The columns
  that are looked at are never NULL.
\<close>

record 'db query_env =
  q_run :: "'db \<Rightarrow> byte list \<Rightarrow> 'db \<times> byte list list list option"
  q_left :: "'db \<Rightarrow> byte list list list option"
  q_up :: bool

definition find_query :: "byte list \<Rightarrow> byte list" where
  "find_query name = asc ''SELECT UserId FROM User WHERE UserName='' @ 39 # name @ [39]"

definition find_username :: "'db query_env \<Rightarrow> 'db \<Rightarrow> byte list \<Rightarrow> 'db \<times> bool" where
  "find_username q db name =
     (case q_run q db (find_query name) of
        (db, None) \<Rightarrow> (db, False)
      | (db, Some rows) \<Rightarrow> (db, length rows = 1))"

text \<open>\<open>get_pass_by_username\<close> looks at the rows only if \<open>mysql_query\<close> has returned an error.\<close>

definition get_pass_by_username :: "'db query_env \<Rightarrow> 'db \<Rightarrow> byte list \<Rightarrow> byte list \<Rightarrow> ('db \<times> bool) option" where
  "get_pass_by_username q db name password =
     (case q_run q db (asc ''SELECT Password FROM User WHERE UserName='' @ 39 # name @ [39]) of
        (db, Some rows) \<Rightarrow> Some (db, False)
      | (db, None) \<Rightarrow>
          (case q_left q db of
             None \<Rightarrow> None
           | Some rows \<Rightarrow> Some (db, length rows = 1 \<and> password = cstr (hd (hd rows)))))"

definition select_query :: "byte list \<Rightarrow> byte list" where
  "select_query name = asc ''select UsrId,UserName from User where UserName = '' @ 34 # name @ [34, 59]"

definition insert_record_into_user :: "'db query_env \<Rightarrow> 'db \<Rightarrow> byte list \<Rightarrow> byte list \<Rightarrow> 'db \<times> bool" where
  "insert_record_into_user q db name password =
     (case q_run q db (select_query name) of
        (db, None) \<Rightarrow> (db, False)
      | (db, Some rows) \<Rightarrow>
          if rows \<noteq> [] then (db, False)
          else case q_run q db (asc ''insert into User(UserName, Password) values('' @
                  34 # name @ [34, 44, 34] @ password @ [34, 41, 59]) of
                 (db, None) \<Rightarrow> (db, False)
               | (db, Some _) \<Rightarrow> (db, True))"

text \<open>The five statements of \<open>db_delete_job\<close>; each is only run if the ones before it did not fail.\<close>

definition delete_statements :: "int \<Rightarrow> byte list list" where
  "delete_statements job =
     [asc ''delete from File where VersionCount=1 and FileId in (select FileId from VersionFile where JobId='' @ show_int job @ asc '')'',
      asc ''update File set VersionCount=VersionCount-1 where VersionCount>1 and FileId in (select FileId from VersionFile where JobId='' @
        show_int job @ asc '')'',
      asc ''delete from VersionFile where JobId='' @ show_int job,
      asc ''delete from Job where JobId='' @ show_int job,
      asc ''delete from Object where ObjectId not in (select ObjectId from Job)'']"

fun run_statements :: "'db query_env \<Rightarrow> 'db \<Rightarrow> byte list list \<Rightarrow> 'db \<times> bool" where
  "run_statements q db [] = (db, True)"
| "run_statements q db (c # cs) =
     (case q_run q db c of (db, None) \<Rightarrow> (db, False) | (db, Some _) \<Rightarrow> run_statements q db cs)"

definition db_delete_job :: "'db query_env \<Rightarrow> 'db \<Rightarrow> int \<Rightarrow> 'db \<times> bool" where
  "db_delete_job q db job = run_statements q db (delete_statements job)"

text \<open>
  \<open>db_get_job_list\<close>: a line for every job, in a buffer of 292 bytes after its length. Whether a line
  fits is not looked at. The inner \<open>None\<close> is a failure.
\<close>

definition job_line :: "byte list list \<Rightarrow> byte list" where
  "job_line row = asc ''JobId='' @ cstr (row ! 0) @ asc '' FileSet='' @ cstr (row ! 1)"

definition job_buf :: "byte list list \<Rightarrow> byte list" where
  "job_buf row = put_int 4 (int (length (job_line row))) @ job_line row @ replicate (288 - length (job_line row)) 0"

definition db_get_job_list :: "'db query_env \<Rightarrow> 'db \<Rightarrow> ('db \<times> byte list list option) option" where
  "db_get_job_list q db =
     (case q_run q db (asc ''SELECT JobId, FileSet FROM Job,Object where Job.ObjectId=Object.ObjectId'') of
        (db, None) \<Rightarrow> Some (db, None)
      | (db, Some rows) \<Rightarrow>
          if list_ex (\<lambda>row. 288 < length (job_line row)) rows then None else Some (db, Some (map job_buf rows)))"

section \<open>The clients of the server\<close>

text \<open>
  \<open>server->clients\<close> is a list of pointers; \<open>sv_heap\<close> holds what they lead to, until it is freed.
  \<open>dc_open\<close>: the database object has not been closed (that frees it).
\<close>

record dedup_client =
  dc_username :: "byte list"
  dc_password :: "byte list"
  dc_user_id :: int
  dc_open :: bool

record 'db server =
  sv_session :: "'db session"
  sv_clients :: "nat adlist"
  sv_heap :: "nat \<Rightarrow> dedup_client option"
  sv_brk :: nat
  sv_conns :: int

definition client_match :: "(nat \<Rightarrow> dedup_client option) \<Rightarrow> nat \<Rightarrow> byte list \<Rightarrow> bool" where
  "client_match h p name = (case h p of None \<Rightarrow> True | Some c \<Rightarrow> strcmp_eq (dc_username c) name)"

text \<open>\<open>listSearchKey(server->clients, name)\<close>; the search ends at the latest where it reads a client that has been freed.\<close>

definition find_client :: "'db server \<Rightarrow> byte list \<Rightarrow> nat option" where
  "find_client s name =
     (let p = listSearchKey (client_match (sv_heap s)) (sv_clients s) name in
      if p = 0 then Some 0
      else case node_data (al_nodes (sv_clients s)) p of
             None \<Rightarrow> Some p
           | Some v \<Rightarrow> if sv_heap s v = None then None else Some p)"

definition sv_send :: "byte list \<Rightarrow> 'db server \<Rightarrow> 'db server" where
  "sv_send m s = s\<lparr>sv_session := send m (sv_session s)\<rparr>"

definition sv_db :: "'db server \<Rightarrow> 'db" where
  "sv_db s = ss_db (sv_session s)"

definition set_db :: "'db \<Rightarrow> 'db server \<Rightarrow> 'db server" where
  "set_db db s = s\<lparr>sv_session := (sv_session s)\<lparr>ss_db := db\<rparr>\<rparr>"

definition set_client :: "nat \<Rightarrow> dedup_client \<Rightarrow> 'db server \<Rightarrow> 'db server" where
  "set_client p c s = s\<lparr>sv_heap := (sv_heap s)(p \<mapsto> c)\<rparr>"

text \<open>Without a database the new client is lost and NULL (\<open>None\<close>) is returned.\<close>

definition create_client :: "'db query_env \<Rightarrow> 'db server \<Rightarrow> 'db server \<times> nat option" where
  "create_client q s =
     (if \<not> q_up q then (s, None)
      else
        let c = \<lparr>dc_username = name_buf 50 (asc ''yangyf''), dc_password = memset0 50, dc_user_id = 11, dc_open = True\<rparr>;
            p = sv_brk s
        in (s\<lparr>sv_heap := (sv_heap s)(p \<mapsto> c), sv_brk := p + 1, sv_clients := listAddNodeTail (sv_clients s) p,
              sv_conns := sv_conns s + 1\<rparr>, Some p))"

definition close_client :: "nat \<Rightarrow> dedup_client \<Rightarrow> 'db server \<Rightarrow> 'db server option" where
  "close_client p c s =
     (if \<not> dc_open c then None else Some (s\<lparr>sv_heap := (sv_heap s)(p := None), sv_conns := sv_conns s - 1\<rparr>))"

definition free_client :: "nat \<Rightarrow> 'db server \<Rightarrow> 'db server option" where
  "free_client p s =
     (case sv_heap s p of
        None \<Rightarrow> None
      | Some c \<Rightarrow>
          if cstr (dc_username c) = [] then close_client p c s
          else
            case find_client s (dc_username c) of
              None \<Rightarrow> None
            | Some n \<Rightarrow> if n = 0 then Some s else close_client p c (s\<lparr>sv_clients := listDelNode (sv_clients s) n\<rparr>))"

section \<open>The handlers\<close>

definition register_fail :: "byte list" where "register_fail = asc ''2001 register fail:username has existed''"
definition register_ok :: "byte list" where "register_ok = asc ''2000 register ok''"
definition login_ok :: "byte list" where "login_ok = asc ''1000 login success''"
definition login_fail1 :: "byte list" where "login_fail1 = asc ''1001 fail login:username has not existed''"
definition login_fail2 :: "byte list" where
  "login_fail2 = asc ''1002 fail login:password does not match with the username''"
definition login_fail3 :: "byte list" where "login_fail3 = asc ''1003 fail login:username has loged on''"
definition logout_ok :: "byte list" where "logout_ok = asc ''3000 logout ok''"
definition logout_fail1 :: "byte list" where "logout_fail1 = asc ''3001 logout fail:username has quited''"
definition logout_fail2 :: "byte list" where "logout_fail2 = asc ''3002 logout fail:username has not existed''"
definition delete_ok :: "byte list" where "delete_ok = asc ''6001 delet job success''"
definition delete_fail :: "byte list" where "delete_fail = asc ''6002 delet job error''"
definition list_none :: "byte list" where "list_none = asc ''NO JOB AVAILABLE''"
definition command_err :: "byte list" where "command_err = asc ''0001 Command is invalid or error''"
definition database_err :: "byte list" where "database_err = asc ''0002 Database error''"

text \<open>\<open>sscanf\<close> with \<open>REGISTER username=%s password=%s\<close> and the like: the words that were converted.\<close>

definition scan_account :: "string \<Rightarrow> byte list \<Rightarrow> byte list option \<times> byte list option" where
  "scan_account cmd s =
     (case scan_lit (asc cmd @ asc '' username='') s of
        None \<Rightarrow> (None, None)
      | Some s \<Rightarrow>
          (case scan_str s of
             None \<Rightarrow> (None, None)
           | Some (name, s) \<Rightarrow>
               (case scan_lit (asc '' password='') s of
                  None \<Rightarrow> (Some name, None)
                | Some s \<Rightarrow> (Some name, map_option fst (scan_str s)))))"

definition word_fits :: "nat \<Rightarrow> byte list option \<Rightarrow> bool" where
  "word_fits n w \<longleftrightarrow> (case w of None \<Rightarrow> True | Some w \<Rightarrow> length w < n)"

text \<open>
  \<open>register_user\<close> opens a second database object in the place of the first and closes it at the end;
  \<open>free_client\<close> will close it once more. The result is \<open>DEDUPHANDLETRUE\<close> (0) or \<open>DEDUPHANDLEFAIL\<close> (-1).
\<close>

definition register_user :: "'db query_env \<Rightarrow> nat \<Rightarrow> byte list \<Rightarrow> 'db server \<Rightarrow> (int \<times> 'db server) option" where
  "register_user q p msg s =
     (case scan_account ''REGISTER'' (cstr msg) of (name, password) \<Rightarrow>
        if \<not> word_fits 128 name \<or> \<not> word_fits 128 password then None
        else case (name, password) of
          (Some name, Some password) \<Rightarrow>
            (case sv_heap s p of
               None \<Rightarrow> None
             | Some c \<Rightarrow>
                 if \<not> q_up q then Some (-1, s)
                 else
                   let s = set_client p (c\<lparr>dc_open := False\<rparr>) s;
                       (db, ok) = find_username q (sv_db s) name
                   in if \<not> ok then Some (-1, sv_send register_fail (set_db db s))
                      else case insert_record_into_user q db name password of
                             (db, ok) \<Rightarrow>
                               Some (if ok then (0, sv_send register_ok (set_db db s)) else (-1, sv_send [] (set_db db s))))
        | _ \<Rightarrow> Some (-1, s))"

text \<open>\<open>sscanf\<close> writes into the client itself, also when only the name was found.\<close>

definition user_login :: "'db query_env \<Rightarrow> nat \<Rightarrow> byte list \<Rightarrow> 'db server \<Rightarrow> (int \<times> 'db server) option" where
  "user_login q p msg s =
     (case scan_account ''LOGIN'' (cstr msg) of (name, password) \<Rightarrow>
        case sv_heap s p of
          None \<Rightarrow> None
        | Some c \<Rightarrow>
            if \<not> word_fits 50 name \<or> \<not> word_fits 50 password then None
            else
              let c = c\<lparr>dc_username := (case name of None \<Rightarrow> dc_username c | Some w \<Rightarrow> strcpy_to (dc_username c) w),
                        dc_password := (case password of None \<Rightarrow> dc_password c | Some w \<Rightarrow> strcpy_to (dc_password c) w)\<rparr>;
                  s = set_client p c s
              in if password = None then Some (-1, sv_send command_err s)
                 else case find_client s (dc_username c) of
                   None \<Rightarrow> None
                 | Some n \<Rightarrow>
                     if n \<noteq> 0 then Some (-1, sv_send login_fail3 s)
                     else if \<not> q_up q then Some (-1, sv_send database_err s)
                     else case find_username q (sv_db s) (cstr (dc_username c)) of
                       (db, ok) \<Rightarrow>
                         if \<not> ok then Some (-1, sv_send login_fail1 (set_db db s))
                         else case get_pass_by_username q db (cstr (dc_username c)) (cstr (dc_password c)) of
                           None \<Rightarrow> None
                         | Some (db, ok) \<Rightarrow>
                             if \<not> ok then Some (-1, sv_send login_fail2 (set_db db s))
                             else Some (0, (sv_send login_ok (set_db db s))\<lparr>sv_clients := listAddNodeTail (sv_clients s) p\<rparr>))"

definition sv_logout :: "'db query_env \<Rightarrow> nat \<Rightarrow> byte list \<Rightarrow> 'db server \<Rightarrow> (int \<times> 'db server) option" where
  "sv_logout q p msg s =
     (case Option.bind (scan_lit (asc ''LOGOUT username='') (cstr msg)) scan_str of
        None \<Rightarrow> Some (0, s)
      | Some (name, _) \<Rightarrow>
          (case sv_heap s p of
             None \<Rightarrow> None
           | Some c \<Rightarrow>
               if 50 \<le> length name then None
               else
                 let c = c\<lparr>dc_username := strcpy_to (dc_username c) name\<rparr>;
                     s = set_client p c s
                 in case find_username q (sv_db s) (cstr (dc_username c)) of
                      (db, ok) \<Rightarrow>
                        let s = set_db db s in
                        if \<not> ok then Some (-1, sv_send logout_fail2 s)
                        else case find_client s (dc_username c) of
                          None \<Rightarrow> None
                        | Some n \<Rightarrow>
                            if n = 0 then Some (-1, sv_send logout_fail1 s)
                            else Some (0, sv_send logout_ok (s\<lparr>sv_clients := listDelNode (sv_clients s) n\<rparr>))))"

definition delete_job :: "'db query_env \<Rightarrow> byte list \<Rightarrow> 'db server \<Rightarrow> int \<times> 'db server" where
  "delete_job q msg s =
     (case Option.bind (scan_lit (asc ''DELE jobid='') (cstr msg)) scan_int of
        None \<Rightarrow> (FAILURE, s)
      | Some (job, _) \<Rightarrow>
          (case db_delete_job q (sv_db s) job of
             (db, ok) \<Rightarrow> if ok then (SUCCESS, sv_send delete_ok (set_db db s)) else (FAILURE, sv_send delete_fail (set_db db s))))"

definition list_job :: "'db query_env \<Rightarrow> 'db server \<Rightarrow> (int \<times> 'db server) option" where
  "list_job q s =
     (case db_get_job_list q (sv_db s) of
        None \<Rightarrow> None
      | Some (db, None) \<Rightarrow> Some (FAILURE, set_db db s)
      | Some (db, Some bufs) \<Rightarrow>
          let s = set_db db s in
          Some (SUCCESS, if bufs = [] then sv_send list_none s else s\<lparr>sv_session := send_job_info (sv_session s) bufs\<rparr>))"

section \<open>Serving a connection\<close>

datatype command = LOGIN | LOGOUT | REGISTER | BACK | REST | DELE | LIST

definition ClientCmds :: "(byte list \<times> command) list" where
  "ClientCmds = [(asc ''LOGIN'', LOGIN), (asc ''LOGOUT'', LOGOUT), (asc ''REGISTER'', REGISTER), (asc ''BACK'', BACK),
     (asc ''REST'', REST), (asc ''DELE'', DELE), (asc ''LIST'', LIST)]"

definition find_command :: "byte list \<Rightarrow> command option" where
  "find_command msg = map_option snd (List.find (\<lambda>(cmd, _). starts_with msg cmd) ClientCmds)"

definition in_session :: "('db session \<Rightarrow> (int \<times> 'db session) option) \<Rightarrow> 'db server \<Rightarrow> (int \<times> 'db server) option" where
  "in_session f s = map_option (\<lambda>(r, ss). (r, s\<lparr>sv_session := ss\<rparr>)) (f (sv_session s))"

definition run_command ::
    "'db server_env \<Rightarrow> 'db query_env \<Rightarrow> nat \<Rightarrow> byte list \<Rightarrow> 'db server \<Rightarrow> command \<Rightarrow> (int \<times> 'db server) option" where
  "run_command e q p msg s cmd =
     (case cmd of
        LOGIN \<Rightarrow> user_login q p msg s
      | LOGOUT \<Rightarrow> sv_logout q p msg s
      | REGISTER \<Rightarrow> register_user q p msg s
      | BACK \<Rightarrow>
          (case sv_heap s p of
             None \<Rightarrow> None
           | Some c \<Rightarrow> in_session (new_backup e (dc_user_id c) (dc_username c) msg) s)
      | REST \<Rightarrow> in_session (restore e msg) s
      | DELE \<Rightarrow> Some (delete_job q msg s)
      | LIST \<Rightarrow> list_job q s)"

text \<open>
  The loop of \<open>handle_client_request\<close> (without \<open>G_PIPELINE\<close>): it answers unknown commands and ends
  with the first known one. A message is received into 255 bytes and needs one more for its NUL.
\<close>

function request_loop :: "'db server_env \<Rightarrow> 'db query_env \<Rightarrow> nat \<Rightarrow> int \<Rightarrow> 'db server \<Rightarrow> 'db server option" where
  "request_loop e q p len s =
     (case net_recv (ss_in (sv_session s)) [] len of (r, len, d, ps) \<Rightarrow>
        let s = s\<lparr>sv_session := (sv_session s)\<lparr>ss_in := ps\<rparr>\<rparr> in
        if r = ERROR \<or> len \<le> 0 then Some s
        else if 254 < length d then None
        else case find_command d of
               Some cmd \<Rightarrow> map_option snd (run_command e q p d s cmd)
             | None \<Rightarrow> request_loop e q p len (sv_send command_err s))"
  by pat_completeness auto
termination
proof (relation "measure (\<lambda>(e, q, p, len, s). length (ss_in (sv_session s)))", goal_cases)
  case (2 e q p len s)
  then show ?case
    by (cases "ss_in (sv_session s)") (auto simp: sv_send_def dest!: sym [where t = "net_recv _ _ _"] net_recv_shorter)
qed simp

declare request_loop.simps [simp del]

definition handle_client_request :: "'db server_env \<Rightarrow> 'db query_env \<Rightarrow> 'db server \<Rightarrow> 'db server option" where
  "handle_client_request e q s =
     (case create_client q s of
        (s, None) \<Rightarrow> Some s
      | (s, Some p) \<Rightarrow> Option.bind (request_loop e q p 0 s) (free_client p))"

end
