(* ===== verification/AccountSession.thy ===== *)
theory AccountSession
  imports Accounts
begin

text \<open>
  The commands about users and jobs from the client's side (client/src/handle.c), and what comes of
  them on the server: who is in the list of clients, who may log in or register, what a list of jobs
  looks like when it arrives, and what is left of a job that could not be deleted.
\<close>

section \<open>The client\<close>

text \<open>
  A command returns its result, what it has not received yet and what it sends; an answer is received
  into a cleared buffer of 256 bytes. The socket is open: \<open>main\<close> ends otherwise.
\<close>

definition recv_answer :: "packet list \<Rightarrow> (int \<times> byte list \<times> packet list) option" where
  "recv_answer ps = (case net_recv ps [] 0 of (r, len, d, ps) \<Rightarrow> if 255 < length d then None else Some (r, d, ps))"

definition account_msg :: "string \<Rightarrow> byte list \<Rightarrow> byte list \<Rightarrow> byte list" where
  "account_msg cmd name password = asc cmd @ asc '' username='' @ cstr name @ asc '' password='' @ cstr password"

definition cl_register :: "byte list \<Rightarrow> byte list \<Rightarrow> packet list \<Rightarrow> (int \<times> packet list \<times> packet list) option" where
  "cl_register name password ps =
     map_option (\<lambda>(r, d, ps).
       (if r \<le> 0 \<or> \<not> starts_with d register_ok \<and> starts_with d register_fail then FAILURE else SUCCESS, ps,
        [Data (account_msg ''REGISTER'' name password)])) (recv_answer ps)"

text \<open>An answer to \<open>login\<close> that is none of those below counts as a success.\<close>

definition login :: "byte list \<Rightarrow> byte list \<Rightarrow> packet list \<Rightarrow> (int \<times> packet list \<times> packet list) option" where
  "login name password ps =
     map_option (\<lambda>(r, d, ps).
       (if r \<le> 0 \<or> \<not> starts_with d login_ok \<and>
          list_ex (starts_with d) [login_fail1, login_fail2, login_fail3, command_err, database_err] then FAILURE else SUCCESS,
        ps, [Data (account_msg ''LOGIN'' name password)])) (recv_answer ps)"

text \<open>\<open>logout\<close> is refused while a job is running.\<close>

definition logout :: "bool \<Rightarrow> byte list \<Rightarrow> packet list \<Rightarrow> (int \<times> packet list \<times> packet list) option" where
  "logout running name ps =
     (if running then Some (FAILURE, ps, [])
      else map_option (\<lambda>(r, d, ps).
       (if r \<le> 0 \<or> \<not> starts_with d logout_ok \<and> (starts_with d logout_fail1 \<or> starts_with d logout_fail2) then FAILURE else SUCCESS,
        ps, [Data (asc ''LOGOUT username='' @ cstr name)])) (recv_answer ps))"

definition delete_client :: "int \<Rightarrow> packet list \<Rightarrow> (int \<times> packet list \<times> packet list) option" where
  "delete_client job ps =
     map_option (\<lambda>(r, d, ps).
       (if r \<le> 0 \<or> \<not> starts_with d delete_ok then FAILURE else SUCCESS, ps, [Data (asc ''DELE jobid='' @ show_int job)]))
       (recv_answer ps)"

text \<open>
  \<open>list_client\<close> also returns the lines that it prints. The list is received into 292 bytes for every
  job, and a line is copied to 288 cleared bytes and printed up to its NUL.
\<close>

fun job_lines :: "nat \<Rightarrow> byte list \<Rightarrow> byte list list option" where
  "job_lines 0 p = Some []"
| "job_lines (Suc n) p =
     (let len = get_int 4 p; line = take (nat len) (drop 4 p) in
      if length p < 4 \<or> len < 0 \<or> length line < nat len \<or> 288 \<le> len then None
      else map_option (\<lambda>ls. cstr line # ls) (job_lines n (drop (nat len) (drop 4 p))))"

definition list_client :: "packet list \<Rightarrow> (int \<times> byte list list \<times> packet list \<times> packet list) option" where
  "list_client ps =
     (let sent = [Data (asc ''LIST'')] in
      case recv_answer ps of
        None \<Rightarrow> None
      | Some (r, d, ps) \<Rightarrow>
          if r \<le> 0 then Some (FAILURE, [], ps, sent)
          else if cstr d = list_none then Some (SUCCESS, [], ps, sent)
          else
            let job_num = get_int 4 (d @ replicate 4 0) in
            case net_recv ps [] 0 of (r, len, b, ps) \<Rightarrow>
              if r \<le> 0 then Some (FAILURE, [], ps, sent)
              else if job_num * 292 \<le> int (length b) then None
              else map_option (\<lambda>ls. (SUCCESS, ls, ps, sent)) (job_lines (nat job_num) b))"

section \<open>The list of clients\<close>

definition clients_are :: "'db server \<Rightarrow> nat list \<Rightarrow> bool" where
  "clients_are s xs \<longleftrightarrow> adlist_rep (sv_clients s) xs \<and> (\<forall>x\<in>set xs. sv_heap s x \<noteq> None) \<and> (\<forall>x. sv_heap s x \<noteq> None \<longrightarrow> x < sv_brk s)"

definition name_of :: "'db server \<Rightarrow> nat \<Rightarrow> byte list" where
  "name_of s x = (case sv_heap s x of None \<Rightarrow> [] | Some c \<Rightarrow> cstr (dc_username c))"

lemma client_match_live: "sv_heap s x \<noteq> None \<Longrightarrow> client_match (sv_heap s) x key \<longleftrightarrow> name_of s x = cstr key"
  by (auto simp: client_match_def name_of_def strcmp_eq_def)

lemma adlist_at_data: "adlist_at l p us x ws \<Longrightarrow> p \<noteq> 0 \<and> node_data (al_nodes l) p = Some x"
  unfolding adlist_at_def by (auto elim!: dll_at_node simp: node_data_def)

lemma adlist_at_unique:
  assumes "adlist_rep l (us @ x # ws)" "match x key" "\<forall>u\<in>set us. \<not> match u key"
  shows "adlist_at l (listSearchKey match l key) us x ws"
  using listSearchKey_spec [OF assms(1), of match key]
proof (elim disjE exE conjE)
  fix us' x' ws' assume h: "us @ x # ws = us' @ x' # ws'" "match x' key" "\<forall>u\<in>set us'. \<not> match u key"
    "adlist_at l (listSearchKey match l key) us' x' ws'"
  have "length us = length us'"
  proof (rule ccontr)
    assume "length us \<noteq> length us'"
    then consider "length us < length us'" | "length us' < length us" by linarith
    then show False
    proof cases
      case 1
      then have "(us' @ x' # ws') ! length us = us' ! length us" by (simp add: nth_append)
      with h(1,3) 1 assms(2) show False by (metis nth_append_length nth_mem)
    next
      case 2
      then have "(us @ x # ws) ! length us' = us ! length us'" by (simp add: nth_append)
      with h(1,2) 2 assms(3) show False by (metis nth_append_length nth_mem)
    qed
  qed
  with h(1,4) show ?thesis by simp
qed (use assms(2) in auto)

lemma find_client_none:
  assumes "clients_are s xs" "\<forall>x\<in>set xs. name_of s x \<noteq> cstr key"
  shows "find_client s key = Some 0"
proof -
  have "\<forall>x\<in>set xs. \<not> client_match (sv_heap s) x key" using assms client_match_live unfolding clients_are_def by blast
  moreover have "adlist_rep (sv_clients s) xs" using assms(1) by (simp add: clients_are_def)
  ultimately have "listSearchKey (client_match (sv_heap s)) (sv_clients s) key = 0" by (simp add: listSearchKey_none)
  then show ?thesis by (simp add: find_client_def)
qed

lemma find_client_first:
  assumes "clients_are s (us @ x # ws)" "name_of s x = cstr key" "\<forall>u\<in>set us. name_of s u \<noteq> cstr key"
  shows "\<exists>p. find_client s key = Some p \<and> p \<noteq> 0 \<and> adlist_at (sv_clients s) p us x ws"
proof -
  have live: "sv_heap s x \<noteq> None" "\<forall>u\<in>set us. sv_heap s u \<noteq> None" "adlist_rep (sv_clients s) (us @ x # ws)"
    using assms(1) by (auto simp: clients_are_def)
  then have "client_match (sv_heap s) x key" "\<forall>u\<in>set us. \<not> client_match (sv_heap s) u key"
    using assms(2,3) client_match_live by blast+
  from adlist_at_unique [where match = "client_match (sv_heap s)", OF live(3) this]
  have at: "adlist_at (sv_clients s) (listSearchKey (client_match (sv_heap s)) (sv_clients s) key) us x ws" .
  from adlist_at_data [OF at] live(1) at show ?thesis by (auto simp: find_client_def Let_def)
qed

text \<open>A search that reaches a freed client.\<close>

lemma find_client_freed:
  assumes "adlist_rep (sv_clients s) (us @ x # ws)" "sv_heap s x = None" "\<forall>u\<in>set us. sv_heap s u \<noteq> None \<and> name_of s u \<noteq> cstr key"
  shows "find_client s key = None"
proof -
  have "client_match (sv_heap s) x key" "\<forall>u\<in>set us. \<not> client_match (sv_heap s) u key"
    using assms(2,3) client_match_live by (auto simp: client_match_def) blast
  from adlist_at_data [OF adlist_at_unique [where match = "client_match (sv_heap s)", OF assms(1) this]] assms(2)
  show ?thesis by (simp add: find_client_def Let_def)
qed

lemma sv_simps [simp]:
  "sv_clients (sv_send m s) = sv_clients s" "sv_heap (sv_send m s) = sv_heap s" "sv_brk (sv_send m s) = sv_brk s"
  "sv_conns (sv_send m s) = sv_conns s" "sv_session (sv_send m s) = send m (sv_session s)"
  "sv_clients (set_db db s) = sv_clients s" "sv_heap (set_db db s) = sv_heap s" "sv_brk (set_db db s) = sv_brk s"
  "sv_conns (set_db db s) = sv_conns s" "sv_session (set_db db s) = (sv_session s)\<lparr>ss_db := db\<rparr>"
  "sv_clients (set_client p c s) = sv_clients s" "sv_heap (set_client p c s) = (sv_heap s)(p \<mapsto> c)"
  "sv_brk (set_client p c s) = sv_brk s" "sv_conns (set_client p c s) = sv_conns s" "sv_session (set_client p c s) = sv_session s"
  by (simp_all add: sv_send_def set_db_def set_client_def)

lemma cstr_cstr [simp]: "cstr (cstr b) = cstr b"
  by (rule cstr_id) simp

lemma create_client_spec:
  assumes "clients_are s xs" "q_up q"
  obtains p c s1 where "create_client q s = (s1, Some p)" "clients_are s1 (xs @ [p])" "p \<notin> set xs" "sv_heap s p = None"
    "sv_heap s1 = (sv_heap s)(p \<mapsto> c)" "cstr (dc_username c) = asc ''yangyf''" "dc_open c"
    "sv_session s1 = sv_session s" "sv_conns s1 = sv_conns s + 1"
proof -
  let ?p = "sv_brk s" and ?c = "\<lparr>dc_username = name_buf 50 (asc ''yangyf''), dc_password = memset0 50, dc_user_id = 11, dc_open = True\<rparr>"
  let ?s1 = "s\<lparr>sv_heap := (sv_heap s)(?p \<mapsto> ?c), sv_brk := ?p + 1, sv_clients := listAddNodeTail (sv_clients s) ?p,
    sv_conns := sv_conns s + 1\<rparr>"
  have fresh: "sv_heap s ?p = None" using assms(1) by (auto simp: clients_are_def)
  have "adlist_rep (sv_clients s) xs" using assms(1) by (simp add: clients_are_def)
  then have "adlist_rep (sv_clients ?s1) (xs @ [?p])" by (simp add: listAddNodeTail_rep)
  then have "clients_are ?s1 (xs @ [?p])" using assms(1) by (auto simp: clients_are_def less_Suc_eq)
  moreover have "?p \<notin> set xs" using assms(1) fresh by (auto simp: clients_are_def)
  moreover have "create_client q s = (?s1, Some ?p)" using assms(2) by (simp add: create_client_def Let_def)
  moreover have "0 \<notin> set (asc ''yangyf'')" by (simp add: asc_def)
  then have "cstr (dc_username ?c) = asc ''yangyf''" by simp
  ultimately show thesis using that [of ?s1 ?p ?c] fresh by simp
qed

lemma free_client_own:
  assumes "clients_are s (us @ p # ws)" "p \<notin> set (us @ ws)" "sv_heap s p = Some c" "dc_open c" "cstr (dc_username c) \<noteq> []"
    "\<forall>u\<in>set us. name_of s u \<noteq> cstr (dc_username c)"
  obtains s' where "free_client p s = Some s'" "clients_are s' (us @ ws)" "sv_heap s' = (sv_heap s)(p := None)"
    "sv_session s' = sv_session s" "sv_conns s' = sv_conns s - 1"
proof -
  have "name_of s p = cstr (dc_username c)" using assms(3) by (simp add: name_of_def)
  from find_client_first [OF assms(1) this assms(6)] obtain n where n: "find_client s (dc_username c) = Some n" "n \<noteq> 0"
    "adlist_at (sv_clients s) n us p ws" by blast
  let ?s' = "s\<lparr>sv_clients := listDelNode (sv_clients s) n, sv_heap := (sv_heap s)(p := None), sv_conns := sv_conns s - 1\<rparr>"
  have "free_client p s = Some ?s'" using n assms(3,4,5) by (simp add: free_client_def close_client_def)
  moreover have "clients_are ?s' (us @ ws)" using listDelNode_rep [OF n(3)] assms(1,2) by (auto simp: clients_are_def)
  ultimately show thesis using that [of ?s'] by simp
qed

section \<open>Commands on the wire\<close>

definition word :: "byte list \<Rightarrow> bool" where
  "word w \<longleftrightarrow> w \<noteq> [] \<and> (\<forall>c\<in>set w. c \<noteq> 0 \<and> \<not> is_space c)"

lemma wordD: "word w \<Longrightarrow> cstr w = w" "word w \<Longrightarrow> scan_str (w @ 32 # r) = Some (w, 32 # r)" "word w \<Longrightarrow> scan_str w = Some (w, [])"
  using scan_str_word [of w "32 # r"] scan_str_word [of w "[]"] by (auto simp: word_def is_space_def)

lemma scan_lit_blank_word:
  assumes "\<not> is_space f" "\<forall>c\<in>set fs. \<not> is_space c"
  shows "scan_lit (32 # f # fs) (32 # f # fs @ s) = Some s"
proof -
  have "scan_lit (32 # f # fs) (32 # f # fs @ s) = scan_lit (f # fs) ((f # fs) @ s)"
    using scan_blank [OF assms(1)] by simp
  also have "\<dots> = Some s" using assms by (intro scan_lit_same) simp
  finally show ?thesis .
qed

lemma asc_parts: "asc '' username='' = 32 # 117 # asc ''sername=''" "asc '' password='' = 32 # 112 # asc ''assword=''"
  "\<not> is_space 117" "\<not> is_space 112" "\<forall>c\<in>set (asc ''sername=''). \<not> is_space c" "\<forall>c\<in>set (asc ''assword=''). \<not> is_space c"
  "0 \<notin> set (asc '' username='')" "0 \<notin> set (asc '' password='')"
  by (simp_all add: asc_def is_space_def)

lemma scan_user: "scan_lit (asc '' username='') (asc '' username='' @ s) = Some s"
  "scan_lit (asc '' password='') (asc '' password='' @ s) = Some s"
  using scan_lit_blank_word [OF asc_parts(3,5)] scan_lit_blank_word [OF asc_parts(4,6)] by (simp_all add: asc_parts)

lemma scan_account_msg:
  assumes "word u" "word p" "\<forall>c\<in>set (asc cmd). c \<noteq> 0 \<and> \<not> is_space c"
  shows "scan_account cmd (cstr (account_msg cmd u p)) = (Some u, Some p)"
proof -
  have n: "0 \<notin> set (asc cmd)" "0 \<notin> set u" "0 \<notin> set p" using assms by (auto simp: word_def)
  have m: "cstr (account_msg cmd u p) = asc cmd @ asc '' username='' @ u @ asc '' password='' @ p"
    using n asc_parts(7,8) by (simp add: account_msg_def cstr_append)
  have "scan_lit (asc cmd @ asc '' username='') (asc cmd @ asc '' username='' @ s) = Some s" for s
    using assms(3) by (subst scan_lit_split) (simp_all add: scan_user)
  moreover have "scan_str (u @ asc '' password='' @ p) = Some (u, asc '' password='' @ p)"
    using wordD(2) [OF assms(1)] by (simp add: asc_parts)
  ultimately show ?thesis using wordD(3) [OF assms(2)] by (simp add: scan_account_def m scan_user)
qed

lemma account_cmds: "\<forall>c\<in>set (asc ''LOGIN''). c \<noteq> 0 \<and> \<not> is_space c" "\<forall>c\<in>set (asc ''REGISTER''). c \<noteq> 0 \<and> \<not> is_space c"
  by (simp_all add: asc_def is_space_def)

lemma account_msg_length: "word u \<Longrightarrow> word p \<Longrightarrow> length (account_msg cmd u p) = length cmd + 20 + length u + length p"
  using wordD(1) [of u] wordD(1) [of p] by (simp add: account_msg_def asc_def)

lemma find_command_simps:
  "find_command (account_msg ''LOGIN'' u p) = Some LOGIN"
  "find_command (account_msg ''REGISTER'' u p) = Some REGISTER"
  "find_command (asc ''DELE jobid='' @ r) = Some DELE"
  "find_command (asc ''LIST'') = Some LIST"
  by (simp_all add: find_command_def ClientCmds_def account_msg_def starts_with_def asc_def)

text \<open>A connection on which one known command arrives.\<close>

lemma one_command:
  assumes "ss_in (sv_session s) = [Data m]" "m \<noteq> []" "length m \<le> 254" "find_command m = Some cmd" "create_client q s = (s1, Some p)"
    "sv_session s1 = sv_session s"
  shows "handle_client_request e q s =
    Option.bind (map_option snd (run_command e q p m (s1\<lparr>sv_session := (sv_session s)\<lparr>ss_in := []\<rparr>\<rparr>) cmd)) (free_client p)"
  using assms by (simp add: handle_client_request_def request_loop.simps [of e q p 0 s1])

lemma clients_are_cong:
  "clients_are s xs \<Longrightarrow> sv_clients s' = sv_clients s \<Longrightarrow> dom (sv_heap s') = dom (sv_heap s) \<Longrightarrow> sv_brk s' = sv_brk s \<Longrightarrow> clients_are s' xs"
  unfolding clients_are_def by (metis domIff)

section \<open>Logging in\<close>

lemma answer_lengths: "length login_fail3 \<le> 255" "login_fail3 \<noteq> []" "\<not> starts_with login_fail3 login_ok" "starts_with login_fail3 login_fail3"
  by (simp_all add: login_fail3_def login_ok_def asc_def starts_with_def)

text \<open>C33: nobody can log in. Whoever sends a well-formed \<open>LOGIN\<close> is told that the name is logged on
  already, whatever the database holds: the client is put into the list of clients before its command is
  read, and the command writes the name into that very client before it looks for the name in the list.
  The client reports the failure, and the server is left as it was.\<close>

theorem login_refused:
  assumes "clients_are s xs" "q_up q" "word u" "word p" "length u < 50" "length p < 50" "\<forall>x\<in>set xs. name_of s x \<noteq> u"
    and "ss_in (sv_session s) = [Data (account_msg ''LOGIN'' u p)]"
  shows "\<exists>s'. handle_client_request e q s = Some s' \<and> clients_are s' xs \<and> sv_heap s' = sv_heap s \<and> sv_conns s' = sv_conns s \<and>
    ss_out (sv_session s') = ss_out (sv_session s) @ [Data login_fail3] \<and>
    login u p [Data login_fail3] = Some (FAILURE, [], [Data (account_msg ''LOGIN'' u p)])"
proof -
  let ?m = "account_msg ''LOGIN'' u p"
  obtain a c s1 where c: "create_client q s = (s1, Some a)" "clients_are s1 (xs @ [a])" "a \<notin> set xs" "sv_heap s a = None"
    "sv_heap s1 = (sv_heap s)(a \<mapsto> c)" "cstr (dc_username c) = asc ''yangyf''" "dc_open c"
    "sv_session s1 = sv_session s" "sv_conns s1 = sv_conns s + 1" using create_client_spec [OF assms(1,2)] .
  have m: "?m \<noteq> []" "length ?m \<le> 254" using account_msg_length [OF assms(3,4), of "''LOGIN''"] assms(5,6) by auto
  define c' where "c' = c\<lparr>dc_username := strcpy_to (dc_username c) u, dc_password := strcpy_to (dc_password c) p\<rparr>"
  define s2 where "s2 = set_client a c' (s1\<lparr>sv_session := (sv_session s)\<lparr>ss_in := []\<rparr>\<rparr>)"
  have cl: "clients_are s2 (xs @ [a])" using c(2) by (rule clients_are_cong) (auto simp: s2_def c(5))
  have n: "cstr (dc_username c') = u" "dc_open c'" "sv_heap s2 a = Some c'"
    using c(7) wordD(1) [OF assms(3)] by (simp_all add: c'_def s2_def)
  then have na: "name_of s2 a = cstr (dc_username c')" by (simp add: name_of_def)
  have nx: "\<forall>x\<in>set xs. name_of s2 x \<noteq> cstr (dc_username c')"
    using assms(7) c(3,5) n(1) by (auto simp: name_of_def s2_def)
  obtain k where k: "find_client s2 (dc_username c') = Some k" "k \<noteq> 0" using find_client_first [OF cl na nx] by blast
  have r: "run_command e q a ?m (s1\<lparr>sv_session := (sv_session s)\<lparr>ss_in := []\<rparr>\<rparr>) LOGIN = Some (-1, sv_send login_fail3 s2)"
    using k scan_account_msg [OF assms(3,4) account_cmds(1)] assms(5,6)
    by (simp add: run_command_def user_login_def c(5) word_fits_def Let_def c'_def [symmetric] s2_def [symmetric])
  let ?s3 = "sv_send login_fail3 s2"
  have cl3: "clients_are ?s3 (xs @ a # [])" using cl by (simp add: clients_are_def)
  have nx3: "\<forall>x\<in>set xs. name_of ?s3 x \<noteq> cstr (dc_username c')" using nx by (simp add: name_of_def)
  obtain s' where s': "free_client a ?s3 = Some s'" "clients_are s' (xs @ [])" "sv_heap s' = (sv_heap ?s3)(a := None)"
    "sv_session s' = sv_session ?s3" "sv_conns s' = sv_conns ?s3 - 1"
    using free_client_own [OF cl3 _ _ n(2) _ nx3] c(3) n assms(3) by (auto simp: word_def)
  have "handle_client_request e q s = Some s'"
    using one_command [OF assms(8) m find_command_simps(1) c(1,8)] r s'(1) by simp
  moreover have "sv_heap s' = sv_heap s" using s'(3) c(4,5) by (auto simp: s2_def fun_eq_iff)
  moreover have "login u p [Data login_fail3] = Some (FAILURE, [], [Data ?m])"
    using answer_lengths by (simp add: login_def recv_answer_def)
  ultimately show ?thesis using s' c(9) by (auto simp: s2_def)
qed

section \<open>Registering\<close>

text \<open>What SQL promises: a user that the query by name has found is found by the query of the insertion,
  unless that query fails.\<close>

definition queries_agree :: "'db query_env \<Rightarrow> byte list \<Rightarrow> bool" where
  "queries_agree q name \<longleftrightarrow>
     (\<forall>db db1 row. q_run q db (find_query name) = (db1, Some [row]) \<longrightarrow> snd (q_run q db1 (select_query name)) \<noteq> Some [])"

lemma free_client_closed:
  assumes "clients_are s (us @ p # ws)" "sv_heap s p = Some c" "\<not> dc_open c" "\<forall>u\<in>set us. name_of s u \<noteq> cstr (dc_username c)"
  shows "free_client p s = None"
proof -
  have "name_of s p = cstr (dc_username c)" using assms(2) by (simp add: name_of_def)
  from find_client_first [OF assms(1) this assms(4)] assms(2,3) show ?thesis
    by (auto simp: free_client_def close_client_def)
qed

lemma register_user_fails:
  assumes "sv_heap s a = Some c" "word u" "word p" "length u < 50" "length p < 50" "q_up q" "queries_agree q u"
  shows "\<exists>db m. m \<in> {register_fail, []} \<and> register_user q a (account_msg ''REGISTER'' u p) s =
    Some (-1, sv_send m (set_db db (set_client a (c\<lparr>dc_open := False\<rparr>) s)))"
proof -
  let ?s = "set_client a (c\<lparr>dc_open := False\<rparr>) s"
  have db: "sv_db ?s = sv_db s" by (simp add: sv_db_def)
  obtain db ok where f: "find_username q (sv_db s) u = (db, ok)" by fastforce
  show ?thesis
  proof (cases ok)
    case False
    then show ?thesis using f assms scan_account_msg [OF assms(2,3) account_cmds(2)]
      by (intro exI [of _ db] exI [of _ register_fail]) (simp add: register_user_def word_fits_def Let_def db)
  next
    case True
    then obtain row where "q_run q (sv_db s) (find_query u) = (db, Some [row])"
      using f by (auto simp: find_username_def length_Suc_conv split: prod.splits option.splits)
    then have "snd (q_run q db (select_query u)) \<noteq> Some []" using assms(7) unfolding queries_agree_def by blast
    then have "\<not> snd (insert_record_into_user q db u p)"
      by (auto simp: insert_record_into_user_def split: prod.splits option.splits)
    then obtain db2 where "insert_record_into_user q db u p = (db2, False)" by (cases "insert_record_into_user q db u p") auto
    then show ?thesis using f True assms scan_account_msg [OF assms(2,3) account_cmds(2)]
      by (intro exI [of _ db2] exI [of _ "[]"]) (simp add: register_user_def word_fits_def Let_def db)
  qed
qed

text \<open>C34: nobody can register, and whoever tries takes the server down. The test for an existing name is
  the wrong way round, so the answer is a failure (or an empty message) in any case; and the handler closes the
  client's database object, which frees it, so that closing the client at the end of the connection frees it again.\<close>

theorem register_takes_server_down:
  assumes "clients_are s []" "q_up q" "word u" "word p" "length u < 50" "length p < 50" "queries_agree q u"
    and "ss_in (sv_session s) = [Data (account_msg ''REGISTER'' u p)]"
  shows "handle_client_request e q s = None \<and>
    (\<forall>s1 a c. sv_heap s1 a = Some c \<longrightarrow> (\<exists>s2 m. register_user q a (account_msg ''REGISTER'' u p) s1 = Some (-1, s2) \<and>
      ss_out (sv_session s2) = ss_out (sv_session s1) @ [Data m] \<and>
      cl_register u p [Data m] = Some (FAILURE, [], [Data (account_msg ''REGISTER'' u p)])))"
proof
  let ?m = "account_msg ''REGISTER'' u p"
  obtain a c s1 where c: "create_client q s = (s1, Some a)" "clients_are s1 ([] @ [a])" "a \<notin> set []" "sv_heap s a = None"
    "sv_heap s1 = (sv_heap s)(a \<mapsto> c)" "cstr (dc_username c) = asc ''yangyf''" "dc_open c"
    "sv_session s1 = sv_session s" "sv_conns s1 = sv_conns s + 1" using create_client_spec [OF assms(1,2)] .
  have m: "?m \<noteq> []" "length ?m \<le> 254" using account_msg_length [OF assms(3,4), of "''REGISTER''"] assms(5,6) by auto
  let ?s1 = "s1\<lparr>sv_session := (sv_session s)\<lparr>ss_in := []\<rparr>\<rparr>"
  have "sv_heap ?s1 a = Some c" using c(5) by simp
  from register_user_fails [OF this assms(3-6,2,7)] obtain db t where
    r: "register_user q a ?m ?s1 = Some (-1, sv_send t (set_db db (set_client a (c\<lparr>dc_open := False\<rparr>) ?s1)))" by blast
  let ?s2 = "sv_send t (set_db db (set_client a (c\<lparr>dc_open := False\<rparr>) ?s1))"
  have "clients_are ?s2 ([] @ a # [])" using c(2) by (rule clients_are_cong [where s = s1, unfolded append_Nil]) (auto simp: c(5))
  then have "free_client a ?s2 = None" by (rule free_client_closed [where c = "c\<lparr>dc_open := False\<rparr>"]) simp_all
  then show "handle_client_request e q s = None"
    using one_command [OF assms(8) m find_command_simps(2) c(1,8)] r by (simp add: run_command_def)
  show "\<forall>s1 a c. sv_heap s1 a = Some c \<longrightarrow> (\<exists>s2 m. register_user q a ?m s1 = Some (-1, s2) \<and>
      ss_out (sv_session s2) = ss_out (sv_session s1) @ [Data m] \<and> cl_register u p [Data m] = Some (FAILURE, [], [Data ?m]))"
  proof (intro allI impI)
    fix s1 :: "'a server" and a c assume "sv_heap s1 a = Some c"
    from register_user_fails [OF this assms(3-6,2,7)] obtain db m where M: "m \<in> {register_fail, []}"
      "register_user q a ?m s1 = Some (-1, sv_send m (set_db db (set_client a (c\<lparr>dc_open := False\<rparr>) s1)))" by blast
    have "length register_fail \<le> 255" "\<not> starts_with register_fail register_ok" "starts_with register_fail register_fail"
      by (simp_all add: register_fail_def register_ok_def asc_def starts_with_def)
    with M(1) have "cl_register u p [Data m] = Some (FAILURE, [], [Data ?m])" by (auto simp: cl_register_def recv_answer_def)
    with M(2) show "\<exists>s2 m. register_user q a ?m s1 = Some (-1, s2) \<and>
      ss_out (sv_session s2) = ss_out (sv_session s1) @ [Data m] \<and> cl_register u p [Data m] = Some (FAILURE, [], [Data ?m])" by auto
  qed
qed

section \<open>Leaving\<close>

text \<open>Every client is called yangyf, and a client that leaves takes the first one of that name out of
  the list. If that is another client, the one that left stays in the list after it has been freed, and the
  next search that gets as far as that reads freed memory.\<close>

lemma leaving_client_dangles:
  assumes "clients_are s (us @ a # vs @ b # ws)" "a \<noteq> b" "b \<notin> set us" "b \<notin> set vs" "name_of s a = name_of s b" "name_of s b \<noteq> []"
    and "\<forall>u\<in>set us. name_of s u \<noteq> name_of s b" "sv_heap s b = Some c" "dc_open c"
  shows "\<exists>s'. free_client b s = Some s' \<and> adlist_rep (sv_clients s') (us @ vs @ b # ws) \<and> sv_heap s' b = None \<and>
    (\<forall>key. (\<forall>u\<in>set (us @ vs). name_of s u \<noteq> cstr key) \<longrightarrow> find_client s' key = None)"
proof -
  have n: "name_of s b = cstr (dc_username c)" using assms(8) by (simp add: name_of_def)
  have "name_of s a = cstr (dc_username c)" "\<forall>u\<in>set us. name_of s u \<noteq> cstr (dc_username c)" using n assms(5,7) by simp_all
  from find_client_first [OF assms(1) this] obtain k where k: "find_client s (dc_username c) = Some k" "k \<noteq> 0"
    "adlist_at (sv_clients s) k us a (vs @ b # ws)" by blast
  let ?s' = "s\<lparr>sv_clients := listDelNode (sv_clients s) k, sv_heap := (sv_heap s)(b := None), sv_conns := sv_conns s - 1\<rparr>"
  have f: "free_client b s = Some ?s'" using k assms(6,8,9) n by (simp add: free_client_def close_client_def)
  have l: "adlist_rep (sv_clients ?s') (us @ vs @ b # ws)" using listDelNode_rep [OF k(3)] by simp
  have live: "\<forall>u\<in>set (us @ vs). sv_heap s u \<noteq> None" using assms(1) by (auto simp: clients_are_def)
  have "find_client ?s' key = None" if "\<forall>u\<in>set (us @ vs). name_of s u \<noteq> cstr key" for key
  proof (rule find_client_freed)
    show "adlist_rep (sv_clients ?s') ((us @ vs) @ b # ws)" using l by simp
    show "\<forall>u\<in>set (us @ vs). sv_heap ?s' u \<noteq> None \<and> name_of ?s' u \<noteq> cstr key"
    proof
      fix u assume u: "u \<in> set (us @ vs)"
      then have "u \<noteq> b" using assms(3,4) by auto
      with u live that show "sv_heap ?s' u \<noteq> None \<and> name_of ?s' u \<noteq> cstr key" by (simp add: name_of_def)
    qed
  qed simp
  with f l show ?thesis by (intro exI [of _ ?s']) simp
qed

section \<open>A whole connection\<close>

lemma scan_lit_set: "scan_lit f s = Some s' \<Longrightarrow> set s' \<subseteq> set s"
proof (induction f s rule: scan_lit.induct)
  case (2 f fs s)
  then show ?case
    by (fastforce split: if_splits list.splits dest: set_dropWhileD)
qed simp

lemma scan_str_set: "scan_str s = Some (w, s') \<Longrightarrow> w \<noteq> [] \<and> set w \<subseteq> set s \<and> set s' \<subseteq> set s"
  by (auto simp: scan_str_def Let_def split: if_splits dest!: set_takeWhileD set_dropWhileD)

lemma scan_word_nonempty:
  assumes "scan_lit f (cstr m) = Some r" "scan_str r = Some (w, t)"
  shows "cstr w \<noteq> []"
proof -
  have "w \<noteq> []" "set w \<subseteq> set (cstr m)" using scan_lit_set [OF assms(1)] scan_str_set [OF assms(2)] by auto
  moreover from this have "0 \<notin> set w" using zero_not_in_cstr [of m] by blast
  ultimately show ?thesis by simp
qed

lemma scan_account_word: "scan_account cmd (cstr m) = (Some w, pw) \<Longrightarrow> cstr w \<noteq> []"
  by (auto simp: scan_account_def split: option.splits prod.splits dest!: scan_word_nonempty)

text \<open>The client \<open>p\<close> is the only one in the list; or it has logged out and is in no list any more.\<close>

definition attached :: "nat \<Rightarrow> 'db server \<Rightarrow> 'db server \<Rightarrow> bool" where
  "attached p s0 s \<longleftrightarrow> clients_are s [p] \<and> (\<exists>c. sv_heap s = (sv_heap s0)(p \<mapsto> c) \<and> cstr (dc_username c) \<noteq> []) \<and> sv_conns s = sv_conns s0"

definition detached :: "nat \<Rightarrow> 'db server \<Rightarrow> 'db server \<Rightarrow> bool" where
  "detached p s0 s \<longleftrightarrow> clients_are s [] \<and> (\<exists>c. sv_heap s = (sv_heap s0)(p \<mapsto> c) \<and> cstr (dc_username c) \<noteq> []) \<and> sv_conns s = sv_conns s0 \<and>
     ss_out (sv_session s) \<noteq> [] \<and> last (ss_out (sv_session s)) = Data logout_ok"

lemma attached_send [simp]: "attached p s0 (sv_send m s) = attached p s0 s" "attached p s0 (set_db db s) = attached p s0 s"
  "attached p s0 (s\<lparr>sv_session := ss\<rparr>) = attached p s0 s"
  by (simp_all add: attached_def clients_are_def)

lemma attached_set_client: "attached p s0 s \<Longrightarrow> cstr (dc_username c) \<noteq> [] \<Longrightarrow> attached p s0 (set_client p c s)"
  by (auto simp: attached_def clients_are_def)

lemma attached_client: "attached p s0 s \<Longrightarrow> \<exists>c. sv_heap s p = Some c \<and> cstr (dc_username c) \<noteq> []"
  by (auto simp: attached_def)

lemma attached_find:
  assumes "attached p s0 s" "sv_heap s p = Some c"
  shows "\<exists>n. find_client s (dc_username c) = Some n \<and> n \<noteq> 0 \<and> adlist_at (sv_clients s) n [] p []"
proof -
  have "clients_are s ([] @ p # [])" using assms(1) by (simp add: attached_def)
  moreover have "name_of s p = cstr (dc_username c)" using assms(2) by (simp add: name_of_def)
  ultimately show ?thesis using find_client_first by fastforce
qed

lemma user_login_attached:
  assumes "attached p s0 s" "user_login q p m s = Some (r, s')"
  shows "attached p s0 s'"
proof -
  obtain c where c: "sv_heap s p = Some c" "cstr (dc_username c) \<noteq> []" using attached_client [OF assms(1)] by blast
  obtain u pw where a: "scan_account ''LOGIN'' (cstr m) = (u, pw)" by fastforce
  define c' where "c' = c\<lparr>dc_username := (case u of None \<Rightarrow> dc_username c | Some w \<Rightarrow> strcpy_to (dc_username c) w),
    dc_password := (case pw of None \<Rightarrow> dc_password c | Some w \<Rightarrow> strcpy_to (dc_password c) w)\<rparr>"
  have "cstr (dc_username c') \<noteq> []" using c(2) scan_account_word a by (auto simp: c'_def split: option.splits)
  from attached_set_client [OF assms(1) this] have A: "attached p s0 (set_client p c' s)" .
  from attached_find [OF this, of c'] obtain n where n: "find_client (set_client p c' s) (dc_username c') = Some n" "n \<noteq> 0" by auto
  note L = assms(2) [unfolded user_login_def a prod.case c(1) option.case Let_def, folded c'_def]
  have "\<not> (\<not> word_fits 50 u \<or> \<not> word_fits 50 pw)" using L by (rule contrapos_pn) simp
  note L = L [unfolded if_not_P [OF this] n(1) option.case if_P [OF n(2)]]
  have "s' = sv_send command_err (set_client p c' s) \<or> s' = sv_send login_fail3 (set_client p c' s)"
    using L by (cases "pw = None") simp_all
  with A show ?thesis by auto
qed

lemma sv_logout_attached:
  assumes "attached p s0 s" "sv_logout q p m s = Some (r, s')"
  shows "attached p s0 s' \<or> detached p s0 s'"
proof (cases "Option.bind (scan_lit (asc ''LOGOUT username='') (cstr m)) scan_str")
  case None
  with assms show ?thesis by (simp add: sv_logout_def)
next
  case (Some x)
  obtain u t where x: "x = (u, t)" by fastforce
  obtain c where c: "sv_heap s p = Some c" using attached_client [OF assms(1)] by blast
  have u: "cstr u \<noteq> []" using Some unfolding x by (auto simp: bind_eq_Some_conv dest!: scan_word_nonempty)
  define c' where "c' = c\<lparr>dc_username := strcpy_to (dc_username c) u\<rparr>"
  obtain db ok where q: "find_username q (sv_db (set_client p c' s)) (cstr (dc_username c')) = (db, ok)" by fastforce
  let ?s = "set_db db (set_client p c' s)"
  have A: "attached p s0 ?s" using attached_set_client [OF assms(1), of c'] u by (simp add: c'_def)
  from attached_find [OF this, of c'] obtain n where n: "find_client ?s (dc_username c') = Some n" "n \<noteq> 0"
    "adlist_at (sv_clients ?s) n [] p []" by auto
  show ?thesis
  proof (cases ok)
    case False
    with A assms(2) show ?thesis
      by (auto simp: sv_logout_def Some x c Let_def c'_def [symmetric] q split: if_splits)
  next
    case True
    have "s' = sv_send logout_ok (?s\<lparr>sv_clients := listDelNode (sv_clients ?s) n\<rparr>)"
      using assms(2) n(1,2) True by (auto simp: sv_logout_def Some x c Let_def c'_def [symmetric] q split: if_splits)
    then have "detached p s0 s'" using A listDelNode_rep [OF n(3)] by (auto simp: detached_def attached_def clients_are_def send_def)
    then show ?thesis by simp
  qed
qed

lemma run_command_attached:
  assumes "attached p s0 s" "run_command e q p m s cmd = Some (r, s')"
  shows "attached p s0 s' \<or> detached p s0 s'"
proof (cases cmd)
  case LOGIN
  with assms user_login_attached show ?thesis by (fastforce simp: run_command_def)
next
  case LOGOUT
  with assms sv_logout_attached show ?thesis by (fastforce simp: run_command_def)
next
  case REGISTER
  obtain c where c: "sv_heap s p = Some c" "cstr (dc_username c) \<noteq> []" using attached_client [OF assms(1)] by blast
  have "attached p s0 (set_client p (c\<lparr>dc_open := False\<rparr>) s)" using c(2) by (intro attached_set_client [OF assms(1)]) simp
  then have "attached p s0 s'" using REGISTER assms c(1)
    by (auto simp: run_command_def register_user_def Let_def split: prod.splits option.splits if_splits)
  then show ?thesis by simp
next
  case DELE
  with assms have "attached p s0 s'" by (auto simp: run_command_def delete_job_def split: option.splits prod.splits if_splits)
  then show ?thesis by simp
next
  case LIST
  with assms have "attached p s0 s'"
    by (auto simp: run_command_def list_job_def Let_def split: option.splits prod.splits if_splits)
  then show ?thesis by simp
qed (use assms in \<open>auto simp: run_command_def in_session_def split: option.splits\<close>)

lemma request_loop_attached:
  "attached p s0 s \<Longrightarrow> request_loop e q p len s = Some s' \<Longrightarrow> attached p s0 s' \<or> detached p s0 s'"
proof (induction e q p len s rule: request_loop.induct)
  case (1 e q p len s)
  obtain r l d ps where n: "net_recv (ss_in (sv_session s)) [] len = (r, l, d, ps)" by (metis prod_cases4)
  let ?s = "s\<lparr>sv_session := (sv_session s)\<lparr>ss_in := ps\<rparr>\<rparr>"
  have A: "attached p s0 ?s" using "1.prems"(1) by simp
  note L = "1.prems"(2) [unfolded request_loop.simps [of e q p len s] n prod.case Let_def]
  show ?case
  proof (cases "r = ERROR \<or> l \<le> 0 \<or> 254 < length d")
    case True
    with L A show ?thesis by (auto split: if_splits)
  next
    case False
    show ?thesis
    proof (cases "find_command d")
      case None
      with L False have "request_loop e q p l (sv_send command_err ?s) = Some s'" by simp
      moreover have "attached p s0 (sv_send command_err ?s)" using A by simp
      ultimately show ?thesis using "1.IH" [OF n [symmetric] refl refl refl] False None by simp
    next
      case (Some cmd)
      with L False obtain r' where "run_command e q p d ?s cmd = Some (r', s')" by auto
      with run_command_attached [OF A] show ?thesis by blast
    qed
  qed
qed

text \<open>C32: a server that serves one connection at a time, whatever arrives on it, has nobody in its list of
  clients between two connections, and has freed the client and counted it out; but for one who has logged
  out, whose client is never freed and stays counted.\<close>

theorem one_connection_at_a_time:
  assumes "clients_are s []" "handle_client_request e q s = Some s'"
  shows "clients_are s' [] \<and> (sv_heap s' = sv_heap s \<and> sv_conns s' = sv_conns s \<or>
    sv_conns s' = sv_conns s + 1 \<and> last (ss_out (sv_session s')) = Data logout_ok)"
proof (cases "q_up q")
  case False
  with assms show ?thesis by (simp add: handle_client_request_def create_client_def)
next
  case True
  obtain a c s1 where c: "create_client q s = (s1, Some a)" "clients_are s1 ([] @ [a])" "a \<notin> set []" "sv_heap s a = None"
    "sv_heap s1 = (sv_heap s)(a \<mapsto> c)" "cstr (dc_username c) = asc ''yangyf''" "dc_open c"
    "sv_session s1 = sv_session s" "sv_conns s1 = sv_conns s + 1" using create_client_spec [OF assms(1) True] .
  obtain s2 where s2: "request_loop e q a 0 s1 = Some s2" "free_client a s2 = Some s'"
    using assms(2) c(1) by (auto simp: handle_client_request_def bind_eq_Some_conv)
  have "attached a s1 s1" using c(2,5,6) by (auto simp: attached_def asc_def)
  from request_loop_attached [OF this s2(1)] show ?thesis
  proof
    assume A: "attached a s1 s2"
    then obtain c' where c': "sv_heap s2 = (sv_heap s1)(a \<mapsto> c')" "cstr (dc_username c') \<noteq> []" "clients_are s2 ([] @ a # [])" "sv_conns s2 = sv_conns s1"
      by (auto simp: attached_def)
    have o: "dc_open c'" using free_client_closed [OF c'(3), of c'] c'(1) s2(2) by fastforce
    obtain s'' where "free_client a s2 = Some s''" "clients_are s'' ([] @ [])" "sv_heap s'' = (sv_heap s2)(a := None)"
      "sv_session s'' = sv_session s2" "sv_conns s'' = sv_conns s2 - 1"
      by (rule free_client_own [OF c'(3) _ _ o c'(2)]) (use c'(1) in auto)
    with s2(2) c'(1,4) c(4,5,9) show ?thesis by (auto simp: fun_eq_iff)
  next
    assume D: "detached a s1 s2"
    then obtain c' where c': "sv_heap s2 a = Some c'" "cstr (dc_username c') \<noteq> []" "clients_are s2 []" by (auto simp: detached_def)
    have "find_client s2 (dc_username c') = Some 0" by (rule find_client_none [OF c'(3)]) simp
    with c' s2(2) have "s' = s2" by (simp add: free_client_def)
    with D c(9) show ?thesis by (simp add: detached_def)
  qed
qed

section \<open>Lists of jobs\<close>

lemma cstr_job_line: "cstr (job_line row) = job_line row"
proof -
  have "0 \<notin> set (asc ''JobId='')" "0 \<notin> set (asc '' FileSet='')" by (simp_all add: asc_def)
  then show ?thesis by (simp add: job_line_def cstr_append)
qed

lemma job_buf_sent:
  assumes "length (job_line row) \<le> 287"
  shows "take (4 + nat (get_int 4 (job_buf row))) (job_buf row) = put_int 4 (int (length (job_line row))) @ job_line row"
proof -
  have "get_int 4 (job_buf row) = int (length (job_line row))" using assms by (simp add: job_buf_def)
  then show ?thesis by (simp add: job_buf_def)
qed

lemma job_lines_bufs:
  "\<forall>row\<in>set rows. length (job_line row) \<le> 287 \<Longrightarrow>
   job_lines (length rows) (concat (map (\<lambda>f. take (4 + nat (get_int 4 f)) f) (map job_buf rows)) @ r) = Some (map job_line rows)"
proof (induction rows)
  case (Cons row rows)
  have "length (job_line row) \<le> 287" using Cons.prems by simp
  moreover have "job_lines (length rows) (concat (map (\<lambda>f. take (4 + nat (get_int 4 f)) f) (map job_buf rows)) @ r) = Some (map job_line rows)"
    using Cons by simp
  ultimately show ?case by (simp add: job_buf_sent cstr_job_line Let_def del: map_map)
qed simp

lemma job_bufs_length:
  "\<forall>row\<in>set rows. length (job_line row) \<le> 287 \<Longrightarrow>
    int (length (concat (map (\<lambda>f. take (4 + nat (get_int 4 f)) f) (map job_buf rows)))) \<le> 291 * int (length rows)"
  by (induction rows) (auto simp: job_buf_sent simp del: map_map)

lemma put_not_none: "cstr (put_int 4 n) \<noteq> list_none"
proof
  assume "cstr (put_int 4 n) = list_none"
  moreover have "length (cstr (put_int 4 n)) \<le> length (put_int 4 n)" unfolding cstr_def by (rule length_takeWhile_le)
  ultimately show False by (simp add: list_none_def asc_def)
qed

text \<open>\<open>LIST\<close>. A client that asks for the jobs prints one line for every row that the database
  returns, in their order, with the number and the path of the job; nothing is left over on the
  connection, and the server is as before. Lines of up to 287 characters fit the buffers of both sides.\<close>

lemma list_jobs_printed:
  assumes "clients_are s []" "q_up q" "ss_in (sv_session s) = [Data (asc ''LIST'')]"
    and "q_run q (sv_db s) (asc ''SELECT JobId, FileSet FROM Job,Object where Job.ObjectId=Object.ObjectId'') = (db, Some rows)"
    and "length rows < 7000000" "\<forall>row\<in>set rows. length (job_line row) \<le> 287"
  shows "\<exists>s' ps. handle_client_request e q s = Some s' \<and> clients_are s' [] \<and> ss_out (sv_session s') = ss_out (sv_session s) @ ps \<and>
    list_client ps = Some (SUCCESS, map job_line rows, [], [Data (asc ''LIST'')])"
proof -
  obtain a c s1 where c: "create_client q s = (s1, Some a)" "clients_are s1 ([] @ [a])" "a \<notin> set []" "sv_heap s a = None"
    "sv_heap s1 = (sv_heap s)(a \<mapsto> c)" "cstr (dc_username c) = asc ''yangyf''" "dc_open c"
    "sv_session s1 = sv_session s" "sv_conns s1 = sv_conns s + 1" using create_client_spec [OF assms(1,2)] .
  let ?s1 = "set_db db (s1\<lparr>sv_session := (sv_session s)\<lparr>ss_in := []\<rparr>\<rparr>)"
  define bs where "bs = concat (map (\<lambda>f. take (4 + nat (get_int 4 f)) f) (map job_buf rows))"
  define ps where "ps = (if rows = [] then [Data list_none] else [Data (put_int 4 (int (length rows))), Data bs])"
  define s2 where "s2 = (if rows = [] then sv_send list_none ?s1 else ?s1\<lparr>sv_session := send_job_info (sv_session ?s1) (map job_buf rows)\<rparr>)"
  have "\<not> list_ex (\<lambda>row. 288 < length (job_line row)) rows" using assms(6) by (force simp: list_ex_iff)
  then have "list_job q (s1\<lparr>sv_session := (sv_session s)\<lparr>ss_in := []\<rparr>\<rparr>) = Some (SUCCESS, s2)"
    using assms(4) by (simp add: list_job_def db_get_job_list_def sv_db_def s2_def Let_def)
  then have r: "run_command e q a (asc ''LIST'') (s1\<lparr>sv_session := (sv_session s)\<lparr>ss_in := []\<rparr>\<rparr>) LIST = Some (SUCCESS, s2)"
    by (simp add: run_command_def)
  have f: "sv_heap s2 = sv_heap s1" "sv_clients s2 = sv_clients s1" "sv_brk s2 = sv_brk s1"
    "ss_out (sv_session s2) = ss_out (sv_session s) @ ps"
    using c(8) by (auto simp: s2_def ps_def send_job_info_def bs_def)
  have cl: "clients_are s2 ([] @ a # [])" using c(2) f by (simp add: clients_are_def)
  have n: "sv_heap s2 a = Some c" "cstr (dc_username c) \<noteq> []" using c(5,6) f by (simp_all add: asc_def)
  obtain s' where s': "free_client a s2 = Some s'" "clients_are s' ([] @ [])" "sv_heap s' = (sv_heap s2)(a := None)"
    "sv_session s' = sv_session s2" "sv_conns s' = sv_conns s2 - 1"
    by (rule free_client_own [OF cl _ n(1) c(7) n(2)]) auto
  have "asc ''LIST'' \<noteq> []" "length (asc ''LIST'') \<le> 254" by (simp_all add: asc_def)
  from one_command [OF assms(3) this find_command_simps(4) c(1,8)] r s'(1)
  have h: "handle_client_request e q s = Some s'" by simp
  have l: "length bs \<noteq> 0" if "rows \<noteq> []"
    using that assms(6) by (cases rows) (simp_all add: bs_def job_buf_sent del: map_map)
  have "job_lines (length rows) bs = Some (map job_line rows)" "int (length bs) \<le> 291 * int (length rows)"
    using job_lines_bufs [OF assms(6), of "[]"] job_bufs_length [OF assms(6)] by (simp_all add: bs_def)
  moreover from this(2) have "rows \<noteq> [] \<Longrightarrow> \<not> int (length rows) * 292 \<le> int (length bs)" by (cases rows) auto
  moreover have "length list_none \<le> 255" "list_none \<noteq> []" "cstr list_none = list_none"
    by (simp_all add: list_none_def asc_def)
  ultimately have "list_client ps = Some (SUCCESS, map job_line rows, [], [Data (asc ''LIST'')])"
    using assms(5) l put_not_none [of "int (length rows)"] by (auto simp: list_client_def recv_answer_def ps_def Let_def)
  with h s' f show ?thesis by auto
qed

section \<open>Deleting a job\<close>

lemma scan_delete: "Option.bind (scan_lit (asc ''DELE jobid='') (cstr (asc ''DELE jobid='' @ show_int job))) scan_int = Some (job, [])"
proof -
  have "0 \<notin> set (asc ''DELE jobid='')" "0 \<notin> set (show_int job)"
    using dec_digits_nonzero by (simp_all add: asc_def show_int_def)
  then have c: "cstr (asc ''DELE jobid='' @ show_int job) = asc ''DELE'' @ 32 # 106 # asc ''obid='' @ show_int job"
    by (simp add: cstr_append) (simp add: asc_def)
  have a: "asc ''DELE jobid='' = asc ''DELE'' @ 32 # 106 # asc ''obid=''" by (simp add: asc_def)
  have l: "\<forall>c\<in>set (asc ''DELE''). \<not> is_space c" "\<not> is_space 106" "\<forall>c\<in>set (asc ''obid=''). \<not> is_space c"
    by (simp_all add: asc_def is_space_def)
  have "scan_lit (asc ''DELE jobid='') (cstr (asc ''DELE jobid='' @ show_int job)) = Some (show_int job)"
    unfolding c unfolding a using scan_lit_split [OF l(1)] scan_lit_blank_word [OF l(2,3)] by simp
  with scan_int_show [of "[]" job] show ?thesis by simp
qed

text \<open>The database after statements that have been run whether or not they failed.\<close>

definition effect :: "'db query_env \<Rightarrow> 'db \<Rightarrow> byte list list \<Rightarrow> 'db" where
  "effect q db cs = foldl (\<lambda>db c. fst (q_run q db c)) db cs"

lemma run_statements_spec:
  "\<exists>k. run_statements q db cs = (effect q db (take (Suc k) cs), length cs \<le> k) \<and> k \<le> length cs \<and>
     (\<forall>i<k. snd (q_run q (effect q db (take i cs)) (cs ! i)) \<noteq> None) \<and>
     (k < length cs \<longrightarrow> snd (q_run q (effect q db (take k cs)) (cs ! k)) = None)"
proof (induction cs arbitrary: db)
  case (Cons c cs)
  obtain db' r where q: "q_run q db c = (db', r)" by fastforce
  have e: "effect q db (c # xs) = effect q db' xs" for xs by (simp add: effect_def q)
  show ?case
  proof (cases r)
    case None
    then show ?thesis using q by (intro exI [of _ 0]) (simp add: effect_def)
  next
    case (Some rows)
    obtain k where k: "run_statements q db' cs = (effect q db' (take (Suc k) cs), length cs \<le> k)" "k \<le> length cs"
      "\<forall>i<k. snd (q_run q (effect q db' (take i cs)) (cs ! i)) \<noteq> None"
      "k < length cs \<longrightarrow> snd (q_run q (effect q db' (take k cs)) (cs ! k)) = None" using Cons.IH by blast
    have "\<forall>i<Suc k. snd (q_run q (effect q db (take i (c # cs))) ((c # cs) ! i)) \<noteq> None"
    proof (intro allI impI)
      fix i assume "i < Suc k"
      then show "snd (q_run q (effect q db (take i (c # cs))) ((c # cs) ! i)) \<noteq> None"
        using k(3) q Some by (cases i) (simp_all add: e, simp add: effect_def)
    qed
    moreover have "run_statements q db (c # cs) = (effect q db (take (Suc (Suc k)) (c # cs)), length (c # cs) \<le> Suc k)"
      using k(1) q Some by (simp add: e)
    ultimately show ?thesis using k(2,4) by (intro exI [of _ "Suc k"]) (simp add: e)
  qed
qed (simp add: effect_def)

text \<open>Deleting a job runs five statements one after the other, up to the first that fails, and takes none
  of them back: the client is told of a success if all have worked and of a failure otherwise, but
  what the statements before the failing one (and that one) have done to the database stays done.\<close>

lemma delete_job_steps:
  assumes "sv_db s = db"
  shows "\<exists>k r s' m. k \<le> 5 \<and> delete_job q (asc ''DELE jobid='' @ show_int job) s = (r, s') \<and>
    sv_db s' = effect q db (take (Suc k) (delete_statements job)) \<and>
    (\<forall>i<k. snd (q_run q (effect q db (take i (delete_statements job))) (delete_statements job ! i)) \<noteq> None) \<and>
    (k < 5 \<longrightarrow> snd (q_run q (effect q db (take k (delete_statements job))) (delete_statements job ! k)) = None) \<and>
    ss_out (sv_session s') = ss_out (sv_session s) @ [Data m] \<and>
    delete_client job [Data m] = Some (if k = 5 then SUCCESS else FAILURE, [], [Data (asc ''DELE jobid='' @ show_int job)])"
proof -
  let ?cs = "delete_statements job"
  have n: "length ?cs = 5" by (simp add: delete_statements_def)
  obtain k where k: "run_statements q db ?cs = (effect q db (take (Suc k) ?cs), length ?cs \<le> k)" "k \<le> length ?cs"
    "\<forall>i<k. snd (q_run q (effect q db (take i ?cs)) (?cs ! i)) \<noteq> None"
    "k < length ?cs \<longrightarrow> snd (q_run q (effect q db (take k ?cs)) (?cs ! k)) = None" using run_statements_spec [of q db ?cs] by blast
  let ?m = "if k = 5 then delete_ok else delete_fail" and ?r = "if k = 5 then SUCCESS else FAILURE"
  let ?s' = "sv_send ?m (set_db (effect q db (take (Suc k) ?cs)) s)"
  have "delete_job q (asc ''DELE jobid='' @ show_int job) s = (?r, ?s')"
    using k(1,2) assms n by (simp add: delete_job_def scan_delete db_delete_job_def)
  moreover have "starts_with delete_ok delete_ok" "\<not> starts_with delete_fail delete_ok" "length delete_ok \<le> 255" "length delete_fail \<le> 255"
    "delete_ok \<noteq> []" "delete_fail \<noteq> []"
    by (simp_all add: starts_with_def delete_ok_def delete_fail_def asc_def)
  then have "delete_client job [Data ?m] = Some (?r, [], [Data (asc ''DELE jobid='' @ show_int job)])"
    by (simp add: delete_client_def recv_answer_def)
  ultimately show ?thesis using k(2-4) unfolding n
    by (intro exI [of _ k] exI [of _ ?r] exI [of _ ?s'] exI [of _ ?m]) (simp add: sv_db_def)
qed

section \<open>A site\<close>

definition demo_site :: "'db \<Rightarrow> packet list \<Rightarrow> 'db server" where
  "demo_site db ps = \<lparr>
     sv_session = \<lparr>ss_disk = empty_disk, ss_rv = demo_volume, ss_index = stable_of_pwr 20 2, ss_db = db, ss_in = ps, ss_out = [],
       ss_buf = [], ss_len = 0, ss_rp = None, ss_chunknum = 0, ss_result = True, ss_job_id = 0, ss_file_count = 0\<rparr>,
     sv_clients = listCreate, sv_heap = \<lambda>_. None, sv_brk = 1, sv_conns = 0\<rparr>"

definition demo_rows :: "byte list list list" where
  "demo_rows = [[[55], [47, 97]], [[56], [47, 98]]]"

definition demo_queries :: "unit query_env" where
  "demo_queries = \<lparr>q_run = \<lambda>db c. (db, Some demo_rows), q_left = \<lambda>_. None, q_up = True\<rparr>"

text \<open>The third statement fails.\<close>

definition demo_log :: "byte list list query_env" where
  "demo_log = \<lparr>q_run = \<lambda>db c. if length db = 2 then (db, None) else (db @ [c], Some []), q_left = \<lambda>_. None, q_up = True\<rparr>"

lemma demo_site_ok: "clients_are (demo_site db ps) []" "q_up demo_queries" "word [97]" "queries_agree demo_queries u"
  by (simp_all add: clients_are_def demo_site_def listCreate_rep demo_queries_def word_def is_space_def queries_agree_def demo_rows_def)

lemma login_refused_witness:
  "\<exists>s'. handle_client_request demo_env demo_queries (demo_site () [Data (account_msg ''LOGIN'' [97] [97])]) = Some s' \<and>
    ss_out (sv_session s') = [Data login_fail3]"
proof -
  have i: "ss_in (sv_session (demo_site () [Data (account_msg ''LOGIN'' [97] [97])])) = [Data (account_msg ''LOGIN'' [97] [97])]"
    by (simp add: demo_site_def)
  from login_refused [OF demo_site_ok(1-3,3) _ _ _ i, of demo_env] show ?thesis by (auto simp: demo_site_def)
qed

lemma register_takes_server_down_witness:
  "handle_client_request demo_env demo_queries (demo_site () [Data (account_msg ''REGISTER'' [97] [97])]) = None"
proof -
  have i: "ss_in (sv_session (demo_site () [Data (account_msg ''REGISTER'' [97] [97])])) = [Data (account_msg ''REGISTER'' [97] [97])]"
    by (simp add: demo_site_def)
  from register_takes_server_down [OF demo_site_ok(1-3,3) _ _ demo_site_ok(4) i, of demo_env] show ?thesis by simp
qed

lemma one_connection_at_a_time_witness:
  "\<exists>s'. handle_client_request demo_env demo_queries (demo_site () []) = Some s' \<and> clients_are s' [] \<and> sv_conns s' = 0"
proof -
  let ?s = "demo_site () []"
  obtain a c s1 where c: "create_client demo_queries ?s = (s1, Some a)" "clients_are s1 ([] @ [a])" "a \<notin> set []" "sv_heap ?s a = None"
    "sv_heap s1 = (sv_heap ?s)(a \<mapsto> c)" "cstr (dc_username c) = asc ''yangyf''" "dc_open c"
    "sv_session s1 = sv_session ?s" "sv_conns s1 = sv_conns ?s + 1" using create_client_spec [OF demo_site_ok(1,2)] .
  have cl: "clients_are s1 ([] @ a # [])" using c(2) by simp
  have n: "sv_heap s1 a = Some c" "cstr (dc_username c) \<noteq> []" using c(5,6) by (simp_all add: asc_def)
  obtain s' where s': "free_client a s1 = Some s'" "clients_are s' ([] @ [])" "sv_heap s' = (sv_heap s1)(a := None)"
    "sv_session s' = sv_session s1" "sv_conns s' = sv_conns s1 - 1"
    by (rule free_client_own [OF cl _ n(1) c(7) n(2)]) auto
  have o: "sv_session ?s = sv_session s1" "ss_in (sv_session ?s) = []" "ss_out (sv_session ?s) = []" using c(8) by (simp_all add: demo_site_def)
  have same: "s1\<lparr>sv_session := (sv_session s1)\<lparr>ss_in := []\<rparr>\<rparr> = s1" using o(1,2) by simp
  have "request_loop demo_env demo_queries a 0 s1 = Some s1"
    using o same by (simp add: request_loop.simps [of demo_env demo_queries a 0 s1])
  then have h: "handle_client_request demo_env demo_queries ?s = Some s'" using c(1) s'(1) by (simp add: handle_client_request_def)
  from one_connection_at_a_time [OF demo_site_ok(1) h] have "clients_are s' []" by blast
  moreover have "sv_conns s' = 0" using s'(5) c(9) by (simp add: demo_site_def)
  ultimately show ?thesis using h by blast
qed

end
