(* ===== verification/ClientBackup.thy ===== *)
theory ClientBackup
  imports ClientRestore ExBinDisk AccountSession
begin

text \<open>
  The client's main commands: the walk over a directory (\<open>walk_dir\<close> of client/src/backup.c) and the
  whole of a backup and of a restore (\<open>backup_client\<close> and \<open>restore_client\<close> of client/src/handle.c),
  without rewriting, without the pipeline and without the statistics that they write. What \<open>stat\<close>,
  \<open>readdir\<close> and the reads of a file return is a tree. \<open>None\<close>: as in the functions called, or the
  client writes over the end of a buffer.
\<close>

section \<open>Walking a directory\<close>

text \<open>
  The entries of a directory come in the order of \<open>readdir\<close>, with the two dots. A file is what its
  reads for the hash return and what it is opened as for its chunks. \<open>Unreadable\<close> is a
  directory that cannot be opened.
\<close>

datatype tree =
    Missing
  | Unreadable
  | Other
  | Regular "byte list option list option" "fdesc option"
  | Directory "(byte list \<times> tree) list"

record client_run =
  cr_rabin :: rabin
  cr_index :: exbin
  cr_store :: store
  cr_in :: "packet list"
  cr_sent :: "packet list"

text \<open>The result of \<open>file_dudup\<close> is not looked at; \<open>file_path\<close> has 256 bytes.\<close>

definition backup_file ::
  "(byte list \<Rightarrow> fingerprint) \<Rightarrow> sha1_context \<Rightarrow> byte list \<Rightarrow> byte list option list option \<Rightarrow> fdesc option
    \<Rightarrow> client_run \<Rightarrow> client_run option" where
  "backup_file fp junk path reads file s =
     (if 256 \<le> length path then None
      else case file_dudup fp (mark_no_rewrite False file) junk reads file path (cr_rabin s) (cr_index s) (cr_store s) (cr_in s) of
             None \<Rightarrow> None
           | Some (rst, ex, st, ps, sent, _) \<Rightarrow>
               Some (s\<lparr>cr_rabin := rst, cr_index := ex, cr_store := st, cr_in := ps, cr_sent := cr_sent s @ sent\<rparr>))"

definition with_slash :: "byte list \<Rightarrow> byte list" where
  "with_slash path = (if path \<noteq> [] \<and> last path = 47 then path else path @ [47])"

fun walk_dir ::
    "(byte list \<Rightarrow> fingerprint) \<Rightarrow> sha1_context \<Rightarrow> byte list \<Rightarrow> tree \<Rightarrow> client_run \<Rightarrow> client_run option"
  and walk_entries ::
    "(byte list \<Rightarrow> fingerprint) \<Rightarrow> sha1_context \<Rightarrow> byte list \<Rightarrow> (byte list \<times> tree) list \<Rightarrow> client_run \<Rightarrow> client_run option"
where
  "walk_dir fp junk path Missing s = Some s"
| "walk_dir fp junk path Unreadable s = None"
| "walk_dir fp junk path Other s = Some s"
| "walk_dir fp junk path (Regular reads file) s = backup_file fp junk path reads file s"
| "walk_dir fp junk path (Directory es) s = walk_entries fp junk (with_slash path) es s"
| "walk_entries fp junk path [] s = Some s"
| "walk_entries fp junk path ((name, t) # es) s =
     (if name = [46] \<or> name = [46, 46] then walk_entries fp junk path es s
      else if 511 \<le> length path + length name then None
      else case walk_dir fp junk (path @ name) t s of
             None \<Rightarrow> None
           | Some s \<Rightarrow> walk_entries fp junk path es s)"

section \<open>A backup and a restore\<close>

definition ExtremeBinningDestroy :: "exbin \<Rightarrow> exbin" where
  "ExtremeBinningDestroy ex = fst (ExtremeBinningFlush ex)"

definition backup_msg :: "byte list \<Rightarrow> byte list" where
  "backup_msg path = asc ''BACK fileset='' @ path"

text \<open>
  \<open>backup_client\<close> on the directories of the index (\<open>bins\<close>) and of the containers (\<open>tmp\<close>); it returns them
  with what is left of the answers and what was sent. The counter and the clock of the container names are those of
  \<open>store_init\<close>. \<open>backup_path\<close> and the message have 256 bytes. For a single file the code cuts the
  path after its last slash and runs over the beginning of the buffer if it has none; a backup whose end
  is not confirmed returns without closing index and store.
\<close>

definition backup_client ::
  "(byte list \<Rightarrow> fingerprint) \<Rightarrow> sha1_context \<Rightarrow> byte list \<Rightarrow> tree \<Rightarrow> disk \<Rightarrow> disk \<Rightarrow> nat \<Rightarrow> (nat \<Rightarrow> int) \<Rightarrow> packet list
    \<Rightarrow> (int \<times> disk \<times> disk \<times> packet list \<times> packet list) option" where
  "backup_client fp junk path t bins tmp r clk ps =
     (if t = Missing then Some (FAILURE, bins, tmp, ps, [])
      else if 243 \<le> length path then None
      else case (ExtremeBinningInit bins, store_init tmp r clk) of
        (Some (ex, _), Some st) \<Rightarrow>
          let s = \<lparr>cr_rabin = rabin_start, cr_index = ex, cr_store = st, cr_in = ps, cr_sent = [Data (backup_msg path)]\<rparr> in
          (case (case t of
                   Regular reads file \<Rightarrow> if 47 \<notin> set path then None else backup_file fp junk path reads file s
                 | _ \<Rightarrow> walk_dir fp junk (with_slash path) t s) of
             None \<Rightarrow> None
           | Some s \<Rightarrow>
               let sent = cr_sent s @ [Signal STREAM_END] in
               case recv_answer (cr_in s) of
                 None \<Rightarrow> None
               | Some (err, d, ps) \<Rightarrow>
                   if err \<le> 0 then Some (FAILURE, eb_disk (cr_index s), st_disk (cr_store s), ps, sent)
                   else map_option (\<lambda>ex. (if starts_with d backup_ok then SUCCESS else FAILURE,
                            eb_disk (ExtremeBinningDestroy ex), st_disk (store_destory False (cr_store s)), ps, sent))
                          (free_cache_bin (cr_index s)))
      | _ \<Rightarrow> None)"

text \<open>
  \<open>restore_client\<close> with the argument \<open>%d,%s\<close>: the job and the directory to restore to, whose last slash is
  cut off. Without a number the job is what was on the heap (\<open>None\<close>). \<open>rt\<close> is the state of the thread that
  writes the files, after its \<open>restore_init\<close>. The result is \<open>SUCCESS\<close> whenever a list of files came.
\<close>

definition restore_args :: "byte list \<Rightarrow> (int \<times> byte list) option" where
  "restore_args arg =
     (case scan_int (cstr arg) of
        None \<Rightarrow> None
      | Some (job, r) \<Rightarrow>
          let base = (case scan_lit [44] r of None \<Rightarrow> [] | Some r \<Rightarrow> (case scan_str r of None \<Rightarrow> [] | Some (w, _) \<Rightarrow> w))
          in Some (job, if base \<noteq> [] \<and> last base = 47 then butlast base else base))"

definition restore_client ::
  "bool \<Rightarrow> (disk \<Rightarrow> byte list \<Rightarrow> byte list \<Rightarrow> disk \<times> bool) \<Rightarrow> byte list \<Rightarrow> restorer \<Rightarrow> packet list
    \<Rightarrow> (int \<times> restorer \<times> packet list \<times> packet list) option" where
  "restore_client cloud fetch arg rt ps =
     (case restore_args arg of
        None \<Rightarrow> None
      | Some (job, base) \<Rightarrow>
          if 256 \<le> length base then None
          else case get_job_info job ps of
            (sent, None) \<Rightarrow> None
          | (sent, Some (filelist, err, ps)) \<Rightarrow>
              if err = FAILURE then Some (FAILURE, rt, ps, sent)
              else case get_files filelist ps of
                None \<Rightarrow> None
              | Some (fis, ps) \<Rightarrow>
                  map_option (\<lambda>rt. (SUCCESS, rt, ps, sent)) (construct_files False cloud fetch base rt fis))"

section \<open>The files of a tree\<close>

text \<open>The regular files in the order in which the walk comes to them.\<close>

fun tree_files :: "byte list \<Rightarrow> tree \<Rightarrow> (byte list \<times> byte list option list option \<times> fdesc option) list"
  and entry_files :: "byte list \<Rightarrow> (byte list \<times> tree) list \<Rightarrow> (byte list \<times> byte list option list option \<times> fdesc option) list"
where
  "tree_files path (Regular reads file) = [(path, reads, file)]"
| "tree_files path (Directory es) = entry_files (with_slash path) es"
| "tree_files path Missing = []"
| "tree_files path Unreadable = []"
| "tree_files path Other = []"
| "entry_files path [] = []"
| "entry_files path ((name, t) # es) =
     (if name = [46] \<or> name = [46, 46] then [] else tree_files (path @ name) t) @ entry_files path es"

fun tree_ok :: "byte list \<Rightarrow> tree \<Rightarrow> bool"
  and entries_ok :: "byte list \<Rightarrow> (byte list \<times> tree) list \<Rightarrow> bool"
where
  "tree_ok path (Directory es) \<longleftrightarrow> entries_ok (with_slash path) es"
| "tree_ok path Unreadable \<longleftrightarrow> False"
| "tree_ok path (Regular reads file) \<longleftrightarrow> True"
| "tree_ok path Missing \<longleftrightarrow> True"
| "tree_ok path Other \<longleftrightarrow> True"
| "entries_ok path [] \<longleftrightarrow> True"
| "entries_ok path ((name, t) # es) \<longleftrightarrow>
     (name = [46] \<or> name = [46, 46] \<or> length path + length name < 511 \<and> tree_ok (path @ name) t) \<and> entries_ok path es"

fun backup_files ::
  "(byte list \<Rightarrow> fingerprint) \<Rightarrow> sha1_context \<Rightarrow> (byte list \<times> byte list option list option \<times> fdesc option) list
    \<Rightarrow> client_run \<Rightarrow> client_run option" where
  "backup_files fp junk [] s = Some s"
| "backup_files fp junk ((path, reads, file) # fs) s =
     (case backup_file fp junk path reads file s of None \<Rightarrow> None | Some s \<Rightarrow> backup_files fp junk fs s)"

lemma backup_files_append:
  "backup_files fp junk (fs @ gs) s = Option.bind (backup_files fp junk fs s) (backup_files fp junk gs)"
  by (induction fs arbitrary: s) (auto split: option.splits)

text \<open>The walk backs up the files one after the other.\<close>

lemma walk_dir_files:
  "tree_ok path t \<Longrightarrow> walk_dir fp junk path t s = backup_files fp junk (tree_files path t) s"
  "entries_ok path es \<Longrightarrow> walk_entries fp junk path es s = backup_files fp junk (entry_files path es) s"
proof (induction fp junk path t s and fp junk path es s rule: walk_dir_walk_entries.induct)
  case (4 fp junk path reads fd s)
  then show ?case by (simp split: option.split)
next
  case (7 fp junk path name t es s)
  then show ?case by (auto simp: backup_files_append split: option.splits Option.bind_split)
qed simp_all

end
