(* ===== verification/WholeBackup.thy ===== *)
theory WholeBackup
  imports System ClientBackup
begin

text \<open>
  A backup of a whole directory against the server, and its restore: the walk, the dialogue about each
  file, the end of the session on both sides, and the files written back by \<open>restore_client\<close>.
\<close>

section \<open>Files and what is known of them\<close>

text \<open>A file is its path and what the reads of it return. All can be read, twice with the same bytes.\<close>

type_synonym whole_file = "byte list \<times> byte list list"

fun content_of :: "whole_file \<Rightarrow> byte list" where
  "content_of (p, ds) = concat ds"

fun as_read :: "whole_file \<Rightarrow> byte list \<times> byte list option list option \<times> fdesc option" where
  "as_read (p, ds) = (p, Some (map Some ds), readable (concat ds))"

fun file_good :: "byte list set \<Rightarrow> whole_file \<Rightarrow> bool" where
  "file_good D (p, ds) \<longleftrightarrow> path_ok p \<and> (\<forall>d\<in>set ds. d \<noteq> []) \<and> 8 * length (concat ds) < 2 ^ 64 \<and>
     (\<forall>i k. pread (concat ds) i k \<in> D)"

definition pieces_of :: "whole_file list \<Rightarrow> nat" where
  "pieces_of F = sum_list (map (\<lambda>f. length (ref_chunks (content_of f))) F)"

text \<open>The recipe \<open>g\<close> leads to the chunks of \<open>data\<close> in the store.\<close>

definition leads :: "(byte list \<Rightarrow> fingerprint) \<Rightarrow> store \<Rightarrow> byte list \<Rightarrow> chunks \<Rightarrow> bool" where
  "leads fp st data g \<longleftrightarrow>
     list_all2 (\<lambda>d (h, a). h = fp d \<and> address_ok a \<and> (\<exists>d'. has st a h d')) (ref_chunks data) g"

definition backed ::
  "(byte list \<Rightarrow> fingerprint) \<Rightarrow> store \<Rightarrow> catalogue \<Rightarrow> byte list set \<Rightarrow> bool" where
  "backed fp st cat H \<longleftrightarrow> (\<forall>data\<in>H. \<forall>g. cat (sha1_hash data) = Some g \<longrightarrow> chunks_ok g \<and> leads fp st data g)"

lemma leads_mono: "leads fp st data g \<Longrightarrow> \<forall>a h d. has st a h d \<longrightarrow> has st' a h d \<Longrightarrow> leads fp st' data g"
  unfolding leads_def by (erule list_all2_mono) auto

lemma placed_leads:
  assumes "list_all2 (placed st) (chunk_list fp 0 (ref_chunks data)) fcs"
  shows "leads fp st data (map (\<lambda>fc. (chunk_hash fc, fc_address fc)) fcs)"
  using assms by (auto simp: leads_def list_all2_conv_all_nth placed_def chunk_list_nth new_chunk_def)

lemma client_ok_less: "client_ok fp D (m + n) ex st \<Longrightarrow> client_ok fp D n ex st"
  unfolding client_ok_def store_room_def by fastforce

section \<open>How the index grows\<close>

text \<open>A file adds at most one bin to the cache and one to the primary index, and touches no volume.\<close>

definition index_grows :: "nat \<Rightarrow> exbin \<Rightarrow> exbin \<Rightarrow> bool" where
  "index_grows n ex ex' \<longleftrightarrow> bin_volume_array ex' = bin_volume_array ex \<and> eb_disk ex' = eb_disk ex \<and>
     htable_size (bin_cache ex') \<le> htable_size (bin_cache ex) + n \<and>
     htable_size (main_table ex') \<le> htable_size (main_table ex) + n"

lemma index_grows_refl: "index_grows n ex ex"
  by (simp add: index_grows_def)

lemma index_grows_trans: "index_grows m ex ex1 \<Longrightarrow> index_grows n ex1 ex' \<Longrightarrow> index_grows (m + n) ex ex'"
  by (auto simp: index_grows_def)

lemma size_clean_insert: "ht.clean 20 t \<Longrightarrow> length k = 20 \<Longrightarrow> htable_size (htable_insert k v t) = Suc (htable_size t)"
  by (drule htable_cleanD(1)) (rule htable_size_insert)

lemma LoadBin_grows:
  assumes "exbin_ok ex" "length (rep_finger fi) = 20" "LoadBin ex fi = Some (ex', b)"
  shows "index_grows 1 ex ex'"
proof -
  have c: "ht.clean 20 (bin_cache ex)" "ht.clean 20 (main_table ex)" using exbin_okD(2,3) [OF assms(1)] by auto
  have "htable_size (htable_insert (rep_finger fi) b' (bin_cache ex)) = Suc (htable_size (bin_cache ex))"
    "htable_size (htable_insert (rep_finger fi) m (main_table ex)) = Suc (htable_size (main_table ex))" for b' m
    using size_clean_insert [OF c(1) assms(2)] size_clean_insert [OF c(2) assms(2)] by blast+
  moreover have "htable_size (htable_update k g t) = htable_size t" for k g and t :: "bin htable" by (simp add: htable_size_def)
  moreover have "b_rep_finger b' = rep_finger fi" if "NewBin a (rep_finger fi) n = Some b'" for a n b' using that by (auto simp: NewBin_def)
  ultimately show ?thesis
    using assms(3) by (auto simp: LoadBin_def LocationBin_def Let_def index_grows_def split: option.splits if_splits prod.splits)
qed

lemma put_bin_grows: "index_grows 0 ex (put_bin b ex)"
  by (simp add: put_bin_def index_grows_def htable_size_def)

lemma chunk_dedup_grows:
  assumes "exbin_ok ex" "chunk_dedup fp mark fd rst fi ex st = Some (rst', fi', ex', st', r)"
  shows "index_grows 1 ex ex'"
proof -
  have l: "length (rep_finger (calculate_rep_finger fi1)) = 20" for fi1 by (simp add: calculate_rep_finger_def)
  consider "ex' = ex" | fi1 ex1 b b' where "LoadBin ex (calculate_rep_finger fi1) = Some (ex1, b)" "ex' = put_bin b' ex1"
    using assms(2) by (auto simp: chunk_dedup_def Let_def split: prod.splits option.splits if_splits)
  then show ?thesis
  proof cases
    case 1
    then show ?thesis by (simp add: index_grows_refl)
  next
    case 2
    with index_grows_trans [OF LoadBin_grows [OF assms(1) l 2(1)] put_bin_grows] show ?thesis by simp
  qed
qed

lemma file_dudup_grows:
  "exbin_ok ex \<Longrightarrow> file_dudup fp mark junk reads fd path rst ex st ps = Some (rst', ex', st', ps', sent, r) \<Longrightarrow> index_grows 1 ex ex'"
  using index_grows_refl
  by (auto simp: file_dudup_def Let_def split: prod.splits option.splits if_splits dest!: chunk_dedup_grows)

lemma volumes_room_less:
  assumes "volumes_room n ex" "k \<le> n" "bin_volume_array ex' = bin_volume_array ex"
  shows "volumes_room k ex'"
  unfolding volumes_room_def assms(3)
proof (intro allI impI)
  fix l :: nat assume "l < 30"
  with assms(1) have "current_volume_length (bin_volume_array ex ! l) + int n * int (slot l) < 2 ^ 56" by (simp add: volumes_room_def)
  moreover have "int k * int (slot l) \<le> int n * int (slot l)" using assms(2) by (simp add: mult_right_mono)
  ultimately show "current_volume_length (bin_volume_array ex ! l) + int k * int (slot l) < 2 ^ 56" by linarith
qed

section \<open>One file\<close>

text \<open>Whether or not the server has the file: the dialogue succeeds and the catalogue has it afterwards.\<close>

lemma file_dialogue:
  assumes client: "client_ok fp D (length (ref_chunks (content_of f)) + n) ex st" "rabin_init_flag rst \<Longrightarrow> rabin_ok rst"
    and fp: "\<forall>d. length (fp d) = 20" and junk: "length (Message_Block junk) = 64"
    and f: "file_good D f" "content_of f \<in> H" "inj_on sha1_hash H" and cat: "backed fp st cat H"
  shows "\<exists>u rst' ex' st'. fst u = sha1_hash (content_of f) \<and> fst (snd u) = fst f \<and> upload_ok u \<and>
    (\<forall>ps. file_dudup fp (mark_no_rewrite False (readable (content_of f))) junk (Some (map Some (snd f))) (readable (content_of f)) (fst f)
      rst ex st (reply cat u @ ps) = Some (rst', ex', st', ps, request cat u, 0)) \<and>
    (rabin_init_flag rst' \<longrightarrow> rabin_ok rst') \<and> client_ok fp D n ex' st' \<and> index_grows 1 ex ex' \<and> (\<forall>a h d. has st a h d \<longrightarrow> has st' a h d) \<and>
    backed fp st' (enter cat u) H \<and> enter cat u (sha1_hash (content_of f)) \<noteq> None"
proof -
  obtain p ds where pd: "f = (p, ds)" by (cases f)
  let ?data = "concat ds" and ?h = "sha1_hash (concat ds)"
  have g: "path_ok p" "\<forall>d\<in>set ds. d \<noteq> []" "8 * length ?data < 2 ^ 64" "\<forall>i k. pread ?data i k \<in> D" using f(1) pd by auto
  have sha: "SHA1File junk (Some (map Some ds)) = Some (Some ?h, shaSuccess)"
    using sha1_reads_absorbed [OF absorbed_init [OF junk] g(2)] g(3) SHA1Final_absorbed by (auto simp: SHA1File_def)
  show ?thesis
  proof (cases "cat ?h")
    case None
    have cl: "client_ok fp D (length (ref_chunks ?data) + n) ex st" using client(1) pd by simp
    obtain rst' fi ex' st' where C: "\<forall>ps. file_dudup fp (mark_no_rewrite False (readable ?data)) junk (Some (map Some ds)) (readable ?data) p rst ex st
      (reply cat (?h, p, sent_chunks fi) @ ps) = Some (rst', ex', st', ps, request cat (?h, p, sent_chunks fi), 0)"
      "rabin_ok rst'" "client_ok fp D n ex' st'" "\<forall>a h d. has st a h d \<longrightarrow> has st' a h d"
      "list_all2 (placed st') (chunk_list fp 0 (ref_chunks ?data)) (fchunks fi)" "chunks_ok (sent_chunks fi)"
      using new_file_dialogue [where cat = cat and h = ?h and fp = fp, OF cl client(2) fp g(4) sha length_sha1_hash g(1) None]
      by blast
    have "leads fp st' ?data (sent_chunks fi)" using placed_leads [OF C(5)] by (simp add: sent_chunks_def)
    moreover have "data = ?data" if "data \<in> H" "sha1_hash data = ?h" for data
      using inj_onD [OF f(3) that(2) that(1)] f(2) pd by simp
    ultimately have "backed fp st' (enter cat (?h, p, sent_chunks fi)) H"
      using cat C(4,6) leads_mono None unfolding backed_def by fastforce
    moreover have "index_grows 1 ex ex'"
      using file_dudup_grows C(1) cl unfolding client_ok_def by blast
    ultimately show ?thesis using C pd g(1) length_sha1_hash None
      by (intro exI [of _ "(?h, p, sent_chunks fi)"] exI [of _ rst'] exI [of _ ex'] exI [of _ st']) simp
  next
    case (Some g')
    then have c: "chunks_ok g'" using cat f(2) pd unfolding backed_def by auto
    have "client_ok fp D n ex st" using client(1) client_ok_less by blast
    with known_file_dialogue [where cat = cat and h = ?h, OF sha g(1) Some c] Some pd g(1) length_sha1_hash client(2) cat c index_grows_refl show ?thesis
      by (intro exI [of _ "(?h, p, [])"] exI [of _ rst] exI [of _ ex] exI [of _ st]) (simp add: chunks_ok_def)
  qed
qed

section \<open>All files\<close>

lemma backup_file_dialogue:
  assumes "\<forall>ps. file_dudup fp (mark_no_rewrite False (readable (content_of f))) junk (Some (map Some (snd f))) (readable (content_of f)) (fst f)
      rst ex st (reply cat u @ ps) = Some (rst', ex', st', ps, request cat u, 0)" "file_good D f"
  shows "backup_files fp junk (map as_read (f # F)) \<lparr>cr_rabin = rst, cr_index = ex, cr_store = st, cr_in = reply cat u @ ps, cr_sent = sent\<rparr> =
    backup_files fp junk (map as_read F) \<lparr>cr_rabin = rst', cr_index = ex', cr_store = st', cr_in = ps, cr_sent = sent @ request cat u\<rparr>"
proof -
  obtain p ds where "f = (p, ds)" by (cases f)
  with assms show ?thesis by (simp add: backup_file_def path_ok_def)
qed

lemma pieces_of_Cons: "pieces_of (f # F) = length (ref_chunks (content_of f)) + pieces_of F"
  by (simp add: pieces_of_def)

lemma enter_known: "cat h \<noteq> None \<Longrightarrow> enter cat u h = cat h"
  by (cases u) (auto split: option.splits)

lemma foldl_enter_known: "cat h \<noteq> None \<Longrightarrow> foldl enter cat us h = cat h"
  by (induction us arbitrary: cat) (auto simp: enter_known)

lemma files_dialogue:
  assumes "client_ok fp D (pieces_of F + n) ex st" "rabin_init_flag rst \<Longrightarrow> rabin_ok rst"
    and "\<forall>d. length (fp d) = 20" "length (Message_Block junk) = 64"
    and "\<forall>f\<in>set F. file_good D f \<and> content_of f \<in> H" "inj_on sha1_hash H" "backed fp st cat H"
  shows "\<exists>us rst' ex' st'. map (\<lambda>u. (fst u, fst (snd u))) us = map (\<lambda>f. (sha1_hash (content_of f), fst f)) F \<and>
    (\<forall>u\<in>set us. upload_ok u) \<and>
    (\<forall>ps sent. backup_files fp junk (map as_read F)
        \<lparr>cr_rabin = rst, cr_index = ex, cr_store = st, cr_in = replies cat us @ ps, cr_sent = sent\<rparr> =
      Some \<lparr>cr_rabin = rst', cr_index = ex', cr_store = st', cr_in = ps, cr_sent = sent @ requests cat us\<rparr>) \<and>
    client_ok fp D n ex' st' \<and> index_grows (length F) ex ex' \<and> (\<forall>a h d. has st a h d \<longrightarrow> has st' a h d) \<and> backed fp st' (foldl enter cat us) H \<and>
    (\<forall>f\<in>set F. foldl enter cat us (sha1_hash (content_of f)) \<noteq> None)"
  using assms
proof (induction F arbitrary: rst ex st cat)
  case Nil
  then show ?case by (intro exI [of _ "[]"]) (auto simp: pieces_of_def index_grows_refl)
next
  case (Cons f F)
  have good: "file_good D f" "content_of f \<in> H" and F: "\<forall>f\<in>set F. file_good D f \<and> content_of f \<in> H" using Cons.prems(5) by auto
  have cl: "client_ok fp D (length (ref_chunks (content_of f)) + (pieces_of F + n)) ex st"
    using Cons.prems(1) by (simp add: pieces_of_Cons add.assoc)
  obtain u rst1 ex1 st1 where u: "fst u = sha1_hash (content_of f)" "fst (snd u) = fst f" "upload_ok u"
    "\<forall>ps. file_dudup fp (mark_no_rewrite False (readable (content_of f))) junk (Some (map Some (snd f))) (readable (content_of f)) (fst f)
      rst ex st (reply cat u @ ps) = Some (rst1, ex1, st1, ps, request cat u, 0)"
    "rabin_init_flag rst1 \<longrightarrow> rabin_ok rst1" "client_ok fp D (pieces_of F + n) ex1 st1" "index_grows 1 ex ex1" "\<forall>a h d. has st a h d \<longrightarrow> has st1 a h d"
    "backed fp st1 (enter cat u) H" "enter cat u (sha1_hash (content_of f)) \<noteq> None"
    using file_dialogue [OF cl Cons.prems(2-4) good Cons.prems(6,7)] by blast
  obtain us rst' ex' st' where us: "map (\<lambda>u. (fst u, fst (snd u))) us = map (\<lambda>f. (sha1_hash (content_of f), fst f)) F"
    "\<forall>u\<in>set us. upload_ok u"
    "\<forall>ps sent. backup_files fp junk (map as_read F)
        \<lparr>cr_rabin = rst1, cr_index = ex1, cr_store = st1, cr_in = replies (enter cat u) us @ ps, cr_sent = sent\<rparr> =
      Some \<lparr>cr_rabin = rst', cr_index = ex', cr_store = st', cr_in = ps, cr_sent = sent @ requests (enter cat u) us\<rparr>"
    "client_ok fp D n ex' st'" "index_grows (length F) ex1 ex'" "\<forall>a h d. has st1 a h d \<longrightarrow> has st' a h d" "backed fp st' (foldl enter (enter cat u) us) H"
    "\<forall>f\<in>set F. foldl enter (enter cat u) us (sha1_hash (content_of f)) \<noteq> None"
    using Cons.IH [OF u(6) _ Cons.prems(3,4) F Cons.prems(6) u(9)] u(5) by blast
  have "backup_files fp junk (map as_read (f # F))
        \<lparr>cr_rabin = rst, cr_index = ex, cr_store = st, cr_in = replies cat (u # us) @ ps, cr_sent = sent\<rparr> =
      Some \<lparr>cr_rabin = rst', cr_index = ex', cr_store = st', cr_in = ps, cr_sent = sent @ requests cat (u # us)\<rparr>" for ps sent
    using backup_file_dialogue [OF u(4) good(1), of F "replies (enter cat u) us @ ps" sent] us(3) by simp
  moreover have "foldl enter cat (u # us) (sha1_hash (content_of f)) \<noteq> None" using foldl_enter_known [where cat = "enter cat u", OF u(10)] u(10) by simp
  moreover have "foldl enter cat (u # us) = foldl enter (enter cat u) us" by simp
  ultimately show ?case
    using u(1-3,8) us(1,2,4,6-8) index_grows_trans [OF u(7) us(5)] by (intro exI [of _ "u # us"] exI [of _ rst'] exI [of _ ex'] exI [of _ st']) auto
qed

section \<open>The whole backup, on the client\<close>

lemma recv_backup_ok: "recv_answer (Data backup_ok # ps) = Some (14, backup_ok, ps)" "starts_with backup_ok backup_ok"
  by (simp_all add: recv_answer_def starts_with_def backup_ok_def asc_def)

text \<open>A tree without anything that the walk stumbles over and with these files, in this order.\<close>

definition tree_of :: "byte list \<Rightarrow> tree \<Rightarrow> whole_file list \<Rightarrow> bool" where
  "tree_of path t F \<longleftrightarrow> (\<exists>es. t = Directory es) \<and> tree_ok (with_slash path) t \<and> tree_files (with_slash path) t = map as_read F"

lemma backup_client_spec:
  assumes t: "tree_of path t F" "length path < 243"
    and init: "ExtremeBinningInit bins = Some (ex, b)" "store_init tmp r clk = Some st"
    and client: "client_ok fp D (pieces_of F + n) ex st" "volumes_room (htable_size (bin_cache ex) + length F + m) ex"
    and fp: "\<forall>d. length (fp d) = 20" "length (Message_Block junk) = 64"
    and F: "\<forall>f\<in>set F. file_good D f \<and> content_of f \<in> H" "inj_on sha1_hash H" "backed fp st cat H"
  shows "\<exists>us ex' ex1 st'. map (\<lambda>u. (fst u, fst (snd u))) us = map (\<lambda>f. (sha1_hash (content_of f), fst f)) F \<and>
    (\<forall>u\<in>set us. upload_ok u) \<and>
    backup_client fp junk path t bins tmp r clk (replies cat us @ [Data backup_ok]) =
      Some (SUCCESS, eb_disk (ExtremeBinningDestroy ex1), st_disk (store_destory False st'), [],
        Data (backup_msg path) # requests cat us @ [Signal STREAM_END]) \<and>
    client_ok fp D n ex' st' \<and> (\<forall>a h d. has st a h d \<longrightarrow> has st' a h d) \<and> backed fp st' (foldl enter cat us) H \<and>
    (\<forall>f\<in>set F. foldl enter cat us (sha1_hash (content_of f)) \<noteq> None) \<and>
    index_grows (length F) ex ex' \<and> free_cache_bin ex' = Some ex1 \<and> exbin_ok ex1 \<and> volumes_room m ex1 \<and>
    (\<forall>k. length k = 20 \<longrightarrow> htable_lookup (bin_cache ex1) k = None) \<and>
    (\<forall>rep m. length rep = 20 \<and> bin_view ex' rep m \<longrightarrow> bin_view ex1 rep m)"
proof -
  have rst: "rabin_init_flag rabin_start \<Longrightarrow> rabin_ok rabin_start" by (simp add: rabin_start_def)
  obtain us rst' ex' st' where us: "map (\<lambda>u. (fst u, fst (snd u))) us = map (\<lambda>f. (sha1_hash (content_of f), fst f)) F"
    "\<forall>u\<in>set us. upload_ok u"
    "\<forall>ps sent. backup_files fp junk (map as_read F)
        \<lparr>cr_rabin = rabin_start, cr_index = ex, cr_store = st, cr_in = replies cat us @ ps, cr_sent = sent\<rparr> =
      Some \<lparr>cr_rabin = rst', cr_index = ex', cr_store = st', cr_in = ps, cr_sent = sent @ requests cat us\<rparr>"
    "client_ok fp D n ex' st'" "index_grows (length F) ex ex'" "\<forall>a h d. has st a h d \<longrightarrow> has st' a h d"
    "backed fp st' (foldl enter cat us) H" "\<forall>f\<in>set F. foldl enter cat us (sha1_hash (content_of f)) \<noteq> None"
    using files_dialogue [OF client(1) rst fp F] by blast
  have "exbin_ok ex'" using us(4) by (simp add: client_ok_def)
  moreover have "volumes_room (htable_size (bin_cache ex') + m) ex'"
    using volumes_room_less [OF client(2)] us(5) by (simp add: index_grows_def)
  ultimately obtain ex1 where ex1: "free_cache_bin ex' = Some ex1" "exbin_ok ex1" "volumes_room m ex1"
    "\<forall>k. length k = 20 \<longrightarrow> htable_lookup (bin_cache ex1) k = None"
    "\<forall>rep m. length rep = 20 \<and> bin_view ex' rep m \<longrightarrow> bin_view ex1 rep m"
    using free_cache_bin_spec by blast
  obtain es where es: "t = Directory es" "tree_ok (with_slash path) t" "tree_files (with_slash path) t = map as_read F"
    using t(1) by (auto simp: tree_of_def)
  let ?s = "\<lparr>cr_rabin = rabin_start, cr_index = ex, cr_store = st, cr_in = replies cat us @ [Data backup_ok], cr_sent = [Data (backup_msg path)]\<rparr>"
  have w: "walk_dir fp junk (with_slash path) t ?s = Some \<lparr>cr_rabin = rst', cr_index = ex', cr_store = st', cr_in = [Data backup_ok],
      cr_sent = [Data (backup_msg path)] @ requests cat us\<rparr>"
    using walk_dir_files(1) [OF es(2), of fp junk ?s] us(3) es(3) by simp
  have "backup_client fp junk path t bins tmp r clk (replies cat us @ [Data backup_ok]) =
      Some (SUCCESS, eb_disk (ExtremeBinningDestroy ex1), st_disk (store_destory False st'), [],
        Data (backup_msg path) # requests cat us @ [Signal STREAM_END])"
    unfolding backup_client_def Let_def using t(2) init w es(1) ex1(1) recv_backup_ok by simp
  with us(1,2,4-8) ex1 show ?thesis by blast
qed

section \<open>The whole restore, on the client\<close>

lemma leads_restored:
  assumes client: "client_ok fp D n ex st" and l: "leads fp st data g" and ok: "chunks_ok g"
    and D: "\<forall>i k. pread data i k \<in> D" "inj_on fp D"
    and same: "map (\<lambda>fc. (chunk_hash fc, fc_address fc)) fcs = g"
  shows "list_all2 (restores False fetch (st_disk (store_destory False st))) fcs (ref_chunks data)"
proof (unfold list_all2_conv_all_nth, intro conjI allI impI)
  let ?ds = "ref_chunks data"
  have len: "length ?ds = length g" "length fcs = length g" using l same by (auto simp: leads_def dest: list_all2_lengthD)
  then show "length fcs = length ?ds" by simp
  have st: "store_ok st" and gen: "genuine fp D st" using client by (auto simp: client_ok_def store_room_def)
  fix i assume i: "i < length fcs"
  then have gi: "g ! i = (chunk_hash (fcs ! i), fc_address (fcs ! i))" by (simp flip: same)
  obtain d where d: "chunk_hash (fcs ! i) = fp (?ds ! i)" "address_ok (fc_address (fcs ! i))"
    "has st (fc_address (fcs ! i)) (chunk_hash (fcs ! i)) d"
    using l i len gi by (fastforce simp: leads_def list_all2_conv_all_nth)
  have "?ds ! i \<in> D" using D(1) concat_slice [of i ?ds] i len by (metis concat_ref_chunks pread_def)
  then have u: "d' = ?ds ! i" if "has st (fc_address (fcs ! i)) (chunk_hash (fcs ! i)) d'" for d'
    using that gen d(1) D(2) unfolding genuine_def inj_on_def by metis
  have h: "has st (fc_address (fcs ! i)) (chunk_hash (fcs ! i)) (?ds ! i)" using d(3) u by blast
  have "g ! i \<in> set g" using i len by simp
  then have "length (chunk_hash (fcs ! i)) = 20" using ok gi by (auto simp: chunks_ok_def)
  then show "restores False fetch (st_disk (store_destory False st)) (fcs ! i) (?ds ! i)"
    using restore_held [OF st h u d(2)] address_ok_length [OF d(2)] unfolding restores_def by fastforce
qed

lemma construct_one_spec:
  assumes fcs: "list_all2 (restores False fetch dk) (fchunks fi) (ref_chunks data)" and r: "cache_ok (rt_cache r)" "rs_disk (rt_cache r) = dk"
    and t: "\<not> denied (rt_target r) (full_path base fi)" "length (file_bytes (rt_target r) (full_path base fi)) \<le> length data"
  shows "\<exists>r'. construct_one False False fetch base r fi = Some (r', True) \<and> cache_ok (rt_cache r') \<and> rs_disk (rt_cache r') = dk \<and>
    rt_target r' = (rt_target r)\<lparr>files := (files (rt_target r))(full_path base fi \<mapsto> data)\<rparr>"
proof -
  obtain rs ck where w: "write_chunks False fetch (rt_cache r) (rt_chunk r) (fchunks fi) [] = Some (rs, ck, data, True)"
    "cache_ok rs" "rs_disk rs = dk"
    using write_chunks_data [OF fcs r, of "rt_chunk r" "[]"] by (auto simp: concat_ref_chunks)
  then show ?thesis
    using t by (auto simp: construct_one_def rewritten_file_def Let_def open_creat_def disk_pwrite_def pwrite_cover file_bytes_def
      split: option.splits)
qed

lemma construct_files_spec:
  assumes "list_all2 (\<lambda>f fi. cstr (file_path fi) = fst f \<and> file_size fi = 0 \<and>
      list_all2 (restores False fetch dk) (fchunks fi) (ref_chunks (content_of f))) F fis"
    and "cache_ok (rt_cache r)" "rs_disk (rt_cache r) = dk" "distinct (map fst F)"
    and "\<forall>f\<in>set F. \<not> denied (rt_target r) (cstr base @ fst f) \<and> length (file_bytes (rt_target r) (cstr base @ fst f)) \<le> length (content_of f)"
  shows "\<exists>r'. construct_files False False fetch base r (fis @ [file_new\<lparr>file_size := -1\<rparr>]) = Some r' \<and>
    (\<forall>f\<in>set F. files (rt_target r') (cstr base @ fst f) = Some (content_of f)) \<and>
    (\<forall>q. q \<notin> (\<lambda>f. cstr base @ fst f) ` set F \<longrightarrow> files (rt_target r') q = files (rt_target r) q)"
  using assms
proof (induction F arbitrary: fis r)
  case (Cons f F)
  obtain fi fis' where fis: "fis = fi # fis'" "cstr (file_path fi) = fst f" "file_size fi = 0"
    "list_all2 (restores False fetch dk) (fchunks fi) (ref_chunks (content_of f))"
    and rest: "list_all2 (\<lambda>f fi. cstr (file_path fi) = fst f \<and> file_size fi = 0 \<and>
      list_all2 (restores False fetch dk) (fchunks fi) (ref_chunks (content_of f))) F fis'"
    using Cons.prems(1) by (auto simp: list_all2_Cons1)
  have path: "full_path base fi = cstr base @ fst f" by (simp add: full_path_def fis(2))
  obtain r1 where r1: "construct_one False False fetch base r fi = Some (r1, True)" "cache_ok (rt_cache r1)" "rs_disk (rt_cache r1) = dk"
    "rt_target r1 = (rt_target r)\<lparr>files := (files (rt_target r))(cstr base @ fst f \<mapsto> content_of f)\<rparr>"
    using construct_one_spec [OF fis(4) Cons.prems(2,3), of base] Cons.prems(5) path by auto
  have new: "fst f \<notin> fst ` set F" "distinct (map fst F)" using Cons.prems(4) by auto
  have t: "\<forall>f\<in>set F. \<not> denied (rt_target r1) (cstr base @ fst f) \<and>
      length (file_bytes (rt_target r1) (cstr base @ fst f)) \<le> length (content_of f)"
  proof
    fix g assume g: "g \<in> set F"
    then have "fst g \<noteq> fst f" using new(1) by (metis image_eqI)
    then show "\<not> denied (rt_target r1) (cstr base @ fst g) \<and> length (file_bytes (rt_target r1) (cstr base @ fst g)) \<le> length (content_of g)"
      using Cons.prems(5) g by (simp add: r1(4) file_bytes_def)
  qed
  obtain r' where r': "construct_files False False fetch base r1 (fis' @ [file_new\<lparr>file_size := -1\<rparr>]) = Some r'"
    "\<forall>f\<in>set F. files (rt_target r') (cstr base @ fst f) = Some (content_of f)"
    "\<forall>q. q \<notin> (\<lambda>f. cstr base @ fst f) ` set F \<longrightarrow> files (rt_target r') q = files (rt_target r1) q"
    using Cons.IH [OF rest r1(2,3) new(2) t] by blast
  have "files (rt_target r') (cstr base @ fst f) = Some (content_of f)" using r'(3) new(1) by (force simp: r1(4))
  moreover have "construct_files False False fetch base r (fis @ [file_new\<lparr>file_size := -1\<rparr>]) = Some r'"
    using r'(1) r1(1) fis(1,3) by simp
  moreover have "files (rt_target r') q = files (rt_target r) q" if "q \<notin> (\<lambda>f. cstr base @ fst f) ` set (f # F)" for q
    using that r'(3) by (simp add: r1(4))
  moreover have "\<forall>g\<in>set (f # F). files (rt_target r') (cstr base @ fst g) = Some (content_of g)"
    using r'(2) calculation(1) by simp
  ultimately show ?case by blast
qed (simp add: list_all2_Nil)

lemma restore_args_ok:
  assumes "path_ok base" "last base \<noteq> 47"
  shows "restore_args (show_int (int job) @ 44 # base) = Some (int job, base)"
proof -
  have z: "0 \<notin> set (show_int (int job) @ 44 # base)"
    using assms(1) dec_digits_nonzero [of job] by (auto simp: path_ok_def show_int_def)
  have i: "scan_int (show_int (int job) @ 44 # base) = Some (int job, 44 # base)"
    by (rule scan_int_show) (simp add: is_digit_def)
  have b: "base \<noteq> []" "\<forall>c\<in>set base. \<not> is_space c" using assms(1) by (auto simp: path_ok_def)
  have s: "scan_lit [44] (44 # base) = Some base" by (simp add: is_space_def)
  show ?thesis
    using i s scan_str_word [OF b, of "[]"] assms(2) unfolding restore_args_def cstr_id [OF z] by simp
qed

definition key_of :: "whole_file \<Rightarrow> fingerprint \<times> byte list" where
  "key_of f = (sha1_hash (content_of f), fst f)"

text \<open>The chunks of all these files lead into the store and the server has their recipes.\<close>

lemma restore_client_spec:
  assumes srv: "server_ok e s cat" and rows: "my_job_files e (ss_db s) (int job) = Some (map key_of F)" "F \<noteq> []" "length F < 2 ^ 31"
    and client: "client_ok fp D n ex st" "inj_on fp D" and F: "\<forall>f\<in>set F. file_good D f \<and> content_of f \<in> H" "distinct (map fst F)"
    and cat: "backed fp st cat H" "\<forall>f\<in>set F. cat (sha1_hash (content_of f)) \<noteq> None"
    and base: "path_ok base" "last base \<noteq> 47"
  shows "\<exists>s' ps. restore e (asc ''REST jobid='' @ show_int (int job)) s = Some (SUCCESS, s') \<and> ss_out s' = ss_out s @ ps \<and>
    (\<forall>rt. cache_ok (rt_cache rt) \<and> rs_disk (rt_cache rt) = st_disk (store_destory False st) \<and>
        (\<forall>f\<in>set F. \<not> denied (rt_target rt) (base @ fst f) \<and> length (file_bytes (rt_target rt) (base @ fst f)) \<le> length (content_of f)) \<longrightarrow>
      (\<exists>rt'. restore_client False fetch (show_int (int job) @ 44 # base) rt ps =
          Some (SUCCESS, rt', [], [Data (asc ''REST jobid='' @ show_int (int job))]) \<and>
        (\<forall>f\<in>set F. files (rt_target rt') (base @ fst f) = Some (content_of f))))"
proof -
  have cb: "cstr base = base" using base(1) by (auto simp: path_ok_def intro: cstr_id)
  have good: "path_ok (fst f)" "\<forall>i k. pread (content_of f) i k \<in> D" if "f \<in> set F" for f
    using F(1) that by (cases f; force)+
  have "\<forall>hp\<in>set (map key_of F). length (fst hp) = 20 \<and> path_ok (snd hp) \<and> (\<exists>fcs. cat (fst hp) = Some fcs \<and> chunks_ok fcs)"
    using good(1) length_sha1_hash cat F(1) unfolding backed_def key_of_def by fastforce
  from restore_spec [OF srv rows(1) _ _ this, of "[]"] rows(2,3)
  obtain s' ps fl qs fis where R: "restore e (asc ''REST jobid='' @ show_int (int job)) s = Some (SUCCESS, s')"
    "ss_out s' = ss_out s @ ps" "recv_file_list ps = Some (fl, SUCCESS, qs)" "get_files fl qs = Some (fis @ [file_new\<lparr>file_size := -1\<rparr>], [])"
    "list_all2 (\<lambda>hp fi. file_hash fi = fst hp \<and> cstr (file_path fi) = snd hp \<and> file_size fi = 0 \<and>
      Some (map (\<lambda>fc. (chunk_hash fc, fc_address fc)) (fchunks fi)) = cat (fst hp)) (map key_of F) fis"
    by auto
  have all: "list_all2 (\<lambda>f fi. cstr (file_path fi) = fst f \<and> file_size fi = 0 \<and>
      list_all2 (restores False fetch (st_disk (store_destory False st))) (fchunks fi) (ref_chunks (content_of f))) F fis"
  proof (rule list_all2_all_nthI)
    show l: "length F = length fis" using R(5) by (auto dest: list_all2_lengthD)
    fix i assume i: "i < length F"
    then have fi: "cstr (file_path (fis ! i)) = fst (F ! i)" "file_size (fis ! i) = 0"
      "cat (sha1_hash (content_of (F ! i))) = Some (map (\<lambda>fc. (chunk_hash fc, fc_address fc)) (fchunks (fis ! i)))"
      using R(5) by (auto simp: list_all2_conv_all_nth key_of_def)
    have "F ! i \<in> set F" "content_of (F ! i) \<in> H" using i F(1) by auto
    then have "list_all2 (restores False fetch (st_disk (store_destory False st))) (fchunks (fis ! i)) (ref_chunks (content_of (F ! i)))"
      using leads_restored [OF client(1) _ _ good(2) client(2) refl] cat(1) fi(3) unfolding backed_def by blast
    with fi show "cstr (file_path (fis ! i)) = fst (F ! i) \<and> file_size (fis ! i) = 0 \<and>
      list_all2 (restores False fetch (st_disk (store_destory False st))) (fchunks (fis ! i)) (ref_chunks (content_of (F ! i)))" by simp
  qed
  have "\<exists>rt'. restore_client False fetch (show_int (int job) @ 44 # base) rt ps =
          Some (SUCCESS, rt', [], [Data (asc ''REST jobid='' @ show_int (int job))]) \<and>
        (\<forall>f\<in>set F. files (rt_target rt') (base @ fst f) = Some (content_of f))"
    if rt: "cache_ok (rt_cache rt)" "rs_disk (rt_cache rt) = st_disk (store_destory False st)"
      "\<forall>f\<in>set F. \<not> denied (rt_target rt) (base @ fst f) \<and> length (file_bytes (rt_target rt) (base @ fst f)) \<le> length (content_of f)" for rt
  proof -
    obtain rt' where "construct_files False False fetch base rt (fis @ [file_new\<lparr>file_size := -1\<rparr>]) = Some rt'"
      "\<forall>f\<in>set F. files (rt_target rt') (base @ fst f) = Some (content_of f)"
      using construct_files_spec [OF all rt(1,2) F(2), of base] rt(3) cb by auto
    moreover have "length base < 256" using base(1) by (simp add: path_ok_def)
    ultimately show ?thesis
      using R(3,4) restore_args_ok [OF base] by (simp add: restore_client_def get_job_info_def)
  qed
  with R(1,2) show ?thesis by blast
qed

section \<open>The next run\<close>

lemma FreeBin_frame:
  assumes "FreeBin ex b = Some ex'"
  shows "htable_size (main_table ex') = htable_size (main_table ex)" "denied (eb_disk ex') = denied (eb_disk ex)"
proof -
  have w: "main_table ex1 = main_table ex \<and> denied (eb_disk ex1) = denied (eb_disk ex)" if "WriteBinToVolume ex b = Some (ex1, a)" for ex1 a
    using that by (auto simp: WriteBinToVolume_def Let_def disk_pwrite_def split: option.splits prod.splits if_splits)
  have "htable_size (htable_update k g t) = htable_size t" for k g and t :: "main_index htable" by (simp add: htable_size_def)
  then show "htable_size (main_table ex') = htable_size (main_table ex)" "denied (eb_disk ex') = denied (eb_disk ex)"
    using assms w by (auto simp: FreeBin_def Let_def split: option.splits if_splits)
qed

lemma free_bins_frame:
  "free_bins ex bs = Some ex' \<Longrightarrow>
    htable_size (main_table ex') = htable_size (main_table ex) \<and> denied (eb_disk ex') = denied (eb_disk ex)"
proof (induction bs arbitrary: ex)
  case (Cons b bs)
  then obtain ex1 where "FreeBin ex b = Some ex1" "free_bins ex1 bs = Some ex'" by (auto split: option.splits)
  with FreeBin_frame [of ex b ex1] Cons.IH [of ex1] show ?case by simp
qed simp

lemma bin_view_total: "exbin_ok ex \<Longrightarrow> length rep = 20 \<Longrightarrow> \<exists>m. bin_view ex rep m"
  using exbin_okD(4) [of ex rep]
  by (cases "htable_lookup (bin_cache ex) rep"; cases "htable_lookup (main_table ex) rep") (auto simp: bin_view_def)

lemma reopened_store:
  assumes ok: "store_ok st" and r: "r < 2147483647"
    and fresh: "\<forall>r'\<ge>r. files (st_disk (store_destory False st)) (TmpPath @ fst (GetContainerName (clk r') r')) = None"
  shows "\<exists>st'. store_init (st_disk (store_destory False st)) r clk = Some st' \<and> store_ok st' \<and> randomabc st' = Suc r \<and>
    (\<forall>a h d. has st' a h d \<longleftrightarrow> has st a h d)"
proof -
  let ?dk = "st_disk (store_destory False st)"
  have ci: "container_inv (st_container st)" "\<forall>p. \<not> denied (st_disk st) p" using ok by (auto simp: store_ok_def)
  obtain c where c: "InitContainer (clk r) r = Some (c, r + 1)" "content c = {}" by (auto simp: InitContainer_eq content_def)
  let ?st = "\<lparr>st_disk = ?dk, st_container = c, randomabc = r + 1, clock = clk\<rparr>"
  have i: "store_init ?dk r clk = Some ?st" using c(1) by (simp add: store_init_def)
  have den: "\<forall>p. \<not> denied ?dk p"
    using ci(2) by (simp add: store_destory_def WriteContainer_def container_save_def disk_pwrite_def Let_def split: option.split)
  have st': "store_ok ?st" by (rule store_init_ok [OF i r den fresh])
  have name: "files ?dk (TmpPath @ cstr (cname c)) = None" using st' by (simp add: store_ok_def)
  have "has st a h d" if h: "has ?st a h d" for a h d
  proof -
    obtain S where S: "held ?st a S" "(h, d) \<in> S" using h by (auto simp: has_def)
    then have "on_disk ?dk a S" using c(2) by (auto simp: held_def split: if_splits)
    then have "held st a S"
      using ok on_disk_write [OF ci] by (auto simp: store_destory_def held_def on_disk_def store_ok_def split: if_splits)
    with S(2) show ?thesis by (auto simp: has_def)
  qed
  moreover have "has ?st a h d" if h: "has st a h d" for a h d
  proof -
    obtain S where S: "held st a S" "(h, d) \<in> S" using h by (auto simp: has_def)
    then have o: "on_disk ?dk a S" using store_destory_on_disk [OF ok S(1)] by auto
    then have "cstr a \<noteq> cstr (cname c)" using name by (auto simp: on_disk_def)
    with o S(2) show ?thesis by (auto simp: has_def held_def)
  qed
  ultimately show ?thesis using i st' by auto
qed

lemma reopened_index:
  assumes ex: "exbin_ok ex" and room: "volumes_room (htable_size (bin_cache ex) + m) ex"
    and disk: "\<not> denied (eb_disk ex) repfinger_path" "htable_size (main_table ex) < 2 ^ 31"
  shows "\<exists>ex1 ex2. free_cache_bin ex = Some ex1 \<and> ExtremeBinningInit (eb_disk (ExtremeBinningDestroy ex1)) = Some (ex2, True) \<and>
    exbin_ok ex2 \<and> volumes_room m ex2 \<and> (\<forall>rep m. length rep = 20 \<longrightarrow> bin_view ex2 rep m = bin_view ex rep m)"
proof -
  obtain ex1 where ex1: "free_cache_bin ex = Some ex1" "exbin_ok ex1" "volumes_room m ex1"
    "\<forall>k. length k = 20 \<longrightarrow> htable_lookup (bin_cache ex1) k = None"
    "\<forall>rep m. length rep = 20 \<and> bin_view ex rep m \<longrightarrow> bin_view ex1 rep m"
    using free_cache_bin_spec [OF ex room] by blast
  have f: "\<not> denied (eb_disk ex1) repfinger_path" "htable_size (main_table ex1) < 2 ^ 31"
    using ex1(1) disk by (auto simp: free_cache_bin_def dest: free_bins_frame)
  obtain ex2 where ex2: "ExtremeBinningInit (eb_disk (ExtremeBinningDestroy ex1)) = Some (ex2, True)"
    "exbin_ok ex2" "volumes_room m ex2" "\<forall>rep m. length rep = 20 \<and> bin_view ex1 rep m \<longrightarrow> bin_view ex2 rep m"
    using flush_init [OF ex1(2,4) f ex1(3)] by (auto simp: ExtremeBinningDestroy_def)
  have "bin_view ex2 rep m' = bin_view ex rep m'" if "length rep = 20" for rep m'
    using bin_view_total [OF ex that] bin_view_unique ex1(5) ex2(4) that by metis
  with ex1(1) ex2(1-3) show ?thesis by blast
qed

section \<open>Properties\<close>



section \<open>Two files in a directory\<close>

text \<open>\<open>/d/a\<close> and \<open>/d/b\<close> hold the same bytes, so the second is known to the server when it comes.\<close>

definition demo_files :: "whole_file list" where
  "demo_files = [([47, 100, 47, 97], [[1, 2], [3]]), ([47, 100, 47, 98], [[1, 2, 3]])]"

definition demo_tree :: tree where
  "demo_tree = Directory
     [([46], Other), ([46, 46], Other), ([97], Regular (Some [Some [1, 2], Some [3]]) (readable [1, 2, 3])), ([110], Missing),
      ([98], Regular (Some [Some [1, 2, 3]]) (readable [1, 2, 3]))]"

lemma demo_tree_of: "tree_of [47, 100] demo_tree demo_files"
  by (simp add: tree_of_def demo_tree_def demo_files_def with_slash_def)

lemma demo_files_good: "\<forall>f\<in>set demo_files. file_good demo_pieces f" "content_of ` set demo_files = {[1, 2, 3]}" "pieces_of demo_files = 2"
  using demo_pieces_pread by (simp_all add: demo_files_def path_ok_def is_space_def pieces_of_def ref_chunks_123)

lemma demo_index: "ExtremeBinningInit empty_disk = Some (demo_exbin, True)" "htable_size (bin_cache demo_exbin) = 0"
  "htable_size (main_table demo_exbin) = 0" "volumes_room 100 demo_exbin" "\<not> denied (eb_disk demo_exbin) p"
  using first_run exbin_okD(2,3) [of demo_exbin] by (auto simp: ht.clean_def ht_inv_def htable_size_def)



end
