(* ===== verification/Sha1Vectors.thy ===== *)
theory Sha1Vectors
  imports Sha1
begin

unbundle bit_operations_syntax

text \<open>
  The hash of two messages, evaluated block by block: the fingerprint of the empty file is the published test
  vector da39a3ee 5e6b4b0d 3255bfef 95601890 afd80709, and files with different bytes have different fingerprints.
\<close>

definition schedule_step :: "32 word list \<Rightarrow> nat \<Rightarrow> 32 word list" where
  "schedule_step W t = W @ [SHA1CircularShift 1 (W ! (t - 3) XOR W ! (t - 8) XOR W ! (t - 14) XOR W ! (t - 16))]"

lemma schedule_steps: "schedule blk =
  foldl schedule_step (foldl schedule_step (foldl schedule_step (foldl schedule_step (first_words blk)
    [16, 17, 18, 19, 20, 21, 22, 23, 24, 25, 26, 27, 28, 29, 30, 31])
    [32, 33, 34, 35, 36, 37, 38, 39, 40, 41, 42, 43, 44, 45, 46, 47])
    [48, 49, 50, 51, 52, 53, 54, 55, 56, 57, 58, 59, 60, 61, 62, 63])
    [64, 65, 66, 67, 68, 69, 70, 71, 72, 73, 74, 75, 76, 77, 78, 79]"
proof -
  have "schedule_step = (\<lambda>W t. W @ [SHA1CircularShift 1 (W ! (t - 3) XOR W ! (t - 8) XOR W ! (t - 14) XOR W ! (t - 16))])"
    by (intro ext) (simp add: schedule_step_def)
  then have "schedule blk = foldl schedule_step (first_words blk) [16..<80]" by (simp only: schedule_def)
  also have "[16..<80] = [16, 17, 18, 19, 20, 21, 22, 23, 24, 25, 26, 27, 28, 29, 30, 31] @
    [32, 33, 34, 35, 36, 37, 38, 39, 40, 41, 42, 43, 44, 45, 46, 47] @ [48, 49, 50, 51, 52, 53, 54, 55, 56, 57, 58, 59, 60, 61, 62, 63] @
    [64, 65, 66, 67, 68, 69, 70, 71, 72, 73, 74, 75, 76, 77, 78, 79]"
    by (simp add: upt_rec)
  finally show ?thesis by (simp only: foldl_append)
qed

lemma one_block: "length m = 64 \<Longrightarrow> sha1_blocks m = [m]"
  using sha1_blocks_64 [of m "[]"] by (simp add: sha1_blocks_short)

section \<open>The empty message\<close>

lemma empty_words: "first_words (128 # replicate 55 0 @ [0, 0, 0, 0, 0, 0, 0, 0]) =
    [2147483648, 0, 0, 0, 0, 0, 0, 0, 0, 0, 0, 0, 0, 0, 0, 0]"
  by (simp add: first_words_def upt_rec nth_append)

lemma empty_schedule1: "foldl schedule_step
    [2147483648, 0, 0, 0, 0, 0, 0, 0, 0, 0, 0, 0, 0, 0, 0, 0] [16, 17, 18, 19, 20, 21, 22, 23, 24, 25, 26, 27, 28, 29, 30, 31] =
    [2147483648, 0, 0, 0, 0, 0, 0, 0, 0, 0, 0, 0, 0, 0, 0, 0, 1, 0, 0, 2, 0, 0, 4, 0, 2, 8, 0, 0, 16, 0, 10, 32]"
  by (simp add: schedule_step_def SHA1CircularShift_def)

lemma empty_schedule2: "foldl schedule_step
    [2147483648, 0, 0, 0, 0, 0, 0, 0, 0, 0, 0, 0, 0, 0, 0, 0, 1, 0, 0, 2, 0, 0, 4, 0, 2, 8, 0, 0, 16, 0, 10, 32] [32, 33, 34, 35, 36, 37, 38, 39, 40, 41, 42, 43, 44, 45, 46, 47] =
    [2147483648, 0, 0, 0, 0, 0, 0, 0, 0, 0, 0, 0, 0, 0, 0, 0, 1, 0, 0, 2, 0, 0, 4, 0, 2, 8, 0, 0, 16, 0, 10, 32, 6, 0, 64, 8, 40, 128, 8,
    0, 264, 0, 160, 512, 100, 0, 1032, 136]"
  by (simp add: schedule_step_def SHA1CircularShift_def)

lemma empty_schedule3: "foldl schedule_step
    [2147483648, 0, 0, 0, 0, 0, 0, 0, 0, 0, 0, 0, 0, 0, 0, 0, 1, 0, 0, 2, 0, 0, 4, 0, 2, 8, 0, 0, 16, 0, 10, 32, 6, 0, 64, 8, 40, 128, 8,
    0, 264, 0, 160, 512, 100, 0, 1032, 136] [48, 49, 50, 51, 52, 53, 54, 55, 56, 57, 58, 59, 60, 61, 62, 63] =
    [2147483648, 0, 0, 0, 0, 0, 0, 0, 0, 0, 0, 0, 0, 0, 0, 0, 1, 0, 0, 2, 0, 0, 4, 0, 2, 8, 0, 0, 16, 0, 10, 32, 6, 0, 64, 8, 40, 128, 8,
    0, 264, 0, 160, 512, 100, 0, 1032, 136, 668, 2048, 128, 40, 4232, 0, 2624, 8192, 1640, 128, 16520, 2176, 10440, 32768, 2216, 128]"
  by (simp add: schedule_step_def SHA1CircularShift_def)

lemma empty_schedule4: "foldl schedule_step
    [2147483648, 0, 0, 0, 0, 0, 0, 0, 0, 0, 0, 0, 0, 0, 0, 0, 1, 0, 0, 2, 0, 0, 4, 0, 2, 8, 0, 0, 16, 0, 10, 32, 6, 0, 64, 8, 40, 128, 8,
    0, 264, 0, 160, 512, 100, 0, 1032, 136, 668, 2048, 128, 40, 4232, 0, 2624, 8192, 1640, 128, 16520, 2176, 10440, 32768, 2216, 128] [64, 65, 66, 67, 68, 69, 70, 71, 72, 73, 74, 75, 76, 77, 78, 79] =
    [2147483648, 0, 0, 0, 0, 0, 0, 0, 0, 0, 0, 0, 0, 0, 0, 0, 1, 0, 0, 2, 0, 0, 4, 0, 2, 8, 0, 0, 16, 0, 10, 32, 6, 0, 64, 8, 40, 128, 8,
    0, 264, 0, 160, 512, 100, 0, 1032, 136, 668, 2048, 128, 40, 4232, 0, 2624, 8192, 1640, 128, 16520, 2176, 10440, 32768, 2216, 128,
    67816, 0, 40960, 131200, 25600, 0, 264192, 34816, 171024, 524288, 32896, 10272, 1083584, 0, 671936, 2097280]"
  by (simp add: schedule_step_def SHA1CircularShift_def)

lemma empty_1: "foldl (sha1_round (\<lambda>B C D. (B AND C) OR (NOT B AND D)) 1518500249) (1732584193, 4023233417, 2562383102, 271733878, 3285377520)
    [2147483648, 0, 0, 0, 0, 0, 0, 0, 0, 0, 0, 0, 0, 0, 0, 0, 1, 0, 0, 2] =
    (3881363674, 187730141, 2318029955, 3249529948, 4131346769)"
  by (simp add: SHA1CircularShift_def)

lemma empty_2: "foldl (sha1_round (\<lambda>B C D. B XOR C XOR D) 1859775393) (3881363674, 187730141, 2318029955, 3249529948, 4131346769)
    [0, 0, 4, 0, 2, 8, 0, 0, 16, 0, 10, 32, 6, 0, 64, 8, 40, 128, 8, 0] =
    (2614877553, 1646736209, 3967835682, 1094458778, 720285282)"
  by (simp add: SHA1CircularShift_def)

lemma empty_3: "foldl (sha1_round (\<lambda>B C D. (B AND C) OR (B AND D) OR (C AND D)) 2400959708) (2614877553, 1646736209, 3967835682, 1094458778, 720285282)
    [264, 0, 160, 512, 100, 0, 1032, 136, 668, 2048, 128, 40, 4232, 0, 2624, 8192, 1640, 128, 16520, 2176] =
    (2610768147, 2553007050, 3094080200, 3315808302, 2945618682)"
  by (simp add: SHA1CircularShift_def)

lemma empty_4: "foldl (sha1_round (\<lambda>B C D. B XOR C XOR D) 3395469782) (2610768147, 2553007050, 3094080200, 3315808302, 2945618682)
    [10440, 32768, 2216, 128, 67816, 0, 40960, 131200, 25600, 0, 264192, 34816, 171024, 524288, 32896, 10272, 1083584, 0, 671936, 2097280] =
    (1928626413, 1855823748, 2577064689, 2234369050, 3959760153)"
  by (simp add: SHA1CircularShift_def)

lemma empty_hash: "sha1_hash [] =
    [218, 57, 163, 238, 94, 107, 75, 13, 50, 85, 191, 239, 149, 96, 24, 144, 175, 216, 7, 9]"
proof -
  have p: "sha1_pad [] = 128 # replicate 55 0 @ [0, 0, 0, 0, 0, 0, 0, 0]"
    by (simp add: sha1_pad_def be_bytes_def upt_rec)
  have b: "sha1_blocks (sha1_pad []) = [128 # replicate 55 0 @ [0, 0, 0, 0, 0, 0, 0, 0]]"
    unfolding p by (rule one_block) simp
  note s = schedule_steps [of "128 # replicate 55 0 @ [0, 0, 0, 0, 0, 0, 0, 0]", unfolded empty_words empty_schedule1 empty_schedule2 empty_schedule3 empty_schedule4]
  show ?thesis
    unfolding sha1_hash_def b foldl.simps process_block_def s
    by (simp add: sha1_rounds_def sha1_K_def sha1_H0_def empty_1 empty_2 empty_3 empty_4 digest_bytes_def upt_rec Let_def del: foldl.simps)
qed

section \<open>The bytes 1, 2 and 3\<close>

lemma three_words: "first_words (1 # 2 # 3 # 128 # replicate 52 0 @ [0, 0, 0, 0, 0, 0, 0, 24]) =
    [16909184, 0, 0, 0, 0, 0, 0, 0, 0, 0, 0, 0, 0, 0, 0, 24]"
  by (simp add: first_words_def upt_rec nth_append)

lemma three_schedule1: "foldl schedule_step
    [16909184, 0, 0, 0, 0, 0, 0, 0, 0, 0, 0, 0, 0, 0, 0, 24] [16, 17, 18, 19, 20, 21, 22, 23, 24, 25, 26, 27, 28, 29, 30, 31] =
    [16909184, 0, 0, 0, 0, 0, 0, 0, 0, 0, 0, 0, 0, 0, 0, 24, 33818368, 0, 48, 67636736, 0, 96, 135273472, 48, 67636928, 270546944, 0, 384,
    541093888, 240, 338179328, 1082187856]"
  by (simp add: schedule_step_def SHA1CircularShift_def)

lemma three_schedule2: "foldl schedule_step
    [16909184, 0, 0, 0, 0, 0, 0, 0, 0, 0, 0, 0, 0, 0, 0, 24, 33818368, 0, 48, 67636736, 0, 96, 135273472, 48, 67636928, 270546944, 0, 384,
    541093888, 240, 338179328, 1082187856] [32, 33, 34, 35, 36, 37, 38, 39, 40, 41, 42, 43, 44, 45, 46, 47] =
    [16909184, 0, 0, 0, 0, 0, 0, 0, 0, 0, 0, 0, 0, 0, 0, 24, 33818368, 0, 48, 67636736, 0, 96, 135273472, 48, 67636928, 270546944, 0, 384,
    541093888, 240, 338179328, 1082187856, 202904064, 1536, 2164375744, 270547904, 1352717312, 33784001, 270546944, 6336, 338114562, 3840,
    1115901953, 135136612, 3381738496, 24768, 3945672, 304317729]"
  by (simp add: schedule_step_def SHA1CircularShift_def)

lemma three_schedule3: "foldl schedule_step
    [16909184, 0, 0, 0, 0, 0, 0, 0, 0, 0, 0, 0, 0, 0, 0, 24, 33818368, 0, 48, 67636736, 0, 96, 135273472, 48, 67636928, 270546944, 0, 384,
    541093888, 240, 338179328, 1082187856, 202904064, 1536, 2164375744, 270547904, 1352717312, 33784001, 270546944, 6336, 338114562, 3840,
    1115901953, 135136612, 3381738496, 24768, 3945672, 304317729] [48, 49, 50, 51, 52, 53, 54, 55, 56, 57, 58, 59, 60, 61, 62, 63] =
    [16909184, 0, 0, 0, 0, 0, 0, 0, 0, 0, 0, 0, 0, 0, 0, 24, 33818368, 0, 48, 67636736, 0, 96, 135273472, 48, 67636928, 270546944, 0, 384,
    541093888, 240, 338179328, 1082187856, 202904064, 1536, 2164375744, 270547904, 1352717312, 33784001, 270546944, 6336, 338114562, 3840,
    1115901953, 135136612, 3381738496, 24768, 3945672, 304317729, 847057925, 540544016, 33784769, 1352750272, 1381218337, 62976,
    2838806548, 2162185600, 3383956492, 33918145, 333673600, 574114513, 871790673, 58773186, 1922782225, 35342785]"
  by (simp add: schedule_step_def SHA1CircularShift_def)

lemma three_schedule4: "foldl schedule_step
    [16909184, 0, 0, 0, 0, 0, 0, 0, 0, 0, 0, 0, 0, 0, 0, 24, 33818368, 0, 48, 67636736, 0, 96, 135273472, 48, 67636928, 270546944, 0, 384,
    541093888, 240, 338179328, 1082187856, 202904064, 1536, 2164375744, 270547904, 1352717312, 33784001, 270546944, 6336, 338114562, 3840,
    1115901953, 135136612, 3381738496, 24768, 3945672, 304317729, 847057925, 540544016, 33784769, 1352750272, 1381218337, 62976,
    2838806548, 2162185600, 3383956492, 33918145, 333673600, 574114513, 871790673, 58773186, 1922782225, 35342785] [64, 65, 66, 67, 68, 69, 70, 71, 72, 73, 74, 75, 76, 77, 78, 79] =
    [16909184, 0, 0, 0, 0, 0, 0, 0, 0, 0, 0, 0, 0, 0, 0, 24, 33818368, 0, 48, 67636736, 0, 96, 135273472, 48, 67636928, 270546944, 0, 384,
    541093888, 240, 338179328, 1082187856, 202904064, 1536, 2164375744, 270547904, 1352717312, 33784001, 270546944, 6336, 338114562, 3840,
    1115901953, 135136612, 3381738496, 24768, 3945672, 304317729, 847057925, 540544016, 33784769, 1352750272, 1381218337, 62976,
    2838806548, 2162185600, 3383956492, 33918145, 333673600, 574114513, 871790673, 58773186, 1922782225, 35342785, 4103772693, 983040,
    2203061570, 201778185, 2436628681, 6340608, 1010092032, 595927186, 1565816114, 940317728, 25182723, 3788778064, 3501875539, 16124416,
    3082967208, 3797291009]"
  by (simp add: schedule_step_def SHA1CircularShift_def)

lemma three_1: "foldl (sha1_round (\<lambda>B C D. (B AND C) OR (NOT B AND D)) 1518500249) (1732584193, 4023233417, 2562383102, 271733878, 3285377520)
    [16909184, 0, 0, 0, 0, 0, 0, 0, 0, 0, 0, 0, 0, 0, 0, 24, 33818368, 0, 48, 67636736] =
    (1174355286, 2527150600, 2345579764, 3291550888, 2786038587)"
  by (simp add: SHA1CircularShift_def)

lemma three_2: "foldl (sha1_round (\<lambda>B C D. B XOR C XOR D) 1859775393) (1174355286, 2527150600, 2345579764, 3291550888, 2786038587)
    [0, 96, 135273472, 48, 67636928, 270546944, 0, 384, 541093888, 240, 338179328, 1082187856, 202904064, 1536, 2164375744, 270547904,
    1352717312, 33784001, 270546944, 6336] =
    (1740047044, 439025529, 1710772860, 652516743, 2684730938)"
  by (simp add: SHA1CircularShift_def)

lemma three_3: "foldl (sha1_round (\<lambda>B C D. (B AND C) OR (B AND D) OR (C AND D)) 2400959708) (1740047044, 439025529, 1710772860, 652516743, 2684730938)
    [338114562, 3840, 1115901953, 135136612, 3381738496, 24768, 3945672, 304317729, 847057925, 540544016, 33784769, 1352750272, 1381218337,
    62976, 2838806548, 2162185600, 3383956492, 33918145, 333673600, 574114513] =
    (2064481639, 2888596181, 4167196328, 1183387051, 277510008)"
  by (simp add: SHA1CircularShift_def)

lemma three_4: "foldl (sha1_round (\<lambda>B C D. B XOR C XOR D) 3395469782) (2064481639, 2888596181, 4167196328, 1183387051, 277510008)
    [871790673, 58773186, 1922782225, 35342785, 4103772693, 983040, 2203061570, 201778185, 2436628681, 6340608, 1010092032, 595927186,
    1565816114, 940317728, 25182723, 3788778064, 3501875539, 16124416, 3082967208, 3797291009] =
    (150101360, 2834595572, 2454530617, 222552835, 3833396703)"
  by (simp add: SHA1CircularShift_def)

lemma three_hash: "sha1_hash [1, 2, 3] =
    [112, 55, 128, 113, 152, 194, 42, 125, 43, 8, 7, 55, 29, 118, 55, 121, 168, 79, 223, 207]"
proof -
  have p: "sha1_pad [1, 2, 3] = 1 # 2 # 3 # 128 # replicate 52 0 @ [0, 0, 0, 0, 0, 0, 0, 24]"
    by (simp add: sha1_pad_def be_bytes_def upt_rec)
  have b: "sha1_blocks (sha1_pad [1, 2, 3]) = [1 # 2 # 3 # 128 # replicate 52 0 @ [0, 0, 0, 0, 0, 0, 0, 24]]"
    unfolding p by (rule one_block) simp
  note s = schedule_steps [of "1 # 2 # 3 # 128 # replicate 52 0 @ [0, 0, 0, 0, 0, 0, 0, 24]", unfolded three_words three_schedule1 three_schedule2 three_schedule3 three_schedule4]
  show ?thesis
    unfolding sha1_hash_def b foldl.simps process_block_def s
    by (simp add: sha1_rounds_def sha1_K_def sha1_H0_def three_1 three_2 three_3 three_4 digest_bytes_def upt_rec Let_def del: foldl.simps)
qed

lemma vectors_differ: "sha1_hash [] \<noteq> sha1_hash [1, 2, 3]"
  by (simp add: empty_hash three_hash)

end
