(* ===== verification/Pipeline.thy ===== *)
theory Pipeline
  imports WholeBackup Sha1Vectors
begin

text \<open>
  The backup with the pipeline, without rewriting: the four threads of the client
  (client/src/pipeline_backup.c) and the two threads of the server (server/src/pipeline_backup.c),
  between them the queues and two connections, one for fingerprints and one for recipes. One run of a
  thread's loop is one step, taken when all it receives has arrived: between what it takes
  from one queue and what it puts into another a thread shares nothing with the others but the
  server's index and its recipe volume, which have a mutex each, and SyncQueue has the queues as
  first-in first-out lists. The counters of the job are left out, and with them the size that \<open>stat\<close> gives for a file.
\<close>

section \<open>State\<close>

text \<open>
  \<open>pl_files\<close> is what \<open>walk_dir\<close> has still to come to: the paths and what reading them for the
  hash gives. \<open>pl_told\<close> is which files were reported as updated. \<open>sp_buf\<close> and \<open>sp_recipe\<close> are the buffers of
  the server's threads, \<open>sp_last\<close> the number of chunks the second was allocated for, \<open>sp_chunknum\<close> is
  not set before the first file.
\<close>

record 'db pipe =
  pl_files :: "(byte list \<times> byte list option list option) list"
  pl_file_q :: "fileinfo list"
  pl_chunk_q :: "fileinfo list"
  pl_recipe_q :: "fileinfo list"
  pl_rabin :: rabin
  pl_index :: exbin
  pl_store :: store
  pl_told :: "bool list"
  pl_walked :: bool
  pl_deduped :: bool
  pl_updated :: bool
  pl_received :: bool
  pl_up :: "packet list"
  pl_down :: "packet list"
  pl_recipe_up :: "packet list"
  pl_recipe_down :: "packet list"
  sp_session :: "'db session"
  sp_buf :: "byte list"
  sp_q :: "recipe list"
  sp_recipe :: "byte list"
  sp_last :: int
  sp_chunknum :: "int option"
  sp_marked :: bool
  sp_updated :: bool

text \<open>A thread waits (or has ended), does something undefined, or moves on.\<close>

datatype 'p move = Wait | Crash | Move 'p

definition stream_end_file :: fileinfo where
  "stream_end_file = file_new\<lparr>chunknum := STREAM_END\<rparr>"

section \<open>The client\<close>

text \<open>\<open>pipeline_file_dedup\<close> for one file, and the end of \<open>file_dedup_module\<close>. A file that cannot be read is left out.\<close>

definition pipeline_file_dedup :: "sha1_context \<Rightarrow> 'db pipe \<Rightarrow> byte list \<Rightarrow> byte list option list option \<Rightarrow> 'db pipe move" where
  "pipeline_file_dedup junk p path reads =
     (if 256 \<le> length path then Crash
      else case SHA1File junk reads of
        None \<Rightarrow> Crash
      | Some (h, err) \<Rightarrow>
          if err \<noteq> shaSuccess then Move p
          else let fi = file_new\<lparr>file_path := memcpy_at (file_path file_new) 0 path,
                                 file_hash := (case h of None \<Rightarrow> file_hash file_new | Some h \<Rightarrow> h)\<rparr>
               in Move (p\<lparr>pl_up := pl_up p @ [Data (file_hash fi)], pl_file_q := pl_file_q p @ [fi]\<rparr>))"

definition file_dedup_module :: "sha1_context \<Rightarrow> 'db pipe \<Rightarrow> 'db pipe move" where
  "file_dedup_module junk p =
     (if pl_walked p then Wait
      else case pl_files p of
        [] \<Rightarrow> Move (p\<lparr>pl_walked := True, pl_up := pl_up p @ [Signal STREAM_END], pl_file_q := pl_file_q p @ [stream_end_file]\<rparr>)
      | (path, reads) # fs \<Rightarrow> pipeline_file_dedup junk (p\<lparr>pl_files := fs\<rparr>) path reads)"

text \<open>All packets of a recipe are there.\<close>

fun recipe_arrived :: "packet list \<Rightarrow> bool" where
  "recipe_arrived [] \<longleftrightarrow> False"
| "recipe_arrived (Data d # ps) \<longleftrightarrow> nat (get_int 4 d) \<le> length ps"
| "recipe_arrived (Signal n # ps) \<longleftrightarrow> True"

text \<open>
  \<open>chunk_dedup_module\<close>. The answer is read into a cleared buffer; \<open>contents\<close> is what a path is opened as. A
  file that fails is passed over, although the server waits for its recipe.
\<close>

definition chunk_dedup_module ::
  "(byte list \<Rightarrow> fingerprint) \<Rightarrow> (byte list \<Rightarrow> fdesc option) \<Rightarrow> 'db pipe \<Rightarrow> 'db pipe move" where
  "chunk_dedup_module fp contents p =
     (if pl_deduped p then Wait
      else case pl_file_q p of
        [] \<Rightarrow> Wait
      | fi # q \<Rightarrow>
          if chunknum fi = STREAM_END
          then Move (p\<lparr>pl_file_q := q, pl_chunk_q := pl_chunk_q p @ [fi], pl_deduped := True\<rparr>)
          else if pl_down p = [] then Wait
          else case net_recv (pl_down p) [] 0 of (r, len, d, ps) \<Rightarrow>
            let p = p\<lparr>pl_file_q := q, pl_down := ps\<rparr>; buf = d @ [0, 0] in
            if r = 0 then Move (p\<lparr>pl_deduped := True\<rparr>)
            else if buf ! 0 = 0 then Move p
            else if buf ! 1 = 0 then
              (let file = contents (cstr (file_path fi)) in
               case chunk_dedup fp (mark_no_rewrite False file) file (pl_rabin p) (fi\<lparr>fi_is_new := NEW_FILE\<rparr>) (pl_index p) (pl_store p) of
                 None \<Rightarrow> Crash
               | Some (rst, fi, ex, st, err) \<Rightarrow>
                   let p = p\<lparr>pl_rabin := rst, pl_index := ex, pl_store := st\<rparr>
                   in Move (if err \<noteq> 0 then p else p\<lparr>pl_chunk_q := pl_chunk_q p @ [fi]\<rparr>))
            else if buf ! 1 = 1 then
              (if \<not> recipe_arrived ps then Wait
               else case recv_deplicate_chunk (fi\<lparr>fi_is_new := DEDUP_FILE\<rparr>) ps of
                 None \<Rightarrow> Crash
               | Some (fi, err, ps) \<Rightarrow>
                   let p = p\<lparr>pl_down := ps\<rparr>
                   in Move (if err = FAILURE then p else p\<lparr>pl_chunk_q := pl_chunk_q p @ [fi]\<rparr>))
            else Move (p\<lparr>pl_chunk_q := pl_chunk_q p @ [fi]\<rparr>))"

text \<open>\<open>update_recipe_module\<close>: the recipe of a new file is sent in one message, behind its fingerprint.\<close>

definition update_recipe_module :: "'db pipe \<Rightarrow> 'db pipe move" where
  "update_recipe_module p =
     (if pl_updated p then Wait
      else case pl_chunk_q p of
        [] \<Rightarrow> Wait
      | fi # q \<Rightarrow>
          if chunknum fi = STREAM_END
          then Move (p\<lparr>pl_chunk_q := q, pl_recipe_q := pl_recipe_q p @ [fi], pl_updated := True\<rparr>)
          else
            let p = p\<lparr>pl_chunk_q := q, pl_recipe_up := pl_recipe_up p @ [Data (update_msg (chunknum fi) (file_path fi))]\<rparr> in
            if fi_is_new fi = DEDUP_FILE then Move (p\<lparr>pl_recipe_q := pl_recipe_q p @ [fi]\<rparr>)
            else if fi_is_new fi = NEW_FILE then
              Move (p\<lparr>pl_recipe_up := pl_recipe_up p @
                       [Data (file_hash fi @ concat (map (\<lambda>fc. chunk_hash fc @ fc_address fc) (fchunks fi)))],
                     pl_recipe_q := pl_recipe_q p @ [fi]\<rparr>)
            else Move p)"

definition recive_result_module :: "'db pipe \<Rightarrow> 'db pipe move" where
  "recive_result_module p =
     (if pl_received p then Wait
      else case pl_recipe_q p of
        [] \<Rightarrow> Wait
      | fi # q \<Rightarrow>
          if chunknum fi = STREAM_END then Move (p\<lparr>pl_recipe_q := q, pl_received := True\<rparr>)
          else if pl_recipe_down p = [] then Wait
          else case net_recv (pl_recipe_down p) [] 0 of (r, len, d, ps) \<Rightarrow>
            Move (p\<lparr>pl_recipe_q := q, pl_recipe_down := ps,
                    pl_told := pl_told p @ (if r = 0 then [] else [starts_with d attr_ok])\<rparr>))"

section \<open>The server\<close>

text \<open>
  \<open>file_dedup_module\<close> of the server: the buffer has 256 bytes, is never cleared and is written with a NUL at the end. The
  recipe that marks the end has the \<open>is_new\<close> of \<open>recipe_new\<close>.
\<close>

definition sv_file_dedup_module :: "'db server_env \<Rightarrow> 'db pipe \<Rightarrow> 'db pipe move" where
  "sv_file_dedup_module e p =
     (if sp_marked p \<or> pl_up p = [] then Wait
      else case net_recv (pl_up p) [] 0 of (r, len, d, ps) \<Rightarrow>
        if r = ERROR then Crash
        else if len = STREAM_END then Move (p\<lparr>pl_up := ps, sp_q := sp_q p @ [recipe_new], sp_marked := True\<rparr>)
        else if 256 \<le> length d then Crash
        else
          let buf = (if d = [] then sp_buf p else memcpy_at (sp_buf p) 0 (d @ [0]));
              rp = recipe_new\<lparr>rp_file_hash := take 20 buf\<rparr>;
              s = sp_session p
          in case file_dedup_mark e (s\<lparr>ss_out := [], ss_file_count := ss_file_count s + 1\<rparr>) rp of
               None \<Rightarrow> Crash
             | Some (s, rp) \<Rightarrow>
                 let s = (if rp_is_new rp = DEDUP_FILE then send_chunk_info s rp else s)
                 in Move (p\<lparr>pl_up := ps, sp_buf := buf, sp_session := s\<lparr>ss_out := []\<rparr>, pl_down := pl_down p @ ss_out s,
                            sp_q := sp_q p @ [rp]\<rparr>))"

text \<open>
  \<open>update_recipe_module\<close> of the server. The buffer for recipes grows with the largest number of chunks so far;
  what \<open>zrealloc\<close> adds is \<open>heap\<close>. A recipe with the wrong fingerprint is entered all the same, under the
  fingerprint of the file that the server is waiting for.
\<close>

definition recipe_room :: "(nat \<Rightarrow> byte) \<Rightarrow> int \<Rightarrow> 'db pipe \<Rightarrow> 'db pipe" where
  "recipe_room heap n p =
     (if n > sp_last p
      then p\<lparr>sp_recipe := (let k = nat (20 + n * 84 + 1) in take k (sp_recipe p) @ map heap [length (sp_recipe p)..<k]),
             sp_last := n\<rparr>
      else p)"

definition store_recipe :: "'db server_env \<Rightarrow> 'db session \<Rightarrow> recipe \<Rightarrow> 'db session option" where
  "store_recipe e s rp =
     (case write_recipe_to_vol (se_path e) (ss_disk s) (ss_rv s) rp of
        None \<Rightarrow> None
      | Some (dk, rv, off, ok) \<Rightarrow>
          Some (s\<lparr>ss_disk := dk, ss_rv := rv, ss_result := ss_result s \<and> ok,
                  ss_index := fst (index_insert (ss_index s) (rp_file_hash rp) (case off of None \<Rightarrow> 0 | Some off \<Rightarrow> off))\<rparr>))"

definition sv_finish :: "'db server_env \<Rightarrow> 'db session \<Rightarrow> recipe \<Rightarrow> 'db pipe \<Rightarrow> 'db pipe" where
  "sv_finish e s rp p =
     (let s = backup_record e (s\<lparr>ss_out := []\<rparr>) rp
      in p\<lparr>sp_session := s\<lparr>ss_out := []\<rparr>, pl_recipe_down := pl_recipe_down p @ ss_out s\<rparr>)"

text \<open>The recipe of a new file: \<open>ps\<close> is what has arrived behind its first message.\<close>

definition sv_new_recipe ::
  "'db server_env \<Rightarrow> (nat \<Rightarrow> byte) \<Rightarrow> 'db session \<Rightarrow> recipe \<Rightarrow> packet list \<Rightarrow> 'db pipe \<Rightarrow> 'db pipe move" where
  "sv_new_recipe e heap s rp ps p =
     (if ps = [] then Wait
      else case sp_chunknum p of
        None \<Rightarrow> Crash
      | Some n \<Rightarrow>
          (case net_recv ps [] 0 of (r, len, d, ps) \<Rightarrow>
             let p = recipe_room heap n p in
             if length (sp_recipe p) \<le> length d \<or> length (sp_recipe p) < 20 then Crash
             else
               let buf = (if d = [] then sp_recipe p else memcpy_at (sp_recipe p) 0 (d @ [0]));
                   ok = (r \<noteq> 0 \<and> take 20 buf = rp_file_hash rp);
                   rp = foldl recipe_append_fingerchunk rp (dec_many dec_chunk 84 (nat n) (drop 20 buf))
               in case store_recipe e (s\<lparr>ss_result := ss_result s \<and> ok\<rparr>) rp of
                    None \<Rightarrow> Crash
                  | Some s \<Rightarrow> Move (sv_finish e s rp (p\<lparr>sp_recipe := buf, pl_recipe_up := ps\<rparr>))))"

definition sv_update_recipe_module :: "'db server_env \<Rightarrow> (nat \<Rightarrow> byte) \<Rightarrow> 'db pipe \<Rightarrow> 'db pipe move" where
  "sv_update_recipe_module e heap p =
     (if sp_updated p then Wait
      else case sp_q p of
        [] \<Rightarrow> Wait
      | rp # q \<Rightarrow>
          if rp_is_new rp = -1 then Move (p\<lparr>sp_q := q, sp_updated := True\<rparr>)
          else if pl_recipe_up p = [] then Wait
          else case net_recv (pl_recipe_up p) [] 0 of (r, len, d, ps) \<Rightarrow>
            (case scan_update (cstr d) of (n, path) \<Rightarrow>
               if 384 \<le> length d \<or> path \<noteq> None \<and> 256 \<le> length (the path) then Crash
               else
                 let p = p\<lparr>sp_q := q, sp_chunknum := (case n of None \<Rightarrow> sp_chunknum p | Some n \<Rightarrow> Some n)\<rparr>;
                     rp = (case path of None \<Rightarrow> rp | Some path \<Rightarrow> rp\<lparr>rp_filename := strcpy_to (rp_filename rp) path\<rparr>);
                     s = (sp_session p)\<lparr>ss_result := path \<noteq> None\<rparr>
                 in if rp_is_new rp \<noteq> NEW_FILE then Move (sv_finish e s rp (p\<lparr>pl_recipe_up := ps\<rparr>))
                    else sv_new_recipe e heap s rp ps p))"

section \<open>Threads\<close>

datatype thread = File_dedup | Chunk_dedup | Update_recipe | Recive_result | Sv_file_dedup | Sv_update_recipe

fun run_thread ::
  "'db server_env \<Rightarrow> (byte list \<Rightarrow> fingerprint) \<Rightarrow> sha1_context \<Rightarrow> (byte list \<Rightarrow> fdesc option) \<Rightarrow> (nat \<Rightarrow> byte)
    \<Rightarrow> thread \<Rightarrow> 'db pipe \<Rightarrow> 'db pipe move" where
  "run_thread e fp junk contents heap File_dedup p = file_dedup_module junk p"
| "run_thread e fp junk contents heap Chunk_dedup p = chunk_dedup_module fp contents p"
| "run_thread e fp junk contents heap Update_recipe p = update_recipe_module p"
| "run_thread e fp junk contents heap Recive_result p = recive_result_module p"
| "run_thread e fp junk contents heap Sv_file_dedup p = sv_file_dedup_module e p"
| "run_thread e fp junk contents heap Sv_update_recipe p = sv_update_recipe_module e heap p"

inductive pipe_step ::
  "'db server_env \<Rightarrow> (byte list \<Rightarrow> fingerprint) \<Rightarrow> sha1_context \<Rightarrow> (byte list \<Rightarrow> fdesc option) \<Rightarrow> (nat \<Rightarrow> byte)
    \<Rightarrow> 'db pipe \<Rightarrow> 'db pipe \<Rightarrow> bool"
  for e fp junk contents heap where
  thread: "run_thread e fp junk contents heap t p = Move p' \<Longrightarrow> pipe_step e fp junk contents heap p p'"

section \<open>Beginning and end\<close>

text \<open>
  The client's \<open>file_dedup_module\<close> copies the path of the backup without its NUL into a buffer on the stack; what
  it walks goes on with what was on the stack (\<open>stack\<close>). \<open>fs\<close> is what a path is.
\<close>

definition walk_root :: "byte list \<Rightarrow> byte list \<Rightarrow> byte list" where
  "walk_root stack path = with_slash path @ cstr (drop (length (with_slash path)) stack)"

definition walked_files :: "(byte list \<Rightarrow> tree) \<Rightarrow> byte list \<Rightarrow> byte list \<Rightarrow> (byte list \<times> byte list option list option) list" where
  "walked_files fs stack path = map (\<lambda>(p, reads, fd). (p, reads)) (tree_files (walk_root stack path) (fs (walk_root stack path)))"

text \<open>\<open>pipeline_backup\<close> of the server, up to the start of its threads; a bad command ends it.\<close>

definition sv_pipeline_start ::
    "'db server_env \<Rightarrow> int \<Rightarrow> byte list \<Rightarrow> byte list \<Rightarrow> 'db session \<Rightarrow> 'db session option" where
  "sv_pipeline_start e user username msg s =
     (case Option.bind (scan_lit (asc ''BACK fileset='') (cstr msg)) scan_str of
        None \<Rightarrow> None
      | Some (path, _) \<Rightarrow>
          (case insert_record_into_object e (ss_db s) user (asc ''f'' @ cstr username @ se_time e) path of
             (db, oid, ok1) \<Rightarrow>
               (case insert_record_into_job e db user oid of
                  (db, jid, ok2) \<Rightarrow> Some (s\<lparr>ss_db := db, ss_job_id := jid, ss_file_count := 0\<rparr>))))"

text \<open>Both programs when their threads start.\<close>

definition pipeline_start ::
    "(byte list \<times> byte list option list option) list \<Rightarrow> rabin \<Rightarrow> exbin \<Rightarrow> store \<Rightarrow> 'db session \<Rightarrow> 'db pipe" where
  "pipeline_start fs rst ex st s =
     \<lparr>pl_files = fs, pl_file_q = [], pl_chunk_q = [], pl_recipe_q = [], pl_rabin = rst, pl_index = ex, pl_store = st,
      pl_told = [], pl_walked = False, pl_deduped = False, pl_updated = False, pl_received = False,
      pl_up = [], pl_down = [], pl_recipe_up = [], pl_recipe_down = [],
      sp_session = s, sp_buf = memset0 256, sp_q = [], sp_recipe = [], sp_last = -1, sp_chunknum = None,
      sp_marked = False, sp_updated = False\<rparr>"

text \<open>\<open>pipeline_backup\<close> of the client after its threads have ended: what it leaves on disk.\<close>

definition pipeline_close :: "'db pipe \<Rightarrow> (disk \<times> disk) option" where
  "pipeline_close p =
     map_option (\<lambda>ex. (eb_disk (ExtremeBinningDestroy ex), st_disk (store_destory False (pl_store p)))) (free_cache_bin (pl_index p))"

definition pipe_over :: "'db pipe \<Rightarrow> bool" where
  "pipe_over p \<longleftrightarrow> pl_walked p \<and> pl_deduped p \<and> pl_updated p \<and> pl_received p \<and> sp_marked p \<and> sp_updated p"

section \<open>Every run ends\<close>

text \<open>The work that is left: every file passes six threads, and so does the end of the stream.\<close>

definition pipe_work :: "'db pipe \<Rightarrow> nat" where
  "pipe_work p = 6 * length (pl_files p) + (if pl_walked p then 0 else 6) + 2 * length (pl_up p) + 3 * length (pl_file_q p) +
     2 * length (pl_chunk_q p) + length (pl_recipe_q p) + length (sp_q p)"

lemma file_dedup_work: "file_dedup_module junk p = Move p' \<Longrightarrow> pipe_work p' < pipe_work p"
  by (auto simp: file_dedup_module_def pipeline_file_dedup_def pipe_work_def Let_def split: if_splits list.splits option.splits prod.splits)

lemma update_recipe_work: "update_recipe_module p = Move p' \<Longrightarrow> pipe_work p' < pipe_work p"
  by (auto simp: update_recipe_module_def pipe_work_def Let_def split: if_splits list.splits)

lemma recive_result_work: "recive_result_module p = Move p' \<Longrightarrow> pipe_work p' < pipe_work p"
  by (auto simp: recive_result_module_def pipe_work_def Let_def split: if_splits list.splits prod.splits)

lemma chunk_dedup_work: "chunk_dedup_module fp contents p = Move p' \<Longrightarrow> pipe_work p' < pipe_work p"
  by (auto simp: chunk_dedup_module_def pipe_work_def Let_def split: if_splits list.splits prod.splits option.splits)

lemma sv_file_dedup_work:
  assumes "sv_file_dedup_module e p = Move p'"
  shows "pipe_work p' < pipe_work p"
proof -
  obtain r l d ps where q: "net_recv (pl_up p) [] 0 = (r, l, d, ps)" by (metis prod_cases4)
  have "pl_up p \<noteq> []" using assms by (auto simp: sv_file_dedup_module_def split: if_splits)
  with net_recv_shorter [OF q] have "length ps < length (pl_up p)" by simp
  with assms q show ?thesis
    by (auto simp: sv_file_dedup_module_def pipe_work_def Let_def split: if_splits option.splits)
qed

lemma sv_finish_work: "pipe_work (sv_finish e s rp p) = pipe_work p"
  by (simp add: sv_finish_def pipe_work_def Let_def)

lemma sv_new_recipe_work: "sv_new_recipe e heap s rp ps p = Move p' \<Longrightarrow> pipe_work p' = pipe_work p"
  by (auto simp: sv_new_recipe_def recipe_room_def sv_finish_work Let_def split: if_splits prod.splits option.splits)
    (simp_all add: pipe_work_def)

lemma sv_update_recipe_work:
  assumes "sv_update_recipe_module e heap p = Move p'"
  shows "pipe_work p' < pipe_work p"
proof -
  obtain rp q where q: "sp_q p = rp # q" using assms by (auto simp: sv_update_recipe_module_def split: if_splits list.splits)
  obtain r l d ps where n: "net_recv (pl_recipe_up p) [] 0 = (r, l, d, ps)" by (metis prod_cases4)
  obtain k path where k: "scan_update (cstr d) = (k, path)" by fastforce
  have w: "pipe_work (p\<lparr>sp_q := q, sp_chunknum := x\<rparr>) < pipe_work p" "pipe_work (p\<lparr>sp_q := q, sp_updated := y\<rparr>) < pipe_work p"
    "pipe_work (p\<lparr>sp_q := q, sp_chunknum := x, pl_recipe_up := ps\<rparr>) < pipe_work p" for x y
    using q by (simp_all add: pipe_work_def)
  show ?thesis
    using assms w by (auto simp: sv_update_recipe_module_def q n k Let_def sv_finish_work split: if_splits dest!: sv_new_recipe_work)
qed

lemma pipe_step_work: "pipe_step e fp junk contents heap p p' \<Longrightarrow> pipe_work p' < pipe_work p"
proof (induction rule: pipe_step.induct)
  case (thread t p p')
  then show ?case
    by (cases t) (auto dest: file_dedup_work update_recipe_work recive_result_work chunk_dedup_work sv_file_dedup_work sv_update_recipe_work)
qed

lemma pipe_steps_work: "(pipe_step e fp junk contents heap ^^ n) p p' \<Longrightarrow> n + pipe_work p' \<le> pipe_work p"
proof (induction n arbitrary: p')
  case (Suc n)
  then obtain q where "(pipe_step e fp junk contents heap ^^ n) p q" "pipe_step e fp junk contents heap q p'" by auto
  with Suc.IH [of q] pipe_step_work show ?case by fastforce
qed simp

section \<open>Where the files are\<close>

text \<open>
  The numbers are how many files each thread is done with: \<open>a\<close> asked for, \<open>b\<close> answered by the server, \<open>c\<close> chunked,
  \<open>d\<close> sent, \<open>s\<close> entered by the server and \<open>g\<close> reported. \<open>ans i\<close> is what the server knew of file \<open>i\<close> when it was asked,
  \<open>fis i\<close> the recipe the client has of it and \<open>rps i\<close> the one the server has started.
\<close>

abbreviation (input) hash_at :: "whole_file list \<Rightarrow> nat \<Rightarrow> fingerprint" where
  "hash_at F i \<equiv> sha1_hash (content_of (F ! i))"

definition asked :: "whole_file list \<Rightarrow> nat \<Rightarrow> fileinfo" where
  "asked F i = start_file (hash_at F i) (fst (F ! i))"

definition answer :: "chunks option \<Rightarrow> packet list" where
  "answer x = hash_reply (\<lambda>_. x) (memset0 20)"

definition recipe_msgs :: "chunks option \<Rightarrow> fileinfo \<Rightarrow> packet list" where
  "recipe_msgs x fi = Data (update_msg (chunknum fi) (file_path fi)) #
     (if x = None then [Data (file_hash fi @ concat (map enc_chunk (sent_chunks fi)))] else [])"

definition order_ok :: "nat \<Rightarrow> nat \<Rightarrow> nat \<Rightarrow> nat \<Rightarrow> nat \<Rightarrow> nat \<Rightarrow> nat \<Rightarrow> 'db pipe \<Rightarrow> bool" where
  "order_ok N a b c d s g p \<longleftrightarrow> g \<le> s \<and> s \<le> d \<and> d \<le> c \<and> c \<le> b \<and> b \<le> a \<and> a \<le> N \<and>
     (pl_walked p \<longrightarrow> a = N) \<and> (sp_marked p \<longrightarrow> pl_walked p \<and> b = N) \<and> (pl_deduped p \<longrightarrow> pl_walked p \<and> c = N) \<and>
     (pl_updated p \<longrightarrow> pl_deduped p \<and> d = N) \<and> (pl_received p \<longrightarrow> pl_updated p \<and> g = N) \<and> (sp_updated p \<longrightarrow> sp_marked p \<and> s = N)"

definition queues_ok ::
  "whole_file list \<Rightarrow> nat \<Rightarrow> nat \<Rightarrow> nat \<Rightarrow> nat \<Rightarrow> nat \<Rightarrow> nat \<Rightarrow> (nat \<Rightarrow> chunks option) \<Rightarrow> (nat \<Rightarrow> fileinfo) \<Rightarrow> (nat \<Rightarrow> recipe)
    \<Rightarrow> 'db pipe \<Rightarrow> bool" where
  "queues_ok F a b c d s g ans fis rps p \<longleftrightarrow>
     pl_files p = map (\<lambda>f. (fst f, Some (map Some (snd f)))) (drop a F) \<and>
     pl_up p = map (\<lambda>i. Data (hash_at F i)) [b..<a] @ (if pl_walked p \<and> \<not> sp_marked p then [Signal STREAM_END] else []) \<and>
     pl_file_q p = map (asked F) [c..<a] @ (if pl_walked p \<and> \<not> pl_deduped p then [stream_end_file] else []) \<and>
     pl_down p = concat (map (\<lambda>i. answer (ans i)) [c..<b]) \<and>
     pl_chunk_q p = map fis [d..<c] @ (if pl_deduped p \<and> \<not> pl_updated p then [stream_end_file] else []) \<and>
     pl_recipe_up p = concat (map (\<lambda>i. recipe_msgs (ans i) (fis i)) [s..<d]) \<and>
     pl_recipe_q p = map fis [g..<d] @ (if pl_updated p \<and> \<not> pl_received p then [stream_end_file] else []) \<and>
     pl_recipe_down p = replicate (s - g) (Data updateattr_ok) \<and>
     pl_told p = replicate g True \<and>
     sp_q p = map rps [s..<b] @ (if sp_marked p \<and> \<not> sp_updated p then [recipe_new] else [])"

text \<open>The recipe that the client has of a file.\<close>

definition deduped_ok :: "(byte list \<Rightarrow> fingerprint) \<Rightarrow> store \<Rightarrow> whole_file \<Rightarrow> chunks option \<Rightarrow> fileinfo \<Rightarrow> bool" where
  "deduped_ok fp st f x fi \<longleftrightarrow> cstr (file_path fi) = fst f \<and> file_hash fi = sha1_hash (content_of f) \<and>
     (case x of
        None \<Rightarrow> fi_is_new fi = NEW_FILE \<and> chunknum fi = int (length (fchunks fi)) \<and> chunks_ok (sent_chunks fi) \<and>
          leads fp st (content_of f) (sent_chunks fi)
      | Some g \<Rightarrow> fi_is_new fi = DEDUP_FILE \<and> 0 \<le> chunknum fi \<and> chunknum fi < 2 ^ 31)"

definition client_at ::
  "(byte list \<Rightarrow> fingerprint) \<Rightarrow> byte list set \<Rightarrow> whole_file list \<Rightarrow> nat \<Rightarrow> exbin \<Rightarrow> nat \<Rightarrow> (nat \<Rightarrow> chunks option) \<Rightarrow> (nat \<Rightarrow> fileinfo)
    \<Rightarrow> 'db pipe \<Rightarrow> bool" where
  "client_at fp D F m ex0 c ans fis p \<longleftrightarrow>
     client_ok fp D (pieces_of (drop c F) + m) (pl_index p) (pl_store p) \<and> (rabin_init_flag (pl_rabin p) \<longrightarrow> rabin_ok (pl_rabin p)) \<and>
     index_grows c ex0 (pl_index p) \<and> (\<forall>i<c. deduped_ok fp (pl_store p) (F ! i) (ans i) (fis i))"

definition server_at ::
  "'db server_env \<Rightarrow> whole_file list \<Rightarrow> nat \<Rightarrow> nat \<Rightarrow> (nat \<Rightarrow> chunks option) \<Rightarrow> (nat \<Rightarrow> recipe) \<Rightarrow> catalogue \<Rightarrow> 'db pipe \<Rightarrow> bool" where
  "server_at e F s b ans rps cat p \<longleftrightarrow>
     server_ok e (sp_session p) cat \<and> ss_job_id (sp_session p) \<noteq> 0 \<and>
     (\<forall>i < s. cat (hash_at F i) \<noteq> None) \<and> (\<forall>i < b. \<forall>g. ans i = Some g \<longrightarrow> cat (hash_at F i) = Some g) \<and>
     (\<forall>i. s \<le> i \<and> i < b \<longrightarrow> tagged (\<lambda>_. ans i) (hash_at F i) (rps i)) \<and>
     length (sp_buf p) = 256 \<and> -1 \<le> sp_last p \<and> length (sp_recipe p) = nat (20 + sp_last p * 84 + 1)"

definition pipe_at where
  "pipe_at e fp D F m ex0 a b c d s g ans fis rps cat p \<longleftrightarrow>
     order_ok (length F) a b c d s g p \<and> queues_ok F a b c d s g ans fis rps p \<and>
     client_at fp D F m ex0 c ans fis p \<and> server_at e F s b ans rps cat p \<and> backed fp (pl_store p) cat (content_of ` set F)"

definition pipe_inv where
  "pipe_inv e fp D F m ex0 p \<longleftrightarrow> (\<exists>a b c d s g ans fis rps cat. pipe_at e fp D F m ex0 a b c d s g ans fis rps cat p)"

lemma pipe_invI: "pipe_at e fp D F m ex0 a b c d s g ans fis rps cat p \<Longrightarrow> pipe_inv e fp D F m ex0 p"
  unfolding pipe_inv_def by blast

text \<open>What a thread does when it does not wait.\<close>

definition goes_on :: "('p \<Rightarrow> bool) \<Rightarrow> 'p move \<Rightarrow> bool" where
  "goes_on P x \<longleftrightarrow> (case x of Wait \<Rightarrow> True | Crash \<Rightarrow> False | Move p \<Rightarrow> P p)"

lemma goes_on_simps [simp]: "goes_on P Wait" "\<not> goes_on P Crash" "goes_on P (Move p) = P p"
  by (simp_all add: goes_on_def)

lemma upt_split: "i < j \<Longrightarrow> [i..<j] = i # [Suc i..<j]" for i j :: nat
  by (simp add: upt_conv_Cons)

lemma stream_end_file_num: "chunknum stream_end_file = STREAM_END" "chunknum (asked F i) = 0"
  by (simp_all add: stream_end_file_def asked_def start_file_def file_new_def)

lemma deduped_ok_num: "deduped_ok fp st f x fi \<Longrightarrow> chunknum fi \<noteq> STREAM_END"
  by (auto simp: deduped_ok_def split: option.splits)

section \<open>The threads of the client\<close>

lemma file_dedup_file:
  assumes "\<not> pl_walked p" "pl_files p = (fst f, Some (map Some (snd f))) # fs" "file_good D f" "length (Message_Block junk) = 64"
  shows "file_dedup_module junk p = Move (p\<lparr>pl_files := fs, pl_up := pl_up p @ [Data (sha1_hash (content_of f))],
    pl_file_q := pl_file_q p @ [start_file (sha1_hash (content_of f)) (fst f)]\<rparr>)"
proof -
  obtain path ds where f: "f = (path, ds)" by fastforce
  then have good: "path_ok path" "\<forall>x\<in>set ds. x \<noteq> []" "8 * length (concat ds) < 2 ^ 64" using assms(3) by auto
  have "SHA1File junk (Some (map Some ds)) = Some (Some (sha1_hash (concat ds)), shaSuccess)"
    using sha1_reads_absorbed [OF absorbed_init [OF assms(4)] good(2)] good(3) SHA1Final_absorbed by (auto simp: SHA1File_def)
  with assms(1,2) f good(1) show ?thesis
    by (simp add: file_dedup_module_def pipeline_file_dedup_def path_ok_def start_file_def)
qed

lemma file_dedup_inv:
  assumes inv: "pipe_at e fp D F m ex0 a b c d s g ans fis rps cat p"
    and F: "\<forall>f\<in>set F. file_good D f" and junk: "length (Message_Block junk) = 64"
  shows "goes_on (pipe_inv e fp D F m ex0) (file_dedup_module junk p) \<and> (\<not> pl_walked p \<longrightarrow> file_dedup_module junk p \<noteq> Wait)"
proof (cases "pl_walked p")
  case True
  then show ?thesis by (simp add: file_dedup_module_def)
next
  case False
  note I = inv [unfolded pipe_at_def]
  have o: "order_ok (length F) a b c d s g p" and q: "queues_ok F a b c d s g ans fis rps p" using I by auto
  show ?thesis
  proof (cases "a < length F")
    case a: True
    define p' where "p' = p\<lparr>pl_files := map (\<lambda>f. (fst f, Some (map Some (snd f)))) (drop (Suc a) F),
      pl_up := pl_up p @ [Data (hash_at F a)], pl_file_q := pl_file_q p @ [asked F a]\<rparr>"
    have fs: "pl_files p = (fst (F ! a), Some (map Some (snd (F ! a)))) # map (\<lambda>f. (fst f, Some (map Some (snd f)))) (drop (Suc a) F)"
      using q a by (simp add: queues_ok_def flip: Cons_nth_drop_Suc)
    have good: "file_good D (F ! a)" using F a nth_mem by blast
    have e: "file_dedup_module junk p = Move p'"
      using file_dedup_file [OF False fs good junk] by (simp add: p'_def asked_def)
    have oo: "b \<le> a" "c \<le> a" "\<not> sp_marked p" "\<not> pl_deduped p" using o False by (auto simp: order_ok_def)
    have "order_ok (length F) (Suc a) b c d s g p'" using o False a by (auto simp: order_ok_def p'_def)
    moreover have "queues_ok F (Suc a) b c d s g ans fis rps p'" using q False oo by (simp add: queues_ok_def p'_def)
    ultimately have "pipe_at e fp D F m ex0 (Suc a) b c d s g ans fis rps cat p'"
      using I by (simp add: pipe_at_def client_at_def server_at_def p'_def)
    from pipe_invI [OF this] e show ?thesis by simp
  next
    case a: False
    then have N: "a = length F" using o by (simp add: order_ok_def)
    define p' where "p' = p\<lparr>pl_walked := True, pl_up := pl_up p @ [Signal STREAM_END], pl_file_q := pl_file_q p @ [stream_end_file]\<rparr>"
    have e: "file_dedup_module junk p = Move p'" using False q N by (simp add: file_dedup_module_def queues_ok_def p'_def)
    have oo: "\<not> sp_marked p" "\<not> pl_deduped p" using o False by (auto simp: order_ok_def)
    have "order_ok (length F) a b c d s g p'" using o False N oo by (auto simp: order_ok_def p'_def)
    moreover have "queues_ok F a b c d s g ans fis rps p'" using q False oo by (simp add: queues_ok_def p'_def)
    ultimately have "pipe_at e fp D F m ex0 a b c d s g ans fis rps cat p'"
      using I by (simp add: pipe_at_def client_at_def server_at_def p'_def)
    from pipe_invI [OF this] e show ?thesis by simp
  qed
qed

lemma update_recipe_inv:
  assumes inv: "pipe_at e fp D F m ex0 a b c d s g ans fis rps cat p"
  shows "goes_on (pipe_inv e fp D F m ex0) (update_recipe_module p) \<and>
    (pl_deduped p \<and> \<not> pl_updated p \<longrightarrow> update_recipe_module p \<noteq> Wait)"
proof -
  note I = inv [unfolded pipe_at_def]
  have o: "order_ok (length F) a b c d s g p" and q: "queues_ok F a b c d s g ans fis rps p" and cl: "client_at fp D F m ex0 c ans fis p"
    using I by auto
  consider "pl_updated p" | "\<not> pl_updated p" "d < c" | "\<not> pl_updated p" "d = c" "\<not> pl_deduped p" | "\<not> pl_updated p" "d = c" "pl_deduped p"
    using o by (force simp: order_ok_def)
  then show ?thesis
  proof cases
    case 1
    then show ?thesis by (simp add: update_recipe_module_def)
  next
    case 2
    have fi: "deduped_ok fp (pl_store p) (F ! d) (ans d) (fis d)" using cl 2(2) by (simp add: client_at_def)
    define p' where "p' = p\<lparr>pl_chunk_q := map fis [Suc d..<c] @ (if pl_deduped p then [stream_end_file] else []),
      pl_recipe_up := pl_recipe_up p @ recipe_msgs (ans d) (fis d), pl_recipe_q := pl_recipe_q p @ [fis d]\<rparr>"
    have "pl_chunk_q p = fis d # map fis [Suc d..<c] @ (if pl_deduped p then [stream_end_file] else [])"
      using q 2 by (simp add: queues_ok_def upt_split)
    then have e: "update_recipe_module p = Move p'"
      using 2(1) fi deduped_ok_num [OF fi]
      by (auto simp: update_recipe_module_def p'_def recipe_msgs_def deduped_ok_def sent_chunks_def enc_chunk_def comp_def split: option.splits)
    have oo: "s \<le> d" "g \<le> d" using o by (auto simp: order_ok_def)
    have "order_ok (length F) a b c (Suc d) s g p'" using o 2 by (auto simp: order_ok_def p'_def)
    moreover have "queues_ok F a b c (Suc d) s g ans fis rps p'" using q 2 oo by (simp add: queues_ok_def p'_def)
    ultimately have "pipe_at e fp D F m ex0 a b c (Suc d) s g ans fis rps cat p'"
      using I by (simp add: pipe_at_def client_at_def server_at_def p'_def)
    from pipe_invI [OF this] e show ?thesis by simp
  next
    case 3
    then have "pl_chunk_q p = []" using q by (simp add: queues_ok_def)
    with 3 show ?thesis by (simp add: update_recipe_module_def)
  next
    case 4
    define p' where "p' = p\<lparr>pl_chunk_q := [], pl_recipe_q := pl_recipe_q p @ [stream_end_file], pl_updated := True\<rparr>"
    have e: "update_recipe_module p = Move p'"
      using 4 q by (simp add: update_recipe_module_def queues_ok_def p'_def stream_end_file_num)
    have oo: "\<not> pl_received p" using o 4 by (auto simp: order_ok_def)
    have "order_ok (length F) a b c d s g p'" using o 4 by (auto simp: order_ok_def p'_def)
    moreover have "queues_ok F a b c d s g ans fis rps p'" using q 4 oo by (simp add: queues_ok_def p'_def)
    ultimately have "pipe_at e fp D F m ex0 a b c d s g ans fis rps cat p'"
      using I by (simp add: pipe_at_def client_at_def server_at_def p'_def)
    from pipe_invI [OF this] e show ?thesis by simp
  qed
qed

lemma recive_result_inv:
  assumes inv: "pipe_at e fp D F m ex0 a b c d s g ans fis rps cat p"
  shows "goes_on (pipe_inv e fp D F m ex0) (recive_result_module p) \<and>
    (pl_updated p \<and> sp_updated p \<and> \<not> pl_received p \<longrightarrow> recive_result_module p \<noteq> Wait)"
proof -
  note I = inv [unfolded pipe_at_def]
  have o: "order_ok (length F) a b c d s g p" and q: "queues_ok F a b c d s g ans fis rps p" and cl: "client_at fp D F m ex0 c ans fis p"
    using I by auto
  consider "pl_received p" | "\<not> pl_received p" "g < d" "g = s" | "\<not> pl_received p" "g < s" "g < d"
    | "\<not> pl_received p" "g = d" "\<not> pl_updated p" | "\<not> pl_received p" "g = d" "pl_updated p"
    using o by (force simp: order_ok_def)
  then show ?thesis
  proof cases
    case 1
    then show ?thesis by (simp add: recive_result_module_def)
  next
    case 2
    have fi: "deduped_ok fp (pl_store p) (F ! g) (ans g) (fis g)" using cl 2(2) o by (simp add: client_at_def order_ok_def)
    have "pl_recipe_down p = []" "\<not> sp_updated p" using q o 2 by (auto simp: queues_ok_def order_ok_def)
    moreover have "pl_recipe_q p = fis g # map fis [Suc g..<d] @ (if pl_updated p then [stream_end_file] else [])"
      using q 2 by (simp add: queues_ok_def upt_split)
    ultimately show ?thesis using 2 deduped_ok_num [OF fi] by (simp add: recive_result_module_def)
  next
    case 3
    have fi: "deduped_ok fp (pl_store p) (F ! g) (ans g) (fis g)" using cl 3(3) o by (simp add: client_at_def order_ok_def)
    define p' where "p' = p\<lparr>pl_recipe_q := map fis [Suc g..<d] @ (if pl_updated p then [stream_end_file] else []),
      pl_recipe_down := replicate (s - Suc g) (Data updateattr_ok), pl_told := replicate (Suc g) True\<rparr>"
    have "s - g = Suc (s - Suc g)" using 3(2) by simp
    then have "pl_recipe_down p = Data updateattr_ok # replicate (s - Suc g) (Data updateattr_ok)" "pl_told p = replicate g True"
      using q by (simp_all add: queues_ok_def)
    moreover have "pl_recipe_q p = fis g # map fis [Suc g..<d] @ (if pl_updated p then [stream_end_file] else [])"
      using q 3 by (simp add: queues_ok_def upt_split)
    ultimately have e: "recive_result_module p = Move p'"
      using 3(1) deduped_ok_num [OF fi] updateattr_ok_prefix
      by (simp add: recive_result_module_def p'_def replicate_append_same)
    have "order_ok (length F) a b c d s (Suc g) p'" using o 3 by (auto simp: order_ok_def p'_def)
    moreover have "queues_ok F a b c d s (Suc g) ans fis rps p'" using q 3 by (simp add: queues_ok_def p'_def)
    ultimately have "pipe_at e fp D F m ex0 a b c d s (Suc g) ans fis rps cat p'"
      using I by (simp add: pipe_at_def client_at_def server_at_def p'_def)
    from pipe_invI [OF this] e show ?thesis by simp
  next
    case 4
    then have "pl_recipe_q p = []" using q by (simp add: queues_ok_def)
    with 4 show ?thesis by (simp add: recive_result_module_def)
  next
    case 5
    define p' where "p' = p\<lparr>pl_recipe_q := [], pl_received := True\<rparr>"
    have e: "recive_result_module p = Move p'"
      using 5 q by (simp add: recive_result_module_def queues_ok_def p'_def stream_end_file_num)
    have "order_ok (length F) a b c d s g p'" using o 5 by (auto simp: order_ok_def p'_def)
    moreover have "queues_ok F a b c d s g ans fis rps p'" using q 5 by (simp add: queues_ok_def p'_def)
    ultimately have "pipe_at e fp D F m ex0 a b c d s g ans fis rps cat p'"
      using I by (simp add: pipe_at_def client_at_def server_at_def p'_def)
    from pipe_invI [OF this] e show ?thesis by simp
  qed
qed

text \<open>A new file in \<open>chunk_dedup_module\<close>.\<close>

lemma chunk_new_file:
  assumes client: "client_ok fp D (length (ref_chunks (content_of f)) + n) ex st" "rabin_init_flag rst \<Longrightarrow> rabin_ok rst"
    and fp: "\<forall>d. length (fp d) = 20" and f: "file_good D f"
  shows "\<exists>rst' fi' ex' st'. chunk_dedup fp (mark_no_rewrite False (readable (content_of f))) (readable (content_of f)) rst
      ((start_file (sha1_hash (content_of f)) (fst f))\<lparr>fi_is_new := NEW_FILE\<rparr>) ex st = Some (rst', fi', ex', st', 0) \<and>
    rabin_ok rst' \<and> client_ok fp D n ex' st' \<and> index_grows 1 ex ex' \<and> (\<forall>a h d. has st a h d \<longrightarrow> has st' a h d) \<and>
    deduped_ok fp st' f None fi'"
proof -
  let ?fi = "(start_file (sha1_hash (content_of f)) (fst f))\<lparr>fi_is_new := NEW_FILE\<rparr>"
  obtain p ds where pd: "f = (p, ds)" by (cases f)
  have i: "fchunks ?fi = []" "chunknum ?fi = 0" "fi_is_new ?fi = NEW_FILE" "length (file_hash ?fi) = 20"
    by (simp_all add: start_file_def file_new_def length_sha1_hash)
  have D: "\<forall>i k. pread (content_of f) i k \<in> D" and p: "path_ok p" using f pd by auto
  obtain rst' fi' ex' st' where C: "chunk_dedup fp (mark_no_rewrite False (readable (content_of f))) (readable (content_of f)) rst ?fi ex st =
      Some (rst', fi', ex', st', 0)" "rabin_ok rst'" "client_ok fp D n ex' st'" "\<forall>a h d. has st a h d \<longrightarrow> has st' a h d"
    "list_all2 (placed st') (chunk_list fp 0 (ref_chunks (content_of f))) (fchunks fi')" "fi_is_new fi' = NEW_FILE"
    "file_path fi' = file_path ?fi" "chunknum fi' = int (length (fchunks fi'))" "length (fchunks fi') < 25000000" "file_hash fi' = file_hash ?fi"
    using chunk_dedup_spec [OF client i fp D] by blast
  have "file_hash fi' = sha1_hash (content_of f)"
    using C(10) by (simp add: start_file_def)
  moreover have "cstr p = p" using p by (auto simp: path_ok_def intro: cstr_id)
  then have "cstr (file_path fi') = fst f" using C(7) start_file_path [OF p, of "sha1_hash (content_of f)"] pd by simp
  moreover have "leads fp st' (content_of f) (sent_chunks fi')" using placed_leads [OF C(5)] by (simp add: sent_chunks_def)
  ultimately have "deduped_ok fp st' f None fi'"
    using C(6,8) placed_chunks_ok [OF C(5) fp C(9)] by (simp add: deduped_ok_def)
  moreover have "exbin_ok ex" using client(1) by (simp add: client_ok_def)
  then have "index_grows 1 ex ex'" by (rule chunk_dedup_grows [OF _ C(1)])
  ultimately show ?thesis using C(1-4) by blast
qed

lemma deduped_ok_mono: "deduped_ok fp st f x fi \<Longrightarrow> \<forall>a h d. has st a h d \<longrightarrow> has st' a h d \<Longrightarrow> deduped_ok fp st' f x fi"
  by (auto simp: deduped_ok_def intro: leads_mono split: option.splits)

lemma backed_mono: "backed fp st cat H \<Longrightarrow> \<forall>a h d. has st a h d \<longrightarrow> has st' a h d \<Longrightarrow> backed fp st' cat H"
  unfolding backed_def using leads_mono by blast

lemma concat_upd_other:
  "c \<notin> set xs \<Longrightarrow> concat (map (\<lambda>i. h i (if i = c then x else f i)) xs) = concat (map (\<lambda>i. h i (f i)) xs)"
  by (intro arg_cong [where f = concat] map_cong) auto

lemma pieces_of_drop: "c < length F \<Longrightarrow> pieces_of (drop c F) = length (ref_chunks (content_of (F ! c))) + pieces_of (drop (Suc c) F)"
  by (simp add: pieces_of_Cons flip: Cons_nth_drop_Suc)

lemma asked_path:
  assumes "file_good D (F ! c)"
  shows "cstr (file_path (asked F c)) = fst (F ! c)"
proof -
  obtain p ds where pd: "F ! c = (p, ds)" by fastforce
  with assms have p: "path_ok p" by simp
  then have "cstr p = p" by (auto simp: path_ok_def intro: cstr_id)
  with start_file_path [OF p] pd show ?thesis by (simp add: asked_def)
qed

text \<open>A file has been chunked, or its recipe received.\<close>

lemma chunk_dedup_moved:
  assumes inv: "pipe_at e fp D F m ex0 a b c d s g ans fis rps cat p" and c: "c < b" "\<not> pl_deduped p"
    and fi: "deduped_ok fp st (F ! c) (ans c) fi" and mono: "\<forall>a h d. has (pl_store p) a h d \<longrightarrow> has st a h d"
    and client: "client_ok fp D (pieces_of (drop (Suc c) F) + m) ex st" "rabin_init_flag rst \<longrightarrow> rabin_ok rst" "index_grows 1 (pl_index p) ex"
    and p': "p' = p\<lparr>pl_file_q := map (asked F) [Suc c..<a] @ (if pl_walked p then [stream_end_file] else []),
      pl_down := concat (map (\<lambda>i. answer (ans i)) [Suc c..<b]), pl_rabin := rst, pl_index := ex, pl_store := st,
      pl_chunk_q := pl_chunk_q p @ [fi]\<rparr>"
  shows "pipe_inv e fp D F m ex0 p'"
proof -
  note I = inv [unfolded pipe_at_def]
  have o: "order_ok (length F) a b c d s g p" and q: "queues_ok F a b c d s g ans fis rps p" and cl: "client_at fp D F m ex0 c ans fis p"
    and bk: "backed fp (pl_store p) cat (content_of ` set F)" and sv: "server_at e F s b ans rps cat p" using I by auto
  have oo: "d \<le> c" "g \<le> d" "\<not> pl_updated p" using o c by (auto simp: order_ok_def)
  have "order_ok (length F) a b (Suc c) d s g p'" using o c by (auto simp: order_ok_def p')
  moreover have "queues_ok F a b (Suc c) d s g ans (fis(c := fi)) rps p'"
    using q c oo by (simp add: queues_ok_def p' concat_upd_other [where h = "\<lambda>i. recipe_msgs (ans i)"])
  moreover have "index_grows (Suc c) ex0 ex"
    using cl index_grows_trans [OF _ client(3), of c ex0] by (simp add: client_at_def)
  then have "client_at fp D F m ex0 (Suc c) ans (fis(c := fi)) p'"
    using cl client(1,2) fi deduped_ok_mono [OF _ mono] by (auto simp: client_at_def p' less_Suc_eq)
  moreover have "server_at e F s b ans rps cat p'" using sv by (simp add: server_at_def p')
  moreover have "backed fp (pl_store p') cat (content_of ` set F)" using backed_mono [OF bk mono] by (simp add: p')
  ultimately show ?thesis by (intro pipe_invI [of e fp D F m ex0 a b "Suc c" d s g ans "fis(c := fi)" rps cat p']) (simp add: pipe_at_def)
qed

lemma chunk_dedup_inv:
  assumes inv: "pipe_at e fp D F m ex0 a b c d s g ans fis rps cat p"
    and F: "\<forall>f\<in>set F. file_good D f \<and> contents (fst f) = readable (content_of f)" and fp: "\<forall>d. length (fp d) = 20"
  shows "goes_on (pipe_inv e fp D F m ex0) (chunk_dedup_module fp contents p) \<and>
    (pl_walked p \<and> sp_marked p \<and> \<not> pl_deduped p \<longrightarrow> chunk_dedup_module fp contents p \<noteq> Wait)"
proof -
  note I = inv [unfolded pipe_at_def]
  have o: "order_ok (length F) a b c d s g p" and q: "queues_ok F a b c d s g ans fis rps p" and cl: "client_at fp D F m ex0 c ans fis p"
    and bk: "backed fp (pl_store p) cat (content_of ` set F)" and sv: "server_at e F s b ans rps cat p" using I by auto
  consider "pl_deduped p" | "\<not> pl_deduped p" "c < b" "ans c = None" | g' where "\<not> pl_deduped p" "c < b" "ans c = Some g'"
    | "\<not> pl_deduped p" "c < a" "c = b" | "\<not> pl_deduped p" "c = a" "\<not> pl_walked p" | "\<not> pl_deduped p" "c = a" "pl_walked p"
    using o by (cases "ans c") (force simp: order_ok_def)+
  then show ?thesis
  proof cases
    case 1
    then show ?thesis by (simp add: chunk_dedup_module_def)
  next
    case 2
    have l: "c < a" "c < length F" using o 2 by (auto simp: order_ok_def)
    then have f: "file_good D (F ! c)" "contents (fst (F ! c)) = readable (content_of (F ! c))" using F by auto
    have client: "client_ok fp D (length (ref_chunks (content_of (F ! c))) + (pieces_of (drop (Suc c) F) + m)) (pl_index p) (pl_store p)"
      "rabin_init_flag (pl_rabin p) \<Longrightarrow> rabin_ok (pl_rabin p)"
      using cl l(2) by (auto simp: client_at_def pieces_of_drop add.assoc)
    obtain rst fi ex st where C: "chunk_dedup fp (mark_no_rewrite False (readable (content_of (F ! c)))) (readable (content_of (F ! c))) (pl_rabin p)
        ((asked F c)\<lparr>fi_is_new := NEW_FILE\<rparr>) (pl_index p) (pl_store p) = Some (rst, fi, ex, st, 0)"
      "rabin_ok rst" "client_ok fp D (pieces_of (drop (Suc c) F) + m) ex st" "index_grows 1 (pl_index p) ex"
      "\<forall>a h d. has (pl_store p) a h d \<longrightarrow> has st a h d" "deduped_ok fp st (F ! c) None fi"
      using chunk_new_file [OF client fp f(1)] unfolding asked_def by blast
    define p' where "p' = p\<lparr>pl_file_q := map (asked F) [Suc c..<a] @ (if pl_walked p then [stream_end_file] else []),
      pl_down := concat (map (\<lambda>i. answer (ans i)) [Suc c..<b]), pl_rabin := rst, pl_index := ex, pl_store := st,
      pl_chunk_q := pl_chunk_q p @ [fi]\<rparr>"
    have "pl_file_q p = asked F c # map (asked F) [Suc c..<a] @ (if pl_walked p then [stream_end_file] else [])"
      "pl_down p = Data [1] # concat (map (\<lambda>i. answer (ans i)) [Suc c..<b])"
      using q 2 l by (simp_all add: queues_ok_def upt_split answer_def hash_reply_def)
    then have "chunk_dedup_module fp contents p = Move p'"
      using 2(1) C(1) f(2) by (simp add: chunk_dedup_module_def stream_end_file_num asked_path [OF f(1)] Let_def p'_def)
    moreover have "pipe_inv e fp D F m ex0 p'"
      using chunk_dedup_moved [OF inv 2(2,1) _ C(5,3) _ C(4) p'_def] C(2,6) 2(3) by simp
    ultimately show ?thesis by simp
  next
    case 3
    have l: "c < a" "c < length F" using o 3 by (auto simp: order_ok_def)
    then have f: "file_good D (F ! c)" using F by auto
    have "cat (hash_at F c) = Some g'" using sv 3 by (simp add: server_at_def)
    then have g': "chunks_ok g'" using bk l(2) unfolding backed_def by (metis imageI nth_mem)
    obtain fi where R: "recv_deplicate_chunk ((asked F c)\<lparr>fi_is_new := DEDUP_FILE\<rparr>) (recipe_packets g' @ concat (map (\<lambda>i. answer (ans i)) [Suc c..<b])) =
        Some (fi, SUCCESS, concat (map (\<lambda>i. answer (ans i)) [Suc c..<b]))" "file_hash fi = hash_at F c" "file_path fi = file_path (asked F c)"
      "fi_is_new fi = DEDUP_FILE" "chunknum fi = int (length g')"
      using recv_recipe_packets [OF g', of "(asked F c)\<lparr>fi_is_new := DEDUP_FILE\<rparr>"] by (auto simp: asked_def start_file_def file_new_def)
    define p' where "p' = p\<lparr>pl_file_q := map (asked F) [Suc c..<a] @ (if pl_walked p then [stream_end_file] else []),
      pl_down := concat (map (\<lambda>i. answer (ans i)) [Suc c..<b]), pl_rabin := pl_rabin p, pl_index := pl_index p, pl_store := pl_store p,
      pl_chunk_q := pl_chunk_q p @ [fi]\<rparr>"
    have "get_int 4 (put_int 8 (int (length g'))) = int (length g')" using g' by (intro low_int) (simp add: chunks_ok_def)
    then have arr: "recipe_arrived (recipe_packets g' @ ps)" for ps by (simp add: recipe_packets_def)
    have "pl_file_q p = asked F c # map (asked F) [Suc c..<a] @ (if pl_walked p then [stream_end_file] else [])"
      "pl_down p = Data [1, 1] # recipe_packets g' @ concat (map (\<lambda>i. answer (ans i)) [Suc c..<b])"
      using q 3 l by (simp_all add: queues_ok_def upt_split answer_def hash_reply_def)
    then have e: "chunk_dedup_module fp contents p = Move p'"
      using 3(1) R(1) arr by (simp add: chunk_dedup_module_def stream_end_file_num Let_def p'_def)
    have "deduped_ok fp (pl_store p) (F ! c) (ans c) fi" using R(2-5) 3(3) asked_path [OF f] g' by (simp add: deduped_ok_def chunks_ok_def)
    moreover have "client_ok fp D (pieces_of (drop (Suc c) F) + m) (pl_index p) (pl_store p)" "rabin_init_flag (pl_rabin p) \<longrightarrow> rabin_ok (pl_rabin p)"
      using cl client_ok_less [of fp D "length (ref_chunks (content_of (F ! c)))" "pieces_of (drop (Suc c) F) + m"]
      by (auto simp: client_at_def pieces_of_drop [OF l(2)] add.assoc)
    ultimately have "pipe_inv e fp D F m ex0 p'"
      using chunk_dedup_moved [OF inv 3(2,1) _ _ _ _ _ p'_def] index_grows_refl by simp
    with e show ?thesis by simp
  next
    case 4
    have "pl_file_q p = asked F c # map (asked F) [Suc c..<a] @ (if pl_walked p then [stream_end_file] else [])"
      "pl_down p = []" "\<not> sp_marked p"
      using q o 4 by (auto simp: queues_ok_def upt_split order_ok_def)
    with 4 show ?thesis by (simp add: chunk_dedup_module_def stream_end_file_num)
  next
    case 5
    then have "pl_file_q p = []" using q by (simp add: queues_ok_def)
    with 5 show ?thesis by (simp add: chunk_dedup_module_def)
  next
    case 6
    define p' where "p' = p\<lparr>pl_file_q := [], pl_chunk_q := pl_chunk_q p @ [stream_end_file], pl_deduped := True\<rparr>"
    have e: "chunk_dedup_module fp contents p = Move p'"
      using 6 q by (simp add: chunk_dedup_module_def queues_ok_def p'_def stream_end_file_num)
    have oo: "\<not> pl_updated p" using o 6 by (auto simp: order_ok_def)
    have "order_ok (length F) a b c d s g p'" using o 6 by (auto simp: order_ok_def p'_def)
    moreover have "queues_ok F a b c d s g ans fis rps p'" using q 6 oo by (simp add: queues_ok_def p'_def)
    ultimately have "pipe_at e fp D F m ex0 a b c d s g ans fis rps cat p'"
      using I by (simp add: pipe_at_def client_at_def server_at_def p'_def)
    from pipe_invI [OF this] e show ?thesis by simp
  qed
qed

section \<open>The threads of the server\<close>

lemma sv_mark:
  assumes ok: "server_ok e s cat" and h: "length h = 20"
  shows "\<exists>s1 rp1 s2. file_dedup_mark e (s\<lparr>ss_out := [], ss_file_count := k\<rparr>) (recipe_new\<lparr>rp_file_hash := h\<rparr>) = Some (s1, rp1) \<and>
    (if rp_is_new rp1 = DEDUP_FILE then send_chunk_info s1 rp1 else s1) = s2 \<and> tagged (\<lambda>_. cat h) h rp1 \<and>
    ss_out s2 = answer (cat h) \<and> server_ok e (s2\<lparr>ss_out := []\<rparr>) cat \<and> ss_job_id s2 = ss_job_id s"
proof -
  let ?s = "s\<lparr>ss_out := [], ss_file_count := k\<rparr>"
  have ok0: "server_ok e ?s cat" using server_ok_inv [OF ok] by (intro server_ok_cong [OF ok]) simp_all
  obtain s1 rp1 where m: "file_dedup_mark e ?s (recipe_new\<lparr>rp_file_hash := h\<rparr>) = Some (s1, rp1)" "tagged cat h rp1"
    "(if rp_is_new rp1 = DEDUP_FILE then send_chunk_info s1 rp1 else s1) =
      ?s\<lparr>ss_index := st_hash_index (ss_index ?s) h, ss_out := ss_out ?s @ hash_reply cat h\<rparr>"
    using mark_and_send [OF ok0 h refl] unfolding Let_def by blast
  let ?s2 = "?s\<lparr>ss_index := st_hash_index (ss_index ?s) h, ss_out := ss_out ?s @ hash_reply cat h\<rparr>"
  have "server_ok e (?s2\<lparr>ss_out := []\<rparr>) cat"
    using server_ok_inv [OF ok0] by (intro server_ok_cong [OF ok0]) simp_all
  moreover have "ss_out ?s2 = answer (cat h)" "ss_job_id ?s2 = ss_job_id s" by (simp_all add: answer_def hash_reply_def)
  moreover have "tagged (\<lambda>_. cat h) h rp1" using m(2) by (simp add: tagged_def)
  ultimately show ?thesis using m(1,3) by blast
qed

lemma sv_file_dedup_file:
  assumes "\<not> sp_marked p" "pl_up p = Data h # ps" "server_ok e (sp_session p) cat" "length h = 20" "length (sp_buf p) = 256"
  shows "\<exists>buf s rp. sv_file_dedup_module e p = Move (p\<lparr>pl_up := ps, sp_buf := buf, sp_session := s,
      pl_down := pl_down p @ answer (cat h), sp_q := sp_q p @ [rp]\<rparr>) \<and>
    length buf = 256 \<and> server_ok e s cat \<and> ss_job_id s = ss_job_id (sp_session p) \<and> tagged (\<lambda>_. cat h) h rp"
proof -
  let ?s = "sp_session p"
  obtain s1 rp s2 where S: "file_dedup_mark e (?s\<lparr>ss_out := [], ss_file_count := ss_file_count ?s + 1\<rparr>) (recipe_new\<lparr>rp_file_hash := h\<rparr>) = Some (s1, rp)"
    "(if rp_is_new rp = DEDUP_FILE then send_chunk_info s1 rp else s1) = s2" "tagged (\<lambda>_. cat h) h rp"
    "ss_out s2 = answer (cat h)" "server_ok e (s2\<lparr>ss_out := []\<rparr>) cat" "ss_job_id s2 = ss_job_id ?s"
    using sv_mark [OF assms(3,4)] by blast
  define buf where "buf = memcpy_at (sp_buf p) 0 (h @ [0])"
  have buf: "take 20 buf = h" "length buf = 256" using assms(4,5) by (simp_all add: buf_def memcpy_at_def)
  have h: "h \<noteq> []" using assms(4) by auto
  have "sv_file_dedup_module e p = Move (p\<lparr>pl_up := ps, sp_buf := buf, sp_session := s2\<lparr>ss_out := []\<rparr>,
      pl_down := pl_down p @ answer (cat h), sp_q := sp_q p @ [rp]\<rparr>)"
    using assms(1,2,4) h S(1) buf(1) by (simp add: sv_file_dedup_module_def Let_def S(2,4) flip: buf_def)
  with S(3,5,6) buf(2) show ?thesis
    by (intro exI [of _ buf] exI [of _ "s2\<lparr>ss_out := []\<rparr>"] exI [of _ rp]) simp
qed

lemma sv_file_dedup_inv:
  assumes inv: "pipe_at e fp D F m ex0 a b c d s g ans fis rps cat p"
  shows "goes_on (pipe_inv e fp D F m ex0) (sv_file_dedup_module e p) \<and>
    (pl_walked p \<and> \<not> sp_marked p \<longrightarrow> sv_file_dedup_module e p \<noteq> Wait)"
proof -
  note I = inv [unfolded pipe_at_def]
  have o: "order_ok (length F) a b c d s g p" and q: "queues_ok F a b c d s g ans fis rps p" and cl: "client_at fp D F m ex0 c ans fis p"
    and bk: "backed fp (pl_store p) cat (content_of ` set F)" and sv: "server_at e F s b ans rps cat p" using I by auto
  consider "sp_marked p" | "\<not> sp_marked p" "b < a" | "\<not> sp_marked p" "b = a" "\<not> pl_walked p" | "\<not> sp_marked p" "b = a" "pl_walked p"
    using o by (force simp: order_ok_def)
  then show ?thesis
  proof cases
    case 1
    then show ?thesis by (simp add: sv_file_dedup_module_def)
  next
    case 2
    let ?h = "hash_at F b" and ?s = "sp_session p"
    have ok: "server_ok e ?s cat" "length (sp_buf p) = 256" using sv by (auto simp: server_at_def)
    have up: "pl_up p = Data ?h # map (\<lambda>i. Data (hash_at F i)) [Suc b..<a] @ (if pl_walked p then [Signal STREAM_END] else [])"
      using q 2 by (simp add: queues_ok_def upt_split)
    obtain buf s2 rp where S: "sv_file_dedup_module e p = Move (p\<lparr>pl_up := map (\<lambda>i. Data (hash_at F i)) [Suc b..<a] @
        (if pl_walked p then [Signal STREAM_END] else []), sp_buf := buf, sp_session := s2, pl_down := pl_down p @ answer (cat ?h), sp_q := sp_q p @ [rp]\<rparr>)"
      "length buf = 256" "server_ok e s2 cat" "ss_job_id s2 = ss_job_id ?s" "tagged (\<lambda>_. cat ?h) ?h rp"
      using sv_file_dedup_file [OF 2(1) up ok(1) length_sha1_hash ok(2)] by blast
    define p' where "p' = p\<lparr>pl_up := map (\<lambda>i. Data (hash_at F i)) [Suc b..<a] @ (if pl_walked p then [Signal STREAM_END] else []),
      sp_buf := buf, sp_session := s2, pl_down := pl_down p @ answer (cat ?h), sp_q := sp_q p @ [rp]\<rparr>"
    have e: "sv_file_dedup_module e p = Move p'" using S(1) by (simp add: p'_def)
    let ?ans = "ans(b := cat ?h)"
    have oo: "d \<le> b" "c \<le> b" "s \<le> b" "\<not> sp_updated p" using o 2 by (auto simp: order_ok_def)
    have "order_ok (length F) a (Suc b) c d s g p'" using o 2 by (auto simp: order_ok_def p'_def)
    moreover have "queues_ok F a (Suc b) c d s g ?ans fis (rps(b := rp)) p'"
      using q 2 oo by (simp add: queues_ok_def p'_def concat_upd_other [where h = "\<lambda>i y. recipe_msgs y (fis i)"]
          concat_upd_other [where h = "\<lambda>i. answer"])
    moreover have "client_at fp D F m ex0 c ?ans fis p'" using cl oo by (simp add: client_at_def p'_def)
    moreover have "server_at e F s (Suc b) ?ans (rps(b := rp)) cat p'"
      using sv S(2-5) by (auto simp: server_at_def p'_def less_Suc_eq)
    moreover have "backed fp (pl_store p') cat (content_of ` set F)" using bk by (simp add: p'_def)
    ultimately have "pipe_at e fp D F m ex0 a (Suc b) c d s g ?ans fis (rps(b := rp)) cat p'" by (simp add: pipe_at_def)
    from pipe_invI [OF this] e show ?thesis by simp
  next
    case 3
    then have "pl_up p = []" using q by (simp add: queues_ok_def)
    with 3 show ?thesis by (simp add: sv_file_dedup_module_def)
  next
    case 4
    define p' where "p' = p\<lparr>pl_up := [], sp_q := sp_q p @ [recipe_new], sp_marked := True\<rparr>"
    have e: "sv_file_dedup_module e p = Move p'"
      using 4 q by (simp add: sv_file_dedup_module_def queues_ok_def p'_def)
    have oo: "\<not> sp_updated p" using o 4 by (auto simp: order_ok_def)
    have "order_ok (length F) a b c d s g p'" using o 4 by (auto simp: order_ok_def p'_def)
    moreover have "queues_ok F a b c d s g ans fis rps p'" using q 4 oo by (simp add: queues_ok_def p'_def)
    ultimately have "pipe_at e fp D F m ex0 a b c d s g ans fis rps cat p'"
      using I by (simp add: pipe_at_def client_at_def server_at_def p'_def)
    from pipe_invI [OF this] e show ?thesis by simp
  qed
qed

lemma sv_finish_ok:
  assumes "db_works e" "ss_result s" "ss_job_id s \<noteq> 0" "server_ok e s cat"
  shows "\<exists>s'. sv_finish e s rp p = p\<lparr>sp_session := s', pl_recipe_down := pl_recipe_down p @ [Data updateattr_ok]\<rparr> \<and>
    server_ok e s' cat \<and> ss_job_id s' \<noteq> 0"
proof -
  obtain db where R: "backup_record e (s\<lparr>ss_out := []\<rparr>) rp =
      send updateattr_ok (s\<lparr>ss_out := [], ss_db := db, ss_result := True, ss_buf := updateattr_ok\<rparr>)"
    using backup_record_spec [OF assms(1), of "s\<lparr>ss_out := []\<rparr>" rp] assms(2,3) by auto
  let ?s' = "(send updateattr_ok (s\<lparr>ss_out := [], ss_db := db, ss_result := True, ss_buf := updateattr_ok\<rparr>))\<lparr>ss_out := []\<rparr>"
  have "server_ok e ?s' cat" using server_ok_inv [OF assms(4)] by (intro server_ok_cong [OF assms(4)]) simp_all
  moreover have "sv_finish e s rp p = p\<lparr>sp_session := ?s', pl_recipe_down := pl_recipe_down p @ [Data updateattr_ok]\<rparr>"
    by (simp add: sv_finish_def R)
  ultimately show ?thesis using assms(3) by (intro exI [of _ ?s']) simp
qed

text \<open>Whatever the index holds already: the first recipe of a fingerprint stays.\<close>

lemma store_recipe_spec:
  assumes ok: "server_ok e s cat" and h: "length h = 20" and fcs: "chunks_ok fcs"
    and rp: "rp_file_hash rp = h" "rp_chunks rp = fcs" "rp_chunknum rp = int (length fcs)"
  shows "\<exists>s'. store_recipe e s rp = Some s' \<and> server_ok e s' (enter cat (h, path, fcs)) \<and>
    ss_result s' = ss_result s \<and> ss_job_id s' = ss_job_id s"
proof -
  have V: "volume_ready (se_path e) (ss_disk s) (ss_rv s)" using ok by (simp add: server_ok_def)
  let ?off = "rv_volume_length (ss_rv s)"
  have n: "rp_chunknum rp = int (length (rp_chunks rp))" "chunks_ok (rp_chunks rp)" using rp(2,3) fcs by simp_all
  obtain dk rv where W: "write_recipe_to_vol (se_path e) (ss_disk s) (ss_rv s) rp = Some (dk, rv, Some ?off, True)"
    "volume_ready (se_path e) dk rv" "recipe_at (se_path e) dk rv ?off fcs"
    "\<And>off fcs. recipe_at (se_path e) (ss_disk s) (ss_rv s) off fcs \<Longrightarrow> recipe_at (se_path e) dk rv off fcs"
    using write_recipe_spec [OF V n] unfolding rp(2) by metis
  note I = index_insert_spec [OF server_ok_inv [OF ok] h, of ?off]
  let ?s = "s\<lparr>ss_disk := dk, ss_rv := rv, ss_index := fst (index_insert (ss_index s) h ?off)\<rparr>"
  have b: "store_recipe e s rp = Some ?s" using W(1) rp(1) by (simp add: store_recipe_def)
  have "server_ok e ?s (enter cat (h, path, fcs))"
    unfolding server_ok_def
  proof (intro conjI allI impI)
    fix k :: fingerprint assume k: "length k = 20"
    have old: "case index_map (ss_index s) k of None \<Rightarrow> cat k = None
      | Some off \<Rightarrow> \<exists>fcs. cat k = Some fcs \<and> recipe_at (se_path e) (ss_disk s) (ss_rv s) off fcs" if "length k = 20" for k
      using ok that by (simp add: server_ok_def)
    from old [OF k] old [OF h] W(3,4) I show "case index_map (ss_index ?s) k of None \<Rightarrow> enter cat (h, path, fcs) k = None
      | Some off \<Rightarrow> \<exists>fcs'. enter cat (h, path, fcs) k = Some fcs' \<and> recipe_at (se_path e) (ss_disk ?s) (ss_rv ?s) off fcs'"
      by (auto split: option.splits)
  qed (use W(2) I in simp_all)
  with b show ?thesis by (intro exI [of _ ?s]) simp
qed

lemma recipe_room_spec:
  assumes "0 \<le> n" "-1 \<le> sp_last p" "length (sp_recipe p) = nat (20 + sp_last p * 84 + 1)"
  shows "\<exists>r l. recipe_room heap n p = p\<lparr>sp_recipe := r, sp_last := l\<rparr> \<and> -1 \<le> l \<and> n \<le> l \<and> length r = nat (20 + l * 84 + 1)"
proof (cases "n > sp_last p")
  case True
  then show ?thesis using assms(1)
    by (intro exI [of _ "take (nat (20 + n * 84 + 1)) (sp_recipe p) @ map heap [length (sp_recipe p)..<nat (20 + n * 84 + 1)]"] exI [of _ n])
      (simp add: recipe_room_def Let_def min_def)
next
  case False
  then show ?thesis using assms by (intro exI [of _ "sp_recipe p"] exI [of _ "sp_last p"]) (simp add: recipe_room_def)
qed

lemma sv_new_recipe_stores:
  assumes ok: "server_ok e s cat" and h: "length h = 20" "length h' = 20" and fcs: "chunks_ok fcs"
    and rp: "rp_file_hash rp = h" "rp_chunks rp = []" "rp_chunknum rp = 0"
    and p: "sp_chunknum p = Some (int (length fcs))" "-1 \<le> sp_last p" "length (sp_recipe p) = nat (20 + sp_last p * 84 + 1)"
  shows "\<exists>s1 rp' r l. sv_new_recipe e heap s rp (Data (h' @ concat (map enc_chunk fcs)) # ps) p =
      Move (sv_finish e s1 rp' (p\<lparr>sp_recipe := r, sp_last := l, pl_recipe_up := ps\<rparr>)) \<and>
    server_ok e s1 (enter cat (h, path, fcs)) \<and> ss_result s1 = (ss_result s \<and> h' = h) \<and> ss_job_id s1 = ss_job_id s \<and>
    -1 \<le> l \<and> length r = nat (20 + l * 84 + 1)"
proof -
  let ?d = "h' @ concat (map enc_chunk fcs)"
  obtain r l where R: "recipe_room heap (int (length fcs)) p = p\<lparr>sp_recipe := r, sp_last := l\<rparr>" "-1 \<le> l" "int (length fcs) \<le> l"
    "length r = nat (20 + l * 84 + 1)"
    using recipe_room_spec [OF _ p(2,3), of "int (length fcs)" heap] by auto
  have c: "\<forall>fc\<in>set fcs. length (fst fc) = 20 \<and> length (snd fc) = 64" using fcs by (simp add: chunks_ok_def)
  have ld: "length ?d = 20 + 84 * length fcs" using h chunk.enc_many_length [OF c] by simp
  have lr: "21 + 84 * length fcs \<le> length r" using R(3,4) by linarith
  define buf where "buf = memcpy_at r 0 (h' @ concat (map enc_chunk fcs) @ [0])"
  have buf: "take 20 buf = h'" "length buf = length r" "drop 20 buf = concat (map enc_chunk fcs) @ 0 # drop (Suc (length ?d)) r"
    using h ld lr by (simp_all add: buf_def memcpy_at_def)
  have dec: "dec_many dec_chunk 84 (length fcs) (drop 20 buf) = fcs" unfolding buf(3) by (rule chunk.dec_enc_many [OF c])
  let ?rp = "foldl recipe_append_fingerchunk rp fcs" and ?s = "s\<lparr>ss_result := ss_result s \<and> h' = h\<rparr>"
  have rp': "rp_file_hash ?rp = h" "rp_chunks ?rp = fcs" "rp_chunknum ?rp = int (length fcs)" using rp by (simp_all add: foldl_recipe_append)
  have "server_ok e ?s cat" using server_ok_inv [OF ok] by (intro server_ok_cong [OF ok]) simp_all
  then obtain s1 where S: "store_recipe e ?s ?rp = Some s1" "server_ok e s1 (enter cat (h, path, fcs))" "ss_result s1 = ss_result ?s" "ss_job_id s1 = ss_job_id ?s"
    using store_recipe_spec [OF _ h(1) fcs rp'] by blast
  have dne: "h' \<noteq> []" using h(2) by auto
  have upd: "p\<lparr>sp_last := l, sp_recipe := x, pl_recipe_up := y\<rparr> = p\<lparr>sp_recipe := x, sp_last := l, pl_recipe_up := y\<rparr>" for x y
    by simp
  have "sv_new_recipe e heap s rp (Data ?d # ps) p = Move (sv_finish e s1 ?rp (p\<lparr>sp_recipe := buf, sp_last := l, pl_recipe_up := ps\<rparr>))"
    using p(1) R(1) lr ld dne buf(1) dec rp(1) S(1)
    by (simp add: sv_new_recipe_def Let_def upd flip: buf_def)
  with S(2-4) R(2,4) buf(2) show ?thesis
    by (intro exI [of _ s1] exI [of _ ?rp] exI [of _ buf] exI [of _ l]) simp
qed

lemma sv_new_recipe_ok:
  assumes ok: "server_ok e s cat" "db_works e" "ss_result s" "ss_job_id s \<noteq> 0" and h: "length h = 20" and fcs: "chunks_ok fcs"
    and rp: "rp_file_hash rp = h" "rp_chunks rp = []" "rp_chunknum rp = 0"
    and p: "sp_chunknum p = Some (int (length fcs))" "-1 \<le> sp_last p" "length (sp_recipe p) = nat (20 + sp_last p * 84 + 1)"
  shows "\<exists>s' r l. sv_new_recipe e heap s rp (Data (h @ concat (map enc_chunk fcs)) # ps) p = Move (p\<lparr>sp_recipe := r, sp_last := l,
      pl_recipe_up := ps, sp_session := s', pl_recipe_down := pl_recipe_down p @ [Data updateattr_ok]\<rparr>) \<and>
    server_ok e s' (enter cat (h, path, fcs)) \<and> ss_job_id s' \<noteq> 0 \<and> -1 \<le> l \<and> length r = nat (20 + l * 84 + 1)"
proof -
  obtain s1 rp' r l where R: "sv_new_recipe e heap s rp (Data (h @ concat (map enc_chunk fcs)) # ps) p =
      Move (sv_finish e s1 rp' (p\<lparr>sp_recipe := r, sp_last := l, pl_recipe_up := ps\<rparr>))"
    "server_ok e s1 (enter cat (h, path, fcs))" "ss_result s1 = (ss_result s \<and> h = h)" "ss_job_id s1 = ss_job_id s"
    "-1 \<le> l" "length r = nat (20 + l * 84 + 1)"
    using sv_new_recipe_stores [OF ok(1) h h fcs rp p] by blast
  have "ss_result s1" "ss_job_id s1 \<noteq> 0" using R(3,4) ok(3,4) by simp_all
  from sv_finish_ok [OF ok(2) this R(2), of rp' "p\<lparr>sp_recipe := r, sp_last := l, pl_recipe_up := ps\<rparr>"] R(1,5,6)
  show ?thesis by auto
qed

lemma backed_enter:
  assumes "backed fp st cat (content_of ` set F)" "inj_on sha1_hash (content_of ` set F)" "f \<in> set F"
    and "chunks_ok fcs" "leads fp st (content_of f) fcs"
  shows "backed fp st (enter cat (sha1_hash (content_of f), path, fcs)) (content_of ` set F)"
proof -
  have "chunks_ok g \<and> leads fp st data g"
    if d: "data \<in> content_of ` set F" and g: "enter cat (sha1_hash (content_of f), path, fcs) (sha1_hash data) = Some g" for data g
  proof (cases "cat (sha1_hash data)")
    case None
    then have "sha1_hash data = sha1_hash (content_of f)" "g = fcs" using g by (auto split: option.splits if_splits)
    with inj_onD [OF assms(2) this(1) d] assms(3-5) show ?thesis by simp
  next
    case (Some x)
    then have k: "cat (sha1_hash data) \<noteq> None" by simp
    have "g = x" using g Some unfolding enter_known [where cat = cat and h = "sha1_hash data", OF k] by simp
    with Some d assms(1) show ?thesis unfolding backed_def by blast
  qed
  then show ?thesis unfolding backed_def by blast
qed

text \<open>File \<open>s\<close> has been entered.\<close>

lemma sv_update_moved:
  assumes inv: "pipe_at e fp D F m ex0 a b c d s g ans fis rps cat p" and s: "s < d" "\<not> sp_updated p"
    and srv: "server_ok e ses cat'" "ss_job_id ses \<noteq> 0" "-1 \<le> l" "length r = nat (20 + l * 84 + 1)"
    and cat': "\<forall>h. cat h \<noteq> None \<longrightarrow> cat' h = cat h" "cat' (hash_at F s) \<noteq> None" "backed fp (pl_store p) cat' (content_of ` set F)"
    and p': "p' = p\<lparr>sp_q := map rps [Suc s..<b] @ (if sp_marked p then [recipe_new] else []), sp_chunknum := n,
      pl_recipe_up := concat (map (\<lambda>i. recipe_msgs (ans i) (fis i)) [Suc s..<d]), sp_recipe := r, sp_last := l, sp_session := ses,
      pl_recipe_down := pl_recipe_down p @ [Data updateattr_ok]\<rparr>"
  shows "pipe_inv e fp D F m ex0 p'"
proof -
  note I = inv [unfolded pipe_at_def]
  have o: "order_ok (length F) a b c d s g p" and q: "queues_ok F a b c d s g ans fis rps p" and cl: "client_at fp D F m ex0 c ans fis p"
    and sv: "server_at e F s b ans rps cat p" using I by auto
  have oo: "g \<le> s" "s < b" using o s by (auto simp: order_ok_def)
  then have "Suc s - g = Suc (s - g)" by simp
  then have "replicate (s - g) (Data updateattr_ok) @ [Data updateattr_ok] = replicate (Suc s - g) (Data updateattr_ok)"
    by (simp add: replicate_append_same)
  then have "queues_ok F a b c d (Suc s) g ans fis rps p'" using q s by (simp add: queues_ok_def p')
  moreover have "order_ok (length F) a b c d (Suc s) g p'" using o s by (auto simp: order_ok_def p')
  moreover have "client_at fp D F m ex0 c ans fis p'" using cl by (simp add: client_at_def p')
  moreover have "cat' (hash_at F i) \<noteq> None" if "i < Suc s" for i
    using that sv cat'(1,2) by (cases "i = s") (auto simp: server_at_def)
  moreover have "cat' (hash_at F i) = Some x" if "i < b" "ans i = Some x" for i x
    using that sv cat'(1) by (simp add: server_at_def)
  ultimately have "pipe_at e fp D F m ex0 a b c d (Suc s) g ans fis rps cat' p'"
    using sv srv cat'(3) by (simp add: pipe_at_def server_at_def p')
  then show ?thesis by (rule pipe_invI)
qed

lemma sv_update_recipe_inv:
  assumes inv: "pipe_at e fp D F m ex0 a b c d s g ans fis rps cat p" and db: "db_works e"
    and F: "\<forall>f\<in>set F. file_good D f" "inj_on sha1_hash (content_of ` set F)"
  shows "goes_on (pipe_inv e fp D F m ex0) (sv_update_recipe_module e heap p) \<and>
    (pl_updated p \<and> sp_marked p \<and> \<not> sp_updated p \<longrightarrow> sv_update_recipe_module e heap p \<noteq> Wait)"
proof -
  note I = inv [unfolded pipe_at_def]
  have o: "order_ok (length F) a b c d s g p" and q: "queues_ok F a b c d s g ans fis rps p" and cl: "client_at fp D F m ex0 c ans fis p"
    and bk: "backed fp (pl_store p) cat (content_of ` set F)" and sv: "server_at e F s b ans rps cat p" using I by auto
  consider "sp_updated p" | "\<not> sp_updated p" "s < d" | "\<not> sp_updated p" "s = d" "s < b" | "\<not> sp_updated p" "s = b" "\<not> sp_marked p"
    | "\<not> sp_updated p" "s = b" "sp_marked p"
    using o by (force simp: order_ok_def)
  then show ?thesis
  proof cases
    case 1
    then show ?thesis by (simp add: sv_update_recipe_module_def)
  next
    case 2
    let ?f = "F ! s" and ?fi = "fis s" and ?h = "hash_at F s"
    have l: "s < b" "s < c" "s < length F" using o 2 by (auto simp: order_ok_def)
    then have good: "file_good D ?f" "?f \<in> set F" using F(1) by auto
    obtain path ds where pd: "?f = (path, ds)" by fastforce
    with good have path: "path_ok path" by simp
    have fi: "deduped_ok fp (pl_store p) ?f (ans s) ?fi" using cl l(2) by (simp add: client_at_def)
    have rp: "tagged (\<lambda>_. ans s) ?h (rps s)" using sv l(1) by (simp add: server_at_def)
    obtain n where n: "chunknum ?fi = int n" "n < 2 ^ 31"
    proof
      show "chunknum ?fi = int (nat (chunknum ?fi))" "nat (chunknum ?fi) < 2 ^ 31"
        using fi by (auto simp: deduped_ok_def chunks_ok_def sent_chunks_def split: option.splits)
    qed
    let ?m = "update_msg (chunknum ?fi) (file_path ?fi)"
    have m: "?m = update_msg (int n) path"
      unfolding n(1) by (rule update_msg_cong) (use fi pd path in \<open>auto simp: deduped_ok_def path_ok_def intro: cstr_id [symmetric]\<close>)
    have sc: "scan_update (cstr ?m) = (Some (int n), Some path)" unfolding m by (rule scan_update_msg [OF path])
    have "length (dec_digits n) \<le> 10" using n(2) by (intro length_dec_digits) simp_all
    moreover have "length (cstr path) < 256" using path by (metis cstr_id path_ok_def)
    ultimately have lm: "length ?m < 384" "?m \<noteq> []" unfolding m by (simp_all add: update_msg_def show_int_def) (simp_all add: asc_def)
    have lp: "length path < 256" using path by (simp add: path_ok_def)
    let ?rest = "concat (map (\<lambda>i. recipe_msgs (ans i) (fis i)) [Suc s..<d])"
    let ?q = "map rps [Suc s..<b] @ (if sp_marked p then [recipe_new] else [])"
    let ?p = "p\<lparr>sp_q := ?q, sp_chunknum := Some (int n)\<rparr>" and ?rp = "(rps s)\<lparr>rp_filename := strcpy_to (rp_filename (rps s)) path\<rparr>"
      and ?ses = "(sp_session p)\<lparr>ss_result := True\<rparr>"
    have ses: "server_ok e ?ses cat" "ss_job_id ?ses \<noteq> 0" "-1 \<le> sp_last p" "length (sp_recipe p) = nat (20 + sp_last p * 84 + 1)"
      using sv server_ok_cong [of e "sp_session p" cat ?ses] by (auto simp: server_at_def dest: server_ok_inv)
    have up: "pl_recipe_up p = recipe_msgs (ans s) ?fi @ ?rest" "sp_q p = rps s # ?q"
      using q 2 l by (simp_all add: queues_ok_def upt_split)
    show ?thesis
    proof (cases "ans s")
      case None
      let ?fcs = "sent_chunks ?fi"
      have f: "chunks_ok ?fcs" "leads fp (pl_store p) (content_of ?f) ?fcs" "file_hash ?fi = ?h" "n = length ?fcs"
        using fi None n(1) by (auto simp: deduped_ok_def sent_chunks_def)
      have t: "rp_is_new ?rp = NEW_FILE" "rp_is_new (rps s) \<noteq> -1" "rp_file_hash ?rp = ?h" "rp_chunks ?rp = []" "rp_chunknum ?rp = 0"
        using rp None by (simp_all add: tagged_def)
      have pn: "sp_chunknum ?p = Some (int (length ?fcs))" "-1 \<le> sp_last ?p" "length (sp_recipe ?p) = nat (20 + sp_last ?p * 84 + 1)"
        using f(4) ses(3,4) by simp_all
      obtain ses' r l where R: "sv_new_recipe e heap ?ses ?rp (Data (?h @ concat (map enc_chunk ?fcs)) # ?rest) ?p = Move (?p\<lparr>sp_recipe := r, sp_last := l,
          pl_recipe_up := ?rest, sp_session := ses', pl_recipe_down := pl_recipe_down ?p @ [Data updateattr_ok]\<rparr>)"
        "server_ok e ses' (enter cat (?h, path, ?fcs))" "ss_job_id ses' \<noteq> 0" "-1 \<le> l" "length r = nat (20 + l * 84 + 1)"
        using sv_new_recipe_ok [OF ses(1) db _ ses(2) length_sha1_hash f(1) t(3-5) pn, of heap ?rest path] by auto
      define p' where "p' = p\<lparr>sp_q := ?q, sp_chunknum := Some (int n), pl_recipe_up := ?rest, sp_recipe := r, sp_last := l, sp_session := ses',
        pl_recipe_down := pl_recipe_down p @ [Data updateattr_ok]\<rparr>"
      have "sv_update_recipe_module e heap p = Move p'"
        using 2(1) up sc lm lp t(1,2) None f(3) R(1)
        by (simp add: sv_update_recipe_module_def recipe_msgs_def Let_def p'_def)
      moreover have "pipe_inv e fp D F m ex0 p'"
      proof (rule sv_update_moved [OF inv 2(2,1) R(2-5) _ _ _ p'_def])
        show "\<forall>h. cat h \<noteq> None \<longrightarrow> enter cat (?h, path, ?fcs) h = cat h" using enter_known by blast
        show "enter cat (?h, path, ?fcs) ?h \<noteq> None" by (auto split: option.splits)
        show "backed fp (pl_store p) (enter cat (?h, path, ?fcs)) (content_of ` set F)" by (rule backed_enter [OF bk F(2) good(2) f(1,2)])
      qed
      ultimately show ?thesis by simp
    next
      case (Some x)
      have t: "rp_is_new (rps s) = DEDUP_FILE" using rp Some by (simp add: tagged_def)
      obtain ses' where R: "sv_finish e ?ses ?rp (?p\<lparr>pl_recipe_up := ?rest\<rparr>) =
          ?p\<lparr>pl_recipe_up := ?rest, sp_session := ses', pl_recipe_down := pl_recipe_down p @ [Data updateattr_ok]\<rparr>"
        "server_ok e ses' cat" "ss_job_id ses' \<noteq> 0"
        using sv_finish_ok [OF db _ ses(2,1), of ?rp "?p\<lparr>pl_recipe_up := ?rest\<rparr>"] by auto
      define p' where "p' = p\<lparr>sp_q := ?q, sp_chunknum := Some (int n), pl_recipe_up := ?rest, sp_recipe := sp_recipe p, sp_last := sp_last p,
        sp_session := ses', pl_recipe_down := pl_recipe_down p @ [Data updateattr_ok]\<rparr>"
      have "sv_update_recipe_module e heap p = Move p'"
        using 2(1) up sc lm lp t Some R(1)
        by (simp add: sv_update_recipe_module_def recipe_msgs_def Let_def p'_def)
      moreover have "cat ?h \<noteq> None" using sv l(1) Some by (simp add: server_at_def)
      then have "pipe_inv e fp D F m ex0 p'"
        using sv_update_moved [OF inv 2(2,1) R(2,3) ses(3,4) _ _ bk p'_def] by simp
      ultimately show ?thesis by simp
    qed
  next
    case 3
    have "tagged (\<lambda>_. ans s) (hash_at F s) (rps s)" using sv 3 by (simp add: server_at_def)
    then have "rp_is_new (rps s) \<noteq> -1" by (auto simp: tagged_def split: option.splits)
    moreover have "pl_recipe_up p = []" "sp_q p = rps s # map rps [Suc s..<b] @ (if sp_marked p then [recipe_new] else [])"
      using q 3 by (simp_all add: queues_ok_def upt_split)
    moreover have "\<not> (pl_updated p \<and> sp_marked p)" using o 3 by (auto simp: order_ok_def)
    ultimately show ?thesis using 3(1) by (simp add: sv_update_recipe_module_def)
  next
    case 4
    then have "sp_q p = []" using q by (simp add: queues_ok_def)
    with 4 show ?thesis by (simp add: sv_update_recipe_module_def)
  next
    case 5
    define p' where "p' = p\<lparr>sp_q := [], sp_updated := True\<rparr>"
    have e: "sv_update_recipe_module e heap p = Move p'"
      using 5 q by (simp add: sv_update_recipe_module_def queues_ok_def p'_def recipe_new_def)
    have "order_ok (length F) a b c d s g p'" using o 5 by (auto simp: order_ok_def p'_def)
    moreover have "queues_ok F a b c d s g ans fis rps p'" using q 5 by (simp add: queues_ok_def p'_def)
    ultimately have "pipe_at e fp D F m ex0 a b c d s g ans fis rps cat p'"
      using I by (simp add: pipe_at_def client_at_def server_at_def p'_def)
    from pipe_invI [OF this] e show ?thesis by simp
  qed
qed

section \<open>All threads together\<close>

text \<open>What the two programs rely on: the files, the hashes, the database.\<close>

definition site_ok ::
  "'db server_env \<Rightarrow> (byte list \<Rightarrow> fingerprint) \<Rightarrow> byte list set \<Rightarrow> sha1_context \<Rightarrow> (byte list \<Rightarrow> fdesc option) \<Rightarrow> whole_file list \<Rightarrow> bool" where
  "site_ok e fp D junk contents F \<longleftrightarrow> db_works e \<and> (\<forall>d. length (fp d) = 20) \<and> length (Message_Block junk) = 64 \<and>
     (\<forall>f\<in>set F. file_good D f \<and> contents (fst f) = readable (content_of f)) \<and> inj_on sha1_hash (content_of ` set F)"

lemma run_thread_inv:
  assumes inv: "pipe_inv e fp D F m ex0 p" and ok: "site_ok e fp D junk contents F"
  shows "goes_on (pipe_inv e fp D F m ex0) (run_thread e fp junk contents heap t p)"
proof -
  obtain a b c d s g ans fis rps cat where I: "pipe_at e fp D F m ex0 a b c d s g ans fis rps cat p"
    using inv unfolding pipe_inv_def by blast
  have S: "\<forall>f\<in>set F. file_good D f" "\<forall>f\<in>set F. file_good D f \<and> contents (fst f) = readable (content_of f)"
    "\<forall>d. length (fp d) = 20" "length (Message_Block junk) = 64" "db_works e" "inj_on sha1_hash (content_of ` set F)"
    using ok by (auto simp: site_ok_def)
  show ?thesis
    using file_dedup_inv [OF I S(1,4)] chunk_dedup_inv [OF I S(2,3)] update_recipe_inv [OF I] recive_result_inv [OF I]
      sv_file_dedup_inv [OF I] sv_update_recipe_inv [OF I S(5,1,6), of heap]
    by (cases t) simp_all
qed

text \<open>The threads never wait for each other in a circle.\<close>

lemma pipe_progress:
  assumes inv: "pipe_inv e fp D F m ex0 p" and ok: "site_ok e fp D junk contents F"
    and wait: "\<forall>t. run_thread e fp junk contents heap t p = Wait"
  shows "pipe_over p"
proof -
  obtain a b c d s g ans fis rps cat where I: "pipe_at e fp D F m ex0 a b c d s g ans fis rps cat p"
    using inv unfolding pipe_inv_def by blast
  have S: "\<forall>f\<in>set F. file_good D f" "\<forall>f\<in>set F. file_good D f \<and> contents (fst f) = readable (content_of f)"
    "\<forall>d. length (fp d) = 20" "length (Message_Block junk) = 64" "db_works e" "inj_on sha1_hash (content_of ` set F)"
    using ok by (auto simp: site_ok_def)
  have w: "file_dedup_module junk p = Wait" "chunk_dedup_module fp contents p = Wait" "update_recipe_module p = Wait"
    "recive_result_module p = Wait" "sv_file_dedup_module e p = Wait" "sv_update_recipe_module e heap p = Wait"
    using wait [rule_format, of File_dedup] wait [rule_format, of Chunk_dedup] wait [rule_format, of Update_recipe]
      wait [rule_format, of Recive_result] wait [rule_format, of Sv_file_dedup] wait [rule_format, of Sv_update_recipe] by simp_all
  have "pl_walked p" using file_dedup_inv [OF I S(1,4)] w(1) by blast
  moreover from this have "sp_marked p" using sv_file_dedup_inv [OF I] w(5) by blast
  moreover from calculation have "pl_deduped p" using chunk_dedup_inv [OF I S(2,3)] w(2) by blast
  moreover from this have "pl_updated p" using update_recipe_inv [OF I] w(3) by blast
  moreover from calculation have "sp_updated p" using sv_update_recipe_inv [OF I S(5,1,6)] w(6) by blast
  moreover from calculation have "pl_received p" using recive_result_inv [OF I] w(4) by blast
  ultimately show ?thesis by (simp add: pipe_over_def)
qed

lemma pipe_inv_start:
  assumes "server_ok e s cat" "ss_job_id s \<noteq> 0" "client_ok fp D (pieces_of F + m) ex st" "rabin_init_flag rst \<Longrightarrow> rabin_ok rst"
    and "backed fp st cat (content_of ` set F)"
  shows "pipe_inv e fp D F m ex (pipeline_start (map (\<lambda>f. (fst f, Some (map Some (snd f)))) F) rst ex st s)"
  by (rule pipe_invI [of e fp D F m ex 0 0 0 0 0 0 "\<lambda>_. None" "\<lambda>_. file_new" "\<lambda>_. recipe_new" cat])
    (use assms in \<open>simp add: pipe_at_def order_ok_def queues_ok_def client_at_def server_at_def pipeline_start_def index_grows_refl\<close>)

lemma pipe_inv_steps:
  assumes "(pipe_step e fp junk contents heap)\<^sup>*\<^sup>* p p'" "pipe_inv e fp D F m ex0 p" "site_ok e fp D junk contents F"
  shows "pipe_inv e fp D F m ex0 p'"
  using assms
proof (induction rule: rtranclp_induct)
  case (step q r)
  from step.hyps(2) obtain t where "run_thread e fp junk contents heap t q = Move r" by cases
  with run_thread_inv [OF step.IH [OF step.prems] step.prems(2), of heap t] show ?case by simp
qed

lemma pipe_inv_over:
  assumes "pipe_inv e fp D F m ex0 p" "pipe_over p"
  shows "\<exists>cat. server_ok e (sp_session p) cat \<and> backed fp (pl_store p) cat (content_of ` set F) \<and>
    (\<forall>f\<in>set F. cat (sha1_hash (content_of f)) \<noteq> None) \<and> pl_told p = replicate (length F) True \<and>
    client_ok fp D m (pl_index p) (pl_store p) \<and> index_grows (length F) ex0 (pl_index p)"
proof -
  obtain a b c d s g ans fis rps cat where I: "pipe_at e fp D F m ex0 a b c d s g ans fis rps cat p"
    using assms(1) unfolding pipe_inv_def by blast
  then have N: "c = length F" "s = length F" "g = length F" using assms(2) by (auto simp: pipe_at_def order_ok_def pipe_over_def)
  have "cat (sha1_hash (content_of f)) \<noteq> None" if "f \<in> set F" for f
    using that I N(2) by (auto simp: pipe_at_def server_at_def in_set_conv_nth)
  with I N show ?thesis
    by (intro exI [of _ cat]) (simp add: pipe_at_def queues_ok_def client_at_def server_at_def pieces_of_def)
qed

lemma pipe_over_waits: "pipe_over p \<Longrightarrow> run_thread e fp junk contents heap t p = Wait"
  by (cases t) (simp_all add: pipe_over_def file_dedup_module_def chunk_dedup_module_def update_recipe_module_def
      recive_result_module_def sv_file_dedup_module_def sv_update_recipe_module_def)

lemma pipe_reaches_end:
  assumes "site_ok e fp D junk contents F"
  shows "pipe_inv e fp D F m ex p \<Longrightarrow> \<exists>p'. (pipe_step e fp junk contents heap)\<^sup>*\<^sup>* p p' \<and> pipe_over p'"
proof (induction "pipe_work p" arbitrary: p rule: less_induct)
  case less
  show ?case
  proof (cases "\<exists>t q. run_thread e fp junk contents heap t p = Move q")
    case True
    then obtain t q where q: "run_thread e fp junk contents heap t p = Move q" by blast
    then have s: "pipe_step e fp junk contents heap p q" by (rule pipe_step.thread)
    have "pipe_inv e fp D F m ex q" using run_thread_inv [OF less.prems assms, of heap t] q by simp
    from less.hyps [OF pipe_step_work [OF s] this] s show ?thesis by (meson converse_rtranclp_into_rtranclp)
  next
    case False
    have "\<forall>t. run_thread e fp junk contents heap t p \<noteq> Crash" using run_thread_inv [OF less.prems assms, of heap] by (metis goes_on_simps(2))
    with False have "\<forall>t. run_thread e fp junk contents heap t p = Wait" by (metis move.exhaust)
    then have "pipe_over p" by (rule pipe_progress [OF less.prems assms])
    then show ?thesis by blast
  qed
qed

lemma walked_files_clear:
  assumes "tree_of path (fs (with_slash path)) F" "length (with_slash path) < length stack" "stack ! length (with_slash path) = 0"
  shows "walked_files fs stack path = map (\<lambda>f. (fst f, Some (map Some (snd f)))) F"
proof -
  have "cstr (drop (length (with_slash path)) stack) = []"
    using assms(2,3) by (simp add: cstr_def flip: Cons_nth_drop_Suc)
  then have "walk_root stack path = with_slash path" by (simp add: walk_root_def)
  moreover have "(\<lambda>(p, reads, fd). (p, reads)) (as_read f) = (fst f, Some (map Some (snd f)))" for f by (cases f) simp
  ultimately show ?thesis using assms(1) by (simp add: walked_files_def tree_of_def comp_def)
qed

lemma sv_pipeline_start_ready:
  assumes ok: "server_ok e s cat" and db: "db_works e" "user \<noteq> 0" and p: "path_ok path"
  shows "\<exists>s'. sv_pipeline_start e user name (backup_msg path) s = Some s' \<and> server_ok e s' cat \<and> ss_job_id s' \<noteq> 0"
proof -
  obtain m where m: "scan_lit (asc ''BACK fileset='') (cstr (asc ''BACK fileset='' @ path)) = Some m" "scan_str m = Some (path, [])"
    using scan_backup [OF p] by blast
  obtain db1 i where o: "my_object e (ss_db s) (asc ''f'' @ cstr name @ se_time e) user path = (db1, Some i)" "i \<noteq> 0"
    using db(1) unfolding db_works_def by blast
  obtain db2 j where j: "my_job e db1 user i = (db2, Some j)" "j \<noteq> 0"
    using db(1) unfolding db_works_def by blast
  let ?s = "s\<lparr>ss_db := db2, ss_job_id := j, ss_file_count := 0\<rparr>"
  have "server_ok e ?s cat" using server_ok_inv [OF ok] by (intro server_ok_cong [OF ok]) simp_all
  moreover have "sv_pipeline_start e user name (backup_msg path) s = Some ?s"
    using m o j db(2) by (simp add: sv_pipeline_start_def backup_msg_def insert_record_into_object_def insert_record_into_job_def)
  ultimately show ?thesis using j(2) by auto
qed

section \<open>A file that cannot be opened\<close>

lemma step_by: "run_thread e fp junk contents heap t p = Move p' \<Longrightarrow> (pipe_step e fp junk contents heap)\<^sup>*\<^sup>* q p \<Longrightarrow>
    (pipe_step e fp junk contents heap)\<^sup>*\<^sup>* q p'"
  by (meson pipe_step.thread rtranclp.rtrancl_into_rtrancl)

lemma sv_finish_fail:
  assumes "\<not> ss_result s" "server_ok e s cat"
  shows "\<exists>s'. sv_finish e s rp p = p\<lparr>sp_session := s', pl_recipe_down := pl_recipe_down p @ [Data updateattr_fail]\<rparr> \<and> server_ok e s' cat"
proof -
  obtain db1 i ok1 db2 ok2 where "insert_record_into_file e (ss_db s) (ss_job_id s) (cstr (rp_filename rp)) (rp_file_hash rp) = (db1, i, ok1)"
    "insert_record_into_versionfile e db1 i (ss_job_id s) (cstr (rp_filename rp)) = (db2, ok2)" by (metis prod_cases3 surj_pair)
  then have R: "backup_record e (s\<lparr>ss_out := []\<rparr>) rp =
      send updateattr_fail (s\<lparr>ss_out := [], ss_db := db2, ss_result := False, ss_buf := updateattr_fail\<rparr>)"
    using assms(1) by (simp add: backup_record_def)
  let ?s' = "(send updateattr_fail (s\<lparr>ss_out := [], ss_db := db2, ss_result := False, ss_buf := updateattr_fail\<rparr>))\<lparr>ss_out := []\<rparr>"
  have "server_ok e ?s' cat" using server_ok_inv [OF assms(2)] by (intro server_ok_cong [OF assms(2)]) simp_all
  then show ?thesis by (intro exI [of _ ?s']) (simp add: sv_finish_def R)
qed

text \<open>The client's first thread and the server's, for two files.\<close>

lemma two_files_asked:
  assumes junk: "length (Message_Block junk) = 64" and good: "file_good D f" "file_good D f'"
    and ok: "server_ok e s cat" and new: "cat (sha1_hash (content_of f)) = None" "cat (sha1_hash (content_of f')) = None"
  shows "\<exists>buf s' rp rp'. (pipe_step e fp junk contents heap)\<^sup>*\<^sup>* (pipeline_start (map (\<lambda>f. (fst f, Some (map Some (snd f)))) [f, f']) rst ex st s)
      ((pipeline_start [] rst ex st s')\<lparr>pl_walked := True, sp_marked := True, sp_buf := buf, pl_down := [Data [1], Data [1]],
        pl_file_q := [start_file (sha1_hash (content_of f)) (fst f), start_file (sha1_hash (content_of f')) (fst f'), stream_end_file],
        sp_q := [rp, rp', recipe_new]\<rparr>) \<and>
    server_ok e s' cat \<and> tagged (\<lambda>_. None) (sha1_hash (content_of f)) rp \<and> tagged (\<lambda>_. None) (sha1_hash (content_of f')) rp'"
proof -
  let ?h = "sha1_hash (content_of f)" and ?h' = "sha1_hash (content_of f')"
  let ?fi = "start_file ?h (fst f)" and ?fi' = "start_file ?h' (fst f')"
  let ?ents = "map (\<lambda>f. (fst f, Some (map Some (snd f)))) [f, f']"
  define p0 where "p0 = pipeline_start ?ents rst ex st s"
  define p1 where "p1 = p0\<lparr>pl_files := [(fst f', Some (map Some (snd f')))], pl_up := [Data ?h], pl_file_q := [?fi]\<rparr>"
  define p2 where "p2 = p1\<lparr>pl_files := [], pl_up := [Data ?h, Data ?h'], pl_file_q := [?fi, ?fi']\<rparr>"
  define p3 where "p3 = p2\<lparr>pl_walked := True, pl_up := [Data ?h, Data ?h', Signal STREAM_END], pl_file_q := [?fi, ?fi', stream_end_file]\<rparr>"
  have s1: "file_dedup_module junk p0 = Move p1"
    using file_dedup_file [OF _ _ good(1) junk, of p0] by (simp add: p0_def p1_def pipeline_start_def)
  have s2: "file_dedup_module junk p1 = Move p2"
    using file_dedup_file [OF _ _ good(2) junk, of p1] by (simp add: p0_def p1_def p2_def pipeline_start_def)
  have s3: "file_dedup_module junk p2 = Move p3"
    by (simp add: p0_def p1_def p2_def p3_def pipeline_start_def file_dedup_module_def)
  have an: "answer (cat ?h) = [Data [1]]" "answer (cat ?h') = [Data [1]]" using new by (simp_all add: answer_def hash_reply_def)
  have m: "\<not> sp_marked p3" "pl_up p3 = Data ?h # [Data ?h', Signal STREAM_END]" "sp_session p3 = s" "length (sp_buf p3) = 256"
    "pl_down p3 = []" "sp_q p3 = []"
    by (simp_all add: p0_def p1_def p2_def p3_def pipeline_start_def)
  obtain b1 r1 rp where S1: "sv_file_dedup_module e p3 = Move (p3\<lparr>pl_up := [Data ?h', Signal STREAM_END], sp_buf := b1, sp_session := r1,
      pl_down := [Data [1]], sp_q := [rp]\<rparr>)" "length b1 = 256" "server_ok e r1 cat" "ss_job_id r1 = ss_job_id s" "tagged (\<lambda>_. None) ?h rp"
    using sv_file_dedup_file [OF m(1,2) ok [folded m(3)] length_sha1_hash m(4), unfolded an m(5,6)] m(3) new(1) by auto
  define p4 where "p4 = p3\<lparr>pl_up := [Data ?h', Signal STREAM_END], sp_buf := b1, sp_session := r1, pl_down := [Data [1]], sp_q := [rp]\<rparr>"
  have n: "\<not> sp_marked p4" "pl_up p4 = Data ?h' # [Signal STREAM_END]" "sp_session p4 = r1" "length (sp_buf p4) = 256"
    "pl_down p4 = [Data [1]]" "sp_q p4 = [rp]"
    using m(1) S1(2) by (simp_all add: p4_def)
  obtain b2 r2 rp' where S2: "sv_file_dedup_module e p4 = Move (p4\<lparr>pl_up := [Signal STREAM_END], sp_buf := b2, sp_session := r2,
      pl_down := [Data [1], Data [1]], sp_q := [rp, rp']\<rparr>)" "server_ok e r2 cat" "tagged (\<lambda>_. None) ?h' rp'"
    using sv_file_dedup_file [OF n(1,2) S1(3) [folded n(3)] length_sha1_hash n(4), unfolded an n(5,6)] n(3) new(2) by auto
  define p5 where "p5 = p4\<lparr>pl_up := [Signal STREAM_END], sp_buf := b2, sp_session := r2, pl_down := [Data [1], Data [1]], sp_q := [rp, rp']\<rparr>"
  let ?p6 = "(pipeline_start [] rst ex st r2)\<lparr>pl_walked := True, sp_marked := True, sp_buf := b2, pl_down := [Data [1], Data [1]],
        pl_file_q := [?fi, ?fi', stream_end_file], sp_q := [rp, rp', recipe_new]\<rparr>"
  have s6: "sv_file_dedup_module e p5 = Move ?p6"
    by (simp add: sv_file_dedup_module_def p5_def p4_def p3_def p2_def p1_def p0_def pipeline_start_def)
  have "(pipe_step e fp junk contents heap)\<^sup>*\<^sup>* p0 ?p6"
    using step_by [of e fp junk contents heap File_dedup p0 p1 p0] step_by [of e fp junk contents heap File_dedup p1 p2 p0]
      step_by [of e fp junk contents heap File_dedup p2 p3 p0] step_by [of e fp junk contents heap Sv_file_dedup p3 p4 p0]
      step_by [of e fp junk contents heap Sv_file_dedup p4 p5 p0] step_by [of e fp junk contents heap Sv_file_dedup p5 ?p6 p0]
      s1 s2 s3 S1(1) S2(1) s6 by (simp add: p4_def [symmetric] p5_def [symmetric])
  with S2(2,3) S1(5) show ?thesis unfolding p0_def by blast
qed

lemma fail_is_not_ok: "\<not> starts_with updateattr_fail attr_ok" "updateattr_fail \<noteq> []"
  by code_simp+

text \<open>A recipe that arrives for another file is entered under the fingerprint that was asked for.\<close>

lemma sv_update_wrong:
  assumes q: "\<not> sp_updated p" "sp_q p = rp # q" "pl_recipe_up p = recipe_msgs None fi" "sp_last p = -1" "sp_recipe p = []"
    and rp: "tagged (\<lambda>_. None) h rp" "length h = 20" "h \<noteq> sha1_hash (content_of f')" and ok: "server_ok e (sp_session p) cat" "cat h = None"
    and good: "file_good D f'" and fi: "deduped_ok fp st f' None fi"
  shows "\<exists>n r l ses. sv_update_recipe_module e heap p = Move (p\<lparr>sp_q := q, sp_chunknum := n, pl_recipe_up := [], sp_recipe := r, sp_last := l,
      sp_session := ses, pl_recipe_down := pl_recipe_down p @ [Data updateattr_fail]\<rparr>) \<and> server_ok e ses (cat(h \<mapsto> sent_chunks fi))"
proof -
  let ?fcs = "sent_chunks fi" and ?n = "length (sent_chunks fi)"
  obtain path ds where pd: "f' = (path, ds)" by fastforce
  with good have path: "path_ok path" "length path < 256" by (simp_all add: path_ok_def)
  have f: "chunknum fi = int ?n" "chunks_ok ?fcs" "file_hash fi = sha1_hash (content_of f')" "cstr (file_path fi) = path"
    using fi pd by (auto simp: deduped_ok_def sent_chunks_def)
  have lt: "?n < 2 ^ 31" using f(2) by (simp add: chunks_ok_def)
  let ?m = "update_msg (chunknum fi) (file_path fi)"
  have m: "?m = update_msg (int ?n) path"
    unfolding f(1) by (rule update_msg_cong) (use f(4) path in \<open>auto simp: path_ok_def intro: cstr_id [symmetric]\<close>)
  have sc: "scan_update (cstr ?m) = (Some (int ?n), Some path)" unfolding m by (rule scan_update_msg [OF path(1)])
  have "length (dec_digits ?n) \<le> 10" using lt by (intro length_dec_digits) simp_all
  moreover have "length (cstr path) < 256" using path by (metis cstr_id path_ok_def)
  ultimately have lm: "length ?m < 384" "?m \<noteq> []" unfolding m by (simp_all add: update_msg_def show_int_def) (simp_all add: asc_def)
  let ?p = "p\<lparr>sp_q := q, sp_chunknum := Some (int ?n)\<rparr>" and ?rp = "rp\<lparr>rp_filename := strcpy_to (rp_filename rp) path\<rparr>"
    and ?ses = "(sp_session p)\<lparr>ss_result := True\<rparr>"
  have ses: "server_ok e ?ses cat" using server_ok_inv [OF ok(1)] by (intro server_ok_cong [OF ok(1)]) simp_all
  have t: "rp_is_new ?rp = NEW_FILE" "rp_is_new rp \<noteq> -1" "rp_file_hash ?rp = h" "rp_chunks ?rp = []" "rp_chunknum ?rp = 0"
    using rp(1) by (simp_all add: tagged_def)
  have pn: "sp_chunknum ?p = Some (int ?n)" "-1 \<le> sp_last ?p" "length (sp_recipe ?p) = nat (20 + sp_last ?p * 84 + 1)" using q by simp_all
  obtain s1 rp' r l where R: "sv_new_recipe e heap ?ses ?rp (Data (file_hash fi @ concat (map enc_chunk ?fcs)) # []) ?p =
      Move (sv_finish e s1 rp' (?p\<lparr>sp_recipe := r, sp_last := l, pl_recipe_up := []\<rparr>))"
    "server_ok e s1 (enter cat (h, path, ?fcs))" "\<not> ss_result s1"
    using sv_new_recipe_stores [OF ses rp(2) _ f(2) t(3-5) pn, of "file_hash fi" heap "[]" path] rp(3) f(3) length_sha1_hash by auto
  obtain ses' where E: "sv_finish e s1 rp' (?p\<lparr>sp_recipe := r, sp_last := l, pl_recipe_up := []\<rparr>) =
      ?p\<lparr>sp_recipe := r, sp_last := l, pl_recipe_up := [], sp_session := ses', pl_recipe_down := pl_recipe_down p @ [Data updateattr_fail]\<rparr>"
    "server_ok e ses' (enter cat (h, path, ?fcs))"
    using sv_finish_fail [OF R(3,2), of rp' "?p\<lparr>sp_recipe := r, sp_last := l, pl_recipe_up := []\<rparr>"] by auto
  have "sv_update_recipe_module e heap p = Move (p\<lparr>sp_q := q, sp_chunknum := Some (int ?n), pl_recipe_up := [], sp_recipe := r, sp_last := l,
      sp_session := ses', pl_recipe_down := pl_recipe_down p @ [Data updateattr_fail]\<rparr>)"
    using q(1-3) sc lm path(2) t(1,2) R(1) E(1) by (simp add: sv_update_recipe_module_def recipe_msgs_def Let_def)
  moreover have "enter cat (h, path, ?fcs) = cat(h \<mapsto> ?fcs)" using ok(2) by (auto simp: fun_eq_iff)
  ultimately show ?thesis using E(2) by (intro exI [of _ "Some (int ?n)"] exI [of _ r] exI [of _ l] exI [of _ ses']) simp
qed

section \<open>Properties\<close>


text \<open>C12: every run of the threads is finite, from any state: a run has at most as many steps as \<open>pipe_work\<close>
  counts, six for a file that the walk has not come to yet and fewer the further it has got.\<close>

theorem pipeline_terminates:
  assumes "(pipe_step e fp junk contents heap ^^ n) p p'"
  shows "n + pipe_work p' \<le> pipe_work p"
  by (rule pipe_steps_work [OF assms])

text \<open>C13: a file that cannot be opened for its chunks, after its fingerprint was sent, is passed over by the client
  only: the server takes the recipe of the next file for it, finds that the fingerprint is wrong, and enters it
  under the fingerprint of the first file all the same. The client's threads all end, having been told of one failure,
  and the server waits for ever for the recipe of the second file. From then on the first file is known
  and is restored with the chunks of the second.\<close>

theorem skipped_file_corrupts:
  assumes "length (Message_Block junk) = 64" "file_good D f" "file_good D f'" "sha1_hash (content_of f) \<noteq> sha1_hash (content_of f')"
    and "contents (fst f) = None" "contents (fst f') = readable (content_of f')" "\<forall>d. length (fp d) = 20"
    and "client_ok fp D (length (ref_chunks (content_of f')) + m) ex st" "rabin_init_flag rst \<Longrightarrow> rabin_ok rst"
    and "server_ok e s cat" "cat (sha1_hash (content_of f)) = None" "cat (sha1_hash (content_of f')) = None"
  shows "\<exists>p g. (pipe_step e fp junk contents heap)\<^sup>*\<^sup>* (pipeline_start (map (\<lambda>f. (fst f, Some (map Some (snd f)))) [f, f']) rst ex st s) p \<and>
    (\<forall>t. run_thread e fp junk contents heap t p = Wait) \<and>
    pl_walked p \<and> pl_deduped p \<and> pl_updated p \<and> pl_received p \<and> pl_told p = [False] \<and> \<not> sp_updated p \<and>
    server_ok e (sp_session p) (cat(sha1_hash (content_of f) \<mapsto> g)) \<and> leads fp (pl_store p) (content_of f') g"
proof -
  let ?h = "sha1_hash (content_of f)" and ?h' = "sha1_hash (content_of f')"
  let ?fi = "start_file ?h (fst f)" and ?fi' = "start_file ?h' (fst f')"
  obtain buf s1 rp rp' where P: "(pipe_step e fp junk contents heap)\<^sup>*\<^sup>* (pipeline_start (map (\<lambda>f. (fst f, Some (map Some (snd f)))) [f, f']) rst ex st s)
      ((pipeline_start [] rst ex st s1)\<lparr>pl_walked := True, sp_marked := True, sp_buf := buf, pl_down := [Data [1], Data [1]],
        pl_file_q := [?fi, ?fi', stream_end_file], sp_q := [rp, rp', recipe_new]\<rparr>)"
    "server_ok e s1 cat" "tagged (\<lambda>_. None) ?h rp" "tagged (\<lambda>_. None) ?h' rp'"
    using two_files_asked [OF assms(1-3,10-12)] by blast
  define p0 where "p0 = (pipeline_start [] rst ex st s1)\<lparr>pl_walked := True, sp_marked := True, sp_buf := buf, pl_down := [Data [1], Data [1]],
        pl_file_q := [?fi, ?fi', stream_end_file], sp_q := [rp, rp', recipe_new]\<rparr>"
  note start = pipeline_start_def
  have path: "cstr (file_path ?fi) = fst f" "cstr (file_path ?fi') = fst f'"
    using asked_path [of D "[f, f']" 0] asked_path [of D "[f, f']" 1] assms(2,3) by (simp_all add: asked_def)
  have num: "chunknum ?fi = 0" "chunknum ?fi' = 0" by (simp_all add: start_file_def file_new_def)
  let ?rst = "chunk_alg_init rst"
  define p1 where "p1 = p0\<lparr>pl_down := [Data [1]], pl_file_q := [?fi', stream_end_file], pl_rabin := ?rst\<rparr>"
  have e1: "chunk_dedup_module fp contents p0 = Move p1"
    using num path(1) assms(5) by (simp add: chunk_dedup_module_def p0_def p1_def start chunk_dedup_def chunk_file_def Let_def)
  have rok: "rabin_init_flag ?rst \<Longrightarrow> rabin_ok ?rst" using chunk_alg_init_ok(1) [OF assms(9)] .
  obtain rst' fi ex' st' where C: "chunk_dedup fp (mark_no_rewrite False (readable (content_of f'))) (readable (content_of f')) ?rst
      (?fi'\<lparr>fi_is_new := NEW_FILE\<rparr>) ex st = Some (rst', fi, ex', st', 0)" "deduped_ok fp st' f' None fi"
    using chunk_new_file [OF assms(8) rok assms(7,3)] by blast
  define p2 where "p2 = p1\<lparr>pl_down := [], pl_file_q := [stream_end_file], pl_rabin := rst', pl_index := ex', pl_store := st', pl_chunk_q := [fi]\<rparr>"
  have e2: "chunk_dedup_module fp contents p1 = Move p2"
    using num path(2) assms(6) C(1) by (simp add: chunk_dedup_module_def p2_def p1_def p0_def start Let_def)
  define p3 where "p3 = p2\<lparr>pl_file_q := [], pl_chunk_q := [fi, stream_end_file], pl_deduped := True\<rparr>"
  have e3: "chunk_dedup_module fp contents p2 = Move p3"
    by (simp add: chunk_dedup_module_def p3_def p2_def p1_def p0_def start stream_end_file_num)
  have fi: "fi_is_new fi = NEW_FILE" "chunknum fi = int (length (sent_chunks fi))" "file_hash fi = ?h'" "cstr (file_path fi) = fst f'"
    "chunks_ok (sent_chunks fi)" "leads fp st' (content_of f') (sent_chunks fi)"
    using C(2) by (simp_all add: deduped_ok_def sent_chunks_def)
  define p4 where "p4 = p3\<lparr>pl_chunk_q := [stream_end_file], pl_recipe_up := recipe_msgs None fi, pl_recipe_q := [fi]\<rparr>"
  have e4: "update_recipe_module p3 = Move p4"
    using deduped_ok_num [OF C(2)] fi(1)
    by (simp add: update_recipe_module_def p4_def p3_def p2_def p1_def p0_def start recipe_msgs_def sent_chunks_def enc_chunk_def comp_def)
  define p5 where "p5 = p4\<lparr>pl_chunk_q := [], pl_recipe_q := [fi, stream_end_file], pl_updated := True\<rparr>"
  have e5: "update_recipe_module p4 = Move p5"
    by (simp add: update_recipe_module_def p5_def p4_def p3_def p2_def p1_def p0_def start stream_end_file_num)
  have v: "\<not> sp_updated p5" "sp_q p5 = rp # [rp', recipe_new]" "pl_recipe_up p5 = recipe_msgs None fi" "sp_last p5 = -1" "sp_recipe p5 = []"
    "sp_session p5 = s1" "pl_recipe_down p5 = []"
    by (simp_all add: p5_def p4_def p3_def p2_def p1_def p0_def start)
  obtain n r l ses where S: "sv_update_recipe_module e heap p5 = Move (p5\<lparr>sp_q := [rp', recipe_new], sp_chunknum := n, pl_recipe_up := [],
      sp_recipe := r, sp_last := l, sp_session := ses, pl_recipe_down := [Data updateattr_fail]\<rparr>)" "server_ok e ses (cat(?h \<mapsto> sent_chunks fi))"
    using sv_update_wrong [OF v(1-5) P(3) length_sha1_hash assms(4) P(2) [folded v(6)] assms(11,3) C(2), of heap] unfolding v(7) by auto
  define p6 where "p6 = p5\<lparr>sp_q := [rp', recipe_new], sp_chunknum := n, pl_recipe_up := [], sp_recipe := r, sp_last := l, sp_session := ses,
      pl_recipe_down := [Data updateattr_fail]\<rparr>"
  have e6: "sv_update_recipe_module e heap p5 = Move p6" using S(1) by (simp add: p6_def)
  define p7 where "p7 = p6\<lparr>pl_recipe_q := [stream_end_file], pl_recipe_down := [], pl_told := [False]\<rparr>"
  have e7: "recive_result_module p6 = Move p7"
    using deduped_ok_num [OF C(2)] fail_is_not_ok
    by (simp add: recive_result_module_def p7_def p6_def p5_def p4_def p3_def p2_def p1_def p0_def start Let_def)
  define p8 where "p8 = p7\<lparr>pl_recipe_q := [], pl_received := True\<rparr>"
  have e8: "recive_result_module p7 = Move p8"
    by (simp add: recive_result_module_def p8_def p7_def p6_def p5_def p4_def p3_def p2_def p1_def p0_def start stream_end_file_num)
  note upd = p8_def p7_def p6_def p5_def p4_def p3_def p2_def p1_def p0_def start
  have run: "(pipe_step e fp junk contents heap)\<^sup>*\<^sup>* (pipeline_start (map (\<lambda>f. (fst f, Some (map Some (snd f)))) [f, f']) rst ex st s) p8"
  proof -
    let ?to = "(pipe_step e fp junk contents heap)\<^sup>*\<^sup>* (pipeline_start (map (\<lambda>f. (fst f, Some (map Some (snd f)))) [f, f']) rst ex st s)"
    note more = step_by [where e = e and fp = fp and junk = junk and contents = contents and heap = heap]
    have "?to p1" by (rule more [where t = Chunk_dedup, OF _ P(1) [folded p0_def]]) (simp add: e1)
    then have "?to p2" by (rule more [where t = Chunk_dedup, rotated]) (simp add: e2)
    then have "?to p3" by (rule more [where t = Chunk_dedup, rotated]) (simp add: e3)
    then have "?to p4" by (rule more [where t = Update_recipe, rotated]) (simp add: e4)
    then have "?to p5" by (rule more [where t = Update_recipe, rotated]) (simp add: e5)
    then have "?to p6" by (rule more [where t = Sv_update_recipe, rotated]) (simp add: e6)
    then have "?to p7" by (rule more [where t = Recive_result, rotated]) (simp add: e7)
    then show "?to p8" by (rule more [where t = Recive_result, rotated]) (simp add: e8)
  qed
  have ended: "pl_walked p8 \<and> pl_deduped p8 \<and> pl_updated p8 \<and> pl_received p8 \<and> sp_marked p8 \<and> \<not> sp_updated p8 \<and> sp_q p8 = [rp', recipe_new] \<and>
      pl_recipe_up p8 = [] \<and> pl_told p8 = [False] \<and> sp_session p8 = ses \<and> pl_store p8 = st'"
    by (simp add: upd)
  have "rp_is_new rp' \<noteq> -1" using P(4) by (simp add: tagged_def)
  then have "run_thread e fp junk contents heap t p8 = Wait" for t
    using ended by (cases t) (simp_all add: file_dedup_module_def chunk_dedup_module_def update_recipe_module_def recive_result_module_def
        sv_file_dedup_module_def sv_update_recipe_module_def)
  with run ended S(2) fi(6) show ?thesis by blast
qed


section \<open>Two files\<close>

abbreviation (input) demo_rows :: "unit server_env" where
  "demo_rows \<equiv> demo_env\<lparr>my_job_files := \<lambda>_ _. Some (map key_of demo_files)\<rparr>"

abbreviation (input) demo_pipe :: "unit pipe" where
  "demo_pipe \<equiv> pipeline_start (map (\<lambda>f. (fst f, Some (map Some (snd f)))) demo_files) rabin_start demo_exbin demo_store
     ((demo_server [])\<lparr>ss_job_id := 1\<rparr>)"

abbreviation (input) demo_run :: "unit pipe \<Rightarrow> unit pipe \<Rightarrow> bool" where
  "demo_run \<equiv> pipe_step demo_rows demo_fp junk_context (\<lambda>_. readable [1, 2, 3]) (\<lambda>_. 0)"

lemma demo_session: "server_ok demo_env ((demo_server [])\<lparr>ss_job_id := 1\<rparr>) (\<lambda>_. None)"
  "server_ok demo_rows ((demo_server [])\<lparr>ss_job_id := 1\<rparr>) (\<lambda>_. None)"
proof -
  show s: "server_ok demo_env ((demo_server [])\<lparr>ss_job_id := 1\<rparr>) (\<lambda>_. None)"
    using server_ok_inv [OF demo_server_ok(1) [of "[]"]] by (intro server_ok_cong [OF demo_server_ok(1) [of "[]"]]) simp_all
  have path: "se_path demo_rows = se_path demo_env" by simp
  show "server_ok demo_rows ((demo_server [])\<lparr>ss_job_id := 1\<rparr>) (\<lambda>_. None)"
    using s unfolding server_ok_def path .
qed

lemma demo_site: "site_ok demo_rows demo_fp demo_pieces junk_context (\<lambda>_. readable [1, 2, 3]) demo_files"
  "client_ok demo_fp demo_pieces (pieces_of demo_files + 3) demo_exbin demo_store"
  "backed demo_fp demo_store (\<lambda>_. None) (content_of ` set demo_files)" "rabin_init_flag rabin_start \<Longrightarrow> rabin_ok rabin_start"
proof -
  have "db_works demo_rows" using demo_server_ok(2) by (simp add: db_works_def)
  moreover have "content_of f = [1, 2, 3]" if "f \<in> set demo_files" for f using demo_files_good(2) that by blast
  moreover have "inj_on sha1_hash (content_of ` set demo_files)" unfolding demo_files_good(2) by simp
  ultimately show "site_ok demo_rows demo_fp demo_pieces junk_context (\<lambda>_. readable [1, 2, 3]) demo_files"
    using demo_files_good(1) length_demo_fp by (simp add: site_ok_def junk_context_def)
  show "client_ok demo_fp demo_pieces (pieces_of demo_files + 3) demo_exbin demo_store"
    using demo_client_ok [of demo_pieces] by (simp add: demo_files_good(3))
qed (simp_all add: backed_def rabin_start_def)

lemma demo_complete: "\<exists>p. demo_run\<^sup>*\<^sup>* demo_pipe p \<and> pipe_over p"
  using pipe_reaches_end [OF demo_site(1) pipe_inv_start [OF demo_session(2) _ demo_site(2,4,3)], of "\<lambda>_. 0"] by simp


lemma pipeline_terminates_witness: "\<exists>n p. (demo_run ^^ n) demo_pipe p \<and> pipe_over p \<and> n \<le> 18"
proof -
  obtain p n where p: "(demo_run ^^ n) demo_pipe p" "pipe_over p" using demo_complete by (meson rtranclp_imp_relpowp)
  have "pipe_work demo_pipe = 18" by (simp add: pipe_work_def pipeline_start_def demo_files_def)
  with pipeline_terminates [OF p(1)] have "n \<le> 18" by simp
  with p show ?thesis by blast
qed


lemma skipped_file_corrupts_witness:
  "\<exists>p g. (pipe_step demo_env demo_fp junk_context (\<lambda>p. if p = [47, 97] then None else readable [1, 2, 3]) (\<lambda>_. 0))\<^sup>*\<^sup>*
      (pipeline_start [([47, 97], Some []), ([47, 98], Some [Some [1, 2, 3]])] rabin_start demo_exbin demo_store ((demo_server [])\<lparr>ss_job_id := 1\<rparr>)) p \<and>
    pl_told p = [False] \<and> server_ok demo_env (sp_session p) ((\<lambda>_. None)(sha1_hash [] \<mapsto> g)) \<and> leads demo_fp (pl_store p) [1, 2, 3] g"
proof -
  let ?f = "([47, 97], []) :: whole_file" and ?f' = "([47, 98], [[1, 2, 3]]) :: whole_file"
  have good: "file_good demo_pieces ?f" "file_good demo_pieces ?f'"
    using demo_pieces_pread by (simp_all add: path_ok_def is_space_def pread_def demo_pieces_def)
  have c: "client_ok demo_fp demo_pieces (length (ref_chunks (content_of ?f')) + 4) demo_exbin demo_store"
    using demo_client_ok [of demo_pieces] by (simp add: ref_chunks_123)
  show ?thesis
    using skipped_file_corrupts [of junk_context demo_pieces ?f ?f' "\<lambda>p. if p = [47, 97] then None else readable [1, 2, 3]" demo_fp 4
        demo_exbin demo_store rabin_start demo_env "(demo_server [])\<lparr>ss_job_id := 1\<rparr>" "\<lambda>_. None" "\<lambda>_. 0"]
      good c demo_session(1) demo_site(4) vectors_differ length_demo_fp by (auto simp: junk_context_def)
qed

end
