(* ===== verification/Trace.thy ===== *)
theory Trace
  imports Scan ClientExchange
begin

text \<open>
  Traces (client/src/read_trace.c): text files with the fingerprints of the chunks of a backup, one per
  line in hexadecimal digits. \<open>read_trace\<close> reads one back into the recipes that the rest of the client
  takes from a queue.
\<close>

section \<open>Fingerprints as text\<close>

definition code_char :: "byte \<Rightarrow> byte" where
  "code_char b =
     (if b = 10 then 65 else if b = 11 then 66 else if b = 12 then 67 else if b = 13 then 68
      else if b = 14 then 69 else if b = 15 then 70 else b + 48)"

definition hash2code :: "fingerprint \<Rightarrow> byte list" where
  "hash2code hash = concat (map (\<lambda>i. [code_char ((hash ! i) div 16), code_char (push_bit 4 (hash ! i) div 16)]) [0..<20])"

definition code_value :: "byte \<Rightarrow> byte" where
  "code_value a =
     (if a = 65 \<or> a = 97 then 10 else if a = 66 \<or> a = 98 then 11 else if a = 67 \<or> a = 99 then 12
      else if a = 68 \<or> a = 100 then 13 else if a = 69 \<or> a = 101 then 14 else if a = 70 \<or> a = 102 then 15 else a - 48)"

definition code2hash :: "byte list \<Rightarrow> fingerprint" where
  "code2hash code = map (\<lambda>i. foldl (\<lambda>h j. h * 16 + code_value (code ! (2 * i + j))) 0 [0, 1]) [0..<20]"

section \<open>Reading a trace\<close>

text \<open>
  \<open>tr_rest\<close> is what is left of the file, \<open>tr_line\<close> the buffer of 128 bytes, which starts with what is on
  the stack. \<open>tr_file\<close> is the recipe that is being read, \<open>tr_given\<close> whether it has been pushed already, and
  \<open>tr_out\<close> what was pushed: from then on it belongs to another thread. A NULL that is pushed never leaves the queue.
\<close>

record trace =
  tr_rest :: "byte list"
  tr_line :: "byte list"
  tr_file :: "fileinfo option"
  tr_given :: bool
  tr_out :: "fileinfo list"

datatype 't line_read = Undefined | More 't | Ended 't

text \<open>\<open>fgets\<close> at the end of the file leaves the buffer as it is; the result is not looked at.\<close>

definition fgets :: "nat \<Rightarrow> byte list \<Rightarrow> byte list \<times> byte list" where
  "fgets n s = (let k = min (n - 1) (Suc (length (takeWhile (\<lambda>c. c \<noteq> 10) s))) in (take k s, drop k s))"

definition atoi :: "byte list \<Rightarrow> int" where
  "atoi s = (case scan_int s of None \<Rightarrow> 0 | Some (n, _) \<Rightarrow> n)"

definition next_line :: "trace \<Rightarrow> trace" where
  "next_line t =
     (if tr_rest t = [] then t
      else case fgets 128 (tr_rest t) of (d, rest) \<Rightarrow> t\<lparr>tr_line := memcpy_at (tr_line t) 0 (d @ [0]), tr_rest := rest\<rparr>)"

text \<open>\<open>fileindex\<close> has ten bytes.\<close>

definition trace_index :: "byte list \<Rightarrow> trace \<Rightarrow> trace line_read" where
  "trace_index s t =
     (if s = [] \<or> 10 \<le> length s - 1 then Undefined
      else More (t\<lparr>tr_file := Some (file_new\<lparr>file_path := strcpy_to (file_path file_new) (butlast s), fi_is_new := NEW_FILE\<rparr>),
                   tr_given := False\<rparr>))"

definition trace_chunk :: "trace \<Rightarrow> trace line_read" where
  "trace_chunk t =
     (case tr_file t of
        None \<Rightarrow> Undefined
      | Some fi \<Rightarrow>
          if tr_given t \<or> 0 \<notin> set (drop 41 (tr_line t)) then Undefined
          else let fc = fingerchunk_new\<lparr>chunk_hash := code2hash (take 40 (cstr (tr_line t) @ memset0 40)),
                                        chunklen := atoi (cstr (drop 41 (tr_line t)))\<rparr>
               in More (t\<lparr>tr_file := Some (file_append_fingerchunk (fi\<lparr>file_size := file_size fi + chunklen fc\<rparr>) fc)\<rparr>))"

definition trace_line :: "trace \<Rightarrow> trace line_read" where
  "trace_line t =
     (let t = next_line t; line = cstr (tr_line t) in
      if starts_with line (asc ''STREAM_END'') then Ended (t\<lparr>tr_out := tr_out t @ [file_new\<lparr>chunknum := STREAM_END\<rparr>]\<rparr>)
      else if starts_with line (asc ''fileindex='') then trace_index (drop 10 line) t
      else if starts_with line (asc ''FILE_END'') then
        (case tr_file t of
           None \<Rightarrow> More t
         | Some fi \<Rightarrow> if tr_given t then Undefined else More (t\<lparr>tr_out := tr_out t @ [fi], tr_given := True\<rparr>))
      else trace_chunk t)"

text \<open>The result is what was pushed, \<open>None\<close> after something undefined; no result if the loop never ends.\<close>

partial_function (option) trace_loop :: "trace \<Rightarrow> fileinfo list option option" where
  "trace_loop t = (case trace_line t of Undefined \<Rightarrow> Some None | Ended t \<Rightarrow> Some (Some (tr_out t)) | More t \<Rightarrow> trace_loop t)"

definition read_trace :: "byte list \<Rightarrow> byte list option \<Rightarrow> fileinfo list option option" where
  "read_trace stack file =
     (case file of
        None \<Rightarrow> Some (Some [])
      | Some text \<Rightarrow> trace_loop \<lparr>tr_rest = text, tr_line = stack, tr_file = None, tr_given = False, tr_out = []\<rparr>)"

section \<open>Fingerprints and back\<close>

lemma nibble_cases:
  assumes "b < (16 :: byte)"
  shows "b \<in> {0, 1, 2, 3, 4, 5, 6, 7, 8, 9, 10, 11, 12, 13, 14, 15}"
proof -
  have "unat b < 16" using assms by (simp add: word_less_nat_alt)
  then have "unat b = 0 \<or> unat b = 1 \<or> unat b = 2 \<or> unat b = 3 \<or> unat b = 4 \<or> unat b = 5 \<or> unat b = 6 \<or> unat b = 7 \<or>
      unat b = 8 \<or> unat b = 9 \<or> unat b = 10 \<or> unat b = 11 \<or> unat b = 12 \<or> unat b = 13 \<or> unat b = 14 \<or> unat b = 15" by arith
  then show ?thesis by (auto simp: word_unat_eq_iff)
qed

lemma code_value_char: "b < 16 \<Longrightarrow> code_value (code_char b) = b"
  by (drule nibble_cases) (elim insertE, simp_all add: code_char_def code_value_def)

lemma high_nibble: "a div 16 < (16 :: byte)"
  using unsigned_less [of a, where 'a = nat] by (simp add: word_less_nat_alt unat_div)

lemma two_nibbles: "(a div 16) * 16 + push_bit 4 a div 16 = (a :: byte)"
proof -
  let ?n = "unat a"
  have n: "?n < 256" using unsigned_less [of a, where 'a = nat] by simp
  have "?n * 16 mod 256 = ?n mod 16 * 16" using mult_mod_left [of ?n 16 16] by simp
  then have p: "unat (push_bit 4 a div 16) = ?n mod 16" by (simp add: push_bit_eq_mult unat_word_ariths unat_div)
  have "?n div 16 * 16 \<le> ?n" by simp
  then have q: "unat (a div 16 * 16) = ?n div 16 * 16" using n by (simp add: unat_word_ariths unat_div)
  have "unat (a div 16 * 16 + push_bit 4 a div 16) = ?n" using n by (simp add: unat_word_ariths(1) p q)
  then show ?thesis by (simp only: word_unat_eq_iff)
qed

lemma length_hash2code: "length (hash2code h) = 40"
proof -
  have "length (concat (map (\<lambda>i. [f i, g i]) [0..<n])) = 2 * n" for f g :: "nat \<Rightarrow> byte" and n
    by (induction n) simp_all
  then show ?thesis by (simp add: hash2code_def)
qed

lemma nth_hash2code:
  assumes "i < 20"
  shows "hash2code h ! (2 * i) = code_char ((h ! i) div 16)" "hash2code h ! (2 * i + 1) = code_char (push_bit 4 (h ! i) div 16)"
proof -
  have "concat (map (\<lambda>i. [f i, g i]) [0..<n]) ! (2 * i) = f i \<and> concat (map (\<lambda>i. [f i, g i]) [0..<n]) ! (2 * i + 1) = g i"
    if "i < n" for f g :: "nat \<Rightarrow> byte" and n
    using that
  proof (induction n)
    case (Suc n)
    have "length (concat (map (\<lambda>i. [f i, g i]) [0..<n])) = 2 * n" by (simp add: length_concat comp_def sum_list_triv)
    with Suc show ?case by (cases "i = n") (auto simp: nth_append)
  qed simp
  from this [OF assms] show "hash2code h ! (2 * i) = code_char ((h ! i) div 16)"
    "hash2code h ! (2 * i + 1) = code_char (push_bit 4 (h ! i) div 16)" by (simp_all add: hash2code_def)
qed

lemma code2hash_code: "length h = 20 \<Longrightarrow> code2hash (hash2code h @ r) = h"
proof (rule nth_equalityI)
  assume h: "length h = 20"
  then show "length (code2hash (hash2code h @ r)) = length h" by (simp add: code2hash_def)
  fix i assume "i < length (code2hash (hash2code h @ r))"
  then have i: "i < 20" by (simp add: code2hash_def)
  have "code_value (code_char (h ! i div 16)) * 16 + code_value (code_char (push_bit 4 (h ! i) div 16)) = h ! i"
    by (simp add: code_value_char high_nibble two_nibbles)
  moreover have "2 * i < 40" "2 * i + 1 < 40" using i by simp_all
  ultimately show "code2hash (hash2code h @ r) ! i = h ! i"
    using i nth_hash2code [OF i, of h] by (simp add: code2hash_def nth_append length_hash2code)
qed

section \<open>A trace as it is written\<close>

text \<open>The format of a trace, from the code that wrote them (it is commented out in the file).\<close>

type_synonym trace_file = "nat \<times> (fingerprint \<times> nat) list"

definition index_line :: "nat \<Rightarrow> byte list" where
  "index_line i = asc ''fileindex='' @ dec_digits i"

definition chunk_line :: "fingerprint \<times> nat \<Rightarrow> byte list" where
  "chunk_line c = hash2code (fst c) @ 58 # dec_digits (snd c)"

definition chunk_lines :: "(fingerprint \<times> nat) list \<Rightarrow> byte list" where
  "chunk_lines cs = concat (map (\<lambda>c. chunk_line c @ [10]) cs)"

definition file_lines :: "trace_file \<Rightarrow> byte list" where
  "file_lines f = index_line (fst f) @ 10 # chunk_lines (snd f) @ asc ''FILE_END'' @ [10]"

definition trace_text :: "trace_file list \<Rightarrow> byte list" where
  "trace_text F = concat (map file_lines F) @ asc ''STREAM_END''"

definition traced_chunk :: "fingerprint \<times> nat \<Rightarrow> fingerchunk" where
  "traced_chunk c = fingerchunk_new\<lparr>chunk_hash := fst c, chunklen := int (snd c)\<rparr>"

definition add_traced :: "fileinfo \<Rightarrow> fingerprint \<times> nat \<Rightarrow> fileinfo" where
  "add_traced fi c = file_append_fingerchunk (fi\<lparr>file_size := file_size fi + int (snd c)\<rparr>) (traced_chunk c)"

definition traced_file :: "nat \<Rightarrow> fileinfo" where
  "traced_file i = file_new\<lparr>file_path := strcpy_to (memset0 256) (dec_digits i), fi_is_new := NEW_FILE\<rparr>"

definition trace_file_ok :: "trace_file \<Rightarrow> bool" where
  "trace_file_ok f \<longleftrightarrow> fst f < 10 ^ 9 \<and> (\<forall>c\<in>set (snd f). length (fst c) = 20 \<and> snd c < 2 ^ 31)"

text \<open>The buffer after a line of the file, with or without its end.\<close>

definition holds :: "byte list \<Rightarrow> byte list \<Rightarrow> bool" where
  "holds L l \<longleftrightarrow> length L = 128 \<and> (\<exists>x. L = l @ 0 # x)"

lemma takeWhile_line: "10 \<notin> set l \<Longrightarrow> takeWhile (\<lambda>c. c \<noteq> (10 :: byte)) (l @ 10 # r) = l"
  by (induction l) auto

lemma takeWhile_last: "10 \<notin> set l \<Longrightarrow> takeWhile (\<lambda>c. c \<noteq> (10 :: byte)) l = l"
  by (induction l) auto

lemma fgets_line: "10 \<notin> set l \<Longrightarrow> length l < 127 \<Longrightarrow> fgets 128 (l @ 10 # r) = (l @ [10], r)"
  by (simp add: fgets_def takeWhile_line Let_def)

lemma fgets_last: "10 \<notin> set l \<Longrightarrow> length l < 127 \<Longrightarrow> fgets 128 l = (l, [])"
  by (simp add: fgets_def takeWhile_last Let_def)

lemma next_line_read:
  assumes "tr_rest t = l @ 10 # r" "10 \<notin> set l" "length l < 127" "length (tr_line t) = 128"
  shows "\<exists>L. next_line t = t\<lparr>tr_line := L, tr_rest := r\<rparr> \<and> holds L (l @ [10])"
  using assms by (intro exI [of _ "memcpy_at (tr_line t) 0 (l @ [10] @ [0])"]) (simp add: next_line_def fgets_line holds_def memcpy_at_def)

lemma holds_cstr: "holds L l \<Longrightarrow> 0 \<notin> set l \<Longrightarrow> cstr L = l"
  by (auto simp: holds_def)

lemma starts_with_append: "starts_with (s @ r) s"
  by (simp add: starts_with_def)

lemma starts_with_other: "c \<noteq> d \<Longrightarrow> \<not> starts_with (c # r) (d # s)"
  by (simp add: starts_with_def)

lemma trace_words: "asc ''STREAM_END'' = [83, 84, 82, 69, 65, 77, 95, 69, 78, 68]" "asc ''FILE_END'' = [70, 73, 76, 69, 95, 69, 78, 68]"
  "asc ''fileindex='' = [102, 105, 108, 101, 105, 110, 100, 101, 120, 61]"
  by (simp_all add: asc_def)

lemma digits_not: "c \<in> set (dec_digits n) \<Longrightarrow> c \<noteq> 0 \<and> c \<noteq> 10"
  using dec_digits_digits [of c n] by (auto simp: is_digit_def word_le_nat_alt)

lemma trace_index_line:
  assumes t: "tr_rest t = index_line i @ 10 # r" "length (tr_line t) = 128" "i < 10 ^ 9"
  shows "\<exists>L. length L = 128 \<and> trace_line t = More (t\<lparr>tr_line := L, tr_rest := r, tr_file := Some (traced_file i), tr_given := False\<rparr>)"
proof -
  have l: "length (dec_digits i) \<le> 9" using t(3) by (intro length_dec_digits) simp_all
  have c: "10 \<notin> set (index_line i)" "0 \<notin> set (index_line i @ [10])" "length (index_line i) < 127"
    using l digits_not by (auto simp: index_line_def trace_words)
  obtain L where L: "next_line t = t\<lparr>tr_line := L, tr_rest := r\<rparr>" "holds L (index_line i @ [10])"
    using next_line_read [OF t(1) c(1,3) t(2)] by blast
  have s: "cstr L = asc ''fileindex='' @ dec_digits i @ [10]" using holds_cstr [OF L(2) c(2)] by (simp add: index_line_def)
  have n: "\<not> starts_with (cstr L) (asc ''STREAM_END'')" "starts_with (cstr L) (asc ''fileindex='')" "drop 10 (cstr L) = dec_digits i @ [10]"
    unfolding s by (rule starts_with_append | simp add: trace_words starts_with_other)+
  have "trace_line t = trace_index (dec_digits i @ [10]) (t\<lparr>tr_line := L, tr_rest := r\<rparr>)" using n by (simp add: trace_line_def L(1) Let_def)
  with l L(2) show ?thesis by (intro exI [of _ L]) (simp add: trace_index_def traced_file_def file_new_def holds_def)
qed

lemma code_char_digit: "b < 16 \<Longrightarrow> code_char b \<noteq> 0 \<and> code_char b \<noteq> 10 \<and> code_char b \<noteq> 73 \<and> code_char b \<noteq> 83 \<and> code_char b \<noteq> 102"
  by (drule nibble_cases) (elim insertE, simp_all add: code_char_def)

lemma hash2code_chars: "c \<in> set (hash2code h) \<Longrightarrow> c \<noteq> 0 \<and> c \<noteq> 10 \<and> c \<noteq> 73 \<and> c \<noteq> 83 \<and> c \<noteq> 102"
proof -
  assume "c \<in> set (hash2code h)"
  then obtain b :: byte where "c = code_char (b div 16)" by (auto simp: hash2code_def)
  then show ?thesis using code_char_digit [OF high_nibble [of b]] by simp
qed

lemma hash2code_word: "length w \<le> 40 \<Longrightarrow> x \<in> {0, 10, 73, 83, 102} \<Longrightarrow> x \<in> set w \<Longrightarrow> \<not> starts_with (hash2code h @ r) w"
proof
  assume w: "length w \<le> 40" "x \<in> {0, 10, 73, 83, 102}" "x \<in> set w" and s: "starts_with (hash2code h @ r) w"
  have "w = take (length w) (hash2code h)" using s w(1) by (simp add: starts_with_def length_hash2code)
  then have "x \<in> set (hash2code h)" using w(3) by (metis in_set_takeD)
  with hash2code_chars w(2) show False by auto
qed

lemma chunk_line_fits:
  assumes "snd c < 2 ^ 31"
  shows "10 \<notin> set (chunk_line c)" "0 \<notin> set (chunk_line c)" "length (chunk_line c) < 127"
proof -
  show "10 \<notin> set (chunk_line c)" "0 \<notin> set (chunk_line c)"
    using hash2code_chars digits_not by (fastforce simp: chunk_line_def)+
  have "length (dec_digits (snd c)) \<le> 10" using assms by (intro length_dec_digits) simp_all
  then show "length (chunk_line c) < 127" by (simp add: chunk_line_def length_hash2code)
qed

text \<open>A line of a chunk in the buffer, whether it has just been read or is still there at the end of the file.\<close>

lemma trace_chunk_held:
  assumes L: "next_line t = t'" "holds (tr_line t') (chunk_line c @ e)" "e = [] \<or> e = [10]"
    and c: "length (fst c) = 20" "snd c < 2 ^ 31" and f: "tr_file t' = Some fi" "\<not> tr_given t'"
  shows "trace_line t = More (t'\<lparr>tr_file := Some (add_traced fi c)\<rparr>)"
proof -
  have z: "0 \<notin> set (chunk_line c @ e)" using chunk_line_fits(2) [OF c(2)] L(3) by auto
  have s: "cstr (tr_line t') = hash2code (fst c) @ 58 # dec_digits (snd c) @ e"
    using holds_cstr [OF L(2) z] by (simp add: chunk_line_def)
  have w: "\<not> starts_with (cstr (tr_line t')) (asc ''STREAM_END'')" "\<not> starts_with (cstr (tr_line t')) (asc ''fileindex='')"
    "\<not> starts_with (cstr (tr_line t')) (asc ''FILE_END'')"
    unfolding s by (rule hash2code_word [of _ 83] hash2code_word [of _ 102] hash2code_word [of _ 73]; simp add: trace_words)+
  obtain x where x: "tr_line t' = hash2code (fst c) @ 58 # dec_digits (snd c) @ e @ 0 # x" using L(2) by (auto simp: holds_def chunk_line_def)
  have d: "drop 41 (tr_line t') = dec_digits (snd c) @ e @ 0 # x" unfolding x by (simp add: length_hash2code)
  have "0 \<notin> set (dec_digits (snd c) @ e)" using digits_not L(3) by fastforce
  then have "cstr (drop 41 (tr_line t')) = dec_digits (snd c) @ e" using cstr_append_zero [of "dec_digits (snd c) @ e" x] by (simp add: d)
  moreover have "scan_int (dec_digits (snd c) @ e) = Some (int (snd c), e)"
    by (rule scan_int_digits) (use L(3) in \<open>auto simp: is_digit_def\<close>)
  ultimately have n: "atoi (cstr (drop 41 (tr_line t'))) = int (snd c)" by (simp add: atoi_def)
  have "take 40 (cstr (tr_line t') @ memset0 40) = hash2code (fst c)" unfolding s by (simp add: length_hash2code)
  then have h: "code2hash (take 40 (cstr (tr_line t') @ memset0 40)) = fst c" using code2hash_code [OF c(1), of "[]"] by simp
  have "0 \<in> set (drop 41 (tr_line t'))" unfolding d by simp
  with f n h have "trace_chunk t' = More (t'\<lparr>tr_file := Some (add_traced fi c)\<rparr>)"
    by (simp add: trace_chunk_def add_traced_def traced_chunk_def Let_def)
  with w L(1) show ?thesis by (simp add: trace_line_def Let_def)
qed

lemma trace_chunk_line:
  assumes t: "tr_rest t = chunk_line c @ 10 # r" "length (tr_line t) = 128" and c: "length (fst c) = 20" "snd c < 2 ^ 31"
    and f: "tr_file t = Some fi" "\<not> tr_given t"
  shows "\<exists>L. holds L (chunk_line c @ [10]) \<and> trace_line t = More (t\<lparr>tr_line := L, tr_rest := r, tr_file := Some (add_traced fi c)\<rparr>)"
proof -
  obtain L where L: "next_line t = t\<lparr>tr_line := L, tr_rest := r\<rparr>" "holds L (chunk_line c @ [10])"
    using next_line_read [OF t(1) chunk_line_fits(1,3) [OF c(2)] t(2)] by blast
  from trace_chunk_held [OF L(1) _ _ c, of "[10]" fi] L(2) f show ?thesis by (intro exI [of _ L]) simp
qed

lemma trace_end_line:
  assumes t: "tr_rest t = asc ''FILE_END'' @ 10 # r" "length (tr_line t) = 128" and f: "tr_file t = Some fi" "\<not> tr_given t"
  shows "\<exists>L. holds L (asc ''FILE_END'' @ [10]) \<and> trace_line t = More (t\<lparr>tr_line := L, tr_rest := r, tr_out := tr_out t @ [fi], tr_given := True\<rparr>)"
proof -
  have c: "10 \<notin> set (asc ''FILE_END'')" "length (asc ''FILE_END'') < 127" "0 \<notin> set (asc ''FILE_END'' @ [10])" by (simp_all add: trace_words)
  obtain L where L: "next_line t = t\<lparr>tr_line := L, tr_rest := r\<rparr>" "holds L (asc ''FILE_END'' @ [10])"
    using next_line_read [OF t(1) c(1,2) t(2)] by blast
  have s: "cstr L = asc ''FILE_END'' @ [10]" by (rule holds_cstr [OF L(2) c(3)])
  have n: "\<not> starts_with (cstr L) (asc ''STREAM_END'')" "\<not> starts_with (cstr L) (asc ''fileindex='')" "starts_with (cstr L) (asc ''FILE_END'')"
    unfolding s by (rule starts_with_append | simp add: trace_words starts_with_other)+
  with f L show ?thesis by (intro exI [of _ L]) (simp add: trace_line_def Let_def)
qed

lemma trace_stream_end:
  assumes t: "tr_rest t = asc ''STREAM_END''" "length (tr_line t) = 128"
  shows "\<exists>t'. trace_line t = Ended t' \<and> tr_out t' = tr_out t @ [file_new\<lparr>chunknum := STREAM_END\<rparr>]"
proof -
  let ?w = "asc ''STREAM_END''" and ?L = "memcpy_at (tr_line t) 0 (asc ''STREAM_END'' @ [0])"
  have c: "10 \<notin> set ?w" "length ?w < 127" "0 \<notin> set ?w" "?w \<noteq> []" by (simp_all add: trace_words)
  have n: "next_line t = t\<lparr>tr_line := ?L, tr_rest := []\<rparr>" using t(1) c(4) fgets_last [OF c(1,2)] by (simp add: next_line_def)
  have "holds ?L ?w" using t(2) c(2) by (simp add: holds_def memcpy_at_def)
  from holds_cstr [OF this c(3)] have s: "starts_with (cstr ?L) ?w" using starts_with_append [of ?w "[]"] by simp
  then show ?thesis by (simp add: trace_line_def n Let_def)
qed

section \<open>Whole traces\<close>

lemma trace_loop_more: "trace_line t = More t' \<Longrightarrow> trace_loop t = trace_loop t'"
  by (subst trace_loop.simps) simp

lemma trace_chunk_lines:
  "tr_rest t = chunk_lines cs @ r \<Longrightarrow> length (tr_line t) = 128 \<Longrightarrow> \<forall>c\<in>set cs. length (fst c) = 20 \<and> snd c < 2 ^ 31 \<Longrightarrow>
    tr_file t = Some fi \<Longrightarrow> \<not> tr_given t \<Longrightarrow>
    \<exists>L. length L = 128 \<and> (cs \<noteq> [] \<longrightarrow> holds L (chunk_line (last cs) @ [10])) \<and>
      trace_loop t = trace_loop (t\<lparr>tr_line := L, tr_rest := r, tr_file := Some (foldl add_traced fi cs)\<rparr>)"
proof (induction cs arbitrary: t fi)
  case Nil
  then have "t = t\<lparr>tr_line := tr_line t, tr_rest := r, tr_file := Some fi\<rparr>" by (cases t) (simp add: chunk_lines_def)
  with Nil show ?case by (intro exI [of _ "tr_line t"]) simp
next
  case (Cons c cs)
  have "tr_rest t = chunk_line c @ 10 # chunk_lines cs @ r" using Cons.prems(1) by (simp add: chunk_lines_def)
  then obtain L where L: "holds L (chunk_line c @ [10])"
    "trace_line t = More (t\<lparr>tr_line := L, tr_rest := chunk_lines cs @ r, tr_file := Some (add_traced fi c)\<rparr>)"
    using trace_chunk_line [of t c "chunk_lines cs @ r" fi] Cons.prems by auto
  let ?t = "t\<lparr>tr_line := L, tr_rest := chunk_lines cs @ r, tr_file := Some (add_traced fi c)\<rparr>"
  have l: "length L = 128" using L(1) by (simp add: holds_def)
  obtain L' where L': "length L' = 128" "cs \<noteq> [] \<longrightarrow> holds L' (chunk_line (last cs) @ [10])"
    "trace_loop ?t = trace_loop (?t\<lparr>tr_line := L', tr_rest := r, tr_file := Some (foldl add_traced (add_traced fi c) cs)\<rparr>)"
    using Cons.IH [of ?t "add_traced fi c"] Cons.prems l by auto
  show ?case
  proof (cases cs)
    case Nil
    with L l trace_loop_more [OF L(2)] show ?thesis by (intro exI [of _ L]) (simp add: chunk_lines_def)
  next
    case (Cons c' cs')
    with L' trace_loop_more [OF L(2)] show ?thesis by (intro exI [of _ L']) simp
  qed
qed

definition traced :: "trace_file \<Rightarrow> fileinfo" where
  "traced f = (traced_file (fst f))\<lparr>file_size := int (sum_list (map snd (snd f))), chunknum := int (length (snd f)),
     fchunks := map traced_chunk (snd f)\<rparr>"

lemma foldl_add_traced:
  "foldl add_traced fi cs = fi\<lparr>file_size := file_size fi + int (sum_list (map snd cs)), chunknum := chunknum fi + int (length cs),
     fchunks := fchunks fi @ map traced_chunk cs\<rparr>"
  by (induction cs arbitrary: fi) (simp_all add: add_traced_def file_append_fingerchunk_def add_chunks_def)

lemma traced_foldl: "foldl add_traced (traced_file (fst f)) (snd f) = traced f"
  by (simp add: foldl_add_traced traced_def traced_file_def file_new_def)

lemma trace_file_lines:
  assumes "tr_rest t = file_lines f @ r" "length (tr_line t) = 128" "trace_file_ok f"
  shows "\<exists>L. holds L (asc ''FILE_END'' @ [10]) \<and>
    trace_loop t = trace_loop (t\<lparr>tr_line := L, tr_rest := r, tr_file := Some (traced f), tr_out := tr_out t @ [traced f], tr_given := True\<rparr>)"
proof -
  let ?r = "asc ''FILE_END'' @ 10 # r"
  have "tr_rest t = index_line (fst f) @ 10 # chunk_lines (snd f) @ ?r" using assms(1) by (simp add: file_lines_def)
  then obtain L where L: "length L = 128" "trace_line t = More (t\<lparr>tr_line := L, tr_rest := chunk_lines (snd f) @ ?r,
      tr_file := Some (traced_file (fst f)), tr_given := False\<rparr>)"
    using trace_index_line [of t "fst f" "chunk_lines (snd f) @ ?r"] assms(2,3) by (auto simp: trace_file_ok_def)
  let ?t = "t\<lparr>tr_line := L, tr_rest := chunk_lines (snd f) @ ?r, tr_file := Some (traced_file (fst f)), tr_given := False\<rparr>"
  obtain L' where L': "length L' = 128"
    "trace_loop ?t = trace_loop (?t\<lparr>tr_line := L', tr_rest := ?r, tr_file := Some (traced f)\<rparr>)"
    using trace_chunk_lines [of ?t "snd f" ?r "traced_file (fst f)"] L(1) assms(3) by (auto simp: trace_file_ok_def traced_foldl)
  let ?t' = "?t\<lparr>tr_line := L', tr_rest := ?r, tr_file := Some (traced f)\<rparr>"
  obtain L'' where L'': "holds L'' (asc ''FILE_END'' @ [10])"
    "trace_line ?t' = More (?t'\<lparr>tr_line := L'', tr_rest := r, tr_out := tr_out ?t' @ [traced f], tr_given := True\<rparr>)"
    using trace_end_line [of ?t' r "traced f"] L'(1) by auto
  have "?t'\<lparr>tr_line := L'', tr_rest := r, tr_out := tr_out ?t' @ [traced f], tr_given := True\<rparr> =
      t\<lparr>tr_line := L'', tr_rest := r, tr_file := Some (traced f), tr_out := tr_out t @ [traced f], tr_given := True\<rparr>"
    by (cases t) simp
  with trace_loop_more [OF L(2)] L'(2) trace_loop_more [OF L''(2)] L''(1) show ?thesis by metis
qed

lemma trace_files_lines:
  "tr_rest t = concat (map file_lines F) @ r \<Longrightarrow> length (tr_line t) = 128 \<Longrightarrow> \<forall>f\<in>set F. trace_file_ok f \<Longrightarrow>
    \<exists>t'. trace_loop t = trace_loop t' \<and> tr_rest t' = r \<and> length (tr_line t') = 128 \<and> tr_out t' = tr_out t @ map traced F \<and>
      (F \<noteq> [] \<longrightarrow> tr_given t' \<and> tr_file t' \<noteq> None \<and> holds (tr_line t') (asc ''FILE_END'' @ [10]))"
proof (induction F arbitrary: t)
  case Nil
  then show ?case by (intro exI [of _ t]) simp
next
  case (Cons f F)
  have "tr_rest t = file_lines f @ concat (map file_lines F) @ r" using Cons.prems(1) by simp
  then obtain L where L: "holds L (asc ''FILE_END'' @ [10])" "trace_loop t = trace_loop (t\<lparr>tr_line := L,
      tr_rest := concat (map file_lines F) @ r, tr_file := Some (traced f), tr_out := tr_out t @ [traced f], tr_given := True\<rparr>)"
    using trace_file_lines [of t f] Cons.prems(2,3) by auto
  let ?t = "t\<lparr>tr_line := L, tr_rest := concat (map file_lines F) @ r, tr_file := Some (traced f), tr_out := tr_out t @ [traced f], tr_given := True\<rparr>"
  have l: "length L = 128" using L(1) by (simp add: holds_def)
  show ?case
  proof (cases F)
    case Nil
    with L l show ?thesis by (intro exI [of _ ?t]) simp
  next
    case (Cons f' F')
    with Cons.IH [of ?t] Cons.prems(3) l L(2) show ?thesis by auto
  qed
qed

lemma read_trace_files:
  assumes "length stack = 128" "\<forall>f\<in>set F. trace_file_ok f"
  shows "read_trace stack (Some (trace_text F)) = Some (Some (map traced F @ [file_new\<lparr>chunknum := STREAM_END\<rparr>]))"
proof -
  let ?t = "\<lparr>tr_rest = trace_text F, tr_line = stack, tr_file = None, tr_given = False, tr_out = []\<rparr>"
  obtain t' where t: "trace_loop ?t = trace_loop t'" "tr_rest t' = asc ''STREAM_END''" "length (tr_line t') = 128" "tr_out t' = map traced F"
    using trace_files_lines [of ?t F "asc ''STREAM_END''"] assms by (auto simp: trace_text_def)
  obtain t'' where "trace_line t' = Ended t''" "tr_out t'' = map traced F @ [file_new\<lparr>chunknum := STREAM_END\<rparr>]"
    using trace_stream_end [OF t(2,3)] t(4) by auto
  then have "trace_loop t' = Some (Some (map traced F @ [file_new\<lparr>chunknum := STREAM_END\<rparr>]))" by (subst trace_loop.simps) simp
  with t(1) show ?thesis by (simp add: read_trace_def)
qed

section \<open>A trace that is cut off\<close>

text \<open>The line of a chunk is all that is left: it is read again and again.\<close>

definition stuck :: "trace \<Rightarrow> bool" where
  "stuck t \<longleftrightarrow> tr_rest t = [] \<and> (\<exists>c. length (fst c) = 20 \<and> snd c < 2 ^ 31 \<and> holds (tr_line t) (chunk_line c @ [10])) \<and>
     tr_file t \<noteq> None \<and> \<not> tr_given t"

lemma stuck_step: "stuck t \<Longrightarrow> \<exists>t'. trace_line t = More t' \<and> stuck t'"
proof -
  assume s: "stuck t"
  then obtain c fi where c: "length (fst c) = 20" "snd c < 2 ^ 31" "holds (tr_line t) (chunk_line c @ [10])" and f: "tr_file t = Some fi" "\<not> tr_given t"
    and r: "tr_rest t = []" by (auto simp: stuck_def)
  have n: "next_line t = t" using r by (simp add: next_line_def)
  from trace_chunk_held [OF n c(3) _ c(1,2) f] have "trace_line t = More (t\<lparr>tr_file := Some (add_traced fi c)\<rparr>)" by simp
  then show ?thesis using s by (auto simp: stuck_def)
qed

lemma trace_loop_stuck:
  assumes "trace_loop t = Some y"
  shows "\<not> stuck t"
proof (rule trace_loop.raw_induct [of "\<lambda>t y. \<not> stuck t", OF _ assms])
  fix loop :: "trace \<Rightarrow> fileinfo list option option" and t :: trace and y
  assume IH: "\<And>x y. loop x = Some y \<Longrightarrow> \<not> stuck x"
    and e: "(case trace_line t of Undefined \<Rightarrow> Some None | More t \<Rightarrow> loop t | Ended t \<Rightarrow> Some (Some (tr_out t))) = Some y"
  show "\<not> stuck t"
  proof
    assume "stuck t"
    then obtain t' where "trace_line t = More t'" "stuck t'" using stuck_step by blast
    with IH [of t' y] e show False by simp
  qed
qed

lemma trace_loop_given_twice:
  assumes "tr_rest t = []" "holds (tr_line t) (asc ''FILE_END'' @ [10])" "tr_file t \<noteq> None" "tr_given t"
  shows "trace_loop t = Some None"
proof -
  have s: "cstr (tr_line t) = asc ''FILE_END'' @ [10]" by (rule holds_cstr [OF assms(2)]) (simp add: trace_words)
  have n: "\<not> starts_with (cstr (tr_line t)) (asc ''STREAM_END'')" "\<not> starts_with (cstr (tr_line t)) (asc ''fileindex='')"
    "starts_with (cstr (tr_line t)) (asc ''FILE_END'')"
    unfolding s by (rule starts_with_append | simp add: trace_words starts_with_other)+
  have "trace_line t = Undefined" using n assms(1,3,4) by (auto simp: trace_line_def next_line_def Let_def)
  then show ?thesis by (subst trace_loop.simps) simp
qed

section \<open>Properties\<close>

text \<open>C35: a fingerprint written as forty hexadecimal digits is read back from them.\<close>

theorem code2hash_hash2code:
  assumes "length h = 20"
  shows "code2hash (hash2code h) = h"
  using code2hash_code [OF assms, of "[]"] by simp

lemma code2hash_hash2code_witness: "code2hash (hash2code [0, 1, 9, 10, 15, 16, 31, 100, 127, 128, 159, 160, 165, 170, 200, 239, 240, 249, 254, 255]) =
    [0, 1, 9, 10, 15, 16, 31, 100, 127, 128, 159, 160, 165, 170, 200, 239, 240, 249, 254, 255]"
  by (rule code2hash_hash2code) simp

text \<open>C36: \<open>read_trace\<close> returns and hands over, whatever was on its stack, exactly the files of a trace, in their order and with
  the chunks, their lengths and the sum of them, and then the end of the stream.\<close>

theorem read_trace_correct:
  assumes "length stack = 128" "\<forall>f\<in>set F. trace_file_ok f"
  shows "read_trace stack (Some (trace_text F)) = Some (Some (map traced F @ [file_new\<lparr>chunknum := STREAM_END\<rparr>]))"
  by (rule read_trace_files [OF assms])

lemma read_trace_correct_witness:
  "read_trace (memset0 128) (Some (trace_text [(3, [(memset0 20, 4096)]), (4, [])])) =
    Some (Some [traced (3, [(memset0 20, 4096)]), traced (4, []), file_new\<lparr>chunknum := STREAM_END\<rparr>])"
  using read_trace_correct [of "memset0 128" "[(3, [(memset0 20, 4096)]), (4, [])]"] by (simp add: trace_file_ok_def)

text \<open>C37: nothing looks at what \<open>fgets\<close> returns: when a trace ends after a whole file, its last line counts twice and the
  file is handed over a second time, to be freed twice; when it ends within a file, \<open>read_trace\<close> never
  returns and adds the last chunk to the file for ever.\<close>

theorem read_trace_cut_off:
  assumes "length stack = 128" "\<forall>f\<in>set F. trace_file_ok f" "F \<noteq> []" "trace_file_ok (i, cs)" "cs \<noteq> []"
  shows "read_trace stack (Some (concat (map file_lines F))) = Some None \<and>
    read_trace stack (Some (concat (map file_lines F) @ index_line i @ 10 # chunk_lines cs)) = None"
proof
  let ?t = "\<lambda>text. \<lparr>tr_rest = text, tr_line = stack, tr_file = None, tr_given = False, tr_out = []\<rparr>"
  obtain t' where "trace_loop (?t (concat (map file_lines F))) = trace_loop t'" "tr_rest t' = []" "tr_file t' \<noteq> None" "tr_given t'"
    "holds (tr_line t') (asc ''FILE_END'' @ [10])"
    using trace_files_lines [of "?t (concat (map file_lines F))" F "[]"] assms(1-3) by auto
  with trace_loop_given_twice [of t'] show "read_trace stack (Some (concat (map file_lines F))) = Some None" by (simp add: read_trace_def)
  let ?r = "index_line i @ 10 # chunk_lines cs"
  obtain t where t: "trace_loop (?t (concat (map file_lines F) @ ?r)) = trace_loop t" "tr_rest t = ?r" "length (tr_line t) = 128"
    using trace_files_lines [of "?t (concat (map file_lines F) @ ?r)" F ?r] assms(1,2) by auto
  have ok: "i < 10 ^ 9" "\<forall>c\<in>set cs. length (fst c) = 20 \<and> snd c < 2 ^ 31" using assms(4) by (simp_all add: trace_file_ok_def)
  obtain L where L: "length L = 128" "trace_line t = More (t\<lparr>tr_line := L, tr_rest := chunk_lines cs, tr_file := Some (traced_file i), tr_given := False\<rparr>)"
    using trace_index_line [OF t(2,3) ok(1)] by blast
  let ?u = "t\<lparr>tr_line := L, tr_rest := chunk_lines cs, tr_file := Some (traced_file i), tr_given := False\<rparr>"
  obtain L' where L': "holds L' (chunk_line (last cs) @ [10])"
    "trace_loop ?u = trace_loop (?u\<lparr>tr_line := L', tr_rest := [], tr_file := Some (foldl add_traced (traced_file i) cs)\<rparr>)"
    using trace_chunk_lines [of ?u cs "[]" "traced_file i"] L(1) ok(2) assms(5) by auto
  have "last cs \<in> set cs" using assms(5) by simp
  with ok(2) L'(1) have "\<exists>c. length (fst c) = 20 \<and> snd c < 2 ^ 31 \<and> holds L' (chunk_line c @ [10])" by blast
  then have "stuck (?u\<lparr>tr_line := L', tr_rest := [], tr_file := Some (foldl add_traced (traced_file i) cs)\<rparr>)"
    by (simp add: stuck_def)
  with trace_loop_stuck have "trace_loop ?u = None" unfolding L'(2) by (metis not_Some_eq)
  with t(1) trace_loop_more [OF L(2)] show "read_trace stack (Some (concat (map file_lines F) @ ?r)) = None" by (simp add: read_trace_def)
qed

lemma read_trace_cut_off_witness:
  "read_trace (memset0 128) (Some (file_lines (3, []))) = Some None \<and>
    read_trace (memset0 128) (Some (file_lines (3, []) @ index_line 4 @ 10 # chunk_lines [(memset0 20, 4096)])) = None"
  using read_trace_cut_off [of "memset0 128" "[(3, [])]" 4 "[(memset0 20, 4096)]"] by (simp add: trace_file_ok_def)

end
