(* ===== verification/LruCache.thy ===== *)
theory LruCache
  imports Prelude
begin

text \<open>
  The least-recently-used cache of the client (client/lib/lru_cache.c) and the cache of containers that
  the simulation counts reads with (client/src/container_cache.c). The lists are those of GLib, which is a parameter
  here: \<open>glib\<close> are the functions that the code calls, \<open>glib_ok\<close> says what GLib documents of them.
  \<open>lru_cache_first\<close>, \<open>lru_cache_next\<close> and \<open>lru_cache_foreach\<close>, which nobody calls, are left out.
\<close>

section \<open>GLib\<close>

text \<open>A link of a list is given by its position. \<open>g_list_remove_link\<close> gives the rest and the link as a list of its own.\<close>

record ('l, 'a) glib =
  g_null :: 'l
  g_list_find_custom :: "'l \<Rightarrow> 'a \<Rightarrow> ('a \<Rightarrow> 'a \<Rightarrow> int) \<Rightarrow> nat option"
  g_list_data :: "'l \<Rightarrow> nat \<Rightarrow> 'a"
  g_list_remove_link :: "'l \<Rightarrow> nat \<Rightarrow> 'l \<times> 'l"
  g_list_concat :: "'l \<Rightarrow> 'l \<Rightarrow> 'l"
  g_list_last :: "'l \<Rightarrow> nat option"
  g_list_prepend :: "'l \<Rightarrow> 'a \<Rightarrow> 'l"

definition first_index :: "('a \<Rightarrow> bool) \<Rightarrow> 'a list \<Rightarrow> nat option" where
  "first_index P xs = (let k = length (takeWhile (\<lambda>x. \<not> P x) xs) in if k < length xs then Some k else None)"

definition glib_ok :: "('l, 'a) glib \<Rightarrow> ('l \<Rightarrow> 'a list) \<Rightarrow> bool" where
  "glib_ok g elems \<longleftrightarrow>
     elems (g_null g) = [] \<and>
     (\<forall>l x cmp. g_list_find_custom g l x cmp = first_index (\<lambda>y. cmp y x = 0) (elems l)) \<and>
     (\<forall>l i. i < length (elems l) \<longrightarrow> g_list_data g l i = elems l ! i) \<and>
     (\<forall>l i. i < length (elems l) \<longrightarrow> elems (fst (g_list_remove_link g l i)) = take i (elems l) @ drop (Suc i) (elems l) \<and>
        elems (snd (g_list_remove_link g l i)) = [elems l ! i]) \<and>
     (\<forall>l r. elems (g_list_concat g l r) = elems l @ elems r) \<and>
     (\<forall>l. g_list_last g l = (if elems l = [] then None else Some (length (elems l) - 1))) \<and>
     (\<forall>l x. elems (g_list_prepend g l x) = x # elems l)"

section \<open>The cache\<close>

record 'l lru_cache =
  lru_queue :: 'l
  cache_max_size :: int
  cache_size :: int
  hit_count :: nat
  miss_count :: nat

definition lru_cache_new :: "('l, 'a) glib \<Rightarrow> int \<Rightarrow> 'l lru_cache" where
  "lru_cache_new g n = \<lparr>lru_queue = g_null g, cache_max_size = n, cache_size = 0, hit_count = 0, miss_count = 0\<rparr>"

definition lru_cache_lookup :: "('l, 'a) glib \<Rightarrow> ('a \<Rightarrow> 'a \<Rightarrow> int) \<Rightarrow> 'l lru_cache \<Rightarrow> 'a \<Rightarrow> 'l lru_cache \<times> 'a option" where
  "lru_cache_lookup g cmp c x =
     (case g_list_find_custom g (lru_queue c) x cmp of
        Some i \<Rightarrow>
          let d = g_list_data g (lru_queue c) i in
          (case g_list_remove_link g (lru_queue c) i of
             (rest, item) \<Rightarrow> (c\<lparr>lru_queue := g_list_concat g item rest, hit_count := hit_count c + 1\<rparr>, Some d))
      | None \<Rightarrow> (c\<lparr>miss_count := miss_count c + 1\<rparr>, None))"

definition lru_cache_lookup_without_update :: "('l, 'a) glib \<Rightarrow> ('a \<Rightarrow> 'a \<Rightarrow> int) \<Rightarrow> 'l lru_cache \<Rightarrow> 'a \<Rightarrow> 'a option" where
  "lru_cache_lookup_without_update g cmp c x =
     map_option (g_list_data g (lru_queue c)) (g_list_find_custom g (lru_queue c) x cmp)"

text \<open>The result is what had to leave; the list is not empty when \<open>cache_size\<close> is the size of the cache.\<close>

definition lru_cache_insert :: "('l, 'a) glib \<Rightarrow> 'l lru_cache \<Rightarrow> 'a \<Rightarrow> 'l lru_cache \<times> 'a option" where
  "lru_cache_insert g c x =
     (case (if cache_max_size c > 0 \<and> cache_size c = cache_max_size c then g_list_last g (lru_queue c) else None) of
        Some i \<Rightarrow>
          (case g_list_remove_link g (lru_queue c) i of
             (rest, item) \<Rightarrow> (c\<lparr>lru_queue := g_list_prepend g rest x, cache_size := cache_size c - 1 + 1\<rparr>,
                              Some (g_list_data g (lru_queue c) i)))
      | None \<Rightarrow> (c\<lparr>lru_queue := g_list_prepend g (lru_queue c) x, cache_size := cache_size c + 1\<rparr>, None))"

section \<open>The cache of containers\<close>

text \<open>The sign of \<open>memcmp\<close> over 64 bytes.\<close>

definition container_simulator_cmp_asc :: "byte list \<Rightarrow> byte list \<Rightarrow> int" where
  "container_simulator_cmp_asc a b =
     (let d = dropWhile (\<lambda>(x, y). x = y) (zip (take 64 a) (take 64 b)) in
      case d of [] \<Rightarrow> 0 | (x, y) # _ \<Rightarrow> if x < y then -1 else 1)"

definition container_cache_simulator_new :: "('l, byte list) glib \<Rightarrow> int \<Rightarrow> 'l lru_cache" where
  "container_cache_simulator_new g n = lru_cache_new g n"

definition container_cache_simulator_look :: "('l, byte list) glib \<Rightarrow> 'l lru_cache \<Rightarrow> chunkaddress \<Rightarrow> 'l lru_cache \<times> bool" where
  "container_cache_simulator_look g c a =
     (case lru_cache_lookup g container_simulator_cmp_asc c a of (c, r) \<Rightarrow> (c, r \<noteq> None))"

definition container_cache_simulator_insert :: "('l, byte list) glib \<Rightarrow> 'l lru_cache \<Rightarrow> chunkaddress \<Rightarrow> 'l lru_cache" where
  "container_cache_simulator_insert g c a = fst (lru_cache_insert g c (take 64 a))"

text \<open>How the simulation uses it, for every chunk of a recipe.\<close>

definition cache_access :: "('l, byte list) glib \<Rightarrow> 'l lru_cache \<Rightarrow> chunkaddress \<Rightarrow> 'l lru_cache" where
  "cache_access g c a =
     (case container_cache_simulator_look g c a of (c, found) \<Rightarrow> if found then c else container_cache_simulator_insert g c a)"

section \<open>Reference\<close>

text \<open>What was used, without repetitions, the latest first; the history has the latest first too.\<close>

fun recent :: "'a list \<Rightarrow> 'a list" where
  "recent [] = []"
| "recent (a # h) = a # filter (\<lambda>x. x \<noteq> a) (recent h)"

definition kept :: "int \<Rightarrow> 'a list \<Rightarrow> 'a list" where
  "kept n h = (if n > 0 then take (nat n) (recent h) else recent h)"

fun misses :: "int \<Rightarrow> 'a list \<Rightarrow> nat" where
  "misses n [] = 0"
| "misses n (a # h) = misses n h + (if a \<in> set (kept n h) then 0 else 1)"

lemma set_recent [simp]: "set (recent h) = set h"
  by (induction h) auto

lemma distinct_recent [simp]: "distinct (recent h)"
  by (induction h) auto

lemma distinct_kept: "distinct (kept n h)"
  by (simp add: kept_def)

lemma take_filter_member: "distinct xs \<Longrightarrow> a \<in> set (take (Suc m) xs) \<Longrightarrow> take m (filter (\<lambda>x. x \<noteq> a) xs) = filter (\<lambda>x. x \<noteq> a) (take (Suc m) xs)"
proof (induction xs arbitrary: m)
  case (Cons x xs)
  show ?case
  proof (cases "x = a")
    case True
    then have "filter (\<lambda>x. x \<noteq> a) xs = xs" "filter (\<lambda>x. x \<noteq> a) (take m xs) = take m xs"
      using Cons.prems(1) by (auto simp: filter_id_conv dest: in_set_takeD)
    with True show ?thesis by simp
  next
    case False
    with Cons show ?thesis by (cases m) auto
  qed
qed simp

lemma take_filter_other: "a \<notin> set (take m xs) \<Longrightarrow> take m (filter (\<lambda>x. x \<noteq> a) xs) = take m xs"
proof -
  assume "a \<notin> set (take m xs)"
  then have "filter (\<lambda>x. x \<noteq> a) (take m xs) = take m xs" by (auto simp: filter_id_conv)
  then have f: "filter (\<lambda>x. x \<noteq> a) xs = take m xs @ filter (\<lambda>x. x \<noteq> a) (drop m xs)"
    using filter_append [of "\<lambda>x. x \<noteq> a" "take m xs" "drop m xs"] by simp
  show ?thesis unfolding f by (cases "m \<le> length xs") simp_all
qed

lemma kept_hit: "a \<in> set (kept n h) \<Longrightarrow> kept n (a # h) = a # filter (\<lambda>x. x \<noteq> a) (kept n h)"
proof (cases "n > 0")
  case True
  assume "a \<in> set (kept n h)"
  then obtain m where "nat n = Suc m" using True by (cases "nat n") simp_all
  with \<open>a \<in> set (kept n h)\<close> True take_filter_member [of "recent h" a m] show ?thesis by (simp add: kept_def)
qed (simp add: kept_def)

lemma kept_miss:
  assumes "a \<notin> set (kept n h)"
  shows "kept n (a # h) = a # (if n > 0 \<and> int (length (kept n h)) = n then butlast (kept n h) else kept n h)"
proof (cases "n > 0")
  case True
  then obtain m where m: "nat n = Suc m" by (cases "nat n") simp_all
  then have a: "a \<notin> set (take (Suc m) (recent h))" using assms True by (simp add: kept_def)
  then have "a \<notin> set (take m (recent h))" by (meson set_take_subset_set_take le_SucI order_refl subsetD)
  then have "take m (filter (\<lambda>x. x \<noteq> a) (recent h)) = take m (recent h)" by (rule take_filter_other)
  moreover have "take m (recent h) = (if length (take (Suc m) (recent h)) = Suc m then butlast (take (Suc m) (recent h)) else take (Suc m) (recent h))"
    by (cases "Suc m \<le> length (recent h)") (simp_all add: butlast_take)
  moreover have "int (length (take (Suc m) (recent h))) = n \<longleftrightarrow> length (take (Suc m) (recent h)) = Suc m" using m True by auto
  ultimately show ?thesis using m True by (simp add: kept_def)
next
  case False
  with assms show ?thesis by (auto simp: kept_def filter_id_conv)
qed

lemma length_kept: "n > 0 \<Longrightarrow> int (length (kept n h)) \<le> n"
  by (auto simp: kept_def)

section \<open>The cache is the reference\<close>

lemma dropWhile_zip: "length a = length b \<Longrightarrow> dropWhile (\<lambda>(x, y). x = y) (zip a b) = [] \<longleftrightarrow> a = b"
  by (induction a b rule: list_induct2) auto

lemma cmp_equal:
  assumes "length a = 64" "length b = 64"
  shows "container_simulator_cmp_asc a b = 0 \<longleftrightarrow> a = b"
proof -
  have "container_simulator_cmp_asc a b = 0 \<longleftrightarrow> dropWhile (\<lambda>(x, y). x = y) (zip a b) = []"
    using assms by (cases "dropWhile (\<lambda>(x, y). x = y) (zip a b)") (auto simp: container_simulator_cmp_asc_def Let_def simp del: dropWhile_eq_Nil_conv split: if_splits)
  with dropWhile_zip [of a b] assms show ?thesis by simp
qed

lemma first_index_Cons: "first_index P (x # xs) = (if P x then Some 0 else map_option Suc (first_index P xs))"
  by (simp add: first_index_def Let_def)

lemma first_index_eq:
  "\<forall>y\<in>set xs. P y \<longleftrightarrow> y = a \<Longrightarrow> case first_index P xs of None \<Rightarrow> a \<notin> set xs | Some i \<Rightarrow> i < length xs \<and> xs ! i = a"
proof (induction xs)
  case Nil
  then show ?case by (simp add: first_index_def)
next
  case (Cons x xs)
  then show ?case by (auto simp: first_index_Cons split: option.splits)
qed

lemma remove_nth: "distinct xs \<Longrightarrow> i < length xs \<Longrightarrow> take i xs @ drop (Suc i) xs = filter (\<lambda>x. x \<noteq> xs ! i) xs"
proof (induction xs arbitrary: i)
  case (Cons x xs)
  show ?case
  proof (cases i)
    case 0
    have "filter (\<lambda>y. y \<noteq> x) xs = xs" by (rule filter_True) (use Cons.prems(1) in auto)
    with 0 show ?thesis by simp
  next
    case (Suc j)
    then have "xs ! j \<in> set xs" using Cons.prems(2) by simp
    then have "x \<noteq> xs ! j" using Cons.prems(1) by auto
    with Cons.IH [of j] Cons.prems Suc show ?thesis by simp
  qed
qed simp

definition lru_at :: "('l \<Rightarrow> byte list list) \<Rightarrow> int \<Rightarrow> byte list list \<Rightarrow> 'l lru_cache \<Rightarrow> bool" where
  "lru_at elems n h c \<longleftrightarrow> elems (lru_queue c) = kept n h \<and> cache_max_size c = n \<and> cache_size c = int (length (kept n h)) \<and>
     miss_count c = misses n h \<and> hit_count c + miss_count c = length h"

lemma cache_access_spec:
  assumes g: "glib_ok g elems" and c: "lru_at elems n h c" and a: "length a = 64" "\<forall>x\<in>set h. length x = 64"
  shows "lru_at elems n (a # h) (cache_access g c a)"
proof -
  let ?q = "lru_queue c" and ?P = "\<lambda>y. container_simulator_cmp_asc y a = 0"
  have q: "elems ?q = kept n h" using c by (simp add: lru_at_def)
  have "\<forall>y\<in>set (kept n h). length y = 64" using a(2) by (auto simp: kept_def dest: in_set_takeD)
  then have P: "\<forall>y\<in>set (kept n h). ?P y \<longleftrightarrow> y = a" using cmp_equal a(1) by blast
  have f: "g_list_find_custom g ?q a container_simulator_cmp_asc = first_index ?P (kept n h)" using g q by (simp add: glib_ok_def)
  show ?thesis
  proof (cases "first_index ?P (kept n h)")
    case (Some i)
    then have i: "i < length (kept n h)" "kept n h ! i = a" using first_index_eq [OF P] by auto
    then have m: "a \<in> set (kept n h)" by (metis nth_mem)
    obtain r l where l: "g_list_remove_link g ?q i = (r, l)" by fastforce
    have "elems r = take i (kept n h) @ drop (Suc i) (kept n h)" "elems l = [a]" using g l i q unfolding glib_ok_def by (metis fst_conv, metis snd_conv)
    then have "elems (g_list_concat g l r) = kept n (a # h)"
      using g i remove_nth [OF distinct_kept i(1)] kept_hit [OF m] by (simp add: glib_ok_def)
    moreover have "length (kept n (a # h)) = length (kept n h)"
    proof -
      have "length (take i (kept n h) @ drop (Suc i) (kept n h)) = length (kept n h) - 1" using i(1) by simp
      then show ?thesis using i remove_nth [OF distinct_kept i(1)] kept_hit [OF m] by simp
    qed
    ultimately show ?thesis
      using c m l by (simp add: cache_access_def container_cache_simulator_look_def lru_cache_lookup_def f Some Let_def lru_at_def)
  next
    case None
    then have m: "a \<notin> set (kept n h)" using first_index_eq [OF P] by simp
    let ?c = "c\<lparr>miss_count := miss_count c + 1\<rparr>"
    have e: "cache_access g c a = container_cache_simulator_insert g ?c a"
      by (simp add: cache_access_def container_cache_simulator_look_def lru_cache_lookup_def f None)
    show ?thesis
    proof (cases "n > 0 \<and> int (length (kept n h)) = n")
      case True
      let ?i = "length (kept n h) - 1"
      have i: "?i < length (kept n h)" "kept n h \<noteq> []" using True by auto
      obtain r l where l: "g_list_remove_link g ?q ?i = (r, l)" by fastforce
      have "elems r = take ?i (kept n h) @ drop (Suc ?i) (kept n h)" using g l i(1) q unfolding glib_ok_def by (metis fst_conv)
      then have r: "elems r = butlast (kept n h)" using i by (simp add: butlast_conv_take)
      have last: "g_list_last g ?q = Some ?i" using g q i(2) by (simp add: glib_ok_def)
      have "cache_access g c a = ?c\<lparr>lru_queue := g_list_prepend g r a, cache_size := cache_size c\<rparr>"
        using c True l last a(1) by (simp add: e container_cache_simulator_insert_def lru_cache_insert_def lru_at_def)
      then show ?thesis using c True m g r kept_miss [OF m] i by (simp add: lru_at_def glib_ok_def)
    next
      case False
      have "cache_access g c a = ?c\<lparr>lru_queue := g_list_prepend g ?q a, cache_size := cache_size c + 1\<rparr>"
        using c False a(1) by (auto simp: e container_cache_simulator_insert_def lru_cache_insert_def lru_at_def)
      then show ?thesis using c False m g q kept_miss [OF m] by (auto simp: lru_at_def glib_ok_def)
    qed
  qed
qed

lemma cache_run:
  assumes "glib_ok g elems"
  shows "\<forall>a\<in>set as. length a = 64 \<Longrightarrow> \<forall>a\<in>set h. length a = 64 \<Longrightarrow> lru_at elems n h c \<Longrightarrow>
    lru_at elems n (rev as @ h) (foldl (cache_access g) c as)"
proof (induction as arbitrary: h c)
  case (Cons a as)
  with Cons.IH [of "a # h" "cache_access g c a"] cache_access_spec [OF assms Cons.prems(3)] show ?case by simp
qed simp

lemma misses_mono: "0 < m \<Longrightarrow> m \<le> n \<Longrightarrow> misses n h \<le> misses m h"
proof (induction h)
  case (Cons a h)
  have "set (kept m h) \<subseteq> set (kept n h)" using Cons.prems by (simp add: kept_def set_take_subset_set_take)
  with Cons show ?case by auto
qed simp

section \<open>Properties\<close>

text \<open>C38: the cache that the simulation counts with is a least-recently-used cache, for any list library that does what GLib
  documents: it holds the addresses used last, the latest first and at most as many as it may, and its
  counters are the hits and misses of such a cache. Without a limit (a size that is not positive) it holds all. A larger
  cache never has more misses.\<close>

theorem container_cache_is_lru:
  assumes "glib_ok g elems" "\<forall>a\<in>set as. length a = 64"
  shows "let c = foldl (cache_access g) (container_cache_simulator_new g n) as in
    elems (lru_queue c) = kept n (rev as) \<and> cache_size c = int (length (kept n (rev as))) \<and>
    (0 < n \<longrightarrow> cache_size c \<le> n) \<and> miss_count c = misses n (rev as) \<and> hit_count c + miss_count c = length as \<and>
    (\<forall>m. 0 < m \<and> m \<le> n \<longrightarrow> miss_count c \<le> miss_count (foldl (cache_access g) (container_cache_simulator_new g m) as))"
proof -
  have "elems (g_null g) = []" using assms(1) by (simp add: glib_ok_def)
  then have s: "lru_at elems n [] (container_cache_simulator_new g n)" for n
    by (simp add: lru_at_def container_cache_simulator_new_def lru_cache_new_def kept_def)
  have at: "lru_at elems n (rev as) (foldl (cache_access g) (container_cache_simulator_new g n) as)" for n
    using cache_run [OF assms _ s] by simp
  then show ?thesis using length_kept [of n "rev as"] misses_mono unfolding lru_at_def Let_def by (metis length_rev)
qed

text \<open>A library that does: GLib's lists as lists.\<close>

definition list_glib :: "('a list, 'a) glib" where
  "list_glib = \<lparr>g_null = [], g_list_find_custom = (\<lambda>l x cmp. first_index (\<lambda>y. cmp y x = 0) l), g_list_data = (\<lambda>l i. l ! i),
     g_list_remove_link = (\<lambda>l i. (take i l @ drop (Suc i) l, [l ! i])), g_list_concat = (@),
     g_list_last = (\<lambda>l. if l = [] then None else Some (length l - 1)), g_list_prepend = (\<lambda>l x. x # l)\<rparr>"

lemma list_glib_ok: "glib_ok list_glib (\<lambda>l. l)"
  by (simp add: glib_ok_def list_glib_def)

lemma container_cache_is_lru_witness:
  "let a = replicate 64 1; b = replicate 64 2; d = replicate 64 3;
       c = foldl (cache_access list_glib) (container_cache_simulator_new list_glib 2) [a, b, a, d, b] in
    lru_queue c = [b, d] \<and> miss_count c = 4 \<and> hit_count c = 1"
  using container_cache_is_lru [OF list_glib_ok, of "[replicate 64 1, replicate 64 2, replicate 64 1, replicate 64 3, replicate 64 2]" 2]
  by (simp add: Let_def kept_def numeral_eq_Suc)

end
