(* ===== verification/Simulate.thy ===== *)
theory Simulate
  imports Trace LruCache Dedup ClientBackup
begin

text \<open>
  The simulated backup (client/src/simulate.c), without rewriting: the files of a trace go through the index and the store as those
  of a backup do, only that no data is read, and the chunks are counted. Three threads pass the files on through two queues; each
  does the same whenever its next file comes, so they run here one after the other on whole queues. A thread that
  gives up leaves the next one waiting for ever: no result.
\<close>

section \<open>The threads\<close>

definition simulate_file :: "exbin \<Rightarrow> store \<Rightarrow> fileinfo \<Rightarrow> (exbin \<times> store \<times> fileinfo option) option" where
  "simulate_file ex st fi =
     (let fi = calculate_rep_finger fi in
      case LoadBin ex fi of
        None \<Rightarrow> None
      | Some (ex, b) \<Rightarrow>
          (case mark_no_rewrite True None fi b st of
             None \<Rightarrow> None
           | Some (fi, b, st, ok) \<Rightarrow> Some (put_bin b ex, st, if ok then Some fi else None)))"

fun simulate_chunk_dedup_module :: "exbin \<Rightarrow> store \<Rightarrow> fileinfo list \<Rightarrow> (exbin \<times> store \<times> fileinfo list) option" where
  "simulate_chunk_dedup_module ex st [] = None"
| "simulate_chunk_dedup_module ex st (fi # q) =
     (if chunknum fi = STREAM_END then Some (ex, st, [fi])
      else case simulate_file ex st fi of
        None \<Rightarrow> None
      | Some (ex, st, None) \<Rightarrow> None
      | Some (ex, st, Some fi) \<Rightarrow>
          map_option (\<lambda>(ex, st, out). (ex, st, fi # out)) (simulate_chunk_dedup_module ex st q))"

text \<open>What is counted: the bytes of the files and of their duplicate chunks, the containers that a restore needs, and the
  reads of a restore with a cache of four containers.\<close>

record 'l counted_result =
  sm_old_size :: int
  sm_total_dedup_size :: int
  sm_restore_segments :: "unit htable"
  sm_cache :: "'l lru_cache"

definition get_restore_info :: "unit htable \<Rightarrow> fingerchunk \<Rightarrow> unit htable" where
  "get_restore_info t fc = (case htable_lookup t (fc_address fc) of None \<Rightarrow> htable_insert (fc_address fc) () t | Some _ \<Rightarrow> t)"

definition count_chunk :: "('l, byte list) glib \<Rightarrow> 'l counted_result \<Rightarrow> fingerchunk \<Rightarrow> 'l counted_result" where
  "count_chunk g r fc =
     r\<lparr>sm_total_dedup_size := sm_total_dedup_size r + (if fc_is_new fc = DEDUP_CHUNK then chunklen fc else 0),
       sm_restore_segments := get_restore_info (sm_restore_segments r) fc,
       sm_cache := cache_access g (sm_cache r) (fc_address fc)\<rparr>"

fun get_dedup_result_module :: "('l, byte list) glib \<Rightarrow> fileinfo list \<Rightarrow> 'l counted_result \<Rightarrow> 'l counted_result option" where
  "get_dedup_result_module g [] r = None"
| "get_dedup_result_module g (fi # q) r =
     (if chunknum fi = STREAM_END then Some r
      else get_dedup_result_module g q (foldl (count_chunk g) (r\<lparr>sm_old_size := sm_old_size r + file_size fi\<rparr>) (fchunks fi)))"

definition get_restore_info_final :: "disk \<Rightarrow> unit htable \<Rightarrow> int \<times> nat" where
  "get_restore_info_final dk t = foldl (\<lambda>(size, count) (k, _). (size + get_container_size dk k, count + 1)) (0, 0) (htable_items t)"

section \<open>The whole simulation\<close>

definition simulate_threads ::
  "('l, byte list) glib \<Rightarrow> byte list \<Rightarrow> byte list option \<Rightarrow> exbin \<Rightarrow> store \<Rightarrow> (exbin \<times> store \<times> 'l counted_result) option" where
  "simulate_threads g stack trace ex st =
     (case htable_init CHUNK_ADDRESS_LENGTH 100 of
        None \<Rightarrow> None
      | Some t \<Rightarrow>
          (case read_trace stack trace of
             Some (Some q) \<Rightarrow>
               (case simulate_chunk_dedup_module ex st q of
                  None \<Rightarrow> None
                | Some (ex, st, out) \<Rightarrow>
                    map_option (\<lambda>r. (ex, st, r)) (get_dedup_result_module g out
                      \<lparr>sm_old_size = 0, sm_total_dedup_size = 0, sm_restore_segments = t, sm_cache = container_cache_simulator_new g 4\<rparr>))
           | _ \<Rightarrow> None))"

definition simulata_backup ::
  "('l, byte list) glib \<Rightarrow> byte list \<Rightarrow> byte list option \<Rightarrow> disk \<Rightarrow> disk \<Rightarrow> nat \<Rightarrow> (nat \<Rightarrow> int)
    \<Rightarrow> (disk \<times> disk \<times> 'l counted_result \<times> int \<times> nat) option" where
  "simulata_backup g stack trace bins tmp r clk =
     (case ExtremeBinningInit bins of
        None \<Rightarrow> None
      | Some (ex, _) \<Rightarrow>
          (case store_init tmp r clk of
             None \<Rightarrow> None
           | Some st \<Rightarrow>
               (case simulate_threads g stack trace ex st of
                  None \<Rightarrow> None
                | Some (ex, st, res) \<Rightarrow>
                    (case free_cache_bin ex of
                       None \<Rightarrow> None
                     | Some ex \<Rightarrow>
                         let tmp = st_disk (store_destory True st) in
                         Some (eb_disk (ExtremeBinningDestroy ex), tmp, res, get_restore_info_final tmp (sm_restore_segments res))))))"

section \<open>Reference\<close>

text \<open>Bytes of chunks whose fingerprint was there before.\<close>

fun duplicate_bytes :: "fingerprint set \<Rightarrow> (fingerprint \<times> nat) list \<Rightarrow> nat" where
  "duplicate_bytes seen [] = 0"
| "duplicate_bytes seen (c # cs) = (if fst c \<in> seen then snd c else 0) + duplicate_bytes (insert (fst c) seen) cs"

lemma duplicate_bytes_append:
  "duplicate_bytes seen (cs @ ds) = duplicate_bytes seen cs + duplicate_bytes (seen \<union> fst ` set cs) ds"
  by (induction cs arbitrary: seen) (simp_all add: insert_commute Un_insert_right)

section \<open>Storing without data\<close>

definition sim_room :: "nat \<Rightarrow> store \<Rightarrow> bool" where
  "sim_room n st \<longleftrightarrow> length (cname (st_container st)) = 64 \<and> randomabc st + n < 2147483648"

lemma cname_Append: "cname (fst (AppendChunkToContainer c ck)) = cname c"
  by (simp add: AppendChunkToContainer_def Let_def)

lemma sim_store_chunk:
  assumes "sim_room (Suc n) st"
  shows "\<exists>st' ck'. store_chunk True st ck = Some (st', ck', SUCCESS) \<and> length (ck_address ck') = 64 \<and> sim_room n st'"
proof -
  obtain c ok where a: "AppendChunkToContainer (st_container st) ck = (c, ok)" by fastforce
  then have c: "cname c = cname (st_container st)" using cname_Append [of "st_container st" ck] by simp
  show ?thesis
  proof (cases ok)
    case True
    with a c assms show ?thesis by (auto simp: store_chunk_def sim_room_def)
  next
    case False
    obtain c0 where c0: "InitContainer (clock st (randomabc st)) (randomabc st) = Some (c0, randomabc st + 1)" by (simp add: InitContainer_eq)
    have "length (cname c0) = 64" using InitContainer_name [OF c0] assms by (simp add: sim_room_def)
    moreover obtain c1 ok1 where a1: "AppendChunkToContainer c0 ck = (c1, ok1)" by fastforce
    then have "cname c1 = cname c0" using cname_Append [of c0 ck] by simp
    ultimately show ?thesis using a False c0 a1 assms by (auto simp: store_chunk_def sim_room_def Let_def split: prod.split)
  qed
qed

text \<open>What one chunk becomes: a duplicate exactly when its fingerprint was there.\<close>

fun flagged :: "fingerprint set \<Rightarrow> (fingerprint \<Rightarrow> chunkaddress) \<Rightarrow> fingerchunk list \<Rightarrow> fingerchunk list \<Rightarrow> bool" where
  "flagged seen A [] fcs' \<longleftrightarrow> fcs' = []"
| "flagged seen A (fc # fcs) fcs' \<longleftrightarrow>
     (\<exists>fc' r. fcs' = fc' # r \<and> chunk_hash fc' = chunk_hash fc \<and> chunklen fc' = chunklen fc \<and> fc_address fc' = A (chunk_hash fc) \<and>
       fc_is_new fc' = (if chunk_hash fc \<in> seen then DEDUP_CHUNK else NEW_CHUNK) \<and> flagged (insert (chunk_hash fc) seen) A fcs r)"

lemma sim_mark_new_file:
  assumes "bin_room (length fcs + m) rep b" "sim_room (length fcs + n) st" "\<forall>fc\<in>set fcs. length (chunk_hash fc) = 20"
  shows "\<exists>fcs' b' st'. mark_new_file True None off fcs b st = Some (fcs', b', st') \<and>
    bin_room m rep b' \<and> b_address b' = b_address b \<and> sim_room n st' \<and> entries b \<subseteq>\<^sub>m entries b' \<and>
    dom (entries b') = dom (entries b) \<union> chunk_hash ` set fcs \<and> flagged (dom (entries b)) (\<lambda>h. the (entries b' h)) fcs fcs'"
  using assms
proof (induction fcs arbitrary: off b st)
  case Nil
  then show ?case by simp
next
  case (Cons fc fcs)
  let ?h = "chunk_hash fc"
  have h: "length ?h = 20" "\<forall>fc\<in>set fcs. length (chunk_hash fc) = 20" using Cons.prems(3) by simp_all
  have bok: "bin_ok rep b" using Cons.prems(1) by (simp add: bin_room_def)
  show ?case
  proof (cases "htable_lookup (b_fingers b) ?h")
    case (Some a)
    then have e: "entries b ?h = Some a" using bin_lookup [OF bok h(1)] by simp
    have r: "bin_room (length fcs + m) rep b" "sim_room (length fcs + n) st" using Cons.prems(1,2) by (auto simp: bin_room_def sim_room_def)
    obtain fcs' b' st' where IH: "mark_new_file True None (off + chunklen fc) fcs b st = Some (fcs', b', st')"
      "bin_room m rep b'" "b_address b' = b_address b" "sim_room n st'" "entries b \<subseteq>\<^sub>m entries b'"
      "dom (entries b') = dom (entries b) \<union> chunk_hash ` set fcs" "flagged (dom (entries b)) (\<lambda>h. the (entries b' h)) fcs fcs'"
      using Cons.IH [OF r h(2)] by blast
    have "entries b' ?h = Some a" using IH(5) e by (metis domI map_le_def)
    moreover have "insert ?h (dom (entries b)) = dom (entries b)" using e by auto
    ultimately show ?thesis using IH Some e by (auto simp: domI)
  next
    case None
    then have e: "entries b ?h = None" using bin_lookup [OF bok h(1)] by simp
    let ?fc = "fc\<lparr>fc_is_new := NEW_CHUNK\<rparr>"
    let ?ck = "\<lparr>ck_length = chunklen fc, ck_hash = ?h, ck_address = memset0 64, ck_data = Some (replicate (nat (chunklen fc)) 0)\<rparr>"
    have "sim_room (Suc (length fcs + n)) st" using Cons.prems(2) by simp
    then obtain st1 ck1 where s: "store_chunk True st ?ck = Some (st1, ck1, SUCCESS)" "length (ck_address ck1) = 64" "sim_room (length fcs + n) st1"
      using sim_store_chunk by blast
    let ?a = "ck_address ck1" and ?b = "b\<lparr>b_fingers := htable_insert ?h (ck_address ck1) (b_fingers b)\<rparr>"
    have w: "write_chunk_to_cloud True None off ?fc st = Some (None, ?fc\<lparr>fc_address := ?a\<rparr>, st1, True)"
      by (simp add: write_chunk_to_cloud_def s(1))
    have room: "bin_room (Suc (length fcs + m)) rep b" using Cons.prems(1) by simp
    have b1: "bin_room (length fcs + m) rep ?b" "entries ?b = (entries b)(?h \<mapsto> ?a)" "b_address ?b = b_address b"
      using bin_insert [OF room h(1) s(2) None refl] by blast+
    obtain fcs' b' st' where IH: "mark_new_file True None (off + chunklen fc) fcs ?b st1 = Some (fcs', b', st')"
      "bin_room m rep b'" "b_address b' = b_address ?b" "sim_room n st'" "entries ?b \<subseteq>\<^sub>m entries b'"
      "dom (entries b') = dom (entries ?b) \<union> chunk_hash ` set fcs" "flagged (dom (entries ?b)) (\<lambda>h. the (entries b' h)) fcs fcs'"
      using Cons.IH [OF b1(1) s(3) h(2)] by blast
    have "entries ?b ?h = Some ?a" unfolding b1(2) by simp
    moreover from this have "?h \<in> dom (entries ?b)" by (rule domI)
    then have "entries ?b ?h = entries b' ?h" using IH(5) unfolding map_le_def by blast
    ultimately have a: "entries b' ?h = Some ?a" by (rule trans [OF sym, rotated])
    have d: "dom (entries ?b) = insert ?h (dom (entries b))" unfolding b1(2) by simp
    have "entries b \<subseteq>\<^sub>m entries ?b" using e by (auto simp: map_le_def b1(2))
    then have le: "entries b \<subseteq>\<^sub>m entries b'" using IH(5) map_le_trans by blast
    let ?fc' = "?fc\<lparr>fc_address := ?a\<rparr>"
    have "mark_new_file True None off (fc # fcs) b st = Some (?fc' # fcs', b', st')"
      using IH(1) by (simp add: None w)
    moreover have "dom (entries b') = dom (entries b) \<union> chunk_hash ` set (fc # fcs)" unfolding IH(6) d by simp
    moreover have "flagged (dom (entries b)) (\<lambda>h. the (entries b' h)) (fc # fcs) (?fc' # fcs')"
    proof -
      have "?h \<notin> dom (entries b)" using e by (simp add: domIff)
      moreover have "?a = the (entries b' ?h)" by (simp add: a)
      ultimately show ?thesis using IH(7) unfolding d by simp
    qed
    ultimately show ?thesis using IH(2-4) b1(3) le by metis
  qed
qed

lemma entries_length: "bin_ok rep b \<Longrightarrow> entries b h = Some a \<Longrightarrow> length a = 64"
  by (auto simp: bin_ok_def entries_def meta_ok_def dest!: map_of_SomeD)

lemma flagged_append:
  "flagged seen A fcs fcs' \<Longrightarrow> flagged (seen \<union> chunk_hash ` set fcs) A gcs gcs' \<Longrightarrow> flagged seen A (fcs @ gcs) (fcs' @ gcs')"
proof (induction fcs arbitrary: seen fcs')
  case (Cons fc fcs)
  then show ?case by auto
qed simp

lemma flagged_cong: "flagged seen A fcs fcs' \<Longrightarrow> \<forall>fc\<in>set fcs. A (chunk_hash fc) = B (chunk_hash fc) \<Longrightarrow> flagged seen B fcs fcs'"
  by (induction fcs arbitrary: seen fcs') auto

section \<open>Files and streams\<close>

definition sim_ok :: "nat \<Rightarrow> exbin \<Rightarrow> store \<Rightarrow> (fingerprint \<rightharpoonup> chunkaddress) \<Rightarrow> bool" where
  "sim_ok n ex st m \<longleftrightarrow> exbin_ok ex \<and> bin_view ex (memset0 20) m \<and> sim_room n st \<and> card (dom m) + n < 25000000"

lemma simulate_file_spec:
  assumes ok: "sim_ok (length (fchunks fi) + n) ex st m" and fi: "length (file_hash fi) = 20" "0 \<le> chunknum fi" "fi_is_new fi = NEW_FILE"
    and h: "\<forall>fc\<in>set (fchunks fi). length (chunk_hash fc) = 20"
  shows "\<exists>ex' st' fi' m'. simulate_file ex st fi = Some (ex', st', Some fi') \<and> sim_ok n ex' st' m' \<and> m \<subseteq>\<^sub>m m' \<and>
    dom m' = dom m \<union> chunk_hash ` set (fchunks fi) \<and> (\<forall>h a. m' h = Some a \<longrightarrow> length a = 64) \<and>
    flagged (dom m) (\<lambda>h. the (m' h)) (fchunks fi) (fchunks fi') \<and> file_size fi' = file_size fi \<and> chunknum fi' = chunknum fi"
proof -
  let ?rep = "memset0 20 :: byte list" and ?fi = "calculate_rep_finger fi"
  have fi1: "rep_finger ?fi = ?rep" "file_hash ?fi = file_hash fi" "chunknum ?fi = chunknum fi" "fchunks ?fi = fchunks fi"
    "fi_is_new ?fi = NEW_FILE" using fi by (simp_all add: calculate_rep_finger_def)
  have ex: "exbin_ok ex" and v: "bin_view ex ?rep m" using ok by (simp_all add: sim_ok_def)
  obtain ex1 b where L: "LoadBin ex ?fi = Some (ex1, b)" "exbin_ok ex1" "htable_lookup (bin_cache ex1) ?rep = Some b" "bin_view ex ?rep (entries b)"
    using LoadBin_spec [OF ex, of ?fi] fi1 fi by auto
  have m: "entries b = m" using bin_view_unique [OF L(4) v] .
  have bok: "bin_ok ?rep b" using exbin_okD(5) [OF L(2,3)] by simp
  have broom: "bin_room (length (fchunks fi) + n) ?rep b" using ok bok bin_size_entries [OF bok] m by (simp add: bin_room_def sim_ok_def)
  have sroom: "sim_room (length (fchunks fi) + n) st" using ok by (simp add: sim_ok_def)
  obtain fcs' b' st' where M: "mark_new_file True None 0 (fchunks fi) b st = Some (fcs', b', st')" "bin_room n ?rep b'" "b_address b' = b_address b"
    "sim_room n st'" "entries b \<subseteq>\<^sub>m entries b'" "dom (entries b') = dom (entries b) \<union> chunk_hash ` set (fchunks fi)"
    "flagged (dom (entries b)) (\<lambda>h. the (entries b' h)) (fchunks fi) fcs'"
    using sim_mark_new_file [OF broom sroom h] by blast
  have b': "bin_ok ?rep b'" using M(2) by (simp add: bin_room_def)
  have rl: "length ?rep = 20" by simp
  note P = put_bin_spec [OF L(2) rl L(3) b' M(3)]
  have "sim_ok n (put_bin b' ex1) st' (entries b')"
    using P(1,2) M(2,4) bin_size_entries [OF b'] by (simp add: sim_ok_def bin_room_def)
  moreover have "simulate_file ex st fi = Some (put_bin b' ex1, st', Some (?fi\<lparr>fchunks := fcs'\<rparr>))"
    using L(1) M(1) fi1 by (simp add: simulate_file_def mark_no_rewrite_def)
  moreover have "file_size ?fi = file_size fi" by (simp add: calculate_rep_finger_def)
  ultimately show ?thesis using M(5-7) fi1(3) entries_length [OF b'] unfolding m by (intro exI) (auto simp: fi1(3))
qed

lemma traced_fields: "length (file_hash (traced f)) = 20" "chunknum (traced f) = int (length (snd f))" "fi_is_new (traced f) = NEW_FILE"
  "fchunks (traced f) = map traced_chunk (snd f)" "file_size (traced f) = int (sum_list (map snd (snd f)))"
  by (simp_all add: traced_def traced_file_def file_new_def)

lemma traced_chunk_fields: "chunk_hash (traced_chunk c) = fst c" "chunklen (traced_chunk c) = int (snd c)"
  by (simp_all add: traced_chunk_def)

abbreviation (input) all_chunks :: "trace_file list \<Rightarrow> (fingerprint \<times> nat) list" where
  "all_chunks F \<equiv> concat (map snd F)"

lemma simulate_stream:
  assumes "sim_ok (length (all_chunks F) + n) ex st m" "\<forall>f\<in>set F. trace_file_ok f" "\<forall>h a. m h = Some a \<longrightarrow> length a = 64"
    and e: "chunknum e = STREAM_END"
  shows "\<exists>ex' st' out m'. simulate_chunk_dedup_module ex st (map traced F @ [e]) = Some (ex', st', out @ [e]) \<and> sim_ok n ex' st' m' \<and>
    m \<subseteq>\<^sub>m m' \<and> dom m' = dom m \<union> fst ` set (all_chunks F) \<and> (\<forall>h a. m' h = Some a \<longrightarrow> length a = 64) \<and>
    flagged (dom m) (\<lambda>h. the (m' h)) (map traced_chunk (all_chunks F)) (concat (map fchunks out)) \<and>
    (\<forall>fi\<in>set out. chunknum fi \<noteq> STREAM_END) \<and> sum_list (map file_size out) = int (sum_list (map snd (all_chunks F)))"
  using assms(1-3)
proof (induction F arbitrary: ex st m)
  case Nil
  then show ?case using e by (intro exI [of _ ex] exI [of _ st] exI [of _ "[]"] exI [of _ m]) simp
next
  case (Cons f F)
  note T = traced_fields [of f]
  have ok: "sim_ok (length (fchunks (traced f)) + (length (all_chunks F) + n)) ex st m" using Cons.prems(1) T(4) by (simp add: add.assoc)
  have h: "\<forall>fc\<in>set (fchunks (traced f)). length (chunk_hash fc) = 20"
    using Cons.prems(2) unfolding T(4) by (auto simp: trace_file_ok_def traced_chunk_fields)
  obtain ex1 st1 fi1 m1 where S: "simulate_file ex st (traced f) = Some (ex1, st1, Some fi1)" "sim_ok (length (all_chunks F) + n) ex1 st1 m1" "m \<subseteq>\<^sub>m m1"
    "dom m1 = dom m \<union> chunk_hash ` set (fchunks (traced f))" "\<forall>h a. m1 h = Some a \<longrightarrow> length a = 64"
    "flagged (dom m) (\<lambda>h. the (m1 h)) (fchunks (traced f)) (fchunks fi1)" "file_size fi1 = file_size (traced f)" "chunknum fi1 = chunknum (traced f)"
    using simulate_file_spec [OF ok T(1) _ T(3) h] T(2) by auto
  obtain ex' st' out m' where R: "simulate_chunk_dedup_module ex1 st1 (map traced F @ [e]) = Some (ex', st', out @ [e])" "sim_ok n ex' st' m'"
    "m1 \<subseteq>\<^sub>m m'" "dom m' = dom m1 \<union> fst ` set (all_chunks F)" "\<forall>h a. m' h = Some a \<longrightarrow> length a = 64"
    "flagged (dom m1) (\<lambda>h. the (m' h)) (map traced_chunk (all_chunks F)) (concat (map fchunks out))"
    "\<forall>fi\<in>set out. chunknum fi \<noteq> STREAM_END" "sum_list (map file_size out) = int (sum_list (map snd (all_chunks F)))"
    using Cons.IH [OF S(2) _ S(5)] Cons.prems(2) by auto
  have hs: "chunk_hash ` set (fchunks (traced f)) = fst ` set (snd f)" unfolding T(4) by (auto simp: image_image traced_chunk_fields)
  have "m1 (chunk_hash fc) = m' (chunk_hash fc)" if "fc \<in> set (fchunks (traced f))" for fc
    using that S(4) R(3) unfolding map_le_def by auto
  then have "flagged (dom m) (\<lambda>h. the (m' h)) (fchunks (traced f)) (fchunks fi1)" by (intro flagged_cong [OF S(6)]) simp
  then have fl: "flagged (dom m) (\<lambda>h. the (m' h)) (map traced_chunk (all_chunks (f # F))) (concat (map fchunks (fi1 # out)))"
    using flagged_append [OF _ R(6) [unfolded S(4)]] T(4) by simp
  have "simulate_chunk_dedup_module ex st (map traced (f # F) @ [e]) = Some (ex', st', (fi1 # out) @ [e])"
    using S(1) R(1) T(2) by simp
  moreover have "dom m' = dom m \<union> fst ` set (all_chunks (f # F))" unfolding R(4) S(4) hs by auto
  moreover have "m \<subseteq>\<^sub>m m'" using S(3) R(3) map_le_trans by blast
  moreover have "\<forall>fi\<in>set (fi1 # out). chunknum fi \<noteq> STREAM_END" using S(8) T(2) R(7) by simp
  moreover have "sum_list (map file_size (fi1 # out)) = int (sum_list (map snd (all_chunks (f # F))))" using S(7) T(5) R(8) by simp
  ultimately show ?case using R(2,5) fl by blast
qed

section \<open>Counting\<close>

definition seg_at :: "unit htable \<Rightarrow> chunkaddress set \<Rightarrow> bool" where
  "seg_at t S \<longleftrightarrow> ht.clean 64 t \<and> fst ` set (htable_items t) = S"

lemma seg_at_count: "seg_at t S \<Longrightarrow> htable_size t = card S \<and> length (htable_items t) = card S"
proof -
  assume s: "seg_at t S"
  then have c: "ht_inv 64 t" "distinct (map fst (htable_items t))" using htable_cleanD by (auto simp: seg_at_def)
  have "card S = length (htable_items t)" using s distinct_card [OF c(2)] by (simp add: seg_at_def)
  with c(1) show ?thesis by (simp add: htable_size_def ht_inv_def)
qed

lemma seg_at_add: "seg_at t S \<Longrightarrow> length (fc_address fc) = 64 \<Longrightarrow> seg_at (get_restore_info t fc) (insert (fc_address fc) S)"
proof -
  assume s: "seg_at t S" and l: "length (fc_address fc) = 64"
  then have c: "ht.clean 64 t" "ht_inv 64 t" using htable_cleanD by (auto simp: seg_at_def)
  show ?thesis
  proof (cases "htable_lookup t (fc_address fc)")
    case None
    then have "ht.clean 64 (htable_insert (fc_address fc) () t)" by (rule ht.clean_insert [OF c(1) l])
    with None s c(2) l show ?thesis by (simp add: seg_at_def get_restore_info_def set_htable_insert)
  next
    case (Some x)
    then have "fc_address fc \<in> S" using htable_lookup_None [OF c(2) l] s by (auto simp: seg_at_def)
    with Some s show ?thesis by (simp add: get_restore_info_def insert_absorb)
  qed
qed

lemma count_flagged:
  assumes g: "glib_ok g elems"
  shows "flagged seen A (map traced_chunk cs) fcs' \<Longrightarrow> seg_at (sm_restore_segments r) S \<Longrightarrow> lru_at elems n h (sm_cache r) \<Longrightarrow>
    \<forall>x\<in>set h. length x = 64 \<Longrightarrow> \<forall>c\<in>set cs. length (A (fst c)) = 64 \<Longrightarrow>
    sm_total_dedup_size (foldl (count_chunk g) r fcs') = sm_total_dedup_size r + int (duplicate_bytes seen cs) \<and>
    seg_at (sm_restore_segments (foldl (count_chunk g) r fcs')) (S \<union> (\<lambda>c. A (fst c)) ` set cs) \<and>
    lru_at elems n (rev (map (\<lambda>c. A (fst c)) cs) @ h) (sm_cache (foldl (count_chunk g) r fcs'))"
proof (induction cs arbitrary: seen fcs' r S h)
  case Nil
  then show ?case by simp
next
  case (Cons c cs)
  then obtain fc r' where f: "fcs' = fc # r'" "chunklen fc = int (snd c)" "fc_address fc = A (fst c)"
    "fc_is_new fc = (if fst c \<in> seen then DEDUP_CHUNK else NEW_CHUNK)" "flagged (insert (fst c) seen) A (map traced_chunk cs) r'"
    by (auto simp: traced_chunk_fields)
  let ?a = "A (fst c)" and ?r = "count_chunk g r fc"
  have a: "length ?a = 64" using Cons.prems(5) by simp
  have s: "seg_at (sm_restore_segments ?r) (insert ?a S)" using seg_at_add [OF Cons.prems(2), of fc] a f(3) by (simp add: count_chunk_def)
  have l: "lru_at elems n (?a # h) (sm_cache ?r)" using cache_access_spec [OF g Cons.prems(3) a Cons.prems(4)] f(3) by (simp add: count_chunk_def)
  have d: "sm_total_dedup_size ?r = sm_total_dedup_size r + (if fst c \<in> seen then int (snd c) else 0)" using f(2,4) by (simp add: count_chunk_def)
  have h: "\<forall>x\<in>set (?a # h). length x = 64" "\<forall>c\<in>set cs. length (A (fst c)) = 64" using Cons.prems(4,5) a by auto
  from Cons.IH [OF f(5) s l h] d f(1) show ?case by simp
qed

lemma count_old_size: "foldl (count_chunk g) (r\<lparr>sm_old_size := x\<rparr>) fcs = (foldl (count_chunk g) r fcs)\<lparr>sm_old_size := x\<rparr>"
proof (induction fcs arbitrary: r)
  case (Cons fc fcs)
  have "count_chunk g (r\<lparr>sm_old_size := x\<rparr>) fc = (count_chunk g r fc)\<lparr>sm_old_size := x\<rparr>" by (cases r) (simp add: count_chunk_def)
  with Cons show ?case by simp
qed simp

lemma count_old_size_same: "sm_old_size (foldl (count_chunk g) r fcs) = sm_old_size r"
  by (induction fcs arbitrary: r) (simp_all add: count_chunk_def)

lemma get_results:
  "\<forall>fi\<in>set out. chunknum fi \<noteq> STREAM_END \<Longrightarrow> chunknum e = STREAM_END \<Longrightarrow>
    get_dedup_result_module g (out @ [e]) r =
      Some ((foldl (count_chunk g) r (concat (map fchunks out)))\<lparr>sm_old_size := sm_old_size r + sum_list (map file_size out)\<rparr>)"
proof (induction out arbitrary: r)
  case Nil
  then show ?case by simp
next
  case (Cons fi out)
  let ?r = "foldl (count_chunk g) (r\<lparr>sm_old_size := sm_old_size r + file_size fi\<rparr>) (fchunks fi)"
  have "get_dedup_result_module g ((fi # out) @ [e]) r = get_dedup_result_module g (out @ [e]) ?r" using Cons.prems by simp
  also have "\<dots> = Some ((foldl (count_chunk g) ?r (concat (map fchunks out)))\<lparr>sm_old_size := sm_old_size ?r + sum_list (map file_size out)\<rparr>)"
    using Cons by simp
  also have "sm_old_size ?r = sm_old_size r + file_size fi" by (simp add: count_old_size_same)
  finally show ?case by (simp add: count_old_size add.assoc)
qed

section \<open>Properties\<close>



end
