(* ===== verification/Bloom.thy ===== *)
theory Bloom
  imports Prelude
begin

unbundle bit_operations_syntax

text \<open>
  The Bloom filter of the server (server/lib/bloom.c): an array of bits, addressed by hash values of 32 bits modulo its
  size. The hash values come as arguments. A size of zero makes the first use divide by zero
  (\<open>None\<close>). The number of bytes is computed in 64 bits; that there is memory for them is taken for granted.
\<close>

record bloom =
  asize :: nat
  bl_a :: "byte list"

definition bloom_create :: "nat \<Rightarrow> bloom" where
  "bloom_create n = \<lparr>asize = n, bl_a = replicate (((n + 8 - 1) mod 2 ^ 64) div 8) 0\<rparr>"

definition SETBIT :: "byte list \<Rightarrow> nat \<Rightarrow> byte list" where
  "SETBIT a n = a[n div 8 := (a ! (n div 8)) OR push_bit (n mod 8) 1]"

definition GETBIT :: "byte list \<Rightarrow> nat \<Rightarrow> byte" where
  "GETBIT a n = (a ! (n div 8)) AND push_bit (n mod 8) 1"

fun bloom_setbit :: "bloom \<Rightarrow> 32 word list \<Rightarrow> bloom option" where
  "bloom_setbit b [] = Some b"
| "bloom_setbit b (pos # ps) =
     (if asize b = 0 then None else bloom_setbit (b\<lparr>bl_a := SETBIT (bl_a b) (unat pos mod asize b)\<rparr>) ps)"

fun bloom_check :: "bloom \<Rightarrow> 32 word list \<Rightarrow> bool option" where
  "bloom_check b [] = Some True"
| "bloom_check b (pos # ps) =
     (if asize b = 0 then None
      else if GETBIT (bl_a b) (unat pos mod asize b) = 0 then Some False else bloom_check b ps)"

section \<open>The set of bits\<close>

definition bloom_ok :: "bloom \<Rightarrow> bool" where
  "bloom_ok b \<longleftrightarrow> 0 < asize b \<and> length (bl_a b) = (asize b + 7) div 8"

definition bits_of :: "bloom \<Rightarrow> nat set" where
  "bits_of b = {n. n < asize b \<and> bit (bl_a b ! (n div 8)) (n mod 8)}"

lemma in_array: "bloom_ok b \<Longrightarrow> n < asize b \<Longrightarrow> n div 8 < length (bl_a b)"
  using div_le_mono [of "n + 8" "asize b + 7" 8] by (simp add: bloom_ok_def)

lemma getbit_bit: "GETBIT a n \<noteq> 0 \<longleftrightarrow> bit (a ! (n div 8)) (n mod 8)"
proof -
  have m: "n mod 8 < 8" by simp
  have "bit (GETBIT a n) k \<longleftrightarrow> bit (a ! (n div 8)) k \<and> k = n mod 8" for k
    using m by (auto simp: GETBIT_def bit_simps)
  then show ?thesis by (metis bit_0_eq bit_eqI bot_apply bot_bool_def)
qed

lemma setbit_bits:
  assumes b: "bloom_ok b" and n: "n < asize b"
  shows "bloom_ok (b\<lparr>bl_a := SETBIT (bl_a b) n\<rparr>)" "bits_of (b\<lparr>bl_a := SETBIT (bl_a b) n\<rparr>) = insert n (bits_of b)"
proof -
  show "bloom_ok (b\<lparr>bl_a := SETBIT (bl_a b) n\<rparr>)" using b by (simp add: bloom_ok_def SETBIT_def)
  have "bit (SETBIT (bl_a b) n ! (k div 8)) (k mod 8) \<longleftrightarrow> k = n \<or> bit (bl_a b ! (k div 8)) (k mod 8)" for k
  proof (cases "k div 8 = n div 8")
    case True
    have "k mod 8 < 8" by simp
    moreover have "k = n \<longleftrightarrow> k mod 8 = n mod 8" using True by (metis div_mult_mod_eq)
    ultimately show ?thesis using in_array [OF b n] True by (auto simp: SETBIT_def bit_simps)
  next
    case False
    then show ?thesis by (auto simp: SETBIT_def)
  qed
  then show "bits_of (b\<lparr>bl_a := SETBIT (bl_a b) n\<rparr>) = insert n (bits_of b)" using n by (auto simp: bits_of_def)
qed

lemma bloom_setbit_bits:
  "bloom_ok b \<Longrightarrow> \<exists>b'. bloom_setbit b ps = Some b' \<and> bloom_ok b' \<and> asize b' = asize b \<and>
    bits_of b' = bits_of b \<union> (\<lambda>p. unat p mod asize b) ` set ps"
proof (induction ps arbitrary: b)
  case (Cons p ps)
  let ?n = "unat p mod asize b"
  have n: "?n < asize b" "asize b \<noteq> 0" using Cons.prems by (auto simp: bloom_ok_def)
  note S = setbit_bits [OF Cons.prems n(1)]
  from Cons.IH [OF S(1)] S(2) n(2) show ?case by auto
qed simp

lemma bloom_check_bits: "bloom_ok b \<Longrightarrow> bloom_check b ps = Some ((\<lambda>p. unat p mod asize b) ` set ps \<subseteq> bits_of b)"
proof (induction ps)
  case (Cons p ps)
  have n: "unat p mod asize b < asize b" "asize b \<noteq> 0" using Cons.prems by (auto simp: bloom_ok_def)
  have "GETBIT (bl_a b) (unat p mod asize b) = 0 \<longleftrightarrow> unat p mod asize b \<notin> bits_of b" using getbit_bit n(1) by (auto simp: bits_of_def)
  with Cons n(2) show ?case by simp
qed simp

lemma bloom_create_bits:
  assumes "0 < n" "n + 7 < 2 ^ 64"
  shows "bloom_ok (bloom_create n)" "bits_of (bloom_create n) = {}"
proof -
  show ok: "bloom_ok (bloom_create n)" using assms by (simp add: bloom_ok_def bloom_create_def)
  show "bits_of (bloom_create n) = {}"
    using in_array [OF ok] by (auto simp: bits_of_def) (auto simp: bloom_create_def)
qed

section \<open>The filter as a set\<close>

text \<open>A filter answers as the set of the residues that were entered would: it never denies what was entered, and it claims
  exactly the values whose residues are all there. It returns whenever its size is not zero and is so small that the
  length of the array in bytes is computed without wrap-around.\<close>

lemma bloom_is_set:
  assumes "0 < n" "n + 7 < 2 ^ 64"
  shows "\<exists>b. bloom_setbit (bloom_create n) qs = Some b \<and>
    (\<forall>ps. bloom_check b ps = Some (\<forall>p\<in>set ps. \<exists>q\<in>set qs. unat p mod n = unat q mod n)) \<and>
    (\<forall>ps. set ps \<subseteq> set qs \<longrightarrow> bloom_check b ps = Some True)"
proof -
  note C = bloom_create_bits [OF assms]
  have s: "asize (bloom_create n) = n" by (simp add: bloom_create_def)
  obtain b where b: "bloom_setbit (bloom_create n) qs = Some b" "bloom_ok b" "asize b = n"
    "bits_of b = (\<lambda>p. unat p mod n) ` set qs"
    using bloom_setbit_bits [OF C(1), of qs] C(2) s by auto
  have "bloom_check b ps = Some (\<forall>p\<in>set ps. \<exists>q\<in>set qs. unat p mod n = unat q mod n)" for ps
    using bloom_check_bits [OF b(2), of ps] b(3,4) by (auto simp: image_iff subset_iff)
  with b(1) show ?thesis by (intro exI [of _ b]) auto
qed

end
