(* ===== verification/Zmalloc.thy ===== *)
theory Zmalloc
  imports Prelude
begin

unbundle bit_operations_syntax

text \<open>
  The allocator that counts (client/lib/zmalloc.c; the server has the same file). A block is preceded by its size, which is
  what is kept of it here: \<open>zm_blocks\<close> maps the pointers that were handed out to the size they were asked for. What
  \<open>malloc\<close> and \<open>realloc\<close> return is an argument, \<open>None\<close> when there is no memory; the program is aborted then. What is in a block (so \<open>zstrdup\<close>), and
  the functions that ask the operating system for statistics, are left out.
\<close>

record zmalloc =
  zm_blocks :: "nat \<rightharpoonup> 64 word"
  used_memory :: "64 word"
  zmalloc_allocations :: "64 word list"
  zmalloc_thread_safe :: bool

definition ZMALLOC_MAX_ALLOC_STAT :: nat where "ZMALLOC_MAX_ALLOC_STAT = 256"

definition PREFIX_SIZE :: "64 word" where "PREFIX_SIZE = 8"

definition zm_start :: zmalloc where
  "zm_start = \<lparr>zm_blocks = Map.empty, used_memory = 0, zmalloc_allocations = replicate (ZMALLOC_MAX_ALLOC_STAT + 1) 0, zmalloc_thread_safe = False\<rparr>"

text \<open>\<open>if (_n & (sizeof(long)-1)) _n += sizeof(long) - (_n & (sizeof(long)-1))\<close>\<close>

definition round_long :: "64 word \<Rightarrow> 64 word" where
  "round_long n = (if n AND 7 \<noteq> 0 then n + (8 - (n AND 7)) else n)"

definition update_zmalloc_stat_alloc :: "64 word \<Rightarrow> 64 word \<Rightarrow> zmalloc \<Rightarrow> zmalloc" where
  "update_zmalloc_stat_alloc n sz z =
     (let slot = (if unat sz < ZMALLOC_MAX_ALLOC_STAT then unat sz else ZMALLOC_MAX_ALLOC_STAT)
      in z\<lparr>used_memory := used_memory z + round_long n,
           zmalloc_allocations := (zmalloc_allocations z)[slot := zmalloc_allocations z ! slot + 1]\<rparr>)"

definition update_zmalloc_stat_free :: "64 word \<Rightarrow> zmalloc \<Rightarrow> zmalloc" where
  "update_zmalloc_stat_free n z = z\<lparr>used_memory := used_memory z - round_long n\<rparr>"

text \<open>The pointer that is handed out; \<open>None\<close> is an abort.\<close>

definition zmalloc :: "64 word \<Rightarrow> nat option \<Rightarrow> zmalloc \<Rightarrow> (zmalloc \<times> nat) option" where
  "zmalloc sz ptr z =
     (case ptr of
        None \<Rightarrow> None
      | Some p \<Rightarrow> Some ((update_zmalloc_stat_alloc (sz + PREFIX_SIZE) sz z)\<lparr>zm_blocks := (zm_blocks z)(p + 8 \<mapsto> sz)\<rparr>, p + 8))"

definition zcalloc :: "64 word \<Rightarrow> nat option \<Rightarrow> zmalloc \<Rightarrow> (zmalloc \<times> nat) option" where
  "zcalloc sz ptr z =
     (case ptr of
        None \<Rightarrow> None
      | Some p \<Rightarrow> Some ((update_zmalloc_stat_alloc (sz + PREFIX_SIZE) sz z)\<lparr>zm_blocks := (zm_blocks z)(p + 8 \<mapsto> sz)\<rparr>, p + 8))"

text \<open>The size before a pointer that was not handed out is whatever lies there: undefined, and no result either.\<close>

definition zrealloc :: "nat option \<Rightarrow> 64 word \<Rightarrow> nat option \<Rightarrow> zmalloc \<Rightarrow> (zmalloc \<times> nat) option" where
  "zrealloc ptr sz new z =
     (case ptr of
        None \<Rightarrow> zmalloc sz new z
      | Some p \<Rightarrow>
          (case (zm_blocks z p, new) of
             (Some oldsize, Some q) \<Rightarrow>
               Some ((update_zmalloc_stat_alloc sz sz (update_zmalloc_stat_free oldsize z))
                 \<lparr>zm_blocks := (zm_blocks z)(p := None, q + 8 \<mapsto> sz)\<rparr>, q + 8)
           | _ \<Rightarrow> None))"

definition zfree :: "nat option \<Rightarrow> zmalloc \<Rightarrow> zmalloc option" where
  "zfree ptr z =
     (case ptr of
        None \<Rightarrow> Some z
      | Some p \<Rightarrow>
          (case zm_blocks z p of
             None \<Rightarrow> None
           | Some oldsize \<Rightarrow> Some ((update_zmalloc_stat_free (oldsize + PREFIX_SIZE) z)\<lparr>zm_blocks := (zm_blocks z)(p := None)\<rparr>)))"

definition zmalloc_used_memory :: "zmalloc \<Rightarrow> 64 word" where
  "zmalloc_used_memory z = used_memory z"

definition zmalloc_allocations_for_size :: "64 word \<Rightarrow> zmalloc \<Rightarrow> 64 word" where
  "zmalloc_allocations_for_size sz z =
     (if unat sz > ZMALLOC_MAX_ALLOC_STAT then 0 else zmalloc_allocations z ! unat sz)"

definition zmalloc_enable_thread_safeness :: "zmalloc \<Rightarrow> zmalloc" where
  "zmalloc_enable_thread_safeness z = z\<lparr>zmalloc_thread_safe := True\<rparr>"

section \<open>Use\<close>

text \<open>What a program does with it. \<open>malloc\<close> and \<open>realloc\<close> never return a block that is in use, but \<open>realloc\<close> may return the one it was given.\<close>

datatype zm_op = Zmalloc "64 word" nat | Zcalloc "64 word" nat | Zrealloc "nat option" "64 word" nat | Zfree "nat option"

fun zm_step :: "zm_op \<Rightarrow> zmalloc \<Rightarrow> zmalloc option" where
  "zm_step (Zmalloc sz p) z = (if zm_blocks z (p + 8) \<noteq> None then None else map_option fst (zmalloc sz (Some p) z))"
| "zm_step (Zcalloc sz p) z = (if zm_blocks z (p + 8) \<noteq> None then None else map_option fst (zcalloc sz (Some p) z))"
| "zm_step (Zrealloc ptr sz p) z =
     (if zm_blocks z (p + 8) \<noteq> None \<and> ptr \<noteq> Some (p + 8) then None else map_option fst (zrealloc ptr sz (Some p) z))"
| "zm_step (Zfree ptr) z = zfree ptr z"

fun zm_steps :: "zm_op list \<Rightarrow> zmalloc \<Rightarrow> zmalloc option" where
  "zm_steps [] z = Some z"
| "zm_steps (x # xs) z = Option.bind (zm_step x z) (zm_steps xs)"

definition block_cost :: "64 word \<Rightarrow> 64 word" where
  "block_cost sz = round_long sz + 8"

definition zm_ok :: "zmalloc \<Rightarrow> bool" where
  "zm_ok z \<longleftrightarrow> finite (dom (zm_blocks z)) \<and> used_memory z = (\<Sum>p\<in>dom (zm_blocks z). block_cost (the (zm_blocks z p)))"

lemma round_prefix: "round_long (n + PREFIX_SIZE) = block_cost n"
proof -
  have "unat (take_bit 3 (n + 8)) = unat (take_bit 3 (n :: 64 word))"
    by (simp add: unsigned_take_bit_eq unat_word_ariths take_bit_eq_mod mod_mod_cancel)
  then have "take_bit 3 (n + 8) = take_bit 3 (n :: 64 word)" by (rule unsigned_word_eqI)
  then have "(n + 8) AND 7 = n AND (7 :: 64 word)" by (simp add: take_bit_eq_mask mask_eq_exp_minus_1)
  then show ?thesis by (simp add: round_long_def block_cost_def PREFIX_SIZE_def)
qed

lemma sum_enter:
  assumes "finite (dom m)" "m p = None"
  shows "(\<Sum>q\<in>dom (m(p \<mapsto> v)). block_cost (the ((m(p \<mapsto> v)) q))) = block_cost v + (\<Sum>q\<in>dom m. block_cost (the (m q)))"
proof -
  have "(\<Sum>q\<in>dom m. block_cost (the ((m(p \<mapsto> v)) q))) = (\<Sum>q\<in>dom m. block_cost (the (m q)))"
    using assms(2) by (intro sum.cong) auto
  then show ?thesis using assms by (simp add: domIff del: fun_upd_apply) simp
qed

lemma sum_drop:
  assumes "finite (dom m)" "m p = Some v"
  shows "(\<Sum>q\<in>dom (m(p := None)). block_cost (the ((m(p := None)) q))) = (\<Sum>q\<in>dom m. block_cost (the (m q))) - block_cost v"
proof -
  have m: "(m(p := None))(p \<mapsto> v) = m" using assms(2) by auto
  have "finite (dom (m(p := None)))" "(m(p := None)) p = None" using assms(1) by auto
  from sum_enter [OF this, of v] show ?thesis unfolding m by (metis add_diff_cancel_left')
qed

lemma zm_ok_enter:
  assumes "zm_ok z" "zm_blocks z p = None"
  shows "zm_ok (z\<lparr>used_memory := used_memory z + block_cost s, zmalloc_allocations := a, zm_blocks := (zm_blocks z)(p \<mapsto> s)\<rparr>)"
  using assms sum_enter [of "zm_blocks z" p s] by (simp add: zm_ok_def del: fun_upd_apply)

lemma zm_ok_drop:
  assumes "zm_ok z" "zm_blocks z p = Some s"
  shows "zm_ok (z\<lparr>used_memory := used_memory z - block_cost s, zm_blocks := (zm_blocks z)(p := None)\<rparr>)"
  using assms sum_drop [of "zm_blocks z" p s] by (simp add: zm_ok_def del: fun_upd_apply)

definition counts_ok :: "nat \<Rightarrow> zmalloc \<Rightarrow> bool" where
  "counts_ok k z \<longleftrightarrow> length (zmalloc_allocations z) = ZMALLOC_MAX_ALLOC_STAT + 1 \<and> sum_list (zmalloc_allocations z) = of_nat k"

lemma sum_list_count:
  fixes xs :: "64 word list"
  assumes "i < length xs"
  shows "sum_list (xs[i := xs ! i + 1]) = sum_list xs + 1"
  using assms by (induction xs arbitrary: i) (auto split: nat.split)

lemma counts_alloc: "counts_ok k z \<Longrightarrow> counts_ok (Suc k) (update_zmalloc_stat_alloc n s z)"
  by (auto simp: counts_ok_def update_zmalloc_stat_alloc_def Let_def sum_list_count)

lemma counts_free: "counts_ok k z \<Longrightarrow> counts_ok k (update_zmalloc_stat_free n z)"
  by (auto simp: counts_ok_def update_zmalloc_stat_free_def)

lemma counts_blocks [simp]: "counts_ok k (z\<lparr>zm_blocks := m\<rparr>) \<longleftrightarrow> counts_ok k z"
  by (simp add: counts_ok_def)

fun op_allocates :: "zm_op \<Rightarrow> bool" where
  "op_allocates (Zfree ptr) \<longleftrightarrow> False"
| "op_allocates x \<longleftrightarrow> True"

lemma zmalloc_step_keeps:
  assumes z: "zm_ok z" "counts_ok k z" and p: "zm_blocks z (p + 8) = None"
  shows "\<exists>z'. zmalloc s (Some p) z = Some (z', p + 8) \<and> zm_ok z' \<and> counts_ok (Suc k) z'"
    "zcalloc s (Some p) z = zmalloc s (Some p) z"
proof -
  let ?z' = "(update_zmalloc_stat_alloc (s + PREFIX_SIZE) s z)\<lparr>zm_blocks := (zm_blocks z)(p + 8 \<mapsto> s)\<rparr>"
  have "zm_ok ?z'" using zm_ok_enter [OF z(1) p, of s] by (simp add: round_prefix update_zmalloc_stat_alloc_def Let_def)
  moreover have "counts_ok (Suc k) ?z'" using counts_alloc [OF z(2)] by simp
  ultimately show "\<exists>z'. zmalloc s (Some p) z = Some (z', p + 8) \<and> zm_ok z' \<and> counts_ok (Suc k) z'" by (simp add: zmalloc_def)
  show "zcalloc s (Some p) z = zmalloc s (Some p) z" by (simp add: zcalloc_def zmalloc_def)
qed

lemma zrealloc_step_keeps:
  assumes z: "zm_ok z" "counts_ok k z" "zm_blocks z p = Some old" and q: "((zm_blocks z)(p := None)) (q + 8) = None"
  shows "\<exists>z'. zrealloc (Some p) s (Some q) z = Some (z', q + 8) \<and> zm_ok z' \<and> counts_ok (Suc k) z'"
proof -
  let ?z' = "(update_zmalloc_stat_alloc s s (update_zmalloc_stat_free old z))\<lparr>zm_blocks := (zm_blocks z)(p := None, q + 8 \<mapsto> s)\<rparr>"
  have "zm_ok ?z'"
    using zm_ok_enter [OF zm_ok_drop [OF z(1,3)], of "q + 8" s] q
    by (simp add: update_zmalloc_stat_alloc_def update_zmalloc_stat_free_def Let_def block_cost_def zm_ok_def algebra_simps del: fun_upd_apply)
  moreover have "counts_ok (Suc k) ?z'" using counts_alloc [OF counts_free [OF z(2)]] by simp
  ultimately show ?thesis using z(3) by (simp add: zrealloc_def)
qed

lemma zfree_step_keeps:
  assumes z: "zm_ok z" "counts_ok k z" and f: "zfree ptr z = Some z'"
  shows "zm_ok z' \<and> counts_ok k z'"
proof (cases ptr)
  case (Some p)
  with f obtain old where o: "zm_blocks z p = Some old"
    and z': "z' = (update_zmalloc_stat_free (old + PREFIX_SIZE) z)\<lparr>zm_blocks := (zm_blocks z)(p := None)\<rparr>"
    by (auto simp: zfree_def split: option.splits)
  have "zm_ok z'" using zm_ok_drop [OF z(1) o] by (simp add: z' round_prefix update_zmalloc_stat_free_def)
  moreover have "counts_ok k z'" using counts_free [OF z(2)] by (simp add: z')
  ultimately show ?thesis ..
qed (use assms in \<open>simp add: zfree_def\<close>)

lemma zm_step_keeps:
  assumes z: "zm_ok z" "counts_ok k z" and "zm_step x z = Some z'"
  shows "zm_ok z' \<and> counts_ok (if op_allocates x then Suc k else k) z'"
proof (cases x)
  case (Zmalloc s p)
  with assms zmalloc_step_keeps(1) [OF z, of p s] show ?thesis by (auto split: if_splits)
next
  case (Zcalloc s p)
  with assms zmalloc_step_keeps [OF z, of p s] show ?thesis by (auto split: if_splits)
next
  case (Zrealloc ptr s q)
  show ?thesis
  proof (cases ptr)
    case None
    with Zrealloc assms zmalloc_step_keeps(1) [OF z, of q s] show ?thesis by (auto simp: zrealloc_def split: if_splits)
  next
    case (Some p)
    with Zrealloc assms(3) obtain old where o: "zm_blocks z p = Some old"
      by (cases "zm_blocks z p") (auto simp: zrealloc_def split: if_splits)
    have "((zm_blocks z)(p := None)) (q + 8) = None" using Zrealloc Some assms(3) by (auto split: if_splits)
    from zrealloc_step_keeps [OF z o this, of s] Zrealloc Some assms(3) show ?thesis by (auto split: if_splits)
  qed
next
  case (Zfree ptr)
  with assms(3) zfree_step_keeps [OF z, of ptr z'] show ?thesis by simp
qed

lemma zm_steps_keep:
  "zm_ok z \<Longrightarrow> counts_ok k z \<Longrightarrow> zm_steps xs z = Some z' \<Longrightarrow>
    zm_ok z' \<and> counts_ok (k + length (filter op_allocates xs)) z'"
proof (induction xs arbitrary: z k)
  case (Cons x xs)
  from Cons.prems(3) obtain z1 where z1: "zm_step x z = Some z1" "zm_steps xs z1 = Some z'" by (auto simp: bind_eq_Some_conv)
  from zm_step_keeps [OF Cons.prems(1,2) z1(1)] have "zm_ok z1" "counts_ok (if op_allocates x then Suc k else k) z1" by auto
  from Cons.IH [OF this z1(2)] show ?case by (cases "op_allocates x") auto
qed simp

section \<open>Property\<close>

text \<open>C40: whatever a program allocates, enlarges and frees, the memory that the allocator reports is that of the blocks that
  are in use, each with its prefix and rounded up to whole words, modulo two to the 64th, so nothing is reported once all blocks are freed. The counters of
  the sizes add up to the number of allocations.\<close>

theorem zmalloc_accounting:
  assumes "zm_steps xs zm_start = Some z"
  shows "zmalloc_used_memory z = (\<Sum>p\<in>dom (zm_blocks z). round_long (the (zm_blocks z p)) + 8) \<and>
    (\<Sum>n\<leftarrow>[0..<257]. zmalloc_allocations_for_size (of_nat n) z) = of_nat (length (filter op_allocates xs))"
proof -
  have "zm_ok zm_start" "counts_ok 0 zm_start"
    by (simp_all add: zm_ok_def counts_ok_def zm_start_def sum_list_replicate)
  from zm_steps_keep [OF this assms] have ok: "zm_ok z" and c: "counts_ok (length (filter op_allocates xs)) z" by simp_all
  have "zmalloc_used_memory z = (\<Sum>p\<in>dom (zm_blocks z). round_long (the (zm_blocks z p)) + 8)"
    using ok by (simp add: zm_ok_def zmalloc_used_memory_def block_cost_def)
  moreover have "map (\<lambda>n. zmalloc_allocations_for_size (of_nat n) z) [0..<257] = zmalloc_allocations z"
    using c by (intro nth_equalityI)
      (simp_all add: counts_ok_def ZMALLOC_MAX_ALLOC_STAT_def zmalloc_allocations_for_size_def unat_of_nat take_bit_eq_mod unsigned_of_nat)
  then have "(\<Sum>n\<leftarrow>[0..<257]. zmalloc_allocations_for_size (of_nat n) z) = of_nat (length (filter op_allocates xs))"
    using c by (simp add: counts_ok_def)
  ultimately show ?thesis ..
qed

lemma zmalloc_accounting_witness:
  "\<exists>z. zm_steps [Zmalloc 13 100, Zcalloc 300 200, Zrealloc (Some 108) 40 600, Zfree (Some 208)] zm_start = Some z \<and>
    zmalloc_used_memory z = 48 \<and> (\<Sum>n\<leftarrow>[0..<257]. zmalloc_allocations_for_size (of_nat n) z) = 3"
proof -
  let ?xs = "[Zmalloc 13 100, Zcalloc 300 200, Zrealloc (Some 108) 40 600, Zfree (Some 208)]"
  obtain z where z: "zm_steps ?xs zm_start = Some z" "zm_blocks z = [608 \<mapsto> 40]"
    by (auto simp: zmalloc_def zcalloc_def zrealloc_def zfree_def zm_start_def update_zmalloc_stat_alloc_def update_zmalloc_stat_free_def Let_def fun_eq_iff)
  have "round_long 40 = 40" by (simp add: round_long_def)
  with zmalloc_accounting [OF z(1)] z show ?thesis by (intro exI [of _ z]) simp
qed

end
