(* ===== verification/Cloud.thy ===== *)
theory Cloud
  imports Store
begin

text \<open>
  The upload of containers (client/cloud/cloud.c with \<open>put_to_cloud\<close> and \<open>get_from_cloud\<close> of client/cloud/baidu/api.c) beside the store: with \<open>CLOUD\<close>,
  \<open>WriteContainer\<close> hands the name of each container to a queue, and a thread copies the files of these names to the cloud while the
  store goes on. The SDK is a parameter: \<open>put\<close> and \<open>get\<close> are its functions \<open>put_object\<close> and \<open>get_object\<close>, \<open>put_ok\<close> and \<open>get_ok\<close> say that they copy.
  The measurement mode (\<open>OVERHEAD\<close>) and the download thread, which nobody starts, are left out. Taking a name from the
  queue, copying the file and going back is one step: the file of a name in the queue is complete and never written again.
\<close>

type_synonym bucket = "byte list \<Rightarrow> byte list option"

type_synonym put_object = "bucket \<Rightarrow> disk \<Rightarrow> byte list \<Rightarrow> byte list \<Rightarrow> bucket \<times> int"

type_synonym get_object = "disk \<Rightarrow> byte list \<Rightarrow> byte list \<Rightarrow> disk \<times> int"

definition cloud_dir :: "byte list" where "cloud_dir = asc ''/TCBackupTest/''"

definition NAME_LENGTH :: nat where "NAME_LENGTH = 32"

text \<open>\<open>cl_todo\<close> is what the main thread has still to store, \<open>cl_given\<close> the addresses that it was given.\<close>

record cloud =
  cl_store :: store
  cl_queue :: "byte list list"
  cl_bucket :: bucket
  cl_todo :: "chunk list"
  cl_given :: "chunkaddress list"
  cl_closed :: bool
  cl_joined :: bool

text \<open>\<open>cloud_upload\<close>: the name is copied into a buffer of 32 bytes; \<open>None\<close> is writing over its end.\<close>

definition cloud_upload :: "byte list \<Rightarrow> byte list list \<Rightarrow> byte list list option" where
  "cloud_upload name q =
     (if NAME_LENGTH \<le> length (cstr name) then None else Some (q @ [strcpy_to (memset0 NAME_LENGTH) name]))"

text \<open>The end of \<open>WriteContainer\<close>.\<close>

definition upload_written :: "bool \<Rightarrow> container \<Rightarrow> byte list list \<Rightarrow> byte list list option" where
  "upload_written cloud c q = (if cloud then cloud_upload (cname c) q else Some q)"

text \<open>\<open>store_chunk\<close>, which writes the container if the chunk does not fit.\<close>

definition cloud_store_chunk :: "bool \<Rightarrow> cloud \<Rightarrow> chunk \<Rightarrow> (cloud \<times> chunk \<times> int) option" where
  "cloud_store_chunk cloud s ck =
     (case store_chunk False (cl_store s) ck of
        None \<Rightarrow> None
      | Some (st, ck', r) \<Rightarrow>
          if snd (AppendChunkToContainer (st_container (cl_store s)) ck) then Some (s\<lparr>cl_store := st\<rparr>, ck', r)
          else map_option (\<lambda>q. (s\<lparr>cl_store := st, cl_queue := q\<rparr>, ck', r))
                 (upload_written cloud (st_container (cl_store s)) (cl_queue s)))"

text \<open>\<open>store_destory\<close> and the beginning of \<open>cloud_upload_destory\<close>, up to where it waits for the thread.\<close>

definition cloud_store_destory :: "bool \<Rightarrow> cloud \<Rightarrow> cloud option" where
  "cloud_store_destory cloud s =
     (case (if chunk_num (st_container (cl_store s)) > 0 then upload_written cloud (st_container (cl_store s)) (cl_queue s)
            else Some (cl_queue s)) of
        None \<Rightarrow> None
      | Some q \<Rightarrow>
          map_option (\<lambda>q. s\<lparr>cl_store := store_destory False (cl_store s), cl_queue := q, cl_closed := True\<rparr>)
            (cloud_upload (asc ''end'') q))"

text \<open>The two calls of the SDK.\<close>

definition put_to_cloud :: "put_object \<Rightarrow> bucket \<Rightarrow> disk \<Rightarrow> byte list \<Rightarrow> byte list \<Rightarrow> bucket \<times> bool" where
  "put_to_cloud put b dk dest source = (case put b dk dest source of (b, ret) \<Rightarrow> (b, ret \<noteq> 1))"

definition get_from_cloud :: "get_object \<Rightarrow> disk \<Rightarrow> byte list \<Rightarrow> byte list \<Rightarrow> disk \<times> bool" where
  "get_from_cloud get dk dest source = (case get dk source dest of (dk, ret) \<Rightarrow> (dk, ret \<noteq> 1))"

text \<open>One run of the loop of \<open>handle_upload\<close>; \<open>None\<close>: the queue is empty and the thread waits. Nobody looks at what \<open>put_to_cloud\<close> returns.\<close>

definition handle_upload :: "put_object \<Rightarrow> cloud \<Rightarrow> cloud option" where
  "handle_upload put s =
     (case cl_queue s of
        [] \<Rightarrow> None
      | name # q \<Rightarrow>
          if cstr name = asc ''end'' then Some (s\<lparr>cl_queue := q, cl_joined := True\<rparr>)
          else let local_path = TmpPath @ cstr name; cloud_path = cloud_dir @ cstr name
               in Some (s\<lparr>cl_queue := q,
                          cl_bucket := fst (put_to_cloud put (cl_bucket s) (st_disk (cl_store s)) cloud_path local_path)\<rparr>))"

inductive cloud_step :: "put_object \<Rightarrow> cloud \<Rightarrow> cloud \<Rightarrow> bool" for put where
  chunk: "cl_todo s = ck # cks \<Longrightarrow> \<not> cl_closed s \<Longrightarrow> cloud_store_chunk True s ck = Some (s', ck', r) \<Longrightarrow>
    cloud_step put s (s'\<lparr>cl_todo := cks, cl_given := cl_given s @ [ck_address ck']\<rparr>)"
| close: "cl_todo s = [] \<Longrightarrow> \<not> cl_closed s \<Longrightarrow> cloud_store_destory True s = Some s' \<Longrightarrow> cloud_step put s s'"
| upload: "\<not> cl_joined s \<Longrightarrow> handle_upload put s = Some s' \<Longrightarrow> cloud_step put s s'"

inductive_cases cloud_stepE: "cloud_step put s s'"

definition cloud_upload_init :: "store \<Rightarrow> bucket \<Rightarrow> chunk list \<Rightarrow> cloud" where
  "cloud_upload_init st b cks =
     \<lparr>cl_store = st, cl_queue = [], cl_bucket = b, cl_todo = cks, cl_given = [], cl_closed = False, cl_joined = False\<rparr>"

definition cloud_over :: "cloud \<Rightarrow> bool" where
  "cloud_over s \<longleftrightarrow> cl_closed s \<and> cl_joined s"

text \<open>What the SDK promises.\<close>

definition put_ok :: "put_object \<Rightarrow> bool" where
  "put_ok put \<longleftrightarrow> (\<forall>b dk dest src f. files dk src = Some f \<longrightarrow> put b dk dest src = (b(dest \<mapsto> f), 0))"

definition get_ok :: "bucket \<Rightarrow> get_object \<Rightarrow> bool" where
  "get_ok b get \<longleftrightarrow> (\<forall>dk dest src f. b src = Some f \<longrightarrow> get dk src dest = (dk\<lparr>files := (files dk)(dest \<mapsto> f)\<rparr>, 0))"

definition fetch_ok :: "bucket \<Rightarrow> (disk \<Rightarrow> byte list \<Rightarrow> byte list \<Rightarrow> disk \<times> bool) \<Rightarrow> bool" where
  "fetch_ok b fetch \<longleftrightarrow> (\<forall>dk dest src f. b src = Some f \<longrightarrow> fetch dk dest src = (dk\<lparr>files := (files dk)(dest \<mapsto> f)\<rparr>, True))"

lemma get_ok_fetch: "get_ok b get \<Longrightarrow> fetch_ok b (get_from_cloud get)"
  by (simp add: get_ok_def fetch_ok_def get_from_cloud_def)

section \<open>Progress\<close>

definition upload_work :: "cloud \<Rightarrow> nat" where
  "upload_work s = 2 * length (cl_todo s) + length (cl_queue s) + (if cl_closed s then 0 else 3)"

lemma cloud_upload_length: "cloud_upload name q = Some q' \<Longrightarrow> length q' = Suc (length q)"
  by (auto simp: cloud_upload_def split: if_splits)

lemma upload_written_length: "upload_written cloud c q = Some q' \<Longrightarrow> length q' \<le> Suc (length q)"
  by (auto simp: upload_written_def dest: cloud_upload_length split: if_splits)

lemma cloud_store_chunk_keeps:
  assumes "cloud_store_chunk cloud s ck = Some (s', ck', r)"
  shows "cl_closed s' = cl_closed s" "length (cl_queue s') \<le> Suc (length (cl_queue s))"
  using assms by (auto simp: cloud_store_chunk_def dest!: upload_written_length split: option.splits if_splits)

lemma cloud_step_work: "cloud_step put s s' \<Longrightarrow> upload_work s' < upload_work s"
proof (induction rule: cloud_step.induct)
  case (chunk s ck cks s' ck' r)
  with cloud_store_chunk_keeps [OF chunk(3)] show ?case by (simp add: upload_work_def)
next
  case (close s s')
  then show ?case
    by (auto simp: upload_work_def cloud_store_destory_def dest!: cloud_upload_length upload_written_length split: option.splits if_splits)
next
  case (upload s s')
  then show ?case by (auto simp: upload_work_def handle_upload_def Let_def split: list.splits if_splits)
qed

lemma cloud_steps_work: "(cloud_step put ^^ n) s s' \<Longrightarrow> n + upload_work s' \<le> upload_work s"
proof (induction n arbitrary: s')
  case (Suc n)
  then obtain s1 where "(cloud_step put ^^ n) s s1" "cloud_step put s1 s'" by auto
  with Suc.IH cloud_step_work show ?case by fastforce
qed simp

section \<open>What is where\<close>

definition uploaded :: "cloud \<Rightarrow> chunkaddress \<Rightarrow> bool" where
  "uploaded s a \<longleftrightarrow> cl_bucket s (cloud_dir @ cstr a) = files (st_disk (cl_store s)) (TmpPath @ cstr a)"

definition pending :: "cloud \<Rightarrow> chunkaddress \<Rightarrow> bool" where
  "pending s a \<longleftrightarrow> cstr a \<in> cstr ` set (cl_queue s) \<and> cstr a \<noteq> asc ''end''"

definition end_name :: "byte list" where "end_name = strcpy_to (memset0 NAME_LENGTH) (asc ''end'')"

definition queue_ok :: "cloud \<Rightarrow> bool" where
  "queue_ok s \<longleftrightarrow> (\<exists>ns. cl_queue s = ns @ (if cl_closed s \<and> \<not> cl_joined s then [end_name] else []) \<and>
     (cl_joined s \<longrightarrow> cl_closed s \<and> ns = []) \<and>
     (\<forall>n\<in>set ns. cstr n \<noteq> asc ''end'' \<and> files (st_disk (cl_store s)) (TmpPath @ cstr n) \<noteq> None))"

text \<open>\<open>st\<close> is the store as it is before it is closed.\<close>

definition safe_in :: "cloud \<Rightarrow> store \<Rightarrow> bool" where
  "safe_in s st \<longleftrightarrow> (\<forall>a h d. has st a h d \<longrightarrow>
     pending s a \<or> uploaded s a \<or> \<not> cl_closed s \<and> cstr a = cstr (cname (st_container st)))"

definition cloud_inv :: "store \<Rightarrow> chunk list \<Rightarrow> cloud \<Rightarrow> bool" where
  "cloud_inv st0 cks s \<longleftrightarrow> (\<exists>gone st. cks = gone @ cl_todo s \<and> cs.put_all st0 gone = (st, cl_given s) \<and>
     (cl_closed s \<longrightarrow> cl_todo s = []) \<and> cl_store s = (if cl_closed s then store_destory False st else st) \<and>
     queue_ok s \<and> safe_in s st)"

lemma cstr_end_name [simp]: "cstr end_name = asc ''end''"
proof -
  have "cstr (asc ''end'') = asc ''end''" by (simp add: asc_def cstr_def)
  then show ?thesis by (simp add: end_name_def NAME_LENGTH_def)
qed

lemma put_all_snoc:
  "cs.put_all st xs = (st', as) \<Longrightarrow> store_put st' ck = (st'', a) \<Longrightarrow> cs.put_all st (xs @ [ck]) = (st'', as @ [a])"
  by (induction xs arbitrary: st as) (auto split: prod.splits)

lemma container_name_short:
  assumes "store_ok st" "randomabc st < 2147483648"
  shows "length (cstr (cname (st_container st))) < NAME_LENGTH" "cstr (cname (st_container st)) \<noteq> asc ''end''"
proof -
  obtain r where r: "r < randomabc st" "cstr (cname (st_container st)) = fresh_name st r"
    using assms(1) by (auto simp: store_ok_def)
  have "r < 10 ^ 10 - 1" using r(1) assms(2) by simp
  then have "length (fresh_name st r) \<le> 21" unfolding fresh_name_def by (rule container_name_ok(2))
  moreover have "11 \<le> length (fresh_name st r)" by (simp add: fresh_name_def GetContainerName_def Let_def)
  ultimately show "length (cstr (cname (st_container st))) < NAME_LENGTH" "cstr (cname (st_container st)) \<noteq> asc ''end''"
    using r(2) by (auto simp: NAME_LENGTH_def asc_def)
qed

text \<open>The container that a store is filling can always be handed over.\<close>

lemma upload_container:
  assumes "store_ok st" "randomabc st < 2147483648"
  shows "\<exists>n. upload_written True (st_container st) q = Some (q @ [n]) \<and> cstr n = cstr (cname (st_container st))"
  using container_name_short(1) [OF assms] by (simp add: upload_written_def cloud_upload_def NAME_LENGTH_def)

lemma end_upload: "cloud_upload (asc ''end'') q = Some (q @ [end_name])"
proof -
  have "length (cstr (asc ''end'')) < NAME_LENGTH" by (simp add: asc_def cstr_def NAME_LENGTH_def)
  then show ?thesis by (simp add: cloud_upload_def end_name_def)
qed

lemma written_file:
  assumes "store_ok st"
  shows "files (fst (WriteContainer False (st_disk st) (st_container st))) (TmpPath @ cstr (cname (st_container st))) \<noteq> None"
  using assms by (auto simp: store_ok_def WriteContainer_def container_save_def Let_def disk_pwrite_def)

lemma store_chunk_writes:
  assumes "store_ok st" "chunk_ok ck" "store_chunk False st ck = Some (st', ck', r)"
  shows "snd (AppendChunkToContainer (st_container st) ck) \<Longrightarrow>
      st_disk st' = st_disk st \<and> cname (st_container st') = cname (st_container st)"
    and "\<not> snd (AppendChunkToContainer (st_container st) ck) \<Longrightarrow>
      st_disk st' = fst (WriteContainer False (st_disk st) (st_container st))"
proof -
  have ci: "container_inv (st_container st)" using assms(1) by (simp add: store_ok_def)
  note A = AppendChunk_spec [OF ci assms(2)]
  show "snd (AppendChunkToContainer (st_container st) ck) \<Longrightarrow>
      st_disk st' = st_disk st \<and> cname (st_container st') = cname (st_container st)"
    using assms(3) A(4) by (auto simp: store_chunk_def split: prod.splits)
  show "\<not> snd (AppendChunkToContainer (st_container st) ck) \<Longrightarrow>
      st_disk st' = fst (WriteContainer False (st_disk st) (st_container st))"
    using assms(3) by (auto simp: store_chunk_def Let_def split_beta split: prod.splits bool.splits option.splits)
qed

text \<open>When the container \<open>c\<close> is written and its name queued, everything stays where it was and \<open>c\<close> becomes pending.\<close>

lemma queue_ok_written:
  assumes q: "queue_ok s" "\<not> cl_closed s" and st: "store_ok st" "randomabc st < 2147483648" "st_disk (cl_store s) = st_disk st"
    and n: "cstr n = cstr (cname (st_container st))"
    and s': "cl_queue s' = cl_queue s @ [n] @ (if cl_closed s' then [end_name] else [])" "\<not> cl_joined s'"
      "st_disk (cl_store s') = fst (WriteContainer False (st_disk st) (st_container st))"
  shows "queue_ok s'"
proof -
  obtain ns where ns: "cl_queue s = ns" "\<forall>n\<in>set ns. cstr n \<noteq> asc ''end'' \<and> files (st_disk st) (TmpPath @ cstr n) \<noteq> None"
    using q st(3) by (auto simp: queue_ok_def)
  have "files (st_disk (cl_store s')) (TmpPath @ cstr m) \<noteq> None \<and> cstr m \<noteq> asc ''end''" if "m \<in> set (ns @ [n])" for m
  proof (cases "cstr m = cstr (cname (st_container st))")
    case True
    with written_file [OF st(1)] container_name_short(2) [OF st(1,2)] show ?thesis by (simp add: s'(3))
  next
    case False
    then have "m \<in> set ns" using that n by auto
    moreover have "TmpPath @ cstr m \<noteq> TmpPath @ cstr (cname (st_container st))" using False by simp
    ultimately show ?thesis using ns(2) by (simp add: s'(3) files_write_other)
  qed
  then show ?thesis using s'(1,2) ns(1) unfolding queue_ok_def by (intro exI [of _ "ns @ [n]"]) auto
qed

lemma safe_written:
  assumes c: "safe_in s st" "store_ok st" "randomabc st < 2147483648" "st_disk (cl_store s) = st_disk st" and n: "n \<in> set (cl_queue s')" "cstr n = cstr (cname (st_container st))"
    and s': "set (cl_queue s) \<subseteq> set (cl_queue s')" "cl_bucket s' = cl_bucket s"
      "st_disk (cl_store s') = fst (WriteContainer False (st_disk st) (st_container st))"
    and a: "has st a h d"
  shows "pending s' a \<or> uploaded s' a"
proof (cases "cstr a = cstr (cname (st_container st))")
  case True
  with n container_name_short(2) [OF c(2,3)] show ?thesis unfolding pending_def by (metis image_eqI)
next
  case False
  then have "TmpPath @ cstr a \<noteq> TmpPath @ cstr (cname (st_container st))" by simp
  from files_write_other [OF this] have "uploaded s' a = uploaded s a" by (simp add: uploaded_def s'(2,3) c(4))
  moreover have "pending s' a" if "pending s a" using that s'(1) by (auto simp: pending_def)
  ultimately show ?thesis using c(1) a False unfolding safe_in_def by blast
qed

section \<open>The invariant\<close>

lemma cloud_inv_start:
  assumes "\<And>a h d. has st a h d \<Longrightarrow> cstr a \<noteq> cstr (cname (st_container st)) \<Longrightarrow>
    b (cloud_dir @ cstr a) = files (st_disk st) (TmpPath @ cstr a)"
  shows "cloud_inv st cks (cloud_upload_init st b cks)"
proof -
  have "safe_in (cloud_upload_init st b cks) st"
    using assms unfolding safe_in_def uploaded_def cloud_upload_init_def by auto
  moreover have "queue_ok (cloud_upload_init st b cks)" by (simp add: queue_ok_def cloud_upload_init_def)
  ultimately show ?thesis
    unfolding cloud_inv_def by (intro exI [of _ "[]"] exI [of _ st]) (simp add: cloud_upload_init_def)
qed

lemma cloud_inv_room:
  assumes "store_room (length cks) st0" "\<forall>ck\<in>set cks. chunk_ok ck" "cks = gone @ todo" "cs.put_all st0 gone = (st, as)"
  shows "store_room (length todo) st"
  using cs.put_all_spec [of gone "length todo" st0 st as] assms by simp

lemma has_elsewhere: "cstr a \<noteq> cstr (cname (st_container st)) \<Longrightarrow> has st a h d = on_disk_chunk (st_disk st) a h d"
  by (auto simp: has_def held_def on_disk_chunk_def)

lemma cloud_chunk_spec:
  assumes q: "queue_ok s" "\<not> cl_closed s" and st: "safe_in s (cl_store s)" "store_room (Suc n) (cl_store s)" and ck: "chunk_ok ck"
  shows "\<exists>s' ck' r. cloud_store_chunk True s ck = Some (s', ck', r) \<and> store_put (cl_store s) ck = (cl_store s', ck_address ck') \<and>
    queue_ok s' \<and> safe_in s' (cl_store s') \<and> cl_closed s' = cl_closed s \<and> cl_joined s' = cl_joined s"
proof -
  let ?st = "cl_store s"
  have ok: "store_ok ?st" "randomabc ?st < 2147483647" using st(2) by (auto simp: store_room_def)
  obtain st' ck' where c: "store_chunk False ?st ck = Some (st', ck', SUCCESS)" using store_chunk_total by blast
  have p: "store_put ?st ck = (st', ck_address ck')" by (simp add: store_put_def c)
  note w = store_chunk_writes [OF ok(1) ck c]
  have ci: "container_inv (st_container ?st)" "\<forall>p. \<not> denied (st_disk ?st) p" using ok(1) by (auto simp: store_ok_def)
  have j: "\<not> cl_joined s" using q by (auto simp: queue_ok_def)
  show ?thesis
  proof (cases "snd (AppendChunkToContainer (st_container ?st) ck)")
    case True
    let ?s' = "s\<lparr>cl_store := st'\<rparr>"
    note w = w(1) [OF True]
    have "queue_ok ?s'" using q(1) w by (simp add: queue_ok_def)
    moreover have "safe_in ?s' st'"
    proof -
      have "pending ?s' a = pending s a" "uploaded ?s' a = uploaded s a" for a using w by (simp_all add: pending_def uploaded_def)
      moreover have "has ?st a h d" if "has st' a h d" "cstr a \<noteq> cstr (cname (st_container st'))" for a h d
        using that w by (simp add: has_elsewhere)
      ultimately show ?thesis using st(1) q(2) w unfolding safe_in_def by simp blast
    qed
    ultimately show ?thesis using True c p by (simp add: cloud_store_chunk_def)
  next
    case False
    obtain m where m: "upload_written True (st_container ?st) (cl_queue s) = Some (cl_queue s @ [m])"
      "cstr m = cstr (cname (st_container ?st))" using upload_container [OF ok(1)] ok(2) by fastforce
    let ?s' = "s\<lparr>cl_store := st', cl_queue := cl_queue s @ [m]\<rparr>"
    note w = w(2) [OF False]
    have "queue_ok ?s'" by (rule queue_ok_written [OF q ok(1) _ _ m(2)]) (use ok(2) q(2) j w in auto)
    moreover have "safe_in ?s' st'"
    proof -
      have "pending ?s' a \<or> uploaded ?s' a" if a: "has ?st a h d" for a h d
        by (rule safe_written [OF st(1) ok(1) _ refl _ m(2) _ _ _ a]) (use w ok(2) in auto)
      moreover have "pending ?s' a" if "cstr a = cstr (cname (st_container ?st))" for a
        using that m(2) container_name_short(2) [OF ok(1)] ok(2) by (simp add: pending_def)
      moreover have "has ?st a h d \<or> cstr a = cstr (cname (st_container ?st))"
        if "has st' a h d" "cstr a \<noteq> cstr (cname (st_container st'))" for a h d
        using that by (auto simp: has_elsewhere on_disk_chunk_def w on_disk_write [OF ci] split: if_splits)
      ultimately show ?thesis using q(2) unfolding safe_in_def by simp blast
    qed
    ultimately show ?thesis using False c p m(1) by (simp add: cloud_store_chunk_def)
  qed
qed

lemma cloud_close_spec:
  assumes q: "queue_ok s" "\<not> cl_closed s" and st: "safe_in s (cl_store s)" "store_room n (cl_store s)"
  shows "\<exists>s'. cloud_store_destory True s = Some s' \<and> cl_store s' = store_destory False (cl_store s) \<and>
    queue_ok s' \<and> safe_in s' (cl_store s) \<and> cl_closed s' \<and> cl_todo s' = cl_todo s \<and> cl_given s' = cl_given s"
proof -
  let ?st = "cl_store s"
  have ok: "store_ok ?st" "randomabc ?st < 2147483648" using st(2) by (auto simp: store_room_def)
  have j: "\<not> cl_joined s" using q by (auto simp: queue_ok_def)
  show ?thesis
  proof (cases "chunk_num (st_container ?st) > 0")
    case True
    obtain m where m: "upload_written True (st_container ?st) (cl_queue s) = Some (cl_queue s @ [m])"
      "cstr m = cstr (cname (st_container ?st))" using upload_container [OF ok] by fastforce
    let ?s' = "s\<lparr>cl_store := store_destory False ?st, cl_queue := cl_queue s @ [m, end_name], cl_closed := True\<rparr>"
    have dk: "st_disk (store_destory False ?st) = fst (WriteContainer False (st_disk ?st) (st_container ?st))"
      using True by (simp add: store_destory_def)
    have "queue_ok ?s'" by (rule queue_ok_written [OF q ok refl m(2)]) (use j dk in auto)
    moreover have "safe_in ?s' ?st"
    proof -
      have "pending ?s' a \<or> uploaded ?s' a" if a: "has ?st a h d" for a h d
        by (rule safe_written [OF st(1) ok(1) _ refl _ m(2) _ _ _ a]) (use dk ok(2) in auto)
      then show ?thesis unfolding safe_in_def by blast
    qed
    ultimately show ?thesis using True m(1) by (simp add: cloud_store_destory_def end_upload)
  next
    case False
    let ?s' = "s\<lparr>cl_store := store_destory False ?st, cl_queue := cl_queue s @ [end_name], cl_closed := True\<rparr>"
    have dk: "store_destory False ?st = ?st" using False by (simp add: store_destory_def)
    have "queue_ok ?s'" using q j unfolding queue_ok_def dk by auto
    moreover have "safe_in ?s' ?st"
    proof -
      have "htable_items (meta_table (st_container ?st)) = []"
        using False container_size_items [of "st_container ?st"] ok(1) by (auto simp: store_ok_def)
      then have "\<not> has ?st a h d" if "cstr a = cstr (cname (st_container ?st))" for a h d
        using that by (auto simp: has_def held_def content_def)
      moreover have "pending ?s' a" if "pending s a" for a using that by (auto simp: pending_def)
      moreover have "uploaded ?s' a = uploaded s a" for a by (simp add: uploaded_def dk)
      ultimately show ?thesis using st(1) unfolding safe_in_def by blast
    qed
    ultimately show ?thesis using False by (simp add: cloud_store_destory_def end_upload)
  qed
qed

lemma handle_upload_spec:
  assumes q: "queue_ok s" "\<not> cl_joined s" and st: "safe_in s st" and p: "put_ok put" and h: "handle_upload put s = Some s'"
  shows "queue_ok s' \<and> safe_in s' st \<and> cl_store s' = cl_store s \<and> cl_closed s' = cl_closed s \<and> cl_todo s' = cl_todo s \<and> cl_given s' = cl_given s"
proof -
  obtain ns where ns: "cl_queue s = ns @ (if cl_closed s then [end_name] else [])"
    "\<forall>n\<in>set ns. cstr n \<noteq> asc ''end'' \<and> files (st_disk (cl_store s)) (TmpPath @ cstr n) \<noteq> None"
    using q by (auto simp: queue_ok_def)
  show ?thesis
  proof (cases ns)
    case Nil
    then have c: "cl_closed s" "cl_queue s = [end_name]" using ns(1) h by (auto simp: handle_upload_def split: if_splits)
    then have s': "s' = s\<lparr>cl_queue := [], cl_joined := True\<rparr>" using h by (simp add: handle_upload_def)
    have "queue_ok s'" using c(1) by (simp add: s' queue_ok_def)
    moreover have "uploaded s' a" if "has st a h d" for a h d
      using that st c unfolding safe_in_def by (auto simp: pending_def uploaded_def s')
    ultimately show ?thesis unfolding safe_in_def by (simp add: s')
  next
    case (Cons n ms)
    then obtain f where f: "files (st_disk (cl_store s)) (TmpPath @ cstr n) = Some f" and n: "cstr n \<noteq> asc ''end''" using ns(2) by auto
    let ?rest = "ms @ (if cl_closed s then [end_name] else [])"
    have s': "s' = s\<lparr>cl_queue := ?rest, cl_bucket := (cl_bucket s)(cloud_dir @ cstr n \<mapsto> f)\<rparr>"
      using h p f n Cons ns(1) by (simp add: handle_upload_def Let_def put_to_cloud_def put_ok_def)
    have "queue_ok s'" using ns(2) q(2) Cons unfolding queue_ok_def by (intro exI [of _ ms]) (simp add: s')
    moreover have k: "pending s' a \<or> uploaded s' a" if "pending s a \<or> uploaded s a" for a
      using that Cons ns(1) f by (auto simp: pending_def uploaded_def s')
    have c: "cl_closed s' = cl_closed s" by (simp add: s')
    have "safe_in s' st" using st k unfolding safe_in_def c by blast
    ultimately show ?thesis by (simp add: s')
  qed
qed

lemma cloud_inv_step:
  assumes i: "cloud_inv st0 cks s" and start: "store_room (length cks) st0" "\<forall>ck\<in>set cks. chunk_ok ck" and p: "put_ok put"
    and step: "cloud_step put s s'"
  shows "cloud_inv st0 cks s'"
proof -
  obtain gone st where g: "cks = gone @ cl_todo s" "cs.put_all st0 gone = (st, cl_given s)" "cl_closed s \<longrightarrow> cl_todo s = []"
    "cl_store s = (if cl_closed s then store_destory False st else st)" "queue_ok s" "safe_in s st"
    using i by (auto simp: cloud_inv_def)
  have room: "store_room (length (cl_todo s)) st" by (rule cloud_inv_room [OF start g(1,2)])
  from step show ?thesis
  proof (cases rule: cloud_step.cases)
    case (chunk ck cks' s1 ck' r)
    then have st: "cl_store s = st" "safe_in s (cl_store s)" "store_room (Suc (length cks')) (cl_store s)" "chunk_ok ck"
      using g room start(2) by auto
    from cloud_chunk_spec [OF g(5) chunk(3) st(2-4)] chunk(4)
    have s1: "store_put st ck = (cl_store s1, ck_address ck')" "queue_ok s1" "safe_in s1 (cl_store s1)" "cl_closed s1 = cl_closed s"
      by (auto simp: st(1))
    have "queue_ok s'" "safe_in s' (cl_store s1)"
      using s1(2,3) by (simp_all add: chunk(1) queue_ok_def safe_in_def pending_def uploaded_def)
    with g(1) put_all_snoc [OF g(2) s1(1)] s1(4) chunk(1-3) show ?thesis
      unfolding cloud_inv_def by (intro exI [of _ "gone @ [ck]"] exI [of _ "cl_store s1"]) simp
  next
    case close
    then have st: "cl_store s = st" "safe_in s (cl_store s)" "store_room 0 (cl_store s)" using g room by auto
    from cloud_close_spec [OF g(5) close(2) st(2,3)] close(1,3) g(1,2) show ?thesis
      unfolding cloud_inv_def by (intro exI [of _ gone] exI [of _ st]) (simp add: st(1))
  next
    case upload
    from handle_upload_spec [OF g(5) upload(1) g(6) p upload(2)] g(1-4) show ?thesis
      unfolding cloud_inv_def by (intro exI [of _ gone] exI [of _ st]) simp
  qed
qed

lemma cloud_inv_steps:
  assumes "(cloud_step put)\<^sup>*\<^sup>* s s'" "cloud_inv st0 cks s" "store_room (length cks) st0" "\<forall>ck\<in>set cks. chunk_ok ck" "put_ok put"
  shows "cloud_inv st0 cks s'"
  using assms by (induction rule: rtranclp_induct) (auto intro: cloud_inv_step)

lemma cloud_progress:
  assumes i: "cloud_inv st0 cks s" and start: "store_room (length cks) st0" "\<forall>ck\<in>set cks. chunk_ok ck" and "\<not> cloud_over s"
  shows "\<exists>s'. cloud_step put s s'"
proof -
  obtain gone st where g: "cks = gone @ cl_todo s" "cs.put_all st0 gone = (st, cl_given s)" "cl_closed s \<longrightarrow> cl_todo s = []"
    "cl_store s = (if cl_closed s then store_destory False st else st)" "queue_ok s" "safe_in s st"
    using i by (auto simp: cloud_inv_def)
  have room: "store_room (length (cl_todo s)) st" by (rule cloud_inv_room [OF start g(1,2)])
  show ?thesis
  proof (cases "cl_closed s")
    case True
    then have j: "\<not> cl_joined s" using assms(4) by (simp add: cloud_over_def)
    with True g(5) have "cl_queue s \<noteq> []" by (auto simp: queue_ok_def)
    then have "handle_upload put s \<noteq> None" by (cases "cl_queue s") (simp_all add: handle_upload_def Let_def)
    then obtain s' where "handle_upload put s = Some s'" by blast
    with j show ?thesis by (blast intro: cloud_step.upload)
  next
    case False
    then have st: "cl_store s = st" "safe_in s (cl_store s)" using g by auto
    show ?thesis
    proof (cases "cl_todo s")
      case Nil
      with cloud_close_spec [OF g(5) False st(2), of 0] room st(1) False show ?thesis by (auto intro: cloud_step.close)
    next
      case (Cons ck cks')
      have "store_room (Suc (length cks')) (cl_store s)" "chunk_ok ck" using Cons room st(1) g(1) start(2) by auto
      from cloud_chunk_spec [OF g(5) False st(2) this] Cons False show ?thesis by (blast intro: cloud_step.chunk)
    qed
  qed
qed

section \<open>Restoring from the cloud\<close>

text \<open>The containers in the cloud, as a disk.\<close>

definition cloud_disk :: "bucket \<Rightarrow> disk" where
  "cloud_disk b = \<lparr>files = \<lambda>p. if take (length TmpPath) p = TmpPath then b (cloud_dir @ drop (length TmpPath) p) else None, denied = \<lambda>_. False\<rparr>"

lemma cloud_disk_file [simp]: "files (cloud_disk b) (TmpPath @ n) = b (cloud_dir @ n)"
  by (simp add: cloud_disk_def)

text \<open>Every container that was asked for is here as it is in the cloud.\<close>

definition cloud_cache_ok :: "bucket \<Rightarrow> restore \<Rightarrow> bool" where
  "cloud_cache_ok b rs \<longleftrightarrow> cache_ok (rs\<lparr>rs_disk := cloud_disk b\<rparr>) \<and> ht.clean 64 (got_containers rs) \<and>
     (\<forall>a. length a = 64 \<longrightarrow> htable_lookup (got_containers rs) a \<noteq> None \<longrightarrow> files (rs_disk rs) (TmpPath @ cstr a) = b (cloud_dir @ cstr a))"

lemma ReadContainer_cong:
  "files dk (TmpPath @ cstr a) = files dk' (TmpPath @ cstr a) \<Longrightarrow> ReadContainer dk a c = ReadContainer dk' a c"
  by (simp add: ReadContainer_def)

lemma cache_ok_counters [simp]: "cache_ok (rs\<lparr>download_size := x\<rparr>) = cache_ok rs" "cache_ok (rs\<lparr>download_count := x\<rparr>) = cache_ok rs"
  by (simp_all add: cache_ok_def)

text \<open>A restore from the cloud does what a restore from that disk does.\<close>

lemma get_container_sim:
  assumes ok: "cloud_cache_ok b rs" and fetch: "fetch_ok b fetch" and a: "length a = 64" "b (cloud_dir @ cstr a) = Some f"
    and n: "htable_lookup (got_containers rs) a = None"
  shows "\<exists>rs1. get_container True fetch rs a = (rs1, SUCCESS) \<and> cloud_cache_ok b rs1 \<and> files (rs_disk rs1) (TmpPath @ cstr a) = Some f \<and>
    htable_lookup (got_containers rs1) a = Some ()"
proof -
  let ?rs1 = "rs\<lparr>rs_disk := (rs_disk rs)\<lparr>files := (files (rs_disk rs))(TmpPath @ cstr a \<mapsto> f)\<rparr>,
    got_containers := htable_insert a () (got_containers rs)\<rparr>"
  have c: "ht.clean 64 (got_containers rs)" using ok by (simp add: cloud_cache_ok_def)
  have l: "htable_lookup (htable_insert a () (got_containers rs)) k = (if k = a then Some () else htable_lookup (got_containers rs) k)"
    if "length k = 64" for k by (rule ht.lookup_insert [OF c a(1) n that])
  have "get_container True fetch rs a = (?rs1, SUCCESS)"
    using fetch a(2) by (simp add: get_container_def fetch_ok_def cloud_dir_def Let_def)
  moreover have "cloud_cache_ok b ?rs1"
    using ok a ht.clean_insert [OF c a(1) n] by (auto simp: cloud_cache_ok_def cache_ok_def ht_inv_insert l)
  moreover have "htable_lookup (got_containers ?rs1) a = Some ()" using l [OF a(1)] by simp
  ultimately show ?thesis by auto
qed

definition restore_rest :: "restore \<Rightarrow> chunk \<Rightarrow> (restore \<times> chunk \<times> int) option" where
  "restore_rest rs ck =
     (case search_cache (restore_cache rs) (ck_address ck) (rs_clock rs) (rs_randomabc rs) of
        None \<Rightarrow> None
      | Some (cs, r, hit) \<Rightarrow>
          let (c, ret) = (if hit = FAILURE then ReadContainer (rs_disk rs) (ck_address ck) (hd cs) else (hd cs, SUCCESS));
              rs = rs\<lparr>restore_cache := c # tl cs, rs_randomabc := r\<rparr>
          in if ret = FAILURE then Some (rs, ck, FAILURE)
             else let ck = ReadChunkFromContainer c ck in Some (rs, ck, if ck_data ck = None then FAILURE else SUCCESS))"

lemma restore_chunk_rest:
  assumes "(case htable_lookup (got_containers rs) (ck_address ck) of
      None \<Rightarrow> get_container cloud fetch rs (ck_address ck) | Some _ \<Rightarrow> (rs, SUCCESS)) = (rs1, SUCCESS)"
  shows "restore_chunk cloud fetch rs ck = restore_rest rs1 ck"
  by (simp add: restore_chunk_def assms restore_rest_def)

lemma restore_rest_disk:
  assumes "\<And>c. ReadContainer dk (ck_address ck) c = ReadContainer (rs_disk rs) (ck_address ck) c"
    and "restore_rest (rs\<lparr>rs_disk := dk\<rparr>) ck = Some (rs', ck', r)"
  shows "restore_rest rs ck = Some (rs'\<lparr>rs_disk := rs_disk rs\<rparr>, ck', r) \<and> got_containers rs' = got_containers rs"
proof -
  obtain cs n hit where sc: "search_cache (restore_cache rs) (ck_address ck) (rs_clock rs) (rs_randomabc rs) = Some (cs, n, hit)"
    using search_cache_total by blast
  show ?thesis
  proof (cases "hit = FAILURE")
    case True
    obtain c ret where c: "ReadContainer (rs_disk rs) (ck_address ck) (hd cs) = (c, ret)" by fastforce
    let ?rest = "\<lambda>rs. let rs = rs\<lparr>restore_cache := c # tl cs, rs_randomabc := n\<rparr>; ck' = ReadChunkFromContainer c ck
      in if ret = FAILURE then Some (rs, ck, FAILURE) else Some (rs, ck', if ck_data ck' = None then FAILURE else SUCCESS)"
    have w: "restore_rest (rs\<lparr>rs_disk := dk\<rparr>) ck = ?rest (rs\<lparr>rs_disk := dk\<rparr>)" "restore_rest rs ck = ?rest rs"
      using True by (simp_all add: restore_rest_def sc assms(1) c Let_def)
    from assms(2) show ?thesis unfolding w by (auto simp: Let_def split: if_splits)
  next
    case False
    with assms(2) show ?thesis by (auto simp: restore_rest_def sc Let_def)
  qed
qed

lemma restore_chunk_cloud:
  assumes ok: "cloud_cache_ok b rs" and fetch: "fetch_ok b fetch"
    and addr: "length (ck_address ck) = 64" "length (cstr (ck_address ck)) < 64"
    and S: "on_disk (cloud_disk b) (ck_address ck) S" "(ck_hash ck, d) \<in> S" "\<forall>d'. (ck_hash ck, d') \<in> S \<longrightarrow> d' = d"
  shows "\<exists>rs'. restore_chunk True fetch rs ck = Some (rs', ck\<lparr>ck_length := int (length d), ck_data := Some d\<rparr>, SUCCESS) \<and>
    cloud_cache_ok b rs'"
proof -
  let ?a = "ck_address ck" and ?dk = "cloud_disk b"
  obtain f where f: "b (cloud_dir @ cstr ?a) = Some f" using S(1) by (auto simp: on_disk_def)
  obtain rs1 where rs1: "(case htable_lookup (got_containers rs) ?a of None \<Rightarrow> get_container True fetch rs ?a | Some _ \<Rightarrow> (rs, SUCCESS)) = (rs1, SUCCESS)"
    "cloud_cache_ok b rs1" "files (rs_disk rs1) (TmpPath @ cstr ?a) = Some f"
    "htable_lookup (got_containers rs1) ?a = Some ()"
  proof (cases "htable_lookup (got_containers rs) ?a")
    case None
    from get_container_sim [OF ok fetch addr(1) f this] that None show ?thesis by auto
  next
    case (Some x)
    with ok f addr(1) that show ?thesis by (auto simp: cloud_cache_ok_def)
  qed
  let ?rs1 = "rs1\<lparr>rs_disk := ?dk\<rparr>"
  have ok1: "cache_ok ?rs1" using rs1(2) by (simp add: cloud_cache_ok_def)
  have got: "(case htable_lookup (got_containers ?rs1) ?a of None \<Rightarrow> get_container False fetch ?rs1 ?a | Some _ \<Rightarrow> (?rs1, SUCCESS)) = (?rs1, SUCCESS)"
    using rs1(4) by simp
  have o: "on_disk (rs_disk ?rs1) ?a S" using S(1) by simp
  from restore_chunk_spec [OF ok1 addr o S(2,3), of fetch]
  obtain rs2 where rs2: "restore_rest ?rs1 ck = Some (rs2, ck\<lparr>ck_length := int (length d), ck_data := Some d\<rparr>, SUCCESS)"
    "cache_ok rs2" "rs_disk rs2 = ?dk" unfolding restore_chunk_rest [OF got] by auto
  have R: "ReadContainer ?dk ?a c = ReadContainer (rs_disk rs1) ?a c" for c
    by (rule ReadContainer_cong) (simp add: rs1(3) f)
  note rest = restore_rest_disk [OF R rs2(1)]
  have "rs2\<lparr>rs_disk := ?dk\<rparr> = rs2" using rs2(3) by (cases rs2) simp
  then have "cloud_cache_ok b (rs2\<lparr>rs_disk := rs_disk rs1\<rparr>)"
    using rs1(2) rs2(2) rest by (simp add: cloud_cache_ok_def)
  with rest show ?thesis unfolding restore_chunk_rest [OF rs1(1)] by blast
qed

lemma cloud_restore_init:
  assumes "restore_init m dk r clk x y = Some rs" "0 < m" "r + m < 2147483647"
    and "\<forall>r' \<ge> r. b (cloud_dir @ fst (GetContainerName (clk r') r')) = None"
  shows "cloud_cache_ok b rs"
proof -
  obtain rs1 where rs1: "restore_init m (cloud_disk b) r clk x y = Some rs1" "cache_ok rs1" "rs_disk rs1 = cloud_disk b"
    using restore_init_ok [of m r "cloud_disk b" clk x y] assms(2-4) by auto
  obtain t :: "unit htable" where t: "htable_init CHUNK_ADDRESS_LENGTH 3200 = Some t" "ht_inv 64 t" "htable_items t = []"
    using htable_init_total [of 3200 CHUNK_ADDRESS_LENGTH] by auto
  have g: "got_containers rs = t" "rs\<lparr>rs_disk := cloud_disk b\<rparr> = rs1"
    using assms(1) rs1(1) t(1) by (auto simp: restore_init_def split: option.splits)
  have "ht.clean 64 t" using t(2,3) by (simp add: ht.clean_def)
  moreover have "htable_lookup t a = None" if "length a = 64" for a
    using ht.lookup_None [OF t(2) that] t(3) by simp
  ultimately show ?thesis using rs1(2) by (simp add: cloud_cache_ok_def g)
qed

lemma cloud_restores:
  assumes run: "(cloud_step put)\<^sup>*\<^sup>* (cloud_upload_init st b cks) s" "cloud_over s"
    and start: "store_room (length cks) st" "\<forall>ck\<in>set cks. chunk_ok ck" "put_ok put"
    and old: "\<And>a h d. has st a h d \<Longrightarrow> cstr a \<noteq> cstr (cname (st_container st)) \<Longrightarrow>
      b (cloud_dir @ cstr a) = files (st_disk st) (TmpPath @ cstr a)"
    and hash: "\<And>a h d ck. has st a h d \<Longrightarrow> ck \<in> set cks \<Longrightarrow> ck_hash ck = h \<Longrightarrow> chunk_bytes ck = d"
      "\<And>ck ck'. ck \<in> set cks \<Longrightarrow> ck' \<in> set cks \<Longrightarrow> ck_hash ck = ck_hash ck' \<Longrightarrow> chunk_bytes ck = chunk_bytes ck'"
    and restore: "fetch_ok (cl_bucket s) fetch" "cloud_cache_ok (cl_bucket s) rs" "i < length cks"
  shows "\<exists>rs' ck'. restore_chunk True fetch rs (ck\<lparr>ck_hash := ck_hash (cks ! i), ck_address := cl_given s ! i\<rparr>) = Some (rs', ck', SUCCESS) \<and>
    ck_data ck' = Some (chunk_bytes (cks ! i)) \<and> cloud_cache_ok (cl_bucket s) rs'"
proof -
  have "cloud_inv st cks s"
    by (rule cloud_inv_steps [OF run(1) cloud_inv_start start]) (rule old)
  then obtain st' where g: "cs.put_all st cks = (st', cl_given s)" "cl_store s = store_destory False st'" "queue_ok s" "safe_in s st'"
    using run(2) by (auto simp: cloud_inv_def cloud_over_def)
  have "store_room (length cks + 0) st" using start(1) by simp
  note P = cs.put_all_spec [OF this start(2) g(1)]
  let ?a = "cl_given s ! i" and ?h = "ck_hash (cks ! i)" and ?d = "chunk_bytes (cks ! i)"
  have a: "address_ok ?a" "has st' ?a ?h ?d" using P restore(3) by (auto simp: list_all2_conv_all_nth)
  have u: "d' = ?d" if "has st' ?a ?h d'" for d'
  proof -
    from P that have "has st ?a ?h d' \<or> (\<exists>ck\<in>set cks. ?h = ck_hash ck \<and> d' = chunk_bytes ck)" by blast
    then show ?thesis
    proof
      assume "has st ?a ?h d'"
      from hash(1) [OF this nth_mem [OF restore(3)] refl] show ?thesis by simp
    next
      assume "\<exists>ck\<in>set cks. ?h = ck_hash ck \<and> d' = chunk_bytes ck"
      then obtain ck where "ck \<in> set cks" "?h = ck_hash ck" "d' = chunk_bytes ck" by blast
      with hash(2) [OF nth_mem [OF restore(3)]] show ?thesis by simp
    qed
  qed
  obtain S where S: "held st' ?a S" "(?h, ?d) \<in> S" using a(2) by (auto simp: has_def)
  have st': "store_ok st'" using P by (simp add: store_room_def)
  have o: "on_disk (st_disk (cl_store s)) ?a S" using store_destory_on_disk [OF st' S(1)] S(2) g(2) by auto
  have "cl_queue s = []" using g(3) run(2) by (auto simp: queue_ok_def cloud_over_def)
  then have "uploaded s ?a" using g(4) a(2) run(2) unfolding safe_in_def pending_def cloud_over_def by auto
  with o have d: "on_disk (cloud_disk (cl_bucket s)) ?a S" by (simp add: on_disk_def uploaded_def)
  have w: "\<forall>d'. (?h, d') \<in> S \<longrightarrow> d' = ?d" using u S(1) unfolding has_def by blast
  define ck' where "ck' = ck\<lparr>ck_hash := ?h, ck_address := ?a\<rparr>"
  have ck': "ck_hash ck' = ?h" "ck_address ck' = ?a" by (simp_all add: ck'_def)
  have p: "length (ck_address ck') = 64" "length (cstr (ck_address ck')) < 64" using a(1) by (simp_all add: ck' address_ok_def)
  have q: "on_disk (cloud_disk (cl_bucket s)) (ck_address ck') S" "(ck_hash ck', ?d) \<in> S" "\<forall>d'. (ck_hash ck', d') \<in> S \<longrightarrow> d' = ?d"
    unfolding ck' by (fact d S(2) w)+
  from restore_chunk_cloud [OF restore(2,1) p q] obtain rs' where
    "restore_chunk True fetch rs ck' = Some (rs', ck'\<lparr>ck_length := int (length ?d), ck_data := Some ?d\<rparr>, SUCCESS)"
    "cloud_cache_ok (cl_bucket s) rs'" by blast
  then show ?thesis unfolding ck'_def by (intro exI) (rule conjI, assumption, simp)
qed

text \<open>Nothing is in the cloud but copies of files.\<close>

definition bucket_ok :: "cloud \<Rightarrow> bool" where
  "bucket_ok s \<longleftrightarrow> (\<forall>n. cl_bucket s (cloud_dir @ n) \<noteq> None \<longrightarrow> files (st_disk (cl_store s)) (TmpPath @ n) \<noteq> None)"

lemma written_files: "files dk p \<noteq> None \<Longrightarrow> files (fst (WriteContainer False dk c)) p \<noteq> None"
  by (auto simp: WriteContainer_def container_save_def Let_def disk_pwrite_def)

lemma bucket_ok_mono:
  assumes "bucket_ok s" "cl_bucket s' = cl_bucket s"
    and "st_disk (cl_store s') = st_disk (cl_store s) \<or> st_disk (cl_store s') = fst (WriteContainer False (st_disk (cl_store s)) c)"
  shows "bucket_ok s'"
  unfolding bucket_ok_def
proof (intro allI impI)
  fix n assume "cl_bucket s' (cloud_dir @ n) \<noteq> None"
  then have "files (st_disk (cl_store s)) (TmpPath @ n) \<noteq> None" using assms(1,2) by (simp add: bucket_ok_def)
  with assms(3) written_files show "files (st_disk (cl_store s')) (TmpPath @ n) \<noteq> None" by metis
qed

lemma bucket_ok_step:
  assumes i: "cloud_inv st0 cks s" and start: "store_room (length cks) st0" "\<forall>ck\<in>set cks. chunk_ok ck" and p: "put_ok put"
    and step: "cloud_step put s s'" and b: "bucket_ok s"
  shows "bucket_ok s'"
proof -
  obtain gone st where g: "cks = gone @ cl_todo s" "cs.put_all st0 gone = (st, cl_given s)"
    "cl_store s = (if cl_closed s then store_destory False st else st)" "queue_ok s"
    using i by (auto simp: cloud_inv_def)
  have room: "store_room (length (cl_todo s)) st" by (rule cloud_inv_room [OF start g(1,2)])
  from step show ?thesis
  proof (cases rule: cloud_step.cases)
    case (chunk ck cks' s1 ck' r)
    then have st: "store_ok (cl_store s)" "chunk_ok ck" using g room start(2) by (auto simp: store_room_def)
    obtain c where c: "store_chunk False (cl_store s) ck = Some (cl_store s1, c, r)" and s1: "cl_bucket s1 = cl_bucket s"
      using chunk(4) by (auto simp: cloud_store_chunk_def split: option.splits if_splits)
    from store_chunk_writes [OF st c] have "st_disk (cl_store s1) = st_disk (cl_store s) \<or>
        st_disk (cl_store s1) = fst (WriteContainer False (st_disk (cl_store s)) (st_container (cl_store s)))" by blast
    with s1 show ?thesis by (intro bucket_ok_mono [OF b]) (simp_all add: chunk(1))
  next
    case close
    then have "cl_store s' = store_destory False (cl_store s)" "cl_bucket s' = cl_bucket s"
      by (auto simp: cloud_store_destory_def split: option.splits if_splits)
    then show ?thesis by (intro bucket_ok_mono [OF b, where c = "st_container (cl_store s)"]) (simp_all add: store_destory_def)
  next
    case upload
    then obtain m q where m: "cl_queue s = m # q" by (auto simp: handle_upload_def split: list.splits)
    show ?thesis
    proof (cases "cstr m = asc ''end''")
      case True
      then show ?thesis using upload(2) m by (intro bucket_ok_mono [OF b]) (auto simp: handle_upload_def)
    next
      case False
      then obtain f where f: "files (st_disk (cl_store s)) (TmpPath @ cstr m) = Some f"
        using g(4) m upload(1) by (fastforce simp: queue_ok_def Cons_eq_append_conv split: if_splits)
      with False upload(2) m p b show ?thesis
        by (auto simp: handle_upload_def Let_def put_to_cloud_def put_ok_def bucket_ok_def split: if_splits)
    qed
  qed
qed

lemma cloud_run_ends:
  assumes "cloud_inv st0 cks s" "store_room (length cks) st0" "\<forall>ck\<in>set cks. chunk_ok ck" "put_ok put" "bucket_ok s"
  shows "\<exists>s'. (cloud_step put)\<^sup>*\<^sup>* s s' \<and> cloud_over s' \<and> bucket_ok s' \<and> cloud_inv st0 cks s'"
  using assms(1,5)
proof (induction "upload_work s" arbitrary: s rule: less_induct)
  case less
  show ?case
  proof (cases "cloud_over s")
    case True
    with less.prems show ?thesis by blast
  next
    case False
    from cloud_progress [OF less.prems(1) assms(2,3) False] obtain s1 where s1: "cloud_step put s s1" by blast
    from less.hyps [OF cloud_step_work [OF s1] cloud_inv_step [OF less.prems(1) assms(2-4) s1]
        bucket_ok_step [OF less.prems(1) assms(2-4) s1 less.prems(2)]] s1
    show ?thesis by (meson converse_rtranclp_into_rtranclp)
  qed
qed

section \<open>Properties\<close>

text \<open>C9: a backup with the cloud. Whatever the upload thread and the store do in between each other, once
  both have ended every chunk can be restored on a machine that has nothing but the cloud, under the address it was given - provided
  that the SDK copies what it is asked to, that what was in the store before is in the cloud, and that equal fingerprints mean equal
  bytes. The restore keeps its caches well formed, so that the next chunk can follow.\<close>

theorem cloud_backup_restore:
  assumes "(cloud_step put)\<^sup>*\<^sup>* (cloud_upload_init st b cks) s" "cloud_over s"
    and "store_room (length cks) st" "\<forall>ck\<in>set cks. chunk_ok ck" "put_ok put"
    and "\<And>a h d. has st a h d \<Longrightarrow> cstr a \<noteq> cstr (cname (st_container st)) \<Longrightarrow>
      b (cloud_dir @ cstr a) = files (st_disk st) (TmpPath @ cstr a)"
    and "\<And>a h d ck. has st a h d \<Longrightarrow> ck \<in> set cks \<Longrightarrow> ck_hash ck = h \<Longrightarrow> chunk_bytes ck = d"
      "\<And>ck ck'. ck \<in> set cks \<Longrightarrow> ck' \<in> set cks \<Longrightarrow> ck_hash ck = ck_hash ck' \<Longrightarrow> chunk_bytes ck = chunk_bytes ck'"
    and "get_ok (cl_bucket s) get" "cloud_cache_ok (cl_bucket s) rs" "i < length cks"
  shows "\<exists>rs' ck'. restore_chunk True (get_from_cloud get) rs (ck\<lparr>ck_hash := ck_hash (cks ! i), ck_address := cl_given s ! i\<rparr>) = Some (rs', ck', SUCCESS) \<and>
    ck_data ck' = Some (chunk_bytes (cks ! i)) \<and> cloud_cache_ok (cl_bucket s) rs'"
  by (rule cloud_restores [OF assms(1-8) get_ok_fetch [OF assms(9)] assms(10,11)])

text \<open>C14: the upload does not block. Every run of the store and the upload thread is finite, no name is too long for its
  buffer, and as long as the thread has not been joined one of the two can go on: the marker of the end comes last and is always taken.\<close>

theorem cloud_upload_ends:
  assumes "(cloud_step put ^^ n) (cloud_upload_init st b cks) s"
    and "store_room (length cks) st" "\<forall>ck\<in>set cks. chunk_ok ck" "put_ok put"
    and "\<And>a h d. has st a h d \<Longrightarrow> cstr a \<noteq> cstr (cname (st_container st)) \<Longrightarrow>
      b (cloud_dir @ cstr a) = files (st_disk st) (TmpPath @ cstr a)"
  shows "n + upload_work s \<le> 2 * length cks + 3 \<and> (cloud_over s \<or> (\<exists>s'. cloud_step put s s'))"
proof -
  have "(cloud_step put)\<^sup>*\<^sup>* (cloud_upload_init st b cks) s" using assms(1) by (rule relpowp_imp_rtranclp)
  then have "cloud_inv st cks s" by (rule cloud_inv_steps [OF _ cloud_inv_start assms(2-4)]) (rule assms(5))
  from cloud_progress [OF this assms(2,3)] cloud_steps_work [OF assms(1)] show ?thesis
    by (auto simp: upload_work_def cloud_upload_init_def)
qed

section \<open>Witnesses\<close>

definition copy_put :: put_object where
  "copy_put b dk dest src = (case files dk src of None \<Rightarrow> (b, 1) | Some f \<Rightarrow> (b(dest \<mapsto> f), 0))"

definition copy_get :: "bucket \<Rightarrow> get_object" where
  "copy_get b dk src dest = (case b src of None \<Rightarrow> (dk, 1) | Some f \<Rightarrow> (dk\<lparr>files := (files dk)(dest \<mapsto> f)\<rparr>, 0))"

lemma copy_ok: "put_ok copy_put" "get_ok b (copy_get b)"
  by (simp_all add: put_ok_def get_ok_def copy_put_def copy_get_def)

abbreviation demo_chunks :: "chunk list" where "demo_chunks \<equiv> [demo_chunk [1, 2, 3]]"

lemma demo_cloud:
  "store_room (length demo_chunks) demo_store" "\<forall>ck\<in>set demo_chunks. chunk_ok ck" "\<not> has demo_store a h d"
  using demo_store_ok demo_chunk_ok [of "[1, 2, 3]"]
  by (auto simp: store_room_def has_def held_def on_disk_def empty_disk_def split: if_splits)

lemma cloud_backup_restore_witness:
  "\<exists>s rs rs' ck'. (cloud_step copy_put)\<^sup>*\<^sup>* (cloud_upload_init demo_store Map.empty demo_chunks) s \<and> cloud_over s \<and>
    restore_init 4 empty_disk 100 (\<lambda>_. 0) 0 0 = Some rs \<and>
    restore_chunk True (get_from_cloud (copy_get (cl_bucket s))) rs ((demo_chunk [])\<lparr>ck_hash := replicate 20 7, ck_address := cl_given s ! 0\<rparr>) =
      Some (rs', ck', SUCCESS) \<and> ck_data ck' = Some [1, 2, 3]"
proof -
  let ?s0 = "cloud_upload_init demo_store Map.empty demo_chunks"
  have "cloud_inv demo_store demo_chunks ?s0" by (rule cloud_inv_start) (simp add: demo_cloud(3))
  moreover have "bucket_ok ?s0" by (simp add: bucket_ok_def cloud_upload_init_def)
  ultimately obtain s where s: "(cloud_step copy_put)\<^sup>*\<^sup>* ?s0 s" "cloud_over s" "bucket_ok s" "cloud_inv demo_store demo_chunks s"
    using cloud_run_ends [OF _ demo_cloud(1,2) copy_ok(1)] by blast
  obtain st' where st': "cs.put_all demo_store demo_chunks = (st', cl_given s)" "cl_store s = store_destory False st'"
    using s(2,4) by (auto simp: cloud_inv_def cloud_over_def)
  have fresh: "\<forall>r' \<ge> 100. cl_bucket s (cloud_dir @ fst (GetContainerName 0 r')) = None"
    using demo_names_free [OF st'(1)] s(3) unfolding bucket_ok_def st'(2) by blast
  obtain rs where rs: "restore_init 4 empty_disk 100 (\<lambda>_. 0) 0 0 = Some rs"
    using restore_init_ok [of 4 100 empty_disk "\<lambda>_. 0"] by (auto simp: empty_disk_def)
  have ok: "cloud_cache_ok (cl_bucket s) rs" by (rule cloud_restore_init [OF rs]) (use fresh in auto)
  have ck: "ck_hash (demo_chunk [1, 2, 3]) = replicate 20 7" "chunk_bytes (demo_chunk [1, 2, 3]) = [1, 2, 3]"
    by (simp_all add: demo_chunk_def chunk_bytes_def)
  have "\<exists>rs' ck'. restore_chunk True (get_from_cloud (copy_get (cl_bucket s))) rs
      ((demo_chunk [])\<lparr>ck_hash := ck_hash (demo_chunks ! 0), ck_address := cl_given s ! 0\<rparr>) = Some (rs', ck', SUCCESS) \<and>
      ck_data ck' = Some (chunk_bytes (demo_chunks ! 0)) \<and> cloud_cache_ok (cl_bucket s) rs'"
    by (rule cloud_backup_restore [OF s(1,2) demo_cloud(1,2) copy_ok(1) _ _ _ copy_ok(2) ok]) (auto simp: demo_cloud(3))
  with s(1,2) rs show ?thesis unfolding nth_Cons_0 ck by blast
qed

lemma cloud_upload_ends_witness:
  "\<exists>s. cloud_step copy_put (cloud_upload_init demo_store Map.empty demo_chunks) s"
proof -
  let ?s0 = "cloud_upload_init demo_store Map.empty demo_chunks"
  have "(cloud_step copy_put ^^ 0) ?s0 ?s0" by simp
  from cloud_upload_ends [OF this demo_cloud(1,2) copy_ok(1)] have "cloud_over ?s0 \<or> (\<exists>s. cloud_step copy_put ?s0 s)"
    by (simp add: demo_cloud(3))
  then show ?thesis by (simp add: cloud_over_def cloud_upload_init_def)
qed

end
